(* ===== verification/Nxs_Error.thy ===== *)
theory Nxs_Error
  imports Main "HOL-Library.Word" "HOL-Library.Code_Target_Numeral"
begin

text \<open>
  Errors, results and the format constants: \<^verbatim>\<open>rust/src/error.rs\<close> and
  \<^verbatim>\<open>rust/src/consts.rs\<close>.

  A Rust function that returns \<open>Result<T>\<close> is modelled by a function into \<open>'a res\<close>: \<open>Ok\<close> and \<open>Err\<close>
  are the two constructors of \<open>Result\<close>, and \<open>Panic\<close> stands for a panic of the Rust run time (an
  index or a slice out of range, an \<open>unwrap\<close> of \<open>None\<close>, a slice that splits a character).  Keeping
  \<open>Panic\<close> as a value makes the absence of panics a theorem and not an assumption.

  Error messages are kept as the format string of the source; the values that the source
  interpolates into it are not rendered, since no code of the program inspects them.
\<close>

type_synonym u8 = "8 word"
type_synonym u16 = "16 word"
type_synonym u32 = "32 word"
type_synonym u64 = "64 word"
type_synonym i32 = "32 word"
type_synonym i64 = "64 word"
type_synonym usize = nat
type_synonym uchar = nat
type_synonym rstring = "8 word list"

section \<open>Errors (error.rs)\<close>

datatype nxs_error =
    BadMagic
  | UnknownSigil uchar
  | BadEscape uchar
  | OutOfBounds
  | DictMismatch
  | CircularLink
  | RecursionLimit
  | MacroUnresolved string
  | ListTypeMismatch
  | Overflow
  | ParseError string
  | IoError string
  | ConvertSchemaConflict string
  | ConvertParseError u64 string
  | ConvertEntityExpansion
  | ConvertDepthExceeded
  | InvalidFlags
  | IncompatibleFlags
  | UnsupportedLayout
  | UnsupportedFieldType
  | InvalidPageMagic
  | PageCrcMismatch
  | UnsupportedFlags u16
  | ValueOutOfRange

datatype 'a res = Ok 'a | Err nxs_error | Panic

section \<open>Format constants (consts.rs)\<close>

definition MAGIC_FILE :: u32 where "MAGIC_FILE = 0x4E595842"
definition MAGIC_OBJ :: u32 where "MAGIC_OBJ = 0x4E59584F"
definition MAGIC_LIST :: u32 where "MAGIC_LIST = 0x4E59584C"
definition MAGIC_FOOTER :: u32 where "MAGIC_FOOTER = 0x2153584E"
definition MAGIC_PAGE :: u32 where "MAGIC_PAGE = 0x4E585350"

definition SIGIL_INT :: u8 where "SIGIL_INT = 0x3D"
definition SIGIL_FLOAT :: u8 where "SIGIL_FLOAT = 0x7E"
definition SIGIL_BOOL :: u8 where "SIGIL_BOOL = 0x3F"
definition SIGIL_KEYWORD :: u8 where "SIGIL_KEYWORD = 0x24"
definition SIGIL_STR :: u8 where "SIGIL_STR = 0x22"
definition SIGIL_TIME :: u8 where "SIGIL_TIME = 0x40"
definition SIGIL_BINARY :: u8 where "SIGIL_BINARY = 0x3C"
definition SIGIL_LINK :: u8 where "SIGIL_LINK = 0x26"
definition SIGIL_NULL :: u8 where "SIGIL_NULL = 0x5E"

definition VERSION :: u16 where "VERSION = 0x0101"
definition VERSION_V13 :: u16 where "VERSION_V13 = 0x0103"

definition FLAG_COLUMNAR :: u16 where "FLAG_COLUMNAR = 0x0001"
definition FLAG_SCHEMA_EMBEDDED :: u16 where "FLAG_SCHEMA_EMBEDDED = 0x0002"
definition FLAG_PAX :: u16 where "FLAG_PAX = 0x0004"
definition FLAG_PAGE_CRC :: u16 where "FLAG_PAGE_CRC = 0x0008"
definition FLAG_DENSE_FRAMES :: u16 where "FLAG_DENSE_FRAMES = 0x0010"
definition FLAG_PACKED_BOOLS :: u16 where "FLAG_PACKED_BOOLS = 0x0020"
definition FLAG_NARROW_CELLS :: u16 where "FLAG_NARROW_CELLS = 0x0040"
definition FLAG_DELTA_TAIL :: u16 where "FLAG_DELTA_TAIL = 0x0080"
definition FLAG_DENSE_WIRE_REORDER :: u16 where "FLAG_DENSE_WIRE_REORDER = 0x0100"

definition FLAG_V13_COMPACT_MASK :: u16 where
  "FLAG_V13_COMPACT_MASK =
     or FLAG_DENSE_FRAMES (or FLAG_PACKED_BOOLS (or FLAG_NARROW_CELLS
       (or FLAG_DELTA_TAIL FLAG_DENSE_WIRE_REORDER)))"

definition RECORD_HDR_DENSE :: u8 where "RECORD_HDR_DENSE = 0x01"
definition DEFAULT_DELTA_BLOCK_SIZE :: u32 where "DEFAULT_DELTA_BLOCK_SIZE = 1024"
definition FIELD_ATTR_PROMOTED :: u8 where "FIELD_ATTR_PROMOTED = 0x01"
definition FIELD_ATTR_U16_LEN :: u8 where "FIELD_ATTR_U16_LEN = 0x02"

lemmas magic_defs = MAGIC_FILE_def MAGIC_OBJ_def MAGIC_LIST_def MAGIC_FOOTER_def MAGIC_PAGE_def

lemmas sigil_defs = SIGIL_INT_def SIGIL_FLOAT_def SIGIL_BOOL_def SIGIL_KEYWORD_def SIGIL_STR_def
  SIGIL_TIME_def SIGIL_BINARY_def SIGIL_LINK_def SIGIL_NULL_def

lemmas flag_defs = FLAG_COLUMNAR_def FLAG_SCHEMA_EMBEDDED_def FLAG_PAX_def FLAG_PAGE_CRC_def
  FLAG_DENSE_FRAMES_def FLAG_PACKED_BOOLS_def FLAG_NARROW_CELLS_def FLAG_DELTA_TAIL_def
  FLAG_DENSE_WIRE_REORDER_def

lemma FLAG_V13_COMPACT_MASK_eq: "FLAG_V13_COMPACT_MASK = 0x01F0"
  by (simp add: FLAG_V13_COMPACT_MASK_def flag_defs)

end
