(* ===== verification/Rust_Prelude.thy ===== *)
theory Rust_Prelude
  imports Nxs_Error
begin

text \<open>
  The prelude: the result monad, the fixed-width arithmetic on \<open>usize\<close>, slices and little-endian
  integers, with the lemmas that the components share.

  \<open>usize\<close> is 64 bits wide.  A position is a natural number; \<open>wadd\<close> is the wrapping addition of a
  release build and \<open>checked_add\<close>, \<open>checked_mul\<close> are the methods of the same name.  Once a position
  has passed a check against the length of a buffer, sums of it with small numbers stay below
  \<open>2 ^ 64\<close> (a Rust slice holds at most \<open>2 ^ 63 - 1\<close> bytes) and are written with \<open>+\<close>.
\<close>

named_theorems byte_simps "little-endian integers and slices"
named_theorems res_simps "results of the monadic operations"

section \<open>The result monad\<close>

primrec rbind :: "'a res \<Rightarrow> ('a \<Rightarrow> 'b res) \<Rightarrow> 'b res" where
  "rbind (Ok x) f = f x"
| "rbind (Err e) f = Err e"
| "rbind Panic f = Panic"

lemma rbind_cong [fundef_cong]:
  "m = m' \<Longrightarrow> (\<And>x. m' = Ok x \<Longrightarrow> f x = g x) \<Longrightarrow> rbind m f = rbind m' g"
  by (cases m') auto

lemma rbind_eq_Ok [res_simps]: "rbind m f = Ok y \<longleftrightarrow> (\<exists>x. m = Ok x \<and> f x = Ok y)"
  by (cases m) auto

lemma rbind_eq_Err [res_simps]:
  "rbind m f = Err e \<longleftrightarrow> m = Err e \<or> (\<exists>x. m = Ok x \<and> f x = Err e)"
  by (cases m) auto

lemma rbind_eq_Panic [res_simps]:
  "rbind m f = Panic \<longleftrightarrow> m = Panic \<or> (\<exists>x. m = Ok x \<and> f x = Panic)"
  by (cases m) auto

lemma rbind_no_panic:
  "m \<noteq> Panic \<Longrightarrow> (\<And>x. m = Ok x \<Longrightarrow> f x \<noteq> Panic) \<Longrightarrow> rbind m f \<noteq> Panic"
  by (cases m) auto

lemma rbind_assoc: "rbind (rbind m f) g = rbind m (\<lambda>x. rbind (f x) g)"
  by (cases m) auto

lemma rbind_Ok_right [simp]: "rbind m Ok = m"
  by (cases m) auto

definition ok_or :: "'a option \<Rightarrow> nxs_error \<Rightarrow> 'a res" where
  "ok_or x e = (case x of None \<Rightarrow> Err e | Some y \<Rightarrow> Ok y)"

lemma ok_or_simps [simp]: "ok_or None e = Err e" "ok_or (Some y) e = Ok y"
  by (simp_all add: ok_or_def)

lemma ok_or_eq_Ok [res_simps]: "ok_or x e = Ok y \<longleftrightarrow> x = Some y"
  by (cases x) auto

lemma ok_or_no_panic [simp]: "ok_or x e \<noteq> Panic"
  by (cases x) auto

lemma rbind_OkE:
  assumes "rbind m f = Ok y"
  obtains x where "m = Ok x" and "f x = Ok y"
  using assms by (cases m) auto

text \<open>\<open>iter.map(f).collect::<Result<Vec<_>>>()\<close>: the first error ends the traversal.\<close>

primrec rmap :: "('a \<Rightarrow> 'b res) \<Rightarrow> 'a list \<Rightarrow> 'b list res" where
  "rmap f [] = Ok []"
| "rmap f (x # xs) = rbind (f x) (\<lambda>y. rbind (rmap f xs) (\<lambda>ys. Ok (y # ys)))"

lemma rmap_cong [fundef_cong]:
  "xs = ys \<Longrightarrow> (\<And>x. x \<in> set ys \<Longrightarrow> f x = g x) \<Longrightarrow> rmap f xs = rmap g ys"
proof (induction xs arbitrary: ys)
  case (Cons x xs)
  then show ?case by (cases ys) (auto simp: Cons.IH)
qed simp

lemma rmap_Ok_map: "(\<And>x. x \<in> set xs \<Longrightarrow> f x = Ok (g x)) \<Longrightarrow> rmap f xs = Ok (map g xs)"
  by (induction xs) auto

lemma rmap_Ok_length: "rmap f xs = Ok ys \<Longrightarrow> length ys = length xs"
  by (induction xs arbitrary: ys) (auto simp: res_simps)

lemma rmap_Ok_iff: "rmap f xs = Ok ys \<longleftrightarrow> list_all2 (\<lambda>x y. f x = Ok y) xs ys"
proof (induction xs arbitrary: ys)
  case (Cons x xs)
  then show ?case by (cases ys) (auto simp: res_simps)
qed auto

lemma rmap_no_panic: "(\<And>x. x \<in> set xs \<Longrightarrow> f x \<noteq> Panic) \<Longrightarrow> rmap f xs \<noteq> Panic"
  by (induction xs) (auto simp: res_simps)

lemma rmap_append:
  "rmap f (xs @ ys) = rbind (rmap f xs) (\<lambda>a. rbind (rmap f ys) (\<lambda>b. Ok (a @ b)))"
  by (induction xs) (auto simp: rbind_assoc)

text \<open>A loop that threads a state through the elements of a list and stops at the first error.\<close>

primrec rfold :: "('a \<Rightarrow> 's \<Rightarrow> 's res) \<Rightarrow> 'a list \<Rightarrow> 's \<Rightarrow> 's res" where
  "rfold f [] s = Ok s"
| "rfold f (x # xs) s = rbind (f x s) (rfold f xs)"

lemma rfold_cong [fundef_cong]:
  "xs = ys \<Longrightarrow> s = t \<Longrightarrow> (\<And>x a. x \<in> set ys \<Longrightarrow> f x a = g x a) \<Longrightarrow> rfold f xs s = rfold g ys t"
proof (induction xs arbitrary: ys s t)
  case (Cons x xs)
  from Cons.prems have ys: "ys = x # xs" and st: "s = t" by auto
  have "rfold f xs = rfold g xs"
    using Cons.IH Cons.prems(3) ys by (metis ext list.set_intros(2))
  moreover have "f x t = g x t" using Cons.prems(3) ys by simp
  ultimately show ?case using ys st by simp
qed simp

lemma rfold_append: "rfold f (xs @ ys) s = rbind (rfold f xs s) (rfold f ys)"
proof (induction xs arbitrary: s)
  case (Cons x xs)
  show ?case by (cases "f x s") (simp_all add: Cons.IH)
qed simp

lemma rfold_no_panic: "(\<And>x a. x \<in> set xs \<Longrightarrow> f x a \<noteq> Panic) \<Longrightarrow> rfold f xs s \<noteq> Panic"
proof (induction xs arbitrary: s)
  case (Cons x xs)
  then show ?case by (simp add: rbind_no_panic)
qed simp

lemma rfold_Ok_invariant:
  assumes "rfold f xs s = Ok t" and "P s"
    and "\<And>x a b. x \<in> set xs \<Longrightarrow> P a \<Longrightarrow> f x a = Ok b \<Longrightarrow> P b"
  shows "P t"
  using assms by (induction xs arbitrary: s) (auto simp: res_simps)

section \<open>Searching\<close>

text \<open>\<open>iter().position(|v| v == s)\<close>\<close>

fun position :: "'a \<Rightarrow> 'a list \<Rightarrow> usize option" where
  "position x [] = None"
| "position x (y # ys) = (if y = x then Some 0 else map_option Suc (position x ys))"

lemma position_Some: "position x xs = Some i \<Longrightarrow> i < length xs \<and> xs ! i = x"
  by (induction xs arbitrary: i) (auto split: if_splits)

lemma position_member: "x \<in> set xs \<Longrightarrow> \<exists>i. position x xs = Some i"
  by (induction xs) auto

lemma position_None: "position x xs = None \<longleftrightarrow> x \<notin> set xs"
  by (induction xs) auto

lemma position_lt: "position x xs = Some i \<Longrightarrow> i < length xs"
  by (simp add: position_Some)

lemma position_in_set: "position x xs = Some i \<Longrightarrow> x \<in> set xs"
  using position_None[of x xs] by auto

lemma position_append:
  "position x (xs @ ys) = (case position x xs of Some i \<Rightarrow> Some i
     | None \<Rightarrow> (case position x ys of None \<Rightarrow> None | Some i \<Rightarrow> Some (length xs + i)))"
  by (induction xs) (auto split: option.splits)

lemma position_nth: "distinct xs \<Longrightarrow> i < length xs \<Longrightarrow> position (xs ! i) xs = Some i"
proof (induction xs arbitrary: i)
  case (Cons x xs)
  then show ?case by (cases i) auto
qed simp

section \<open>usize arithmetic\<close>

definition USIZE_LIM :: nat where "USIZE_LIM = 2 ^ 64"
definition ISIZE_LIM :: nat where "ISIZE_LIM = 2 ^ 63"

lemma lims: "ISIZE_LIM = 9223372036854775808" "USIZE_LIM = 18446744073709551616"
  by (simp_all add: ISIZE_LIM_def USIZE_LIM_def)

definition wadd :: "usize \<Rightarrow> usize \<Rightarrow> usize" where
  "wadd a b = (a + b) mod USIZE_LIM"

definition checked_add :: "usize \<Rightarrow> usize \<Rightarrow> usize option" where
  "checked_add a b = (if a + b < USIZE_LIM then Some (a + b) else None)"

definition checked_mul :: "usize \<Rightarrow> usize \<Rightarrow> usize option" where
  "checked_mul a b = (if a * b < USIZE_LIM then Some (a * b) else None)"

definition saturating_add :: "usize \<Rightarrow> usize \<Rightarrow> usize" where
  "saturating_add a b = min (a + b) (USIZE_LIM - 1)"

lemma wadd_small [simp]: "a + b < USIZE_LIM \<Longrightarrow> wadd a b = a + b"
  by (simp add: wadd_def)

lemma checked_add_Some [simp]: "a + b < USIZE_LIM \<Longrightarrow> checked_add a b = Some (a + b)"
  by (simp add: checked_add_def)

lemma checked_add_eq_Some: "checked_add a b = Some c \<longleftrightarrow> c = a + b \<and> a + b < USIZE_LIM"
  by (auto simp: checked_add_def)

lemma checked_mul_Some [simp]: "a * b < USIZE_LIM \<Longrightarrow> checked_mul a b = Some (a * b)"
  by (simp add: checked_mul_def)

lemma checked_mul_eq_Some: "checked_mul a b = Some c \<longleftrightarrow> c = a * b \<and> a * b < USIZE_LIM"
  by (auto simp: checked_mul_def)

definition align8 :: "usize \<Rightarrow> usize" where
  "align8 n = (n + 7) div 8 * 8"

lemma align8_ge [simp]: "n \<le> align8 n"
  unfolding align8_def by presburger

lemma align8_lt: "align8 n < n + 8"
  unfolding align8_def by presburger

lemma align8_dvd [simp]: "8 dvd align8 n"
  by (simp add: align8_def)

lemma align8_id: "8 dvd n \<Longrightarrow> align8 n = n"
  unfolding align8_def by presburger

text \<open>\<open>while b.len() % 8 != 0 { b.push(0) }\<close>\<close>

definition pad8 :: "u8 list \<Rightarrow> u8 list" where
  "pad8 b = b @ replicate (align8 (length b) - length b) 0"

lemma length_pad8 [simp]: "length (pad8 b) = align8 (length b)"
  by (simp add: pad8_def)

lemma pad8_aligned: "8 dvd length b \<Longrightarrow> pad8 b = b"
  by (simp add: pad8_def align8_id)

section \<open>Little-endian integers\<close>

primrec le_nat :: "nat \<Rightarrow> nat \<Rightarrow> u8 list" where
  "le_nat 0 x = []"
| "le_nat (Suc n) x = word_of_nat x # le_nat n (x div 256)"

primrec from_le :: "u8 list \<Rightarrow> nat" where
  "from_le [] = 0"
| "from_le (b # bs) = unat b + 256 * from_le bs"

lemma length_le_nat [simp]: "length (le_nat n x) = n"
  by (induction n arbitrary: x) auto

lemma unat_byte_of_nat: "unat (word_of_nat x :: u8) = x mod 256"
  by (simp add: unat_of_nat take_bit_eq_mod)

lemma from_le_le_nat: "from_le (le_nat n x) = x mod 256 ^ n"
proof (induction n arbitrary: x)
  case (Suc n)
  have "x mod 256 ^ Suc n = x mod 256 + 256 * (x div 256 mod 256 ^ n)"
    by (metis mod_mult2_eq power_Suc add.commute)
  with Suc show ?case by (simp add: unat_byte_of_nat)
qed simp

lemma from_le_bound: "from_le bs < 256 ^ length bs"
proof (induction bs)
  case (Cons b bs)
  have "unat b < 256" using unsigned_less[of b] by simp
  with Cons show ?case by simp
qed simp

lemma le_nat_from_le: "le_nat (length bs) (from_le bs) = bs"
proof (induction bs)
  case (Cons b bs)
  have b: "unat b < 256" using unsigned_less[of b] by simp
  have "(unat b + 256 * from_le bs) div 256 = from_le bs" using b by simp
  moreover have "(word_of_nat (unat b + 256 * from_le bs) :: u8) = b"
    using b by (metis (no_types, lifting) mod_less mod_mult_self2 unat_byte_of_nat word_unat_eq_iff)
  ultimately show ?case using Cons by simp
qed simp

lemma from_le_inj: "length a = length b \<Longrightarrow> from_le a = from_le b \<Longrightarrow> a = b"
  by (metis le_nat_from_le)

lemma from_le_append: "from_le (a @ b) = from_le a + 256 ^ length a * from_le b"
  by (induction a) auto

text \<open>\<open>n as u8\<close>, kept folded so that simplification does not distribute it over sums.\<close>

definition byte :: "nat \<Rightarrow> u8" where
  "byte n = word_of_nat n"

lemma unat_byte [simp]: "n < 256 \<Longrightarrow> unat (byte n) = n"
  by (simp add: byte_def unat_byte_of_nat)

lemma byte_unat [simp]: "byte (unat b) = b"
  by (simp add: byte_def)

definition u16_le :: "u16 \<Rightarrow> u8 list" where "u16_le w = le_nat 2 (unat w)"
definition u32_le :: "u32 \<Rightarrow> u8 list" where "u32_le w = le_nat 4 (unat w)"
definition u64_le :: "u64 \<Rightarrow> u8 list" where "u64_le w = le_nat 8 (unat w)"

definition u16_of_le :: "u8 list \<Rightarrow> u16" where "u16_of_le bs = word_of_nat (from_le bs)"
definition u32_of_le :: "u8 list \<Rightarrow> u32" where "u32_of_le bs = word_of_nat (from_le bs)"
definition u64_of_le :: "u8 list \<Rightarrow> u64" where "u64_of_le bs = word_of_nat (from_le bs)"

lemma length_uint_le [simp]:
  "length (u16_le a) = 2" "length (u32_le b) = 4" "length (u64_le c) = 8"
  by (simp_all add: u16_le_def u32_le_def u64_le_def)

lemma uint_of_le_le [simp]:
  "u16_of_le (u16_le a) = a" "u32_of_le (u32_le b) = b" "u64_of_le (u64_le c) = c"
proof -
  have "unat a < 65536" "unat b < 4294967296" "unat c < 18446744073709551616"
    using unsigned_less[of a] unsigned_less[of b] unsigned_less[of c] by simp_all
  then show "u16_of_le (u16_le a) = a" "u32_of_le (u32_le b) = b" "u64_of_le (u64_le c) = c"
    by (simp_all add: u16_of_le_def u16_le_def u32_of_le_def u32_le_def u64_of_le_def u64_le_def
        from_le_le_nat)
qed

section \<open>Indexing and slicing\<close>

text \<open>\<open>data[a..b]\<close> panics out of range, \<open>data.get(a..b)\<close> returns \<open>None\<close>.\<close>

definition idx :: "'a list \<Rightarrow> usize \<Rightarrow> 'a res" where
  "idx xs i = (if i < length xs then Ok (xs ! i) else Panic)"

definition get_at :: "'a list \<Rightarrow> usize \<Rightarrow> 'a option" where
  "get_at xs i = (if i < length xs then Some (xs ! i) else None)"

definition seg :: "'a list \<Rightarrow> usize \<Rightarrow> usize \<Rightarrow> 'a list" where
  "seg xs a b = take (b - a) (drop a xs)"

definition slice :: "'a list \<Rightarrow> usize \<Rightarrow> usize \<Rightarrow> 'a list res" where
  "slice xs a b = (if a \<le> b \<and> b \<le> length xs then Ok (seg xs a b) else Panic)"

definition get_range :: "'a list \<Rightarrow> usize \<Rightarrow> usize \<Rightarrow> 'a list option" where
  "get_range xs a b = (if a \<le> b \<and> b \<le> length xs then Some (seg xs a b) else None)"

lemma idx_Ok [simp]: "i < length xs \<Longrightarrow> idx xs i = Ok (xs ! i)"
  by (simp add: idx_def)

lemma get_at_Some [simp]: "i < length xs \<Longrightarrow> get_at xs i = Some (xs ! i)"
  by (simp add: get_at_def)

lemma get_at_None [simp]: "length xs \<le> i \<Longrightarrow> get_at xs i = None"
  by (simp add: get_at_def)

lemma get_at_eq_Some: "get_at xs i = Some x \<longleftrightarrow> i < length xs \<and> xs ! i = x"
  by (auto simp: get_at_def)

lemma slice_Ok [simp]: "a \<le> b \<Longrightarrow> b \<le> length xs \<Longrightarrow> slice xs a b = Ok (seg xs a b)"
  by (simp add: slice_def)

lemma slice_eq_Ok: "slice xs a b = Ok ys \<longleftrightarrow> a \<le> b \<and> b \<le> length xs \<and> ys = seg xs a b"
  by (auto simp: slice_def)

lemma get_range_Some [simp]: "a \<le> b \<Longrightarrow> b \<le> length xs \<Longrightarrow> get_range xs a b = Some (seg xs a b)"
  by (simp add: get_range_def)

lemma get_range_eq_Some:
  "get_range xs a b = Some ys \<longleftrightarrow> a \<le> b \<and> b \<le> length xs \<and> ys = seg xs a b"
  by (auto simp: get_range_def)

lemma length_seg [simp]: "a \<le> b \<Longrightarrow> b \<le> length xs \<Longrightarrow> length (seg xs a b) = b - a"
  by (simp add: seg_def)

lemma nth_seg: "i < b - a \<Longrightarrow> b \<le> length xs \<Longrightarrow> seg xs a b ! i = xs ! (a + i)"
  by (simp add: seg_def)

text \<open>Where a buffer is a concatenation whose middle part is known, a seg of it is that part.\<close>

lemma seg_middle: "seg (xs @ ys @ zs) (length xs) (length xs + length ys) = ys"
  by (simp add: seg_def)

lemma seg_at: "data = xs @ ys @ zs \<Longrightarrow> a = length xs \<Longrightarrow> b = a + length ys \<Longrightarrow> seg data a b = ys"
  by (simp add: seg_def)

lemma seg_append_left: "b \<le> length xs \<Longrightarrow> seg (xs @ ys) a b = seg xs a b"
  by (simp add: seg_def)

lemma seg_append_right:
  "length xs \<le> a \<Longrightarrow> seg (xs @ ys) a b = seg ys (a - length xs) (b - length xs)"
  by (simp add: seg_def)

lemma seg_seg: "c + d \<le> b - a \<Longrightarrow> seg (seg xs a b) c (c + d) = seg xs (a + c) (a + c + d)"
  by (simp add: seg_def take_drop add.commute min_def)

lemma unat_u16: "n \<le> 65535 \<Longrightarrow> unat (word_of_nat n :: u16) = n"
  by (simp add: unat_of_nat)

lemma idx_ok: "i < length xs \<Longrightarrow> idx xs i = Ok (xs ! i)"
  by (simp add: idx_def)

definition rd_u16 :: "u8 list \<Rightarrow> usize \<Rightarrow> u16 res" where
  "rd_u16 data p = rbind (slice data p (wadd p 2)) (\<lambda>bs. Ok (u16_of_le bs))"

definition rd_u32 :: "u8 list \<Rightarrow> usize \<Rightarrow> u32 res" where
  "rd_u32 data p = rbind (slice data p (wadd p 4)) (\<lambda>bs. Ok (u32_of_le bs))"

definition rd_u64 :: "u8 list \<Rightarrow> usize \<Rightarrow> u64 res" where
  "rd_u64 data p = rbind (slice data p (wadd p 8)) (\<lambda>bs. Ok (u64_of_le bs))"

definition get_u16 :: "u8 list \<Rightarrow> usize \<Rightarrow> u16 option" where
  "get_u16 data p = map_option u16_of_le (get_range data p (wadd p 2))"

definition get_u32 :: "u8 list \<Rightarrow> usize \<Rightarrow> u32 option" where
  "get_u32 data p = map_option u32_of_le (get_range data p (wadd p 4))"

definition get_u64 :: "u8 list \<Rightarrow> usize \<Rightarrow> u64 option" where
  "get_u64 data p = map_option u64_of_le (get_range data p (wadd p 8))"

lemma rd_Ok [byte_simps]:
  "length data < ISIZE_LIM \<Longrightarrow> p + 2 \<le> length data \<Longrightarrow> rd_u16 data p = Ok (u16_of_le (seg data p (p + 2)))"
  "length data < ISIZE_LIM \<Longrightarrow> p + 4 \<le> length data \<Longrightarrow> rd_u32 data p = Ok (u32_of_le (seg data p (p + 4)))"
  "length data < ISIZE_LIM \<Longrightarrow> p + 8 \<le> length data \<Longrightarrow> rd_u64 data p = Ok (u64_of_le (seg data p (p + 8)))"
  by (simp_all add: rd_u16_def rd_u32_def rd_u64_def lims)

lemma get_uint_Some [byte_simps]:
  "length data < ISIZE_LIM \<Longrightarrow> p + 2 \<le> length data \<Longrightarrow> get_u16 data p = Some (u16_of_le (seg data p (p + 2)))"
  "length data < ISIZE_LIM \<Longrightarrow> p + 4 \<le> length data \<Longrightarrow> get_u32 data p = Some (u32_of_le (seg data p (p + 4)))"
  "length data < ISIZE_LIM \<Longrightarrow> p + 8 \<le> length data \<Longrightarrow> get_u64 data p = Some (u64_of_le (seg data p (p + 8)))"
  by (simp_all add: get_u16_def get_u32_def get_u64_def lims)

lemma rd_no_panic:
  "length data < ISIZE_LIM \<Longrightarrow> p + 2 \<le> length data \<Longrightarrow> rd_u16 data p \<noteq> Panic"
  "length data < ISIZE_LIM \<Longrightarrow> p + 4 \<le> length data \<Longrightarrow> rd_u32 data p \<noteq> Panic"
  "length data < ISIZE_LIM \<Longrightarrow> p + 8 \<le> length data \<Longrightarrow> rd_u64 data p \<noteq> Panic"
  by (simp_all add: byte_simps)

end
