(* ===== verification/Rust_Text.thy ===== *)
theory Rust_Text
  imports Rust_Prelude
begin

text \<open>
  Characters and strings of the Rust standard library, as far as the program uses them.

  A \<open>char\<close> is a Unicode scalar value, modelled by its code point (\<open>uchar\<close>).  A \<open>String\<close> or
  \<open>&str\<close> is its sequence of UTF-8 bytes (\<open>rstring\<close>): \<open>len\<close>, slicing and the wire format count bytes.
  \<open>utf8\<close> encodes, \<open>from_utf8\<close> decodes and refuses ill-formed input, \<open>from_utf8_lossy\<close> replaces each
  maximal ill-formed part by U+FFFD.

  The Unicode tables behind \<open>char::is_alphabetic\<close> and \<open>char::is_numeric\<close> outside ASCII are a
  parameter (\<open>unicode\<close>); inside ASCII the two predicates are written out.
\<close>

section \<open>Literals\<close>

definition ch :: "char \<Rightarrow> uchar" where
  "ch c = of_char c"

definition bstr :: "string \<Rightarrow> rstring" where
  "bstr s = map (\<lambda>c. word_of_nat (of_char c)) s"

lemma length_bstr [simp]: "length (bstr s) = length s"
  by (simp add: bstr_def)

section \<open>Character classes\<close>

record unicode =
  u_alphabetic :: "uchar \<Rightarrow> bool"
  u_numeric :: "uchar \<Rightarrow> bool"

definition is_ascii_digit :: "uchar \<Rightarrow> bool" where
  "is_ascii_digit c \<longleftrightarrow> 48 \<le> c \<and> c \<le> 57"

definition is_ascii_alpha :: "uchar \<Rightarrow> bool" where
  "is_ascii_alpha c \<longleftrightarrow> 65 \<le> c \<and> c \<le> 90 \<or> 97 \<le> c \<and> c \<le> 122"

definition is_ascii_hexdigit :: "uchar \<Rightarrow> bool" where
  "is_ascii_hexdigit c \<longleftrightarrow> is_ascii_digit c \<or> 65 \<le> c \<and> c \<le> 70 \<or> 97 \<le> c \<and> c \<le> 102"

definition is_alphabetic :: "unicode \<Rightarrow> uchar \<Rightarrow> bool" where
  "is_alphabetic u c = (if c < 128 then is_ascii_alpha c else u_alphabetic u c)"

definition is_alphanumeric :: "unicode \<Rightarrow> uchar \<Rightarrow> bool" where
  "is_alphanumeric u c =
     (is_alphabetic u c \<or> (if c < 128 then is_ascii_digit c else u_numeric u c))"

definition is_whitespace :: "uchar \<Rightarrow> bool" where
  "is_whitespace c \<longleftrightarrow> 9 \<le> c \<and> c \<le> 13 \<or> c = 32 \<or> c = 0x85 \<or> c = 0xA0 \<or> c = 0x1680
     \<or> 0x2000 \<le> c \<and> c \<le> 0x200A \<or> c = 0x2028 \<or> c = 0x2029 \<or> c = 0x202F \<or> c = 0x205F \<or> c = 0x3000"

definition is_scalar :: "uchar \<Rightarrow> bool" where
  "is_scalar c \<longleftrightarrow> c < 0xD800 \<or> 0xE000 \<le> c \<and> c < 0x110000"

section \<open>UTF-8\<close>

definition utf8_1 :: "uchar \<Rightarrow> rstring" where
  "utf8_1 c = map byte
     (if c < 0x80 then [c]
      else if c < 0x800 then [0xC0 + c div 64, 0x80 + c mod 64]
      else if c < 0x10000 then [0xE0 + c div 4096, 0x80 + c div 64 mod 64, 0x80 + c mod 64]
      else [0xF0 + c div 262144, 0x80 + c div 4096 mod 64, 0x80 + c div 64 mod 64,
            0x80 + c mod 64])"

definition utf8 :: "uchar list \<Rightarrow> rstring" where
  "utf8 cs = concat (map utf8_1 cs)"

lemma utf8_simps [simp]: "utf8 [] = []" "utf8 (c # cs) = utf8_1 c @ utf8 cs"
  "utf8 (xs @ ys) = utf8 xs @ utf8 ys"
  by (simp_all add: utf8_def)

definition byte_or_0 :: "u8 list \<Rightarrow> nat \<Rightarrow> nat" where
  "byte_or_0 bs i = (if i < length bs then unat (bs ! i) else 0)"

definition is_cont :: "nat \<Rightarrow> bool" where
  "is_cont b \<longleftrightarrow> 0x80 \<le> b \<and> b < 0xC0"

text \<open>
  One step of the decoder on a non-empty buffer with first byte \<open>a\<close> and the bytes \<open>r\<close> after it:
  the character, or \<open>None\<close>, and the number of bytes that the character or the ill-formed part takes.
\<close>

definition utf8_step :: "nat \<Rightarrow> u8 list \<Rightarrow> uchar option \<times> nat" where
  "utf8_step a r =
     (let b = byte_or_0 r 0; c = byte_or_0 r 1; d = byte_or_0 r 2 in
      if a < 0x80 then (Some a, 1)
      else if 0xC2 \<le> a \<and> a < 0xE0 then
        (if is_cont b then (Some ((a - 0xC0) * 64 + (b - 0x80)), 2) else (None, 1))
      else if 0xE0 \<le> a \<and> a < 0xF0 then
        (if \<not> is_cont b \<or> a = 0xE0 \<and> b < 0xA0 \<or> a = 0xED \<and> 0xA0 \<le> b then (None, 1)
         else if is_cont c
           then (Some ((a - 0xE0) * 4096 + (b - 0x80) * 64 + (c - 0x80)), 3)
           else (None, 2))
      else if 0xF0 \<le> a \<and> a < 0xF5 then
        (if \<not> is_cont b \<or> a = 0xF0 \<and> b < 0x90 \<or> a = 0xF4 \<and> 0x90 \<le> b then (None, 1)
         else if \<not> is_cont c then (None, 2)
         else if is_cont d
           then (Some ((a - 0xF0) * 262144 + (b - 0x80) * 4096 + (c - 0x80) * 64 + (d - 0x80)), 4)
           else (None, 3))
      else (None, 1))"

lemma utf8_step_pos: "0 < snd (utf8_step a r)"
  by (simp add: utf8_step_def Let_def)

fun from_utf8 :: "u8 list \<Rightarrow> uchar list option" where
  "from_utf8 [] = Some []"
| "from_utf8 (a # r) =
     (case utf8_step (unat a) r of
        (None, n) \<Rightarrow> None
      | (Some c, n) \<Rightarrow> map_option (Cons c) (from_utf8 (drop (n - 1) r)))"

fun from_utf8_lossy :: "u8 list \<Rightarrow> rstring" where
  "from_utf8_lossy [] = []"
| "from_utf8_lossy (a # r) =
     (case utf8_step (unat a) r of
        (None, n) \<Rightarrow> utf8_1 0xFFFD @ from_utf8_lossy (drop (n - 1) r)
      | (Some c, n) \<Rightarrow> utf8_1 c @ from_utf8_lossy (drop (n - 1) r))"

definition valid_utf8 :: "u8 list \<Rightarrow> bool" where
  "valid_utf8 bs = (from_utf8 bs \<noteq> None)"

text \<open>\<open>std::str::from_utf8\<close> returns the same bytes as a string.\<close>

definition str_from_utf8 :: "u8 list \<Rightarrow> rstring option" where
  "str_from_utf8 bs = (if valid_utf8 bs then Some bs else None)"

definition chars :: "rstring \<Rightarrow> uchar list" where
  "chars s = (case from_utf8 s of None \<Rightarrow> [] | Some cs \<Rightarrow> cs)"

lemma split_64: "(c::nat) = c div 64 * 64 + c mod 64" "c div 64 = c div 4096 * 64 + c div 64 mod 64"
  "c div 4096 = c div 262144 * 64 + c div 4096 mod 64"
  by (simp_all add: div_mult2_eq [of _ 64 64, simplified] div_mult2_eq [of _ 4096 64, simplified])

lemma utf8_1_cases:
  assumes "is_scalar c"
  obtains
    (one) "c < 0x80" "utf8_1 c = [byte c]"
  | (two) p q where "c = p * 64 + q" "2 \<le> p" "p < 32" "q < 64" "utf8_1 c = [byte (0xC0 + p), byte (0x80 + q)]"
  | (three) p q r where "c = (p * 64 + q) * 64 + r" "p < 16" "q < 64" "r < 64" "p = 0 \<longrightarrow> 32 \<le> q"
      "p = 13 \<longrightarrow> q < 32"
      "utf8_1 c = [byte (0xE0 + p), byte (0x80 + q), byte (0x80 + r)]"
  | (four) p q r s where "c = ((p * 64 + q) * 64 + r) * 64 + s" "p < 5" "q < 64" "r < 64" "s < 64"
      "p = 0 \<longrightarrow> 16 \<le> q" "p = 4 \<longrightarrow> q < 16"
      "utf8_1 c = [byte (0xF0 + p), byte (0x80 + q), byte (0x80 + r), byte (0x80 + s)]"
proof -
  consider "c < 0x80" | "0x80 \<le> c" "c < 0x800" | "0x800 \<le> c" "c < 0x10000"
    | "0x10000 \<le> c" "c < 0x110000"
    using assms by (force simp: is_scalar_def)
  then show ?thesis
  proof cases
    case 1
    then show ?thesis using one by (simp add: utf8_1_def)
  next
    case 2
    then show ?thesis
      using two[of "c div 64" "c mod 64"] by (auto simp: utf8_1_def)
  next
    case 3
    have "c = (c div 4096 * 64 + c div 64 mod 64) * 64 + c mod 64"
      using split_64(1,2)[of c] by simp
    moreover have "c div 4096 = 0 \<longrightarrow> 32 \<le> c div 64 mod 64"
      using split_64(1,2)[of c] 3 mod_less_divisor[of 64 c] by linarith
    moreover have "c div 4096 = 13 \<longrightarrow> c div 64 mod 64 < 32"
      using split_64(1,2)[of c] assms 3 mod_less_divisor[of 64 c] unfolding is_scalar_def by linarith
    ultimately show ?thesis
      using three[of "c div 4096" "c div 64 mod 64" "c mod 64"] 3 by (simp add: utf8_1_def)
  next
    case 4
    have "c = ((c div 262144 * 64 + c div 4096 mod 64) * 64 + c div 64 mod 64) * 64 + c mod 64"
      using split_64[of c] by simp
    moreover have "c div 262144 = 0 \<longrightarrow> 16 \<le> c div 4096 mod 64"
      using split_64[of c] 4 mod_less_divisor[of 64 c] mod_less_divisor[of 64 "c div 64"] by linarith
    moreover have "c div 262144 = 4 \<longrightarrow> c div 4096 mod 64 < 16"
      using split_64[of c] 4 mod_less_divisor[of 64 c] by linarith
    ultimately show ?thesis
      using four[of "c div 262144" "c div 4096 mod 64" "c div 64 mod 64" "c mod 64"] 4
      by (simp add: utf8_1_def)
  qed
qed

lemma byte_or_0_simps [simp]: "byte_or_0 (x # r) 0 = unat x"
  "byte_or_0 (x # r) (Suc n) = byte_or_0 r n" "byte_or_0 (x # r) 1 = byte_or_0 r 0"
  "byte_or_0 (x # r) 2 = byte_or_0 r 1"
  by (simp_all add: byte_or_0_def numeral_2_eq_2)

lemma utf8_step_utf8_1:
  assumes "is_scalar c"
  shows "\<exists>a r. utf8_1 c = a # r \<and> (\<forall>s. utf8_step (unat a) (r @ s) = (Some c, Suc (length r)))"
  using assms
  by (cases c rule: utf8_1_cases)
    (auto simp: utf8_step_def Let_def is_cont_def algebra_simps numeral_3_eq_3)

lemma from_utf8_utf8:
  "(\<And>c. c \<in> set cs \<Longrightarrow> is_scalar c) \<Longrightarrow> from_utf8 (utf8 cs) = Some cs"
proof (induction cs)
  case (Cons c cs)
  obtain a r where "utf8_1 c = a # r"
    "\<forall>s. utf8_step (unat a) (r @ s) = (Some c, Suc (length r))"
    using utf8_step_utf8_1[of c] Cons.prems by auto
  with Cons show ?case by simp
qed simp

lemma byte_or_0_Suc: "0 < byte_or_0 r 0 \<Longrightarrow> \<exists>x t. r = x # t \<and> byte_or_0 r 0 = unat x"
  by (cases r) (auto simp: byte_or_0_def)

lemma div_mod_64: "(r::nat) < 64 \<Longrightarrow> (x * 64 + r) div 64 = x" "r < 64 \<Longrightarrow> (x * 64 + r) mod 64 = r"
  by simp_all

lemma utf8_1_two: "2 \<le> p \<Longrightarrow> p < 32 \<Longrightarrow> q < 64 \<Longrightarrow>
    utf8_1 (p * 64 + q) = [byte (0xC0 + p), byte (0x80 + q)] \<and> is_scalar (p * 64 + q)"
  by (auto simp: utf8_1_def is_scalar_def)

lemma utf8_1_three: "p < 16 \<Longrightarrow> q < 64 \<Longrightarrow> r < 64 \<Longrightarrow> p = 0 \<longrightarrow> 32 \<le> q \<Longrightarrow> p = 13 \<longrightarrow> q < 32 \<Longrightarrow>
    utf8_1 (p * 4096 + q * 64 + r) = [byte (0xE0 + p), byte (0x80 + q), byte (0x80 + r)]
    \<and> is_scalar (p * 4096 + q * 64 + r)"
proof -
  assume a: "p < 16" "q < 64" "r < 64" "p = 0 \<longrightarrow> 32 \<le> q" "p = 13 \<longrightarrow> q < 32"
  have c: "p * 4096 + q * 64 + r = (p * 64 + q) * 64 + r" by simp
  have d: "(p * 4096 + q * 64 + r) div 64 = p * 64 + q" "(p * 4096 + q * 64 + r) mod 64 = r"
    using div_mod_64[OF a(3), of "p * 64 + q"] unfolding c by simp_all
  have e: "(p * 4096 + q * 64 + r) div 4096 = p"
    using d(1) a(2) by (simp add: div_mult2_eq [of _ 64 64, simplified])
  have "0x800 \<le> p * 4096 + q * 64 + r" using a by (cases "p = 0") auto
  moreover have "p * 4096 + q * 64 + r < 0x10000" using a by linarith
  moreover have "is_scalar (p * 4096 + q * 64 + r)"
    using a unfolding is_scalar_def by (cases "p < 13"; cases "p = 13") auto
  ultimately show ?thesis using d e a(2) by (simp add: utf8_1_def)
qed

lemma utf8_1_four: "p < 5 \<Longrightarrow> q < 64 \<Longrightarrow> r < 64 \<Longrightarrow> s < 64 \<Longrightarrow> p = 0 \<longrightarrow> 16 \<le> q \<Longrightarrow> p = 4 \<longrightarrow> q < 16 \<Longrightarrow>
    utf8_1 (p * 262144 + q * 4096 + r * 64 + s) =
      [byte (0xF0 + p), byte (0x80 + q), byte (0x80 + r), byte (0x80 + s)]
    \<and> is_scalar (p * 262144 + q * 4096 + r * 64 + s)"
proof -
  assume a: "p < 5" "q < 64" "r < 64" "s < 64" "p = 0 \<longrightarrow> 16 \<le> q" "p = 4 \<longrightarrow> q < 16"
  let ?c = "p * 262144 + q * 4096 + r * 64 + s"
  have c: "?c = ((p * 64 + q) * 64 + r) * 64 + s" by simp
  have d: "?c div 64 = (p * 64 + q) * 64 + r" "?c mod 64 = s"
    using div_mod_64[OF a(4), of "(p * 64 + q) * 64 + r"] unfolding c by simp_all
  have e: "?c div 4096 = p * 64 + q"
    using d(1) a(3) by (simp add: div_mult2_eq [of _ 64 64, simplified])
  have f: "?c div 262144 = p"
    using e a(2) by (simp add: div_mult2_eq [of _ 4096 64, simplified])
  have g: "((p * 64 + q) * 64 + r) mod 64 = r" "(p * 64 + q) mod 64 = q"
    using div_mod_64(2)[OF a(3)] div_mod_64(2)[OF a(2)] by blast+
  have "0x10000 \<le> ?c" using a by (cases "p = 0") auto
  moreover have "is_scalar ?c" using a \<open>0x10000 \<le> ?c\<close> unfolding is_scalar_def by (cases "p = 4") auto
  ultimately show ?thesis using d e f g by (simp add: utf8_1_def)
qed

lemma utf8_step_Some:
  assumes "utf8_step (unat a) r = (Some c, n)"
  shows "is_scalar c \<and> 0 < n \<and> utf8_1 c = a # take (n - 1) r"
proof -
  let ?a = "unat a"
  consider "?a < 0x80" | "0xC2 \<le> ?a" "?a < 0xE0" | "0xE0 \<le> ?a" "?a < 0xF0" | "0xF0 \<le> ?a" "?a < 0xF5"
    using assms by (force simp: utf8_step_def Let_def)
  then show ?thesis
  proof cases
    case 1
    then show ?thesis using assms by (auto simp: utf8_step_def Let_def utf8_1_def is_scalar_def)
  next
    case 2
    with assms have b: "is_cont (byte_or_0 r 0)" and c: "c = (?a - 0xC0) * 64 + (byte_or_0 r 0 - 0x80)" and n: "n = 2"
      by (auto simp: utf8_step_def Let_def split: if_splits)
    from b obtain x t where r: "r = x # t" "byte_or_0 r 0 = unat x"
      using byte_or_0_Suc[of r] by (auto simp: is_cont_def)
    show ?thesis
      using utf8_1_two[of "?a - 0xC0" "unat x - 0x80"] b c n r 2
      by (simp add: is_cont_def less_diff_conv2)
  next
    case 3
    with assms have b: "is_cont (byte_or_0 r 0)" "is_cont (byte_or_0 r 1)"
      "?a = 0xE0 \<longrightarrow> 0xA0 \<le> byte_or_0 r 0" "?a = 0xED \<longrightarrow> byte_or_0 r 0 < 0xA0"
      and c: "c = (?a - 0xE0) * 4096 + (byte_or_0 r 0 - 0x80) * 64 + (byte_or_0 r 1 - 0x80)" and n: "n = 3"
      by (auto simp: utf8_step_def Let_def split: if_splits)
    from b obtain x t where r: "r = x # t" using byte_or_0_Suc[of r] by (auto simp: is_cont_def)
    with b obtain y t' where t: "t = y # t'" using byte_or_0_Suc[of t] by (auto simp: is_cont_def)
    obtain p q s where pq: "?a = 0xE0 + p" "unat x = 0x80 + q" "unat y = 0x80 + s"
      using 3 b r t le_Suc_ex by (auto simp: is_cont_def dest!: le_Suc_ex)
    then have "byte (0xE0 + p) = a" "byte (0x80 + q) = x" "byte (0x80 + s) = y"
      by (metis byte_unat)+
    then show ?thesis
      using utf8_1_three[of p q s] b c n r t 3 pq by (simp add: is_cont_def numeral_2_eq_2)
  next
    case 4
    with assms have b: "is_cont (byte_or_0 r 0)" "is_cont (byte_or_0 r 1)" "is_cont (byte_or_0 r 2)"
      "?a = 0xF0 \<longrightarrow> 0x90 \<le> byte_or_0 r 0" "?a = 0xF4 \<longrightarrow> byte_or_0 r 0 < 0x90"
      and c: "c = (?a - 0xF0) * 262144 + (byte_or_0 r 0 - 0x80) * 4096 + (byte_or_0 r 1 - 0x80) * 64
        + (byte_or_0 r 2 - 0x80)" and n: "n = 4"
      by (auto simp: utf8_step_def Let_def split: if_splits)
    from b obtain x t where r: "r = x # t" using byte_or_0_Suc[of r] by (auto simp: is_cont_def)
    with b obtain y t' where t: "t = y # t'" using byte_or_0_Suc[of t] by (auto simp: is_cont_def)
    with b r obtain z t'' where u: "t' = z # t''" using byte_or_0_Suc[of t'] by (auto simp: is_cont_def)
    obtain p q s v where pq: "?a = 0xF0 + p" "unat x = 0x80 + q" "unat y = 0x80 + s" "unat z = 0x80 + v"
      using 4 b r t u by (auto simp: is_cont_def dest!: le_Suc_ex)
    then have "byte (0xF0 + p) = a" "byte (0x80 + q) = x" "byte (0x80 + s) = y" "byte (0x80 + v) = z"
      by (metis byte_unat)+
    then show ?thesis
      using utf8_1_four[of p q s v] b c n r t u 4 pq
      by (simp add: is_cont_def numeral_2_eq_2 numeral_3_eq_3)
  qed
qed

lemma from_utf8_Some: "from_utf8 bs = Some cs \<Longrightarrow> utf8 cs = bs \<and> (\<forall>c \<in> set cs. is_scalar c)"
proof (induction bs arbitrary: cs rule: from_utf8.induct)
  case (2 a r)
  from 2(2) obtain c n cs' where s: "utf8_step (unat a) r = (Some c, n)"
    "from_utf8 (drop (n - 1) r) = Some cs'" "cs = c # cs'"
    by (auto split: prod.splits option.splits)
  with 2(1) utf8_step_Some[OF s(1)] show ?case by auto
qed simp

lemma from_utf8_lossy_valid: "from_utf8 bs = Some cs \<Longrightarrow> from_utf8_lossy bs = bs"
proof (induction bs arbitrary: cs rule: from_utf8.induct)
  case (2 a r)
  from 2(2) obtain c n cs' where s: "utf8_step (unat a) r = (Some c, n)"
    "from_utf8 (drop (n - 1) r) = Some cs'" "cs = c # cs'"
    by (auto split: prod.splits option.splits)
  with 2(1) utf8_step_Some[OF s(1)] show ?case by simp
qed simp

lemma valid_utf8_lossy: "valid_utf8 s \<Longrightarrow> from_utf8_lossy s = s"
  by (auto simp: valid_utf8_def from_utf8_lossy_valid)

lemma valid_utf8_utf8: "(\<And>c. c \<in> set cs \<Longrightarrow> is_scalar c) \<Longrightarrow> valid_utf8 (utf8 cs)"
  by (simp add: valid_utf8_def from_utf8_utf8)

lemma str_from_utf8_valid [simp]: "valid_utf8 s \<Longrightarrow> str_from_utf8 s = Some s"
  by (simp add: str_from_utf8_def)

lemma chars_utf8: "(\<And>c. c \<in> set cs \<Longrightarrow> is_scalar c) \<Longrightarrow> chars (utf8 cs) = cs"
  by (simp add: chars_def from_utf8_utf8)

lemma utf8_chars: "valid_utf8 s \<Longrightarrow> utf8 (chars s) = s"
  by (auto simp: valid_utf8_def chars_def dest: from_utf8_Some)

lemma chars_scalar: "c \<in> set (chars s) \<Longrightarrow> is_scalar c"
  by (cases "from_utf8 s") (auto simp: chars_def dest: from_utf8_Some)

section \<open>Strings\<close>

definition is_char_boundary :: "rstring \<Rightarrow> usize \<Rightarrow> bool" where
  "is_char_boundary s i \<longleftrightarrow>
     i = 0 \<or> i = length s \<or> i < length s \<and> \<not> is_cont (unat (s ! i))"

text \<open>\<open>&s[a..b]\<close> panics out of range and where it would split a character.\<close>

definition str_slice :: "rstring \<Rightarrow> usize \<Rightarrow> usize \<Rightarrow> rstring res" where
  "str_slice s a b =
     (if a \<le> b \<and> b \<le> length s \<and> is_char_boundary s a \<and> is_char_boundary s b
      then Ok (seg s a b) else Panic)"

definition trim_chars :: "uchar list \<Rightarrow> uchar list" where
  "trim_chars cs = rev (dropWhile is_whitespace (rev (dropWhile is_whitespace cs)))"

definition trim :: "rstring \<Rightarrow> rstring" where
  "trim s = utf8 (trim_chars (chars s))"

definition strip_prefix :: "rstring \<Rightarrow> rstring \<Rightarrow> rstring option" where
  "strip_prefix p s = (if take (length p) s = p then Some (drop (length p) s) else None)"

text \<open>The part before and the part after the first occurrence of a pattern.\<close>

fun split_once :: "rstring \<Rightarrow> rstring \<Rightarrow> (rstring \<times> rstring) option" where
  "split_once p [] = (if p = [] then Some ([], []) else None)"
| "split_once p (b # s) =
     (if take (length p) (b # s) = p then Some ([], drop (length p) (b # s))
      else map_option (\<lambda>(l, r). (b # l, r)) (split_once p s))"

lemma split_once_eq: "split_once p s = Some (l, r) \<Longrightarrow> s = l @ p @ r"
proof (induction p s arbitrary: l r rule: split_once.induct)
  case (1 p)
  then show ?case by (simp split: if_splits)
next
  case (2 p b s)
  show ?case
  proof (cases "take (length p) (b # s) = p")
    case True
    with 2(2) have "l = []" "r = drop (length p) (b # s)" by auto
    with True show ?thesis by (metis append_Nil append_take_drop_id)
  next
    case False
    with 2(2) obtain l' where "split_once p s = Some (l', r)" "l = b # l'" by auto
    with 2(1) False show ?thesis by auto
  qed
qed

section \<open>Numbers from strings\<close>

definition dec_digit :: "u8 \<Rightarrow> nat option" where
  "dec_digit b = (if is_ascii_digit (unat b) then Some (unat b - 48) else None)"

definition hex_digit :: "u8 \<Rightarrow> nat option" where
  "hex_digit b =
     (let c = unat b in
      if is_ascii_digit c then Some (c - 48)
      else if 65 \<le> c \<and> c \<le> 70 then Some (c - 55)
      else if 97 \<le> c \<and> c \<le> 102 then Some (c - 87) else None)"

fun digits_val :: "(u8 \<Rightarrow> nat option) \<Rightarrow> nat \<Rightarrow> nat \<Rightarrow> rstring \<Rightarrow> nat option" where
  "digits_val dig radix acc [] = Some acc"
| "digits_val dig radix acc (b # bs) =
     (case dig b of None \<Rightarrow> None | Some d \<Rightarrow> digits_val dig radix (acc * radix + d) bs)"

definition nonempty_val :: "(u8 \<Rightarrow> nat option) \<Rightarrow> nat \<Rightarrow> rstring \<Rightarrow> nat option" where
  "nonempty_val dig radix s = (if s = [] then None else digits_val dig radix 0 s)"

text \<open>\<open>str::parse::<i64>\<close>: an optional sign, at least one digit, and a value in range.\<close>

definition parse_sint :: "nat \<Rightarrow> rstring \<Rightarrow> int option" where
  "parse_sint w s =
     (case (if s \<noteq> [] \<and> hd s = 0x2D then map_option (\<lambda>n. - int n) (nonempty_val dec_digit 10 (tl s))
            else map_option int (nonempty_val dec_digit 10
                   (if s \<noteq> [] \<and> hd s = 0x2B then tl s else s))) of
        None \<Rightarrow> None
      | Some v \<Rightarrow> if - (2 ^ (w - 1)) \<le> v \<and> v < 2 ^ (w - 1) then Some v else None)"

definition parse_i64 :: "rstring \<Rightarrow> int option" where
  "parse_i64 s = parse_sint 64 s"

definition parse_i32 :: "rstring \<Rightarrow> int option" where
  "parse_i32 s = parse_sint 32 s"

text \<open>\<open>u32::from_str_radix(s, 16)\<close> and \<open>u8::from_str_radix(s, 16)\<close>.\<close>

definition from_hex :: "nat \<Rightarrow> rstring \<Rightarrow> nat option" where
  "from_hex w s =
     (case nonempty_val hex_digit 16 (if s \<noteq> [] \<and> hd s = 0x2B then tl s else s) of
        None \<Rightarrow> None
      | Some v \<Rightarrow> if v < 2 ^ w then Some v else None)"

end
