(* ===== verification/Rust_Float.thy ===== *)
theory Rust_Float
  imports Rust_Text
begin

text \<open>
  IEEE 754 numbers of the Rust standard library, as far as the program computes with them.

  An \<open>f64\<close> is its 64 bits.  The magnitude of a finite number is a whole number of units of
  \<open>2 ^ -1074\<close> (\<open>f64_units\<close>), and \<open>float_mag\<close> rounds an exact quotient to nearest, ties to even, so
  parsing, addition and division are exact operations followed by one rounding.  Results that are
  not a number are the canonical quiet NaN: the language leaves their payload open.
\<close>

type_synonym f64 = "64 word"
type_synonym f32 = "32 word"

fun bitlen :: "nat \<Rightarrow> nat" where
  "bitlen n = (if n = 0 then 0 else Suc (bitlen (n div 2)))"

declare bitlen.simps [simp del]

definition div_round_even :: "nat \<Rightarrow> nat \<Rightarrow> nat" where
  "div_round_even n d =
     (let q = n div d; r = n mod d in
      if d < 2 * r \<or> d = 2 * r \<and> odd q then Suc q else q)"

text \<open>The bits of \<open>num / den\<close> units, with \<open>p\<close> bits of precision and the exponent \<open>emax\<close> for infinity.\<close>

definition float_mag :: "nat \<Rightarrow> nat \<Rightarrow> nat \<Rightarrow> nat \<Rightarrow> nat" where
  "float_mag p emax num den =
     (let s = bitlen (num div den) - p; m = div_round_even num (den * 2 ^ s) in
      min (s * 2 ^ (p - 1) + m) (emax * 2 ^ (p - 1)))"

definition f64_make :: "bool \<Rightarrow> nat \<Rightarrow> f64" where
  "f64_make neg mag = word_of_nat (mag + (if neg then 2 ^ 63 else 0))"

definition f64_neg :: "f64 \<Rightarrow> bool" where "f64_neg a \<longleftrightarrow> 2 ^ 63 \<le> unat a"
definition f64_abs_bits :: "f64 \<Rightarrow> nat" where "f64_abs_bits a = unat a mod 2 ^ 63"
definition f64_is_nan :: "f64 \<Rightarrow> bool" where "f64_is_nan a \<longleftrightarrow> 0x7FF * 2 ^ 52 < f64_abs_bits a"
definition f64_is_inf :: "f64 \<Rightarrow> bool" where "f64_is_inf a \<longleftrightarrow> f64_abs_bits a = 0x7FF * 2 ^ 52"
definition f64_nan :: f64 where "f64_nan = 0x7FF8000000000000"

definition mag_units :: "nat \<Rightarrow> nat \<Rightarrow> nat" where
  "mag_units p n =
     (let e = n div 2 ^ (p - 1); m = n mod 2 ^ (p - 1) in
      if e = 0 then m else (2 ^ (p - 1) + m) * 2 ^ (e - 1))"

definition f64_units :: "f64 \<Rightarrow> int" where
  "f64_units a = (if f64_neg a then -1 else 1) * int (mag_units 53 (f64_abs_bits a))"

definition f64_flip :: "f64 \<Rightarrow> f64" where
  "f64_flip a = f64_make (\<not> f64_neg a) (f64_abs_bits a)"

definition f64_of_nat :: "nat \<Rightarrow> f64" where
  "f64_of_nat n = f64_make False (float_mag 53 0x7FF (n * 2 ^ 1074) 1)"

definition f64_add :: "f64 \<Rightarrow> f64 \<Rightarrow> f64" where
  "f64_add a b =
     (if f64_is_nan a \<or> f64_is_nan b then f64_nan
      else if f64_is_inf a then (if f64_is_inf b \<and> f64_neg a \<noteq> f64_neg b then f64_nan else a)
      else if f64_is_inf b then b
      else let s = f64_units a + f64_units b in
        if s = 0 then f64_make (f64_neg a \<and> f64_neg b) 0
        else f64_make (s < 0) (float_mag 53 0x7FF (nat \<bar>s\<bar>) 1))"

definition f64_div :: "f64 \<Rightarrow> f64 \<Rightarrow> f64" where
  "f64_div a b =
     (let neg = (f64_neg a \<noteq> f64_neg b); ua = nat \<bar>f64_units a\<bar>; ub = nat \<bar>f64_units b\<bar> in
      if f64_is_nan a \<or> f64_is_nan b \<or> f64_is_inf a \<and> f64_is_inf b then f64_nan
      else if f64_is_inf a then f64_make neg (0x7FF * 2 ^ 52)
      else if f64_is_inf b then f64_make neg 0
      else if ub = 0 then (if ua = 0 then f64_nan else f64_make neg (0x7FF * 2 ^ 52))
      else f64_make neg (float_mag 53 0x7FF (ua * 2 ^ 1074) ub))"

text \<open>The order of numbers; infinity has more units than every finite number.\<close>

definition f64_lt :: "f64 \<Rightarrow> f64 \<Rightarrow> bool" where
  "f64_lt a b \<longleftrightarrow> \<not> f64_is_nan a \<and> \<not> f64_is_nan b \<and> f64_units a < f64_units b"

text \<open>\<open>v as f32\<close> and \<open>f64::from\<close>, and their bits.\<close>

definition f32_of_f64 :: "f64 \<Rightarrow> f32" where
  "f32_of_f64 a = word_of_nat
     ((if f64_is_nan a then 0x7FC00000
       else if f64_is_inf a then 0x7F800000
       else float_mag 24 0xFF (mag_units 53 (f64_abs_bits a)) (2 ^ 925))
      + (if f64_neg a then 2 ^ 31 else 0))"

definition f64_of_f32 :: "f32 \<Rightarrow> f64" where
  "f64_of_f32 a =
     (let n = unat a mod 2 ^ 31; neg = (2 ^ 31 \<le> unat a) in
      if 0xFF * 2 ^ 23 < n then f64_make neg (0x7FF8 * 2 ^ 48)
      else if n = 0xFF * 2 ^ 23 then f64_make neg (0x7FF * 2 ^ 52)
      else f64_make neg (float_mag 53 0x7FF (mag_units 24 n * 2 ^ 925) 1))"

section \<open>Parsing (str::parse::<f64>)\<close>

definition ascii_lower :: "rstring \<Rightarrow> rstring" where
  "ascii_lower s = map (\<lambda>b. if 65 \<le> unat b \<and> unat b \<le> 90 then b + 32 else b) s"

definition span_digits :: "rstring \<Rightarrow> rstring \<times> rstring" where
  "span_digits s =
     (takeWhile (\<lambda>b. is_ascii_digit (unat b)) s, dropWhile (\<lambda>b. is_ascii_digit (unat b)) s)"

definition digits_nat :: "rstring \<Rightarrow> nat" where
  "digits_nat ds = foldl (\<lambda>a b. a * 10 + (unat b - 48)) 0 ds"

definition parse_exponent :: "rstring \<Rightarrow> int option" where
  "parse_exponent s =
     (let neg = (s \<noteq> [] \<and> hd s = 0x2D);
          r = (if s \<noteq> [] \<and> (hd s = 0x2D \<or> hd s = 0x2B) then tl s else s);
          (ds, rest) = span_digits r in
      if ds = [] \<or> rest \<noteq> [] then None
      else Some (if neg then - int (digits_nat ds) else int (digits_nat ds)))"

definition parse_decimal :: "rstring \<Rightarrow> (nat \<times> int) option" where
  "parse_decimal s =
     (let (ip, r) = span_digits s;
          (fp, r') = (if r \<noteq> [] \<and> hd r = 0x2E then span_digits (tl r) else ([], r)) in
      if ip = [] \<and> fp = [] then None
      else case (if r' = [] then Some 0
                 else if hd r' = 0x65 \<or> hd r' = 0x45 then parse_exponent (tl r') else None) of
             None \<Rightarrow> None
           | Some e \<Rightarrow> Some (digits_nat (ip @ fp), e - int (length fp)))"

definition f64_of_decimal :: "bool \<Rightarrow> nat \<Rightarrow> int \<Rightarrow> f64" where
  "f64_of_decimal neg d e =
     f64_make neg
       (if 0 \<le> e then float_mag 53 0x7FF (d * 10 ^ nat e * 2 ^ 1074) 1
        else float_mag 53 0x7FF (d * 2 ^ 1074) (10 ^ nat (- e)))"

definition parse_f64 :: "rstring \<Rightarrow> f64 option" where
  "parse_f64 s =
     (let neg = (s \<noteq> [] \<and> hd s = 0x2D);
          r = (if s \<noteq> [] \<and> (hd s = 0x2D \<or> hd s = 0x2B) then tl s else s) in
      if ascii_lower r = bstr ''inf'' \<or> ascii_lower r = bstr ''infinity''
        then Some (f64_make neg (0x7FF * 2 ^ 52))
      else if ascii_lower r = bstr ''nan'' then Some (f64_make neg (unat f64_nan))
      else map_option (\<lambda>(d, e). f64_of_decimal neg d e) (parse_decimal r))"

section \<open>Rounding keeps the numbers that are representable\<close>

lemma bitlen_double: "0 < n \<Longrightarrow> bitlen (2 * n) = Suc (bitlen n)"
  by (subst bitlen.simps) simp

lemma bitlen_shift: "0 < n \<Longrightarrow> bitlen (n * 2 ^ k) = bitlen n + k"
proof (induction k)
  case (Suc k)
  then have "bitlen (n * 2 ^ Suc k) = bitlen (2 * (n * 2 ^ k))" by (simp add: ac_simps)
  with Suc show ?case by (simp add: bitlen_double)
qed simp

lemma bitlen_range: "2 ^ k \<le> n \<Longrightarrow> n < 2 ^ Suc k \<Longrightarrow> bitlen n = Suc k"
proof (induction k arbitrary: n)
  case 0
  then have "n = 1" by simp
  then show ?case by (simp add: bitlen.simps)
next
  case (Suc k)
  then have "2 ^ k \<le> n div 2" "n div 2 < 2 ^ Suc k" "n \<noteq> 0" by auto
  with Suc.IH show ?case by (subst bitlen.simps) simp
qed

lemma bitlen_less: "n < 2 ^ k \<Longrightarrow> bitlen n \<le> k"
proof (induction k arbitrary: n)
  case 0
  then show ?case by (simp add: bitlen.simps)
next
  case (Suc k)
  show ?case
  proof (cases "n = 0")
    case True
    then show ?thesis by (simp add: bitlen.simps)
  next
    case False
    from Suc.prems have "n div 2 < 2 ^ k" by simp
    with Suc.IH False show ?thesis by (subst bitlen.simps) simp
  qed
qed

lemma div_round_even_exact: "0 < d \<Longrightarrow> div_round_even (m * d) d = m"
  by (simp add: div_round_even_def)

lemma float_mag_units:
  assumes "n < emax * 2 ^ (p - 1)" and "0 < p" and "0 < d"
  shows "float_mag p emax (mag_units p n * d) d = n"
proof -
  let ?q = "2 ^ (p - 1) :: nat"
  let ?e = "n div ?q"
  let ?m = "n mod ?q"
  have m: "?m < ?q" by simp
  have p2: "2 ^ p = 2 * ?q" using assms(2) by (cases p) auto
  have n: "n = ?e * ?q + ?m" by (rule div_mult_mod_eq [symmetric])
  show ?thesis
  proof (cases "?e = 0")
    case True
    then have u: "mag_units p n = n" and "n < ?q"
      using m by (simp_all add: mag_units_def Let_def div_eq_0_iff)
    then have "bitlen n - p = 0" using bitlen_less[of n "p - 1"] by simp
    with u assms show ?thesis by (simp add: float_mag_def Let_def div_round_even_exact)
  next
    case False
    then have u: "mag_units p n = (?q + ?m) * 2 ^ (?e - 1)" by (simp add: mag_units_def Let_def)
    have "bitlen (?q + ?m) = Suc (p - 1)" by (rule bitlen_range) (use m in auto)
    then have b: "bitlen (mag_units p n) - p = ?e - 1"
      using assms(2) unfolding u by (subst bitlen_shift) auto
    have "div_round_even (mag_units p n * d) (d * 2 ^ (?e - 1)) = ?q + ?m"
      using div_round_even_exact[of "d * 2 ^ (?e - 1)" "?q + ?m"] assms(3)
      unfolding u by (simp add: ac_simps)
    moreover have "(?e - 1) * ?q + (?q + ?m) = n"
    proof -
      obtain e where e: "?e = Suc e" using False not0_implies_Suc by blast
      have "(?e - 1) * ?q + (?q + ?m) = ?e * ?q + ?m" unfolding e by simp
      then show ?thesis using n by simp
    qed
    ultimately show ?thesis using b assms by (simp add: float_mag_def Let_def)
  qed
qed

end
