(* ===== verification/Lexer.thy ===== *)
theory Lexer
  imports Rust_Float "HOL-Library.Signed_Division"
begin

text \<open>
  The lexer of \<^verbatim>\<open>.nxs\<close> source text: \<^verbatim>\<open>rust/src/lexer.rs\<close>.

  The state of \<open>Lexer\<close> is its input and a position; here it is the list of the characters from the
  position on, so \<open>peek\<close> is the head and \<open>advance\<close> the tail.  A reading method takes that list and
  returns what it read with the rest.  The parameter \<open>u\<close> holds the Unicode tables.
\<close>

datatype token =
    TInt i64
  | TFloat f64
  | TBool bool
  | TKeyword rstring
  | TStr rstring
  | TTime i64
  | TBinary "u8 list"
  | TLink i32
  | TMacro rstring
  | TNull
  | TIdent rstring
  | TColon
  | TLBrace
  | TRBrace
  | TLBracket
  | TRBracket
  | TComma
  | TLParen
  | TRParen
  | TEof

section \<open>Whitespace, comments and simple runs\<close>

fun skip_comment :: "uchar list \<Rightarrow> uchar list" where
  "skip_comment [] = []"
| "skip_comment (c # cs) = (if c = ch CHR 0x0A then cs else skip_comment cs)"

lemma length_skip_comment: "length (skip_comment cs) \<le> length cs"
  by (induction cs) auto

lemma length_skip_comment_Cons: "length (skip_comment (c # cs)) \<le> length cs"
  using length_skip_comment[of cs] by auto

function skip_ws :: "uchar list \<Rightarrow> uchar list" where
  "skip_ws [] = []"
| "skip_ws (c # cs) =
     (if c = ch CHR ''#'' then skip_ws (skip_comment (c # cs))
      else if is_whitespace c then skip_ws cs
      else c # cs)"
  by pat_completeness auto
termination
  by (relation "measure length") (use length_skip_comment_Cons in \<open>auto simp: less_Suc_eq_le\<close>)

lemma length_skip_ws: "length (skip_ws cs) \<le> length cs"
proof (induction cs rule: skip_ws.induct)
  case (2 c cs)
  then show ?case using length_skip_comment_Cons[of c cs] by (auto split: if_splits)
qed simp

definition read_while :: "(uchar \<Rightarrow> bool) \<Rightarrow> uchar list \<Rightarrow> uchar list \<times> uchar list" where
  "read_while p cs = (takeWhile p cs, dropWhile p cs)"

definition eat_minus :: "uchar list \<Rightarrow> bool \<times> uchar list" where
  "eat_minus cs = (if cs \<noteq> [] \<and> hd cs = ch CHR ''-'' then (True, tl cs) else (False, cs))"

section \<open>String and binary literals\<close>

definition hex_escape :: "nat \<Rightarrow> uchar list \<Rightarrow> uchar res" where
  "hex_escape n cs =
     (case from_hex 32 (utf8 (take n cs)) of
        None \<Rightarrow> Err (ParseError (if n = 4 then ''bad u escape: {hex}'' else ''bad U escape: {hex}''))
      | Some code \<Rightarrow> if is_scalar code then Ok code else Err (ParseError ''invalid unicode: {code}''))"

definition simple_escape :: "uchar \<Rightarrow> uchar option" where
  "simple_escape e =
     (if e = ch CHR 0x5C then Some (ch CHR 0x5C)
      else if e = ch CHR 0x22 then Some (ch CHR 0x22)
      else if e = ch CHR ''n'' then Some 10
      else if e = ch CHR ''r'' then Some 13
      else if e = ch CHR ''t'' then Some 9
      else if e = ch CHR ''0'' then Some 0
      else None)"

function read_string :: "uchar list \<Rightarrow> (uchar list \<times> uchar list) res" where
  "read_string [] = Err (ParseError ''unterminated string'')"
| "read_string (c # cs) =
     (if c = ch CHR 0x22 then Ok ([], cs)
      else if c = ch CHR 0x5C then
        (case cs of
           [] \<Rightarrow> Err (ParseError ''unterminated escape'')
         | e # r \<Rightarrow>
             (case simple_escape e of
                Some x \<Rightarrow> rbind (read_string r) (\<lambda>(s, t). Ok (x # s, t))
              | None \<Rightarrow>
                  if e = ch CHR ''u'' then
                    rbind (hex_escape 4 r) (\<lambda>x.
                    rbind (read_string (drop 4 r)) (\<lambda>(s, t). Ok (x # s, t)))
                  else if e = ch CHR ''U'' then
                    rbind (hex_escape 8 r) (\<lambda>x.
                    rbind (read_string (drop 8 r)) (\<lambda>(s, t). Ok (x # s, t)))
                  else Err (BadEscape e)))
      else rbind (read_string cs) (\<lambda>(s, t). Ok (c # s, t)))"
  by pat_completeness auto
termination by (relation "measure length") auto

fun read_hex_digits :: "uchar list \<Rightarrow> (uchar list \<times> uchar list) res" where
  "read_hex_digits [] = Err (ParseError ''unterminated binary literal'')"
| "read_hex_digits (c # cs) =
     (if c = ch CHR ''>'' then Ok ([], cs)
      else if is_ascii_hexdigit c then rbind (read_hex_digits cs) (\<lambda>(s, t). Ok (c # s, t))
      else if is_whitespace c then read_hex_digits cs
      else Err (ParseError ''unexpected char in binary: {c}''))"

fun hex_pairs :: "uchar list \<Rightarrow> u8 list res" where
  "hex_pairs (a # b # t) =
     (case from_hex 8 (utf8 [a, b]) of
        None \<Rightarrow> Err (ParseError ''bad hex byte: {}'')
      | Some v \<Rightarrow> rbind (hex_pairs t) (\<lambda>bs. Ok (byte v # bs)))"
| "hex_pairs _ = Ok []"

definition read_binary :: "uchar list \<Rightarrow> (u8 list \<times> uchar list) res" where
  "read_binary cs =
     rbind (read_hex_digits cs) (\<lambda>(hex, r).
     if length hex mod 2 \<noteq> 0 then Err (ParseError ''binary hex must have even number of digits'')
     else rbind (hex_pairs hex) (\<lambda>bs. Ok (bs, r)))"

definition read_macro_expr :: "uchar list \<Rightarrow> rstring \<times> uchar list" where
  "read_macro_expr cs =
     (let (s, r) = read_while (\<lambda>c. \<not> (c = ch CHR 0x0A \<or> c = ch CHR '','' \<or> c = ch CHR ''}'')) cs
      in (utf8 (trim_chars s), r))"

section \<open>Dates and times\<close>

text \<open>The Julian day number formula; every value stays far inside 64 bits, \<open>/\<close> truncates.\<close>

definition days_since_epoch :: "int \<Rightarrow> int \<Rightarrow> int \<Rightarrow> int" where
  "days_since_epoch year month day =
     (let a = (14 - month) sdiv 12;
          y = year + 4800 - a;
          m = month + 12 * a - 3;
          jdn = day + (153 * m + 2) sdiv 5 + 365 * y + y sdiv 4 - y sdiv 100 + y sdiv 400 - 32045
      in jdn - 2440588)"

definition i64_range :: "int \<Rightarrow> bool" where
  "i64_range v \<longleftrightarrow> - (2 ^ 63) \<le> v \<and> v < 2 ^ 63"

definition checked_i64 :: "int \<Rightarrow> int option" where
  "checked_i64 v = (if i64_range v then Some v else None)"

definition parse_part :: "string \<Rightarrow> rstring \<Rightarrow> usize \<Rightarrow> usize \<Rightarrow> int res" where
  "parse_part msg s a b = rbind (str_slice s a b) (\<lambda>t. ok_or (parse_i64 t) (ParseError msg))"

definition frac_nanos :: "rstring \<Rightarrow> int res" where
  "frac_nanos s =
     (case (if is_char_boundary s 19 then strip_prefix (bstr ''.'') (drop 19 s) else None) of
        Some frac \<Rightarrow>
          if frac = [] \<or> 9 < length frac \<or> \<not> list_all (\<lambda>b. is_ascii_digit (unat b)) frac
          then Err (ParseError ''bad temporal: {s}'')
          else ok_or (parse_i64 (frac @ replicate (9 - length frac) 0x30)) (ParseError ''bad temporal: {s}'')
      | None \<Rightarrow> if length s = 19 then Ok 0 else Err (ParseError ''bad temporal: {s}''))"

function parse_temporal :: "rstring \<Rightarrow> int res" where
  "parse_temporal s =
     (if length s = 10 \<and> get_at (chars s) 4 = Some (ch CHR ''-'') then
        rbind (parse_part ''bad date: {s}'' s 0 4) (\<lambda>year.
        rbind (parse_part ''bad date: {s}'' s 5 7) (\<lambda>month.
        rbind (parse_part ''bad date: {s}'' s 8 10) (\<lambda>day.
        ok_or (checked_i64 (days_since_epoch year month day * 86400000000000))
          (ParseError ''temporal overflow: {s}''))))
      else if 19 \<le> length s \<and> get_at s 4 = Some 0x2D \<and> get_at s 10 = Some 0x54 then
        rbind (str_slice s 0 10) (\<lambda>d.
        rbind (parse_temporal d) (\<lambda>date_ns.
        rbind (parse_part ''bad temporal: {s}'' s 11 13) (\<lambda>hour.
        rbind (parse_part ''bad temporal: {s}'' s 14 16) (\<lambda>minute.
        rbind (parse_part ''bad temporal: {s}'' s 17 19) (\<lambda>second.
        if 23 < hour \<or> 59 < minute \<or> 59 < second then Err (ParseError ''bad temporal: {s}'')
        else rbind (frac_nanos s) (\<lambda>frac_ns.
          ok_or (Option.bind (checked_i64 (date_ns + hour * 3600000000000)) (\<lambda>v.
                 Option.bind (checked_i64 (v + minute * 60000000000)) (\<lambda>v.
                 Option.bind (checked_i64 (v + second * 1000000000)) (\<lambda>v.
                 checked_i64 (v + frac_ns)))))
            (ParseError ''temporal overflow: {s}'')))))))
      else ok_or (parse_i64 s) (ParseError ''bad temporal: {s}''))"
  by pat_completeness auto
termination
  by (relation "measure length") (auto simp: str_slice_def split: if_splits)

declare parse_temporal.simps [simp del]

section \<open>Tokens\<close>

definition lex_int :: "uchar list \<Rightarrow> (token \<times> uchar list) res" where
  "lex_int cs =
     (let (neg, r) = eat_minus cs; (s, r') = read_while is_ascii_digit r in
      rbind (ok_or (parse_i64 (utf8 s)) (ParseError ''bad int: {s}'')) (\<lambda>n.
      Ok (TInt (word_of_int (if neg then - n else n)), r')))"

definition is_float_char :: "uchar \<Rightarrow> bool" where
  "is_float_char c \<longleftrightarrow> is_ascii_digit c \<or> c = ch CHR ''.'' \<or> c = ch CHR ''e'' \<or> c = ch CHR ''E''
     \<or> c = ch CHR ''+'' \<or> c = ch CHR ''-''"

definition lex_float :: "uchar list \<Rightarrow> (token \<times> uchar list) res" where
  "lex_float cs =
     (let (neg, r) = eat_minus cs; (s, r') = read_while is_float_char r in
      rbind (ok_or (parse_f64 (utf8 s)) (ParseError ''bad float: {s}'')) (\<lambda>f.
      Ok (TFloat (if neg then f64_flip f else f), r')))"

definition lex_bool :: "unicode \<Rightarrow> uchar list \<Rightarrow> (token \<times> uchar list) res" where
  "lex_bool u cs =
     (let (s, r) = read_while (is_alphabetic u) cs in
      if utf8 s = bstr ''true'' then Ok (TBool True, r)
      else if utf8 s = bstr ''false'' then Ok (TBool False, r)
      else Err (ParseError ''bad bool: {s}''))"

definition is_word_char :: "unicode \<Rightarrow> uchar \<Rightarrow> bool" where
  "is_word_char u c \<longleftrightarrow> is_alphanumeric u c \<or> c = ch CHR ''_''"

definition lex_at :: "unicode \<Rightarrow> uchar list \<Rightarrow> (token \<times> uchar list) res" where
  "lex_at u cs =
     (if cs \<noteq> [] \<and> is_ascii_digit (hd cs) then
        (let (s, r) = read_while (\<lambda>c. \<not> is_whitespace c \<and> c \<noteq> ch CHR '','' \<and> c \<noteq> ch CHR ''}''
                                      \<and> c \<noteq> ch CHR '']'') cs in
         rbind (parse_temporal (utf8 s)) (\<lambda>ns. Ok (TTime (word_of_int ns), r)))
      else
        (let (ident, r) = read_while (is_word_char u) cs in
         Ok (TMacro (bstr ''@'' @ utf8 ident), r)))"

definition lex_link :: "uchar list \<Rightarrow> (token \<times> uchar list) res" where
  "lex_link cs =
     (let (neg, r) = eat_minus cs; (s, r') = read_while is_ascii_digit r in
      rbind (ok_or (parse_i32 (utf8 s)) (ParseError ''bad link offset: {s}'')) (\<lambda>n.
      Ok (TLink (word_of_int (if neg then - n else n)), r')))"

definition punctuation :: "uchar \<Rightarrow> token option" where
  "punctuation c =
     (if c = ch CHR ''{'' then Some TLBrace
      else if c = ch CHR ''}'' then Some TRBrace
      else if c = ch CHR ''['' then Some TLBracket
      else if c = ch CHR '']'' then Some TRBracket
      else if c = ch CHR ''('' then Some TLParen
      else if c = ch CHR '')'' then Some TRParen
      else if c = ch CHR '':'' then Some TColon
      else if c = ch CHR '','' then Some TComma
      else None)"

text \<open>The body of the loop of \<open>tokenize\<close> after \<open>advance\<close> returned \<open>c\<close>.\<close>

definition lex_token :: "unicode \<Rightarrow> uchar \<Rightarrow> uchar list \<Rightarrow> (token \<times> uchar list) res" where
  "lex_token u c cs =
     (case punctuation c of
        Some t \<Rightarrow> Ok (t, cs)
      | None \<Rightarrow>
          if c = ch CHR ''='' then lex_int cs
          else if c = ch CHR ''~'' then lex_float cs
          else if c = ch CHR ''?'' then lex_bool u cs
          else if c = ch CHR ''$'' then
            (let (s, r) = read_while (is_word_char u) cs in Ok (TKeyword (utf8 s), r))
          else if c = ch CHR 0x22 then rbind (read_string cs) (\<lambda>(s, r). Ok (TStr (utf8 s), r))
          else if c = ch CHR ''@'' then lex_at u cs
          else if c = ch CHR ''<'' then rbind (read_binary cs) (\<lambda>(b, r). Ok (TBinary b, r))
          else if c = ch CHR ''&'' then lex_link cs
          else if c = ch CHR ''!'' then (let (s, r) = read_macro_expr cs in Ok (TMacro s, r))
          else if c = ch CHR ''^'' then Ok (TNull, cs)
          else if is_alphabetic u c \<or> c = ch CHR ''_'' then
            (let (s, r) = read_while (\<lambda>c. is_word_char u c \<or> c = ch CHR ''-'') cs in
             Ok (TIdent (utf8 (c # s)), r))
          else Err (UnknownSigil c))"

subsection \<open>No token grows the input\<close>

lemma length_read_while: "read_while p cs = (s, r) \<Longrightarrow> length r \<le> length cs"
  by (auto simp: read_while_def length_dropWhile_le)

lemma length_eat_minus: "eat_minus cs = (b, r) \<Longrightarrow> length r \<le> length cs"
  by (auto simp: eat_minus_def split: if_splits)

lemma length_read_string: "read_string cs = Ok (s, r) \<Longrightarrow> length r \<le> length cs"
proof (induction cs arbitrary: s r rule: length_induct)
  case (1 cs)
  have IH: "length r \<le> n" if "read_string t = Ok (s, r)" "length t < length cs" "length t \<le> n"
    for t s r n
    using 1(1) that order_trans by blast
  from 1(2) show ?case
    by (cases cs) (auto simp: res_simps split: if_splits list.splits option.splits elim!: IH)
qed

lemma length_read_hex_digits: "read_hex_digits cs = Ok (s, r) \<Longrightarrow> length r \<le> length cs"
proof (induction cs arbitrary: s r)
  case (Cons c cs)
  from Cons.prems show ?case
    by (auto simp: res_simps split: if_splits dest!: Cons.IH)
qed simp

lemma length_lex_token: "lex_token u c cs = Ok (t, r) \<Longrightarrow> length r \<le> length cs"
  by (auto simp: lex_token_def lex_int_def lex_float_def lex_bool_def lex_at_def lex_link_def
      read_binary_def read_macro_expr_def res_simps
      split: option.splits if_splits prod.splits
      dest!: length_read_while length_eat_minus length_read_string length_read_hex_digits)

function tokenize :: "unicode \<Rightarrow> uchar list \<Rightarrow> token list res" where
  "tokenize u cs =
     (case skip_ws cs of
        [] \<Rightarrow> Ok [TEof]
      | c # r \<Rightarrow>
          rbind (lex_token u c r) (\<lambda>(t, r').
          rbind (tokenize u r') (\<lambda>ts. Ok (t # ts))))"
  by pat_completeness auto
termination
proof (relation "measure (\<lambda>(u, cs). length cs)")
  fix u cs c r x t r'
  assume "skip_ws cs = c # r" and "lex_token u c r = Ok x" and "(t, r') = x"
  then show "((u, r'), (u, cs)) \<in> measure (\<lambda>(u, cs). length cs)"
    using length_skip_ws[of cs] length_lex_token[of u c r t r'] by auto
qed auto

declare tokenize.simps [simp del]

section \<open>What the lexer guarantees\<close>

lemma lex_token_not_eof: "lex_token u c cs = Ok (t, r) \<Longrightarrow> t \<noteq> TEof"
  by (auto simp: lex_token_def lex_int_def lex_float_def lex_bool_def lex_at_def lex_link_def
      punctuation_def read_binary_def read_macro_expr_def res_simps
      split: option.splits if_splits prod.splits)

text \<open>
  A token list ends where the input ends: every successful run returns a list whose last token,
  and only the last, is the end of input.
\<close>

lemma tokenize_ends:
  assumes "tokenize u cs = Ok ts"
  shows "ts \<noteq> [] \<and> last ts = TEof \<and> TEof \<notin> set (butlast ts)"
  using assms
proof (induction u cs arbitrary: ts rule: tokenize.induct)
  case (1 u cs)
  show ?case
  proof (cases "skip_ws cs")
    case Nil
    with 1(2) show ?thesis by (subst (asm) tokenize.simps) auto
  next
    case (Cons c r)
    with 1(2) obtain t r' ts' where t: "lex_token u c r = Ok (t, r')"
      and ts: "tokenize u r' = Ok ts'" "ts = t # ts'"
      by (subst (asm) tokenize.simps) (auto simp: res_simps)
    from 1(1)[OF Cons t refl ts(1)] ts(2) lex_token_not_eof[OF t] show ?thesis by auto
  qed
qed

subsection \<open>Literals\<close>

text \<open>The reference for writing a string and a blob as a literal.\<close>

definition escape_char :: "uchar \<Rightarrow> uchar list" where
  "escape_char c =
     (if c = 0x5C then [0x5C, 0x5C] else if c = 0x22 then [0x5C, 0x22]
      else if c = 10 then [0x5C, ch CHR ''n''] else if c = 13 then [0x5C, ch CHR ''r'']
      else if c = 9 then [0x5C, ch CHR ''t''] else if c = 0 then [0x5C, ch CHR ''0'']
      else [c])"

definition string_literal :: "uchar list \<Rightarrow> uchar list" where
  "string_literal s = 0x22 # concat (map escape_char s) @ [0x22]"

definition hex_char :: "nat \<Rightarrow> uchar" where
  "hex_char n = (if n < 10 then 48 + n else 87 + n)"

definition binary_literal :: "u8 list \<Rightarrow> uchar list" where
  "binary_literal bs =
     ch CHR ''<'' # concat (map (\<lambda>b. [hex_char (unat b div 16), hex_char (unat b mod 16)]) bs) @ [ch CHR ''>'']"

lemma read_string_escape:
  "read_string (escape_char c @ r) = rbind (read_string r) (\<lambda>(s, t). Ok (c # s, t))"
  by (simp add: escape_char_def simple_escape_def ch_def)

lemma read_string_literal:
  "read_string (concat (map escape_char s) @ 0x22 # r) = Ok (s, r)"
  by (induction s) (simp_all add: read_string_escape ch_def)

lemma hex_char_val: "n < 16 \<Longrightarrow> is_ascii_hexdigit (hex_char n) \<and> hex_char n < 128
    \<and> hex_char n \<noteq> ch CHR ''>'' \<and> hex_digit (byte (hex_char n)) = Some n"
proof -
  have "list_all (\<lambda>n. is_ascii_hexdigit (hex_char n) \<and> hex_char n < 128
    \<and> hex_char n \<noteq> ch CHR ''>'' \<and> hex_digit (byte (hex_char n)) = Some n) [0..<16]" by code_simp
  then show "n < 16 \<Longrightarrow> ?thesis" by (simp add: list_all_iff)
qed

lemma utf8_ascii: "c < 128 \<Longrightarrow> utf8_1 c = [byte c]"
  by (simp add: utf8_1_def)

lemma byte_not_plus: "n < 16 \<Longrightarrow> byte (hex_char n) \<noteq> 0x2B"
proof -
  have "list_all (\<lambda>n. byte (hex_char n) \<noteq> 0x2B) [0..<16]" by code_simp
  then show "n < 16 \<Longrightarrow> ?thesis" by (simp add: list_all_iff)
qed

lemma from_hex_pair:
  "a < 16 \<Longrightarrow> b < 16 \<Longrightarrow> from_hex 8 (utf8 [hex_char a, hex_char b]) = Some (a * 16 + b)"
  using hex_char_val[of a] hex_char_val[of b]
  by (simp add: from_hex_def utf8_ascii byte_not_plus nonempty_val_def)

lemma hex_pairs_literal:
  "hex_pairs (concat (map (\<lambda>b. [hex_char (unat b div 16), hex_char (unat b mod 16)]) bs)) = Ok bs"
proof (induction bs)
  case (Cons b bs)
  have "unat b < 256" using unsigned_less[of b] by simp
  then have "from_hex 8 (utf8 [hex_char (unat b div 16), hex_char (unat b mod 16)]) = Some (unat b)"
    by (subst from_hex_pair) simp_all
  with Cons show ?case by (simp del: utf8_simps)
qed simp

lemma read_hex_digits_literal:
  "(\<And>n. n \<in> set ns \<Longrightarrow> n < 16) \<Longrightarrow> read_hex_digits (map hex_char ns @ ch CHR ''>'' # r) = Ok (map hex_char ns, r)"
  by (induction ns) (auto simp: hex_char_val)

lemma read_binary_literal: "read_binary (tl (binary_literal bs) @ r) = Ok (bs, r)"
proof -
  let ?ns = "concat (map (\<lambda>b. [unat b div 16, unat b mod 16]) bs)"
  let ?hex = "concat (map (\<lambda>b. [hex_char (unat b div 16), hex_char (unat b mod 16)]) bs)"
  have hex: "?hex = map hex_char ?ns" by (induction bs) auto
  have small: "n < 16" if "n \<in> set ?ns" for n
  proof -
    have "unat b div 16 < 16" for b :: u8
    proof -
      have "unat b < 256" using unsigned_less[of b] by simp
      then show ?thesis by (simp add: less_mult_imp_div_less)
    qed
    with that show ?thesis by auto
  qed
  have "length ?ns mod 2 = 0" by (induction bs) auto
  moreover have "read_hex_digits (map hex_char ?ns @ ch CHR ''>'' # r) = Ok (map hex_char ?ns, r)"
    using small by (rule read_hex_digits_literal)
  ultimately show ?thesis
    using hex_pairs_literal[of bs] by (simp add: read_binary_def binary_literal_def hex)
qed

text \<open>
  String and binary literals denote what they are written for: the literal of any sequence of
  characters, with the escapes that the format names, is read as one string token that holds these
  characters in UTF-8, and the literal of any bytes, two hexadecimal digits each, as one binary token
  that holds these bytes; the input behind the literal is left alone.
\<close>

lemma literals_roundtrip:
  "lex_token u (hd (string_literal s)) (tl (string_literal s) @ r) = Ok (TStr (utf8 s), r)
 \<and> lex_token u (hd (binary_literal bs)) (tl (binary_literal bs) @ r) = Ok (TBinary bs, r)"
proof -
  have "read_string (tl (string_literal s) @ r) = Ok (s, r)"
    using read_string_literal[of s r] by (simp add: string_literal_def)
  moreover have "hd (string_literal s) = ch CHR 0x22" "hd (binary_literal bs) = ch CHR ''<''"
    by (simp_all add: string_literal_def binary_literal_def ch_def)
  moreover have "lex_token u (ch CHR 0x22) cs = rbind (read_string cs) (\<lambda>(s, r). Ok (TStr (utf8 s), r))"
    "lex_token u (ch CHR ''<'') cs = rbind (read_binary cs) (\<lambda>(b, r). Ok (TBinary b, r))" for cs
    by (simp_all add: lex_token_def punctuation_def ch_def)
  ultimately show ?thesis by (simp add: read_binary_literal)
qed

subsection \<open>Dates\<close>

text \<open>The Gregorian calendar, by its rule for the day after a given day.\<close>

definition leap_year :: "int \<Rightarrow> bool" where
  "leap_year y \<longleftrightarrow> 4 dvd y \<and> (\<not> 100 dvd y \<or> 400 dvd y)"

definition month_days :: "int \<Rightarrow> int \<Rightarrow> int" where
  "month_days y m =
     (if m = 2 then if leap_year y then 29 else 28 else if m \<in> {4, 6, 9, 11} then 30 else 31)"

definition next_day :: "int \<times> int \<times> int \<Rightarrow> int \<times> int \<times> int" where
  "next_day = (\<lambda>(y, m, d).
     if d < month_days y m then (y, m, d + 1) else if m < 12 then (y, m + 1, 1) else (y + 1, 1, 1))"

definition valid_date :: "int \<times> int \<times> int \<Rightarrow> bool" where
  "valid_date = (\<lambda>(y, m, d). 0 \<le> y \<and> 1 \<le> m \<and> m \<le> 12 \<and> 1 \<le> d \<and> d \<le> month_days y m)"

lemma sdiv_nonneg: "0 \<le> a \<Longrightarrow> 0 < b \<Longrightarrow> a sdiv b = a div (b :: int)"
  by (simp add: signed_divide_int_def sgn_if)

lemma div_step: "0 < k \<Longrightarrow> (y + 1) div k = y div k + (if k dvd y + 1 then 1 else (0 :: int))"
proof -
  assume k: "0 < k"
  define q r where qr: "q = y div k" "r = y mod k"
  have y: "y = k * q + r" "0 \<le> r" "r < k" using k by (simp_all add: qr)
  show ?thesis
  proof (cases "r + 1 = k")
    case True
    then have "y + 1 = k * (q + 1)" using y(1) by (simp add: algebra_simps)
    then show ?thesis using k by (simp add: qr(1)[symmetric])
  next
    case False
    have "y + 1 = k * q + (r + 1)" using y(1) by simp
    moreover have "0 \<le> r + 1" "r + 1 < k" using y False by auto
    ultimately have "(y + 1) div k = q" "(y + 1) mod k = r + 1"
      by (auto intro: int_div_pos_eq int_mod_pos_eq)
    moreover have "r + 1 \<noteq> 0" using y(2) by simp
    ultimately show ?thesis by (simp add: qr(1)[symmetric] dvd_eq_mod_eq_0)
  qed
qed

definition leaps :: "int \<Rightarrow> int" where
  "leaps y = y div 4 - y div 100 + y div 400"

lemma leap_step:
  assumes "0 \<le> y"
  shows "leaps (y + 4800) = leaps (y + 4799) + (if leap_year y then 1 else 0)"
proof -
  have s: "(y + 4800) div k = (y + 4799) div k + (if k dvd y then 1 else 0)" if "k \<in> {4, 100, 400}" for k
  proof -
    have "k dvd 4800" using that by (elim insertE emptyE) simp_all
    then have d: "(k dvd y + 4800) = (k dvd y)" by (rule dvd_add_left_iff)
    have e: "y + 4799 + 1 = y + 4800" by simp
    have k: "0 < k" using that by auto
    show ?thesis using div_step[OF k, of "y + 4799"] unfolding e d .
  qed
  have "400 dvd y \<Longrightarrow> 100 dvd y" by (rule dvd_trans[of 100 400 y]) simp_all
  moreover have "100 dvd y \<Longrightarrow> 4 dvd y" by (rule dvd_trans[of 4 100 y]) simp_all
  moreover have "a + (if p4 then 1 else 0) - (b + (if p100 then 1 else 0)) + (c + (if p400 then 1 else 0))
      = a - b + c + (if p4 \<and> (\<not> p100 \<or> p400) then 1 else 0)"
    if "p400 \<Longrightarrow> p100" and "p100 \<Longrightarrow> p4" for a b c :: int and p4 p100 p400
    using that by (cases p4; cases p100; cases p400) simp_all
  moreover note s[of 4, OF insertI1] s[of 100, OF insertI2[OF insertI1]]
    s[of 400, OF insertI2[OF insertI2[OF insertI1]]]
  ultimately show ?thesis unfolding leaps_def leap_year_def by (simp only:)
qed

lemma days_formula:
  assumes "0 \<le> y" and "1 \<le> m" and "m \<le> 12" and "1 \<le> d"
  shows "days_since_epoch y m d =
    (if m \<le> 2 then d + (153 * (m + 9) + 2) div 5 + 365 * (y + 4799) + leaps (y + 4799)
     else d + (153 * (m - 3) + 2) div 5 + 365 * (y + 4800) + leaps (y + 4800))
    - 2472633"
proof -
  have "(14 - m) sdiv 12 = (if m \<le> 2 then 1 else 0)"
    using assms(2,3) by (auto simp: sdiv_nonneg intro: int_div_pos_eq[where q = 1])
  then show ?thesis using assms
    by (simp add: days_since_epoch_def Let_def sdiv_nonneg leaps_def algebra_simps)
qed

text \<open>
  Dates are numbered as the Gregorian calendar runs: day 0 is 1970-01-01, and from year 0 on the
  day after a valid date -- across months, leap days, centuries and years -- has the next number.
\<close>

lemma days_follow_calendar:
  assumes "valid_date (y, m, d)" and "next_day (y, m, d) = (y', m', d')"
  shows "days_since_epoch y' m' d' = days_since_epoch y m d + 1 \<and> days_since_epoch 1970 1 1 = 0"
proof -
  have v: "0 \<le> y" "1 \<le> m" "m \<le> 12" "1 \<le> d" "d \<le> month_days y m"
    using assms(1) by (simp_all add: valid_date_def)
  have e: "days_since_epoch 1970 1 1 = 0" by code_simp
  consider (day) "d < month_days y m" | (month) "d = month_days y m" "m < 12" | (year) "d = 31" "m = 12"
  proof -
    have "month_days y 12 = 31" by (simp add: month_days_def)
    then show thesis using that v by (cases "m = 12"; cases "d < month_days y m") auto
  qed
  then show ?thesis
  proof cases
    case day
    with assms(2) v show ?thesis by (auto simp: next_day_def days_formula e)
  next
    case month
    then have n: "y' = y" "m' = m + 1" "d' = 1" using assms(2) by (auto simp: next_day_def)
    have "m = 1 \<or> m = 2 \<or> m = 3 \<or> m = 4 \<or> m = 5 \<or> m = 6 \<or> m = 7 \<or> m = 8 \<or> m = 9 \<or> m = 10 \<or> m = 11"
      using v(2) month(2) by presburger
    then show ?thesis
      using v month(1) leap_step[OF v(1)] by (elim disjE) (auto simp: n days_formula month_days_def e)
  next
    case year
    with assms(2) have "y' = y + 1" "m' = 1" "d' = 1" by (auto simp: next_day_def month_days_def)
    with v year e show ?thesis by (simp add: days_formula algebra_simps)
  qed
qed

lemma days_follow_calendar_witness: "days_since_epoch 2000 3 1 = days_since_epoch 2000 2 29 + 1"
  by (rule days_follow_calendar[THEN conjunct1]) code_simp+

section \<open>Where the lexer surprises\<close>

text \<open>
  Four inputs on which the lexer departs from the format: a date with a character of two bytes
  in it makes it panic, since the date is cut at byte positions after only its length was checked; a
  negative hour is accepted in a time; the least 64-bit integer is refused, since its sign is applied
  after its digits were parsed; and a Unicode escape may hold a plus sign for its first digit.
\<close>

lemma lexer_departures:
  "tokenize u (map ch ''@2024-1'' @ [233] @ map ch ''01'') = Panic
 \<and> tokenize u (map ch ''@1970-01-02T-5:00:00'') = Ok [TTime 68400000000000, TEof]
 \<and> tokenize u (map ch ''=-9223372036854775808'') = Err (ParseError ''bad int: {s}'')
 \<and> tokenize u (0x22 # 0x5C # map ch ''u+041'' @ [0x22]) = Ok [TStr (bstr ''A''), TEof]"
  by (intro conjI; code_simp)

end
