(* ===== verification/Parser.thy ===== *)
theory Parser
  imports Lexer
begin

text \<open>
  The parser of \<^verbatim>\<open>.nxs\<close> source text: \<^verbatim>\<open>rust/src/parser.rs\<close>.

  The state of \<open>Parser\<close> is the token list from its position on and the nesting depth of objects.
  \<open>depth\<close> is raised in \<open>parse_object\<close> and lowered again when the object ends; an error ends the
  whole parse, so the depth is passed down as an argument.
\<close>

datatype nxs_value =
    VInt i64
  | VFloat f64
  | VBool bool
  | VKeyword rstring
  | VStr rstring
  | VTime i64
  | VBinary "u8 list"
  | VLink i32
  | VMacro rstring
  | VNull
  | VObject "field list"
  | VList "nxs_value list"
and field = Field (fkey: rstring) (fvalue: nxs_value)

lemma size_fvalue [termination_simp]: "f \<in> set fs \<Longrightarrow> size (fvalue f) \<le> size_list size fs"
proof (induction fs)
  case (Cons g fs)
  then show ?case by (cases g) auto
qed simp

definition MAX_DEPTH :: nat where "MAX_DEPTH = 64"

definition sigil_name :: "nxs_value \<Rightarrow> string" where
  "sigil_name v =
     (case v of
        VInt _ \<Rightarrow> ''int'' | VFloat _ \<Rightarrow> ''float'' | VBool _ \<Rightarrow> ''bool'' | VKeyword _ \<Rightarrow> ''keyword''
      | VStr _ \<Rightarrow> ''str'' | VTime _ \<Rightarrow> ''time'' | VBinary _ \<Rightarrow> ''binary'' | VLink _ \<Rightarrow> ''link''
      | VMacro _ \<Rightarrow> ''macro'' | VNull \<Rightarrow> ''null'' | VObject _ \<Rightarrow> ''object'' | VList _ \<Rightarrow> ''list'')"

definition peek :: "token list \<Rightarrow> token" where
  "peek ts = (case ts of [] \<Rightarrow> TEof | t # _ \<Rightarrow> t)"

lemma peek_simps [simp]: "peek [] = TEof" "peek (t # ts) = t"
  by (simp_all add: peek_def)

definition expect :: "token \<Rightarrow> token list \<Rightarrow> token list res" where
  "expect t ts =
     (if peek ts = t then Ok (tl ts) else Err (ParseError ''expected {expected:?}, got {t:?}''))"

definition skip_token :: "token \<Rightarrow> token list \<Rightarrow> token list" where
  "skip_token t ts = (if peek ts = t then tl ts else ts)"

lemma length_skip_token: "length (skip_token t ts) \<le> length ts"
  by (simp add: skip_token_def)

text \<open>The arms of \<open>parse_value\<close> that hold no further value.\<close>

definition token_value :: "token \<Rightarrow> nxs_value option" where
  "token_value t =
     (case t of
        TInt n \<Rightarrow> Some (VInt n) | TFloat f \<Rightarrow> Some (VFloat f) | TBool b \<Rightarrow> Some (VBool b)
      | TKeyword s \<Rightarrow> Some (VKeyword s) | TStr s \<Rightarrow> Some (VStr s) | TTime n \<Rightarrow> Some (VTime n)
      | TBinary b \<Rightarrow> Some (VBinary b) | TLink n \<Rightarrow> Some (VLink n) | TMacro s \<Rightarrow> Some (VMacro s)
      | TNull \<Rightarrow> Some VNull | _ \<Rightarrow> None)"

definition ident_of :: "token \<Rightarrow> rstring option" where
  "ident_of t = (case t of TIdent s \<Rightarrow> Some s | _ \<Rightarrow> None)"

function
  parse_field :: "nat \<Rightarrow> token list \<Rightarrow> (field \<times> token list) res" and
  parse_value :: "nat \<Rightarrow> token list \<Rightarrow> (nxs_value \<times> token list) res" and
  parse_object :: "nat \<Rightarrow> token list \<Rightarrow> (nxs_value \<times> token list) res" and
  parse_fields :: "nat \<Rightarrow> token list \<Rightarrow> (field list \<times> token list) res" and
  parse_list :: "nat \<Rightarrow> token list \<Rightarrow> (nxs_value \<times> token list) res" and
  parse_elems :: "nat \<Rightarrow> string option \<Rightarrow> token list \<Rightarrow> (nxs_value list \<times> token list) res"
where
  "parse_field d ts =
     (case ident_of (peek ts) of
        None \<Rightarrow> Err (ParseError ''expected field key, got {other:?}'')
      | Some s \<Rightarrow>
          rbind (parse_value d (skip_token TColon (tl ts))) (\<lambda>(v, r). Ok (Field s v, r)))"
| "parse_value d ts =
     (if peek ts = TLBrace then parse_object d ts
      else if peek ts = TLBracket then parse_list d ts
      else case token_value (peek ts) of
             Some v \<Rightarrow> Ok (v, tl ts)
           | None \<Rightarrow> Err (ParseError ''unexpected token for value: {other:?}''))"
| "parse_object d ts =
     (if MAX_DEPTH < Suc d then Err RecursionLimit
      else rbind (expect TLBrace ts) (\<lambda>ts1.
           rbind (parse_fields (Suc d) ts1) (\<lambda>(fs, ts2).
           rbind (expect TRBrace ts2) (\<lambda>r. Ok (VObject fs, r)))))"
| "parse_fields d ts =
     (if peek ts = TRBrace \<or> peek ts = TEof then Ok ([], ts)
      else rbind (parse_field d ts) (\<lambda>(f, r).
           rbind (parse_fields d (skip_token TComma r)) (\<lambda>(fs, r'). Ok (f # fs, r'))))"
| "parse_list d ts =
     rbind (expect TLBracket ts) (\<lambda>ts1.
     rbind (parse_elems d None ts1) (\<lambda>(vs, ts2).
     rbind (expect TRBracket ts2) (\<lambda>r. Ok (VList vs, r))))"
| "parse_elems d tag ts =
     (if peek ts = TRBracket \<or> peek ts = TEof then Ok ([], ts)
      else rbind (parse_value d ts) (\<lambda>(v, r).
           if tag \<noteq> None \<and> tag \<noteq> Some (sigil_name v) then Err ListTypeMismatch
           else rbind (parse_elems d (Some (sigil_name v)) (skip_token TComma r)) (\<lambda>(vs, r').
                Ok (v # vs, r'))))"
  by pat_completeness auto

lemma expect_Ok_length: "expect t ts = Ok r \<Longrightarrow> t \<noteq> TEof \<Longrightarrow> length r < length ts"
  by (cases ts) (auto simp: expect_def split: if_splits)

text \<open>
  A parse that succeeds leaves fewer tokens, which is why the loops end.  The fact is proved on the
  domain of the functions first, since it is what makes the loops of the parser end.
\<close>

lemma parse_shrinks:
  "parse_field_parse_value_parse_object_parse_fields_parse_list_parse_elems_dom (Inl (Inl (d1, ts1))) \<Longrightarrow>
    parse_field d1 ts1 = Ok (f, r1) \<Longrightarrow> length r1 < length ts1"
  "parse_field_parse_value_parse_object_parse_fields_parse_list_parse_elems_dom (Inl (Inr (Inl (d2, ts2)))) \<Longrightarrow>
    parse_value d2 ts2 = Ok (v2, r2) \<Longrightarrow> length r2 < length ts2"
  "parse_field_parse_value_parse_object_parse_fields_parse_list_parse_elems_dom (Inl (Inr (Inr (d3, ts3)))) \<Longrightarrow>
    parse_object d3 ts3 = Ok (v3, r3) \<Longrightarrow> length r3 < length ts3"
  "parse_field_parse_value_parse_object_parse_fields_parse_list_parse_elems_dom (Inr (Inl (d4, ts4))) \<Longrightarrow>
    parse_fields d4 ts4 = Ok (fs, r4) \<Longrightarrow> length r4 \<le> length ts4"
  "parse_field_parse_value_parse_object_parse_fields_parse_list_parse_elems_dom (Inr (Inr (Inl (d5, ts5)))) \<Longrightarrow>
    parse_list d5 ts5 = Ok (v5, r5) \<Longrightarrow> length r5 < length ts5"
  "parse_field_parse_value_parse_object_parse_fields_parse_list_parse_elems_dom (Inr (Inr (Inr (d6, tag, ts6)))) \<Longrightarrow>
    parse_elems d6 tag ts6 = Ok (vs, r6) \<Longrightarrow> length r6 \<le> length ts6"
proof (induction d1 ts1 and d2 ts2 and d3 ts3 and d4 ts4 and d5 ts5 and d6 tag ts6
    arbitrary: f r1 and v2 r2 and v3 r3 and fs r4 and v5 r5 and vs r6
    rule: parse_field_parse_value_parse_object_parse_fields_parse_list_parse_elems.pinduct)
  case (1 d ts)
  from 1(3) obtain s v where i: "ident_of (peek ts) = Some s"
    and v: "parse_value d (skip_token TColon (tl ts)) = Ok (v, r1)"
    by (auto simp: parse_field.psimps[OF 1(1)] res_simps split: option.splits)
  have "0 < length ts" using i by (cases ts) (auto simp: ident_of_def)
  with 1(2)[OF i v] length_skip_token[of TColon "tl ts"] show ?case by (cases ts) auto
next
  case (2 d ts)
  consider "peek ts = TLBrace" | "peek ts = TLBracket"
    | "peek ts \<noteq> TLBrace" "peek ts \<noteq> TLBracket" by blast
  then show ?case
  proof cases
    case 1
    with 2(4) have "parse_object d ts = Ok (v2, r2)" by (simp add: parse_value.psimps[OF 2(1)])
    then show ?thesis by (rule 2(2)[OF 1])
  next
    case two: 2
    then have "peek ts \<noteq> TLBrace" by simp
    moreover from 2(4) two have "parse_list d ts = Ok (v2, r2)"
      by (simp add: parse_value.psimps[OF 2(1)])
    ultimately show ?thesis by (rule 2(3)[OF _ two])
  next
    case 3
    with 2(4) have "token_value (peek ts) = Some v2 \<and> r2 = tl ts"
      by (auto simp: parse_value.psimps[OF 2(1)] split: option.splits)
    then show ?thesis by (cases ts) (auto simp: token_value_def)
  qed
next
  case (3 d ts)
  from 3(3) obtain ts1 fs ts2 where o: "\<not> MAX_DEPTH < Suc d" "expect TLBrace ts = Ok ts1"
    "parse_fields (Suc d) ts1 = Ok (fs, ts2)" "expect TRBrace ts2 = Ok r3"
    by (auto simp: parse_object.psimps[OF 3(1)] res_simps split: if_splits)
  with 3(2)[OF o(1,2,3)] show ?case by (auto dest!: expect_Ok_length)
next
  case (4 d ts)
  show ?case
  proof (cases "peek ts = TRBrace \<or> peek ts = TEof")
    case True
    with 4(4) show ?thesis by (auto simp: parse_fields.psimps[OF 4(1)])
  next
    case False
    with 4(4) obtain f r fs' where o: "parse_field d ts = Ok (f, r)"
      "parse_fields d (skip_token TComma r) = Ok (fs', r4)"
      by (auto simp: parse_fields.psimps[OF 4(1)] res_simps split: if_splits)
    from 4(2)[OF False o(1)] 4(3)[OF False o(1) refl o(2)] length_skip_token[of TComma r]
    show ?thesis by auto
  qed
next
  case (5 d ts)
  from 5(3) obtain ts1 vs ts2 where o: "expect TLBracket ts = Ok ts1"
    "parse_elems d None ts1 = Ok (vs, ts2)" "expect TRBracket ts2 = Ok r5"
    by (auto simp: parse_list.psimps[OF 5(1)] res_simps)
  with 5(2)[OF o(1,2)] show ?case by (auto dest!: expect_Ok_length)
next
  case (6 d tag ts)
  show ?case
  proof (cases "peek ts = TRBracket \<or> peek ts = TEof")
    case True
    with 6(4) show ?thesis by (auto simp: parse_elems.psimps[OF 6(1)])
  next
    case False
    with 6(4) obtain v r vs' where o: "parse_value d ts = Ok (v, r)"
      "\<not> (tag \<noteq> None \<and> tag \<noteq> Some (sigil_name v))"
      "parse_elems d (Some (sigil_name v)) (skip_token TComma r) = Ok (vs', r6)"
      by (auto simp: parse_elems.psimps[OF 6(1)] res_simps split: if_splits)
    from 6(2)[OF False o(1)] 6(3)[OF False o(1) refl o(2,3)] length_skip_token[of TComma r]
    show ?thesis by auto
  qed
qed

lemma parse_dom: "All parse_field_parse_value_parse_object_parse_fields_parse_list_parse_elems_dom"
proof (rule "parse_field_parse_value_parse_object_parse_fields_parse_list_parse_elems.termination"[of "measure (\<lambda>x. case x of
      Inl (Inl (d, ts)) \<Rightarrow> 4 * length ts + 2
    | Inl (Inr (Inl (d, ts))) \<Rightarrow> 4 * length ts + 1
    | Inl (Inr (Inr (d, ts))) \<Rightarrow> 4 * length ts
    | Inr (Inl (d, ts)) \<Rightarrow> 4 * length ts + 3
    | Inr (Inr (Inl (d, ts))) \<Rightarrow> 4 * length ts
    | Inr (Inr (Inr (d, tag, ts))) \<Rightarrow> 4 * length ts + 3)"], goal_cases)
  case (2 d ts s)
  then have "0 < length ts" by (cases ts) (auto simp: ident_of_def)
  with length_skip_token[of TColon "tl ts"] show ?case by simp
next
  case (7 d ts x f r)
  then show ?case
    using parse_shrinks(1)[of d ts f r] length_skip_token[of TComma r] by simp
next
  case (10 d tag ts x v r)
  then show ?case
    using parse_shrinks(2)[of d ts v r] length_skip_token[of TComma r] by simp
qed (auto dest!: expect_Ok_length)

termination parse_field
  by (rule parse_dom)

lemmas parse_simps = parse_field.simps parse_value.simps parse_object.simps parse_fields.simps
  parse_list.simps parse_elems.simps

declare parse_simps [simp del]

lemma parse_field_shrinks: "parse_field d ts = Ok (f, r) \<Longrightarrow> length r < length ts"
  by (rule parse_shrinks(1)[OF spec[OF parse_dom]])

text \<open>\<open>parse_file\<close>: fields up to the end of input, with no separator between them.\<close>

function parse_file :: "token list \<Rightarrow> field list res" where
  "parse_file ts =
     (if peek ts = TEof then Ok []
      else rbind (parse_field 0 ts) (\<lambda>(f, r). rbind (parse_file r) (\<lambda>fs. Ok (f # fs))))"
  by pat_completeness auto

termination parse_file
  by (relation "measure length") (auto dest: parse_field_shrinks)

declare parse_file.simps [simp del]

subsection \<open>The grammar\<close>

text \<open>
  The grammar of the parser, as rules that derive a token sequence for a value, a field, the fields of an
  object, the elements of a list and the fields of a file.  A colon behind a key and a comma behind a
  field of an object or an element of a list may be left out; between the fields of a file there is none.
  Objects nest at most \<open>MAX_DEPTH\<close> deep -- lists do not count -- and the elements of a list have one sigil.
\<close>

fun literal :: "nxs_value \<Rightarrow> token option" where
  "literal (VInt n) = Some (TInt n)"
| "literal (VFloat f) = Some (TFloat f)"
| "literal (VBool b) = Some (TBool b)"
| "literal (VKeyword s) = Some (TKeyword s)"
| "literal (VStr s) = Some (TStr s)"
| "literal (VTime n) = Some (TTime n)"
| "literal (VBinary b) = Some (TBinary b)"
| "literal (VLink n) = Some (TLink n)"
| "literal (VMacro s) = Some (TMacro s)"
| "literal VNull = Some TNull"
| "literal _ = None"

definition one_sigil :: "nxs_value list \<Rightarrow> bool" where
  "one_sigil vs \<longleftrightarrow> (\<forall>v \<in> set vs. \<forall>w \<in> set vs. sigil_name v = sigil_name w)"

inductive
  value_derives :: "nat \<Rightarrow> nxs_value \<Rightarrow> token list \<Rightarrow> bool" and
  field_derives :: "nat \<Rightarrow> field \<Rightarrow> token list \<Rightarrow> bool" and
  fields_derive :: "nat \<Rightarrow> field list \<Rightarrow> token list \<Rightarrow> bool" and
  elems_derive :: "nat \<Rightarrow> nxs_value list \<Rightarrow> token list \<Rightarrow> bool"
where
  d_literal: "literal v = Some t \<Longrightarrow> value_derives d v [t]"
| d_object: "Suc d \<le> MAX_DEPTH \<Longrightarrow> fields_derive (Suc d) fs ts \<Longrightarrow>
    value_derives d (VObject fs) (TLBrace # ts @ [TRBrace])"
| d_list: "one_sigil vs \<Longrightarrow> elems_derive d vs ts \<Longrightarrow> value_derives d (VList vs) (TLBracket # ts @ [TRBracket])"
| d_field: "value_derives d v ts \<Longrightarrow> colon = [] \<or> colon = [TColon] \<Longrightarrow>
    field_derives d (Field k v) (TIdent k # colon @ ts)"
| d_no_fields: "fields_derive d [] []"
| d_fields: "field_derives d f ts \<Longrightarrow> comma = [] \<or> comma = [TComma] \<Longrightarrow> fields_derive d fs us \<Longrightarrow>
    fields_derive d (f # fs) (ts @ comma @ us)"
| d_no_elems: "elems_derive d [] []"
| d_elems: "value_derives d v ts \<Longrightarrow> comma = [] \<or> comma = [TComma] \<Longrightarrow> elems_derive d vs us \<Longrightarrow>
    elems_derive d (v # vs) (ts @ comma @ us)"

inductive file_derives :: "field list \<Rightarrow> token list \<Rightarrow> bool" where
  d_empty_file: "file_derives [] []"
| d_file: "field_derives 0 f ts \<Longrightarrow> file_derives fs us \<Longrightarrow> file_derives (f # fs) (ts @ us)"

inductive_cases value_derivesE: "value_derives d v ts"
inductive_cases field_derivesE: "field_derives d f ts"
inductive_cases fields_deriveE: "fields_derive d fs ts"
inductive_cases elems_deriveE: "elems_derive d vs ts"

lemmas derives_intros = value_derives_field_derives_fields_derive_elems_derive.intros

text \<open>The loop of \<open>parse_list\<close> compares each sigil with the one before.\<close>

definition same_sigils :: "string option \<Rightarrow> nxs_value list \<Rightarrow> bool" where
  "same_sigils tag vs =
     (case vs of [] \<Rightarrow> True
      | v # _ \<Rightarrow> (tag = None \<or> tag = Some (sigil_name v))
               \<and> list_all (\<lambda>w. sigil_name w = sigil_name v) vs)"

lemma same_sigils_Cons:
  "same_sigils tag (v # vs) =
     ((tag = None \<or> tag = Some (sigil_name v)) \<and> same_sigils (Some (sigil_name v)) vs)"
  by (cases vs) (auto simp: same_sigils_def)

lemma same_sigils_Nil [simp]: "same_sigils tag []"
  by (simp add: same_sigils_def)

lemma same_sigils_None: "same_sigils None vs = one_sigil vs"
  by (cases vs) (auto simp: same_sigils_def one_sigil_def list_all_iff)

lemma literal_token_value: "(literal v = Some t) = (token_value t = Some v)"
  by (cases v; cases t) (auto simp: token_value_def)

subsection \<open>Everything the grammar derives is parsed\<close>

lemma value_derives_head:
  "value_derives d v ts \<Longrightarrow> peek (ts @ r) \<notin> {TRBracket, TEof, TComma, TColon}"
  by (erule value_derivesE) (auto simp: literal_token_value token_value_def split: token.splits)

lemma field_derives_head: "field_derives d f ts \<Longrightarrow> peek (ts @ r) \<notin> {TRBrace, TEof, TComma}"
  by (erule field_derivesE) auto

lemma fields_derive_head: "fields_derive d fs ts \<Longrightarrow> peek (ts @ TRBrace # r) \<noteq> TComma"
proof (erule fields_deriveE)
  fix f us comma gs ws
  assume "field_derives d f us" "ts = us @ comma @ ws"
  then show ?thesis using field_derives_head[of d f us "comma @ ws @ TRBrace # r"] by simp
qed simp

lemma elems_derive_head: "elems_derive d vs ts \<Longrightarrow> peek (ts @ TRBracket # r) \<noteq> TComma"
proof (erule elems_deriveE)
  fix v us comma ws xs
  assume "value_derives d v us" "ts = us @ comma @ xs"
  then show ?thesis using value_derives_head[of d v us "comma @ xs @ TRBracket # r"] by simp
qed simp

lemma skip_optional:
  "xs = [] \<or> xs = [t] \<Longrightarrow> peek ts \<noteq> t \<Longrightarrow> skip_token t (xs @ ts) = ts"
  by (auto simp: skip_token_def)

lemma derived_is_parsed:
  "value_derives d v ts \<Longrightarrow> parse_value d (ts @ r) = Ok (v, r)"
  "field_derives d f ts \<Longrightarrow> parse_field d (ts @ r) = Ok (f, r)"
  "fields_derive d fs ts \<Longrightarrow> parse_fields d (ts @ TRBrace # r) = Ok (fs, TRBrace # r)"
  "elems_derive d vs ts \<Longrightarrow> same_sigils tag vs \<Longrightarrow> parse_elems d tag (ts @ TRBracket # r) = Ok (vs, TRBracket # r)"
proof (induction arbitrary: r and r and r and tag r rule: value_derives_field_derives_fields_derive_elems_derive.inducts)
  case (d_literal v t d)
  then show ?case
    by (auto simp: parse_value.simps literal_token_value token_value_def split: token.splits)
next
  case (d_object d fs ts)
  then show ?case by (simp add: parse_value.simps parse_object.simps expect_def)
next
  case (d_list vs d ts)
  then show ?case
    by (simp add: parse_value.simps[of d "_ # _"] parse_list.simps expect_def same_sigils_None)
next
  case (d_field d v ts colon k)
  have "skip_token TColon (colon @ ts @ r) = ts @ r"
    using d_field(2) value_derives_head[OF d_field(1)] by (intro skip_optional) auto
  then show ?case by (simp add: parse_field.simps ident_of_def d_field.IH)
next
  case (d_no_fields d)
  then show ?case by (simp add: parse_fields.simps)
next
  case (d_fields d f ts comma fs us)
  have "skip_token TComma (comma @ us @ TRBrace # r) = us @ TRBrace # r"
    using d_fields(2) fields_derive_head[OF d_fields(3)] by (intro skip_optional) auto
  then show ?case
    using field_derives_head[OF d_fields(1)] by (subst parse_fields.simps) (simp add: d_fields.IH)
next
  case (d_no_elems d)
  then show ?case by (simp add: parse_elems.simps)
next
  case (d_elems d v ts comma vs us)
  have "skip_token TComma (comma @ us @ TRBracket # r) = us @ TRBracket # r"
    using d_elems(2) elems_derive_head[OF d_elems(3)] by (intro skip_optional) auto
  then show ?case
    using value_derives_head[OF d_elems(1)] d_elems.prems
    by (subst parse_elems.simps) (auto simp: d_elems.IH same_sigils_Cons)
qed

subsection \<open>Everything that is parsed is derived by the grammar\<close>

lemma expect_OkD: "expect t ts = Ok r \<Longrightarrow> t \<noteq> TEof \<Longrightarrow> ts = t # r"
  by (cases ts) (auto simp: expect_def split: if_splits)

lemma skip_token_split: "\<exists>xs. (xs = [] \<or> xs = [t]) \<and> ts = xs @ skip_token t ts" if "t \<noteq> TEof"
  using that by (cases ts) (auto simp: skip_token_def)

lemma parsed_is_derived:
  "parse_field d1 ts1 = Ok (f, r1) \<Longrightarrow> \<exists>us. ts1 = us @ r1 \<and> field_derives d1 f us"
  "parse_value d2 ts2 = Ok (v2, r2) \<Longrightarrow> \<exists>us. ts2 = us @ r2 \<and> value_derives d2 v2 us"
  "parse_object d3 ts3 = Ok (v3, r3) \<Longrightarrow> \<exists>us. ts3 = us @ r3 \<and> value_derives d3 v3 us"
  "parse_fields d4 ts4 = Ok (fs, r4) \<Longrightarrow> \<exists>us. ts4 = us @ r4 \<and> fields_derive d4 fs us"
  "parse_list d5 ts5 = Ok (v5, r5) \<Longrightarrow> \<exists>us. ts5 = us @ r5 \<and> value_derives d5 v5 us"
  "parse_elems d6 tag ts6 = Ok (vs, r6) \<Longrightarrow> same_sigils tag vs \<and> (\<exists>us. ts6 = us @ r6 \<and> elems_derive d6 vs us)"
proof (induction d1 ts1 and d2 ts2 and d3 ts3 and d4 ts4 and d5 ts5 and d6 tag ts6
    arbitrary: f r1 and v2 r2 and v3 r3 and fs r4 and v5 r5 and vs r6
    rule: parse_field_parse_value_parse_object_parse_fields_parse_list_parse_elems.induct)
  case (1 d ts)
  from 1(2) obtain k v where k: "ident_of (peek ts) = Some k" "f = Field k v"
    and v: "parse_value d (skip_token TColon (tl ts)) = Ok (v, r1)"
    by (auto simp: parse_field.simps[of d ts] res_simps split: option.splits)
  then have ts: "ts = TIdent k # tl ts" by (cases ts) (auto simp: ident_of_def split: token.splits)
  obtain us where us: "skip_token TColon (tl ts) = us @ r1" "value_derives d v us" using 1(1)[OF k(1) v] by blast
  obtain colon where "colon = [] \<or> colon = [TColon]" "tl ts = colon @ skip_token TColon (tl ts)"
    using skip_token_split[of TColon "tl ts"] by auto
  then have "ts = (TIdent k # colon @ us) @ r1 \<and> field_derives d f (TIdent k # colon @ us)"
    using ts us k(2) by (auto intro: d_field)
  then show ?case by blast
next
  case (2 d ts)
  consider "peek ts = TLBrace" | "peek ts = TLBracket" | "peek ts \<noteq> TLBrace" "peek ts \<noteq> TLBracket" by blast
  then show ?case
  proof cases
    case 3
    then have t: "token_value (peek ts) = Some v2" "r2 = tl ts"
      using 2(3) by (auto simp: parse_value.simps[of d ts] split: option.splits)
    then have "ts = [peek ts] @ r2" by (cases ts) (auto simp: token_value_def)
    then show ?thesis using t(1) d_literal[of v2 "peek ts" d] by (metis literal_token_value)
  qed (use 2 in \<open>auto simp: parse_value.simps[of d ts]\<close>)
next
  case (3 d ts)
  from 3(2) obtain ts1 fs ts2 where o: "\<not> MAX_DEPTH < Suc d" "expect TLBrace ts = Ok ts1"
    "parse_fields (Suc d) ts1 = Ok (fs, ts2)" "expect TRBrace ts2 = Ok r3" "v3 = VObject fs"
    by (auto simp: parse_object.simps[of d ts] res_simps split: if_splits)
  obtain us where us: "ts1 = us @ ts2" "fields_derive (Suc d) fs us" using 3(1)[OF o(1-3)] by blast
  have "ts = (TLBrace # us @ [TRBrace]) @ r3" using expect_OkD[OF o(2)] expect_OkD[OF o(4)] us(1) by simp
  moreover have "value_derives d v3 (TLBrace # us @ [TRBrace])" using o(1,5) us(2) by (auto intro: d_object)
  ultimately show ?case by blast
next
  case (4 d ts)
  show ?case
  proof (cases "peek ts = TRBrace \<or> peek ts = TEof")
    case True
    then show ?thesis using 4(3) by (auto simp: parse_fields.simps[of d ts] intro: d_no_fields)
  next
    case False
    with 4(3) obtain f r fs' where o: "parse_field d ts = Ok (f, r)"
      "parse_fields d (skip_token TComma r) = Ok (fs', r4)" "fs = f # fs'"
      by (auto simp: parse_fields.simps[of d ts] res_simps split: if_splits)
    obtain us ws where us: "ts = us @ r" "field_derives d f us"
      and ws: "skip_token TComma r = ws @ r4" "fields_derive d fs' ws"
      using 4(1)[OF False o(1)] 4(2)[OF False o(1) refl o(2)] by blast
    obtain comma where "comma = [] \<or> comma = [TComma]" "r = comma @ skip_token TComma r"
      using skip_token_split[of TComma r] by auto
    then have "ts = (us @ comma @ ws) @ r4 \<and> fields_derive d fs (us @ comma @ ws)"
      using us ws o(3) by (auto intro: d_fields)
    then show ?thesis by blast
  qed
next
  case (5 d ts)
  from 5(2) obtain ts1 vs ts2 where o: "expect TLBracket ts = Ok ts1"
    "parse_elems d None ts1 = Ok (vs, ts2)" "expect TRBracket ts2 = Ok r5" "v5 = VList vs"
    by (auto simp: parse_list.simps[of d ts] res_simps)
  obtain us where us: "ts1 = us @ ts2" "elems_derive d vs us" "same_sigils None vs" using 5(1)[OF o(1,2)] by blast
  have "ts = (TLBracket # us @ [TRBracket]) @ r5" using expect_OkD[OF o(1)] expect_OkD[OF o(3)] us(1) by simp
  moreover have "value_derives d v5 (TLBracket # us @ [TRBracket])"
    using o(4) us(2,3) by (auto simp: same_sigils_None intro: d_list)
  ultimately show ?case by blast
next
  case (6 d tag ts)
  show ?case
  proof (cases "peek ts = TRBracket \<or> peek ts = TEof")
    case True
    then show ?thesis using 6(3) by (auto simp: parse_elems.simps[of d tag ts] intro: d_no_elems)
  next
    case False
    with 6(3) obtain v r vs' where o: "parse_value d ts = Ok (v, r)"
      "\<not> (tag \<noteq> None \<and> tag \<noteq> Some (sigil_name v))"
      "parse_elems d (Some (sigil_name v)) (skip_token TComma r) = Ok (vs', r6)" "vs = v # vs'"
      by (auto simp: parse_elems.simps[of d tag ts] res_simps split: if_splits)
    obtain us ws where us: "ts = us @ r" "value_derives d v us" and same: "same_sigils (Some (sigil_name v)) vs'"
      and ws: "skip_token TComma r = ws @ r6" "elems_derive d vs' ws"
      using 6(1)[OF False o(1)] 6(2)[OF False o(1) refl o(2,3)] by blast
    obtain comma where "comma = [] \<or> comma = [TComma]" "r = comma @ skip_token TComma r"
      using skip_token_split[of TComma r] by auto
    then have "ts = (us @ comma @ ws) @ r6 \<and> elems_derive d vs (us @ comma @ ws)"
      using us ws o(4) by (auto intro: d_elems)
    moreover have "same_sigils tag vs" using same o(2,4) by (auto simp: same_sigils_Cons)
    ultimately show ?thesis by blast
  qed
qed

lemma derived_file: "file_derives fs us \<Longrightarrow> peek rest = TEof \<Longrightarrow> parse_file (us @ rest) = Ok fs"
proof (induction rule: file_derives.induct)
  case d_empty_file
  then show ?case by (simp add: parse_file.simps)
next
  case (d_file f ts fs us)
  then show ?case
    using field_derives_head[OF d_file(1), of "us @ rest"]
    by (subst parse_file.simps) (simp add: derived_is_parsed(2))
qed

lemma parsed_file:
  "parse_file ts = Ok fs \<Longrightarrow> \<exists>us rest. ts = us @ rest \<and> peek rest = TEof \<and> file_derives fs us"
proof (induction ts arbitrary: fs rule: parse_file.induct)
  case (1 ts)
  show ?case
  proof (cases "peek ts = TEof")
    case True
    with 1(2) show ?thesis by (subst (asm) parse_file.simps) (auto intro: d_empty_file)
  next
    case False
    with 1(2) obtain f r fs' where o: "parse_field 0 ts = Ok (f, r)" "parse_file r = Ok fs'" "fs = f # fs'"
      by (subst (asm) parse_file.simps) (auto simp: res_simps)
    obtain us ws rest where "ts = us @ r" "field_derives 0 f us" "r = ws @ rest" "peek rest = TEof" "file_derives fs' ws"
      using parsed_is_derived(1)[OF o(1)] 1(1)[OF False o(1) refl o(2)] by blast
    then have "ts = (us @ ws) @ rest \<and> peek rest = TEof \<and> file_derives fs (us @ ws)" using o(3) by (auto intro: d_file)
    then show ?thesis by blast
  qed
qed


end
