(* ===== verification/Wire.thy ===== *)
theory Wire
  imports Rust_Text
begin

text \<open>
  What the encoders and the decoders of the format share: the contract of a fixed-width field, the
  presence bitmask and the schema hash.

  The presence bitmask is written by \<open>build_bitmask\<close> of \<^verbatim>\<open>rust/src/compiler.rs\<close> and read by the
  loop at the head of \<open>decode_object\<close> of \<^verbatim>\<open>rust/src/decoder.rs\<close>.  \<open>murmur3_64\<close> stands three times in
  the source, word for word, in \<^verbatim>\<open>compiler.rs\<close>, \<^verbatim>\<open>decoder.rs\<close> and \<^verbatim>\<open>writer.rs\<close>.
\<close>

section \<open>Fixed-width fields\<close>

text \<open>A Rust slice holds fewer than \<open>2 ^ 63\<close> bytes.\<close>

abbreviation fits :: "u8 list \<Rightarrow> bool" where
  "fits data \<equiv> length data < ISIZE_LIM"

text \<open>
  The contract between a writer and a reader of fields of \<open>w\<close> bytes: a field is read back from
  wherever it was written.  Arrays of such fields -- offset tables, tail indexes, columns -- are
  then indexed by \<open>start + i * w\<close>.
\<close>

locale fixed_codec =
  fixes enc :: "'a \<Rightarrow> u8 list" and rd :: "u8 list \<Rightarrow> usize \<Rightarrow> 'a res" and w :: nat
  assumes length_enc: "length (enc v) = w"
    and rd_enc: "fits (xs @ enc v @ ys) \<Longrightarrow> rd (xs @ enc v @ ys) (length xs) = Ok v"
begin

lemma rd_at: "fits data \<Longrightarrow> data = xs @ enc v @ ys \<Longrightarrow> pos = length xs \<Longrightarrow> rd data pos = Ok v"
  by (simp add: rd_enc)

lemma length_array: "length (concat (map enc vs)) = length vs * w"
  by (induction vs) (simp_all add: length_enc)

lemma rd_array:
  assumes "k < length vs" and "pos = length xs + k * w"
    and "fits (xs @ concat (map enc vs) @ ys)"
  shows "rd (xs @ concat (map enc vs) @ ys) pos = Ok (vs ! k)"
proof -
  have vs: "vs = take k vs @ vs ! k # drop (Suc k) vs"
    using assms(1) by (simp add: id_take_nth_drop)
  have "concat (map enc vs) = concat (map enc (take k vs)) @ enc (vs ! k)
      @ concat (map enc (drop (Suc k) vs))" (is "_ = ?a @ _ @ ?b")
    by (subst vs) simp
  moreover have "pos = length (xs @ ?a)"
    by (simp add: assms length_array min_absorb2 less_imp_le)
  ultimately show ?thesis
    using assms(3) by (intro rd_at[of _ "xs @ ?a" _ "?b @ ys"]) simp_all
qed

lemma rd_all:
  assumes "n = length vs" and "\<And>k. k < n \<Longrightarrow> pos k = length xs + k * w"
    and "fits (xs @ concat (map enc vs) @ ys)"
  shows "rmap (\<lambda>k. rd (xs @ concat (map enc vs) @ ys) (pos k)) [0..<n] = Ok vs"
proof -
  have "rmap (\<lambda>k. rd (xs @ concat (map enc vs) @ ys) (pos k)) [0..<n] = Ok (map ((!) vs) [0..<n])"
    using assms by (intro rmap_Ok_map) (simp add: rd_array)
  then show ?thesis using assms(1) by (simp add: map_nth)
qed

end

interpretation u16c: fixed_codec u16_le rd_u16 2
  by unfold_locales (simp_all add: byte_simps seg_at)

interpretation u32c: fixed_codec u32_le rd_u32 4
  by unfold_locales (simp_all add: byte_simps seg_at)

interpretation u64c: fixed_codec u64_le rd_u64 8
  by unfold_locales (simp_all add: byte_simps seg_at)

section \<open>The presence bitmask\<close>

text \<open>\<open>for (bit_pos, &set) in chunk.iter().enumerate() { if set { byte |= 1 << bit_pos } }\<close>\<close>

fun set_bits :: "nat \<Rightarrow> bool list \<Rightarrow> u8 \<Rightarrow> u8" where
  "set_bits p [] b = b"
| "set_bits p (s # ss) b = set_bits (Suc p) ss (if s then or b (push_bit p 1) else b)"

function bitmask_loop :: "bool list \<Rightarrow> u8 list" where
  "bitmask_loop bits =
     (if bits = [] then []
      else let byte = set_bits 0 (take 7 bits) 0; has_more = 7 < length bits in
           (if has_more then or byte 0x80 else byte) # bitmask_loop (drop 7 bits))"
  by pat_completeness auto

termination
  by (relation "measure length") simp_all

declare bitmask_loop.simps [simp del]

definition build_bitmask :: "usize list \<Rightarrow> usize \<Rightarrow> u8 list" where
  "build_bitmask present_indices total_keys =
     (if total_keys = 0 then [0]
      else bitmask_loop (map (\<lambda>i. i \<in> set present_indices) [0..<total_keys]))"

text \<open>
  The reading loop: \<open>present_bits\<close> grows by seven bits a byte, at most to 512 before a further byte
  is refused.
\<close>

function read_bitmask :: "u8 list \<Rightarrow> usize \<Rightarrow> bool list \<Rightarrow> (bool list \<times> usize) res" where
  "read_bitmask data pos bits =
     (if length data \<le> pos then Err OutOfBounds
      else if 512 \<le> length bits then Err OutOfBounds
      else let byte = data ! pos;
               bits' = bits @ map (\<lambda>k. and (drop_bit k byte) 1 = 1) [0..<7] in
           if and byte 0x80 = 0 then Ok (bits', pos + 1)
           else read_bitmask data (pos + 1) bits')"
  by pat_completeness auto

termination
  by (relation "measure (\<lambda>(data, pos, bits). length data - pos)") auto

declare read_bitmask.simps [simp del]

section \<open>The schema hash\<close>

definition mul64 :: "u64 \<Rightarrow> u64 \<Rightarrow> u64" where "mul64 a b = a * b"

definition shr_xor :: "u64 \<Rightarrow> u64" where "shr_xor h = xor h (drop_bit 33 h)"

text \<open>\<open>k |= (b as u64) << (i * 8)\<close> over a chunk of at most eight bytes.\<close>

fun chunk_word :: "nat \<Rightarrow> u8 list \<Rightarrow> u64" where
  "chunk_word i [] = 0"
| "chunk_word i (b # bs) = or (push_bit (i * 8) (ucast b)) (chunk_word (Suc i) bs)"

fun murmur_chunks :: "u64 \<Rightarrow> u8 list \<Rightarrow> u64" where
  "murmur_chunks h data =
     (if data = [] then h
      else let k = shr_xor (mul64 (chunk_word 0 (take 8 data)) 0xFF51AFD7ED558CCD) in
           murmur_chunks (shr_xor (mul64 (xor h k) 0xC4CEB9FE1A85EC53)) (drop 8 data))"

declare murmur_chunks.simps [simp del]

definition murmur3_64 :: "u8 list \<Rightarrow> u64" where
  "murmur3_64 data =
     (let h = murmur_chunks 0x93681D6255313A99 data;
          h = shr_xor (xor h (word_of_nat (length data)));
          h = mul64 h 0xFF51AFD7ED558CCD in
      shr_xor h)"

subsection \<open>What the bitmask reads back to\<close>

lemma bit_pow: "bit (2 ^ p :: 'a::len word) k \<longleftrightarrow> k = p \<and> k < LENGTH('a)"
  by (auto simp: bit_exp_iff)

lemma bit_0x80: "bit (128 :: u8) k \<longleftrightarrow> k = 7"
proof -
  have "(128 :: u8) = 2 ^ 7" by simp
  then show ?thesis by (simp only: bit_pow) auto
qed

lemma bit_set_bits:
  "bit (set_bits p ss b) k \<longleftrightarrow> bit b k \<or> k < 8 \<and> p \<le> k \<and> k - p < length ss \<and> ss ! (k - p)"
proof (induction p ss b rule: set_bits.induct)
  case (2 p s ss b)
  have "bit (if s then or b (push_bit p 1) else b) k \<longleftrightarrow> bit b k \<or> (s \<and> k = p \<and> k < 8)"
    by (auto simp: bit_or_iff bit_pow)
  moreover have "(s # ss) ! (k - p) = ss ! (k - Suc p)" if "p < k"
    using that by (simp add: nth_Cons')
  ultimately show ?case using 2 by (cases "k = p") (auto simp: Suc_le_eq)
qed simp

lemma read_bit: "(and (drop_bit k b) 1 = (1 :: u8)) = bit b k"
  by (simp add: and_one_eq odd_iff_mod_2_eq_one[symmetric] bit_iff_odd_drop_bit)

lemma byte_high_bit: "(and b 0x80 = (0 :: u8)) = (\<not> bit b 7)"
  by (auto simp: bit_eq_iff[of "and b _" 0] bit_and_iff bit_0x80 simp del: bit_numeral_word_iff
      dest: spec[of _ 7])

definition padded7 :: "bool list \<Rightarrow> bool list" where
  "padded7 bs = bs @ replicate ((7 - length bs mod 7) mod 7) False"

lemma length_bitmask_loop: "length (bitmask_loop bits) = (length bits + 6) div 7"
proof (induction bits rule: bitmask_loop.induct)
  case (1 bits)
  have "Suc ((length bits - 7 + 6) div 7) = (length bits + 6) div 7" if "bits \<noteq> []"
  proof (cases "length bits \<le> 7")
    case True
    with that have "length bits + 6 = 7 + (length bits - 1)" "length bits - 1 < 7" by (cases bits; auto)+
    with True show ?thesis by simp
  next
    case False
    then have "length bits + 6 = (length bits - 7 + 6) + 7" by simp
    then show ?thesis by (metis div_add_self2 Suc_eq_plus1 zero_neq_numeral)
  qed
  with 1 show ?case by (subst bitmask_loop.simps) (auto simp: Let_def)
qed

lemma seven: "[0..<7] = [0, 1, 2, 3, 4, 5, 6 :: nat]"
  by (simp add: upt_rec numeral_eq_Suc)

lemma padded7_length: "bs \<noteq> [] \<Longrightarrow> length bs \<le> 7 \<Longrightarrow> length bs + (7 - length bs mod 7) mod 7 = 7"
  by (cases "length bs = 7") auto

lemma last_chunk_bits:
  "bs \<noteq> [] \<Longrightarrow> length bs \<le> 7 \<Longrightarrow> map (\<lambda>k. bit (set_bits 0 bs 0) k) [0..<7] = padded7 bs"
  by (rule nth_equalityI) (auto simp: padded7_def padded7_length bit_set_bits nth_append)

lemma full_chunk_bits:
  "length bs = 7 \<Longrightarrow> map (\<lambda>k. bit (or (set_bits 0 bs 0) (0x80 :: u8)) k) [0..<7] = bs"
  by (rule nth_equalityI) (auto simp: bit_or_iff bit_set_bits bit_0x80 simp del: bit_numeral_word_iff)

lemma padded7_drop: "7 \<le> length bs \<Longrightarrow> take 7 bs @ padded7 (drop 7 bs) = padded7 bs"
  by (simp add: padded7_def le_mod_geq)

lemma nth_append_here: "(xs @ y # ys) ! length xs = y"
  by simp

lemma read_bitmask_loop:
  assumes "bits \<noteq> []" and "length acc + 7 * ((length bits - 1) div 7) < 512"
  shows "read_bitmask (pre @ bitmask_loop bits @ post) (length pre) acc
       = Ok (acc @ padded7 bits, length pre + (length bits + 6) div 7)"
  using assms
proof (induction bits arbitrary: pre acc rule: bitmask_loop.induct)
  case (1 bits)
  let ?b = "set_bits 0 (take 7 bits) (0::u8)"
  show ?case
  proof (cases "7 < length bits")
    case False
    have "\<not> bit ?b 7" using False by (simp add: bit_set_bits)
    moreover have "bitmask_loop bits = [?b]"
      using False 1(2) by (subst bitmask_loop.simps) (simp add: bitmask_loop.simps)
    moreover have "(length bits + 6) div 7 = 1" using False 1(2) by (cases bits) auto
    ultimately show ?thesis using 1(2,3) False last_chunk_bits[of bits]
      by (subst read_bitmask.simps) (simp add: Let_def read_bit byte_high_bit)
  next
    case True
    let ?c = "or ?b 0x80"
    have len: "length bits + 6 = (length bits - 7 + 6) + 7" "(length bits - 1) = (length bits - 7 - 1) + 7"
      using True by auto
    have bl: "bitmask_loop bits = ?c # bitmask_loop (drop 7 bits)"
      using True by (subst bitmask_loop.simps) (auto simp: Let_def)
    have "bit ?c 7" by (simp add: bit_or_iff bit_0x80 del: bit_numeral_word_iff)
    then have "read_bitmask (pre @ bitmask_loop bits @ post) (length pre) acc
      = read_bitmask ((pre @ [?c]) @ bitmask_loop (drop 7 bits) @ post) (length (pre @ [?c]))
          (acc @ take 7 bits)"
      using 1(3) True full_chunk_bits[of "take 7 bits"]
      by (subst read_bitmask.simps) (simp add: bl Let_def read_bit byte_high_bit)
    also have "\<dots> = Ok ((acc @ take 7 bits) @ padded7 (drop 7 bits),
        length (pre @ [?c]) + (length (drop 7 bits) + 6) div 7)"
    proof (rule 1(1)[OF _ refl refl])
      have "(length bits - 1) div 7 = (length bits - 7 - 1) div 7 + 1" by (simp only: len div_add_self2)
      with 1(3) True show "length (acc @ take 7 bits) + 7 * ((length (drop 7 bits) - 1) div 7) < 512" by simp
    qed (rule 1(2), use True in simp)
    finally have "read_bitmask (pre @ bitmask_loop bits @ post) (length pre) acc
      = Ok (acc @ (take 7 bits @ padded7 (drop 7 bits)),
          length pre + ((length bits - 7 + 6) div 7 + 1))" by simp
    moreover have "(length bits + 6) div 7 = (length bits - 7 + 6) div 7 + 1"
      by (simp only: len div_add_self2)
    moreover have "take 7 bits @ padded7 (drop 7 bits) = padded7 bits"
      using True by (simp add: padded7_drop)
    ultimately show ?thesis by (simp only:)
  qed
qed

lemma read_bitmask_long:
  assumes "bits \<noteq> []" and "512 \<le> length acc + 7 * ((length bits - 1) div 7)"
  shows "read_bitmask (pre @ bitmask_loop bits @ post) (length pre) acc = Err OutOfBounds"
  using assms
proof (induction bits arbitrary: pre acc rule: bitmask_loop.induct)
  case (1 bits)
  let ?c = "or (set_bits 0 (take 7 bits) 0) (0x80::u8)"
  show ?case
  proof (cases "512 \<le> length acc")
    case True
    then show ?thesis by (subst read_bitmask.simps) simp
  next
    case False
    with 1(3) have len: "7 < length bits" by (cases "length bits \<le> 7") (auto simp: div_eq_0_iff)
    then have bl: "bitmask_loop bits = ?c # bitmask_loop (drop 7 bits)"
      by (subst bitmask_loop.simps) (auto simp: Let_def)
    have "bit ?c 7" by (simp add: bit_or_iff bit_0x80 del: bit_numeral_word_iff)
    then have "read_bitmask (pre @ bitmask_loop bits @ post) (length pre) acc
      = read_bitmask ((pre @ [?c]) @ bitmask_loop (drop 7 bits) @ post) (length (pre @ [?c]))
          (acc @ take 7 bits)"
      using False len full_chunk_bits[of "take 7 bits"]
      by (subst read_bitmask.simps) (simp add: bl Let_def read_bit byte_high_bit)
    also have "\<dots> = Err OutOfBounds"
    proof (rule 1(1)[OF _ refl refl])
      have "length bits - 1 = (length bits - 7 - 1) + 7" using len by simp
      then have "(length bits - 1) div 7 = (length bits - 7 - 1) div 7 + 1"
        by (simp only: div_add_self2)
      with 1(3) len show "512 \<le> length (acc @ take 7 bits) + 7 * ((length (drop 7 bits) - 1) div 7)"
        by simp
    qed (rule 1(2), use len in simp)
    finally show ?thesis .
  qed
qed

text \<open>
  C28: The presence bitmask is read back exactly, wherever it stands in a buffer: bit \<open>i\<close> of the
  result is set when slot \<open>i\<close> was present, the bits that fill the last byte are clear, and the
  position moves past the mask.  A mask over more than 518 keys is refused as out of bounds,
  although \<open>build_bitmask\<close> writes one.
\<close>

theorem bitmask_roundtrip:
  assumes "0 < n"
  shows "read_bitmask (pre @ build_bitmask present n @ post) (length pre) []
       = (if n \<le> 518
          then Ok (map (\<lambda>i. i \<in> set present) [0..<n] @ replicate ((7 - n mod 7) mod 7) False,
                   length pre + (n + 6) div 7)
          else Err OutOfBounds)"
proof -
  let ?bits = "map (\<lambda>i. i \<in> set present) [0..<n]"
  have b: "build_bitmask present n = bitmask_loop ?bits" and ne: "?bits \<noteq> []"
    using assms by (simp_all add: build_bitmask_def)
  show ?thesis
  proof (cases "n \<le> 518")
    case True
    then have "(n - 1) div 7 \<le> 517 div 7" by (intro div_le_mono) simp
    then show ?thesis using read_bitmask_loop[OF ne, of "[]" pre post] True
      by (simp add: b padded7_def)
  next
    case False
    then have "518 div 7 \<le> (n - 1) div 7" by (intro div_le_mono) simp
    then show ?thesis using read_bitmask_long[OF ne, of "[]" pre post] False by (simp add: b)
  qed
qed

theorem bitmask_roundtrip_witness:
  "read_bitmask (build_bitmask [0, 8] 9 @ [7]) 0 []
     = Ok ([True, False, False, False, False, False, False, False, True, False, False, False, False, False], 2)"
  proof -
  have "read_bitmask ([] @ build_bitmask [0, 8] 9 @ [7]) (length ([] :: u8 list)) []
    = (if 9 \<le> (518 :: nat)
       then Ok (map (\<lambda>i. i \<in> set [0, 8]) [0..<9] @ replicate ((7 - 9 mod 7) mod 7) False,
                length ([] :: u8 list) + (9 + 6) div 7)
       else Err OutOfBounds)"
    by (rule bitmask_roundtrip) simp
  also have "\<dots> = Ok ([True, False, False, False, False, False, False, False, True, False, False,
      False, False, False], 2)" by code_simp
  finally show ?thesis by simp
qed

section \<open>Readers that advance\<close>

text \<open>
  The contract of a reader that returns a value and the position behind it, for the values on which
  the writer can be inverted.  A run of such values is read by the loop \<open>read_many\<close>.
\<close>

primrec read_many ::
  "(u8 list \<Rightarrow> usize \<Rightarrow> ('a \<times> usize) res) \<Rightarrow> nat \<Rightarrow> u8 list \<Rightarrow> usize \<Rightarrow> ('a list \<times> usize) res"
where
  "read_many rd 0 data p = Ok ([], p)"
| "read_many rd (Suc n) data p =
     rbind (rd data p) (\<lambda>(v, p1). rbind (read_many rd n data p1) (\<lambda>(vs, p2). Ok (v # vs, p2)))"

lemma read_many_no_panic:
  assumes "\<And>p. P p \<Longrightarrow> rd data p \<noteq> Panic" and "\<And>p v q. P p \<Longrightarrow> rd data p = Ok (v, q) \<Longrightarrow> P q" and "P p"
  shows "read_many rd n data p \<noteq> Panic"
  using assms(3)
proof (induction n arbitrary: p)
  case (Suc n)
  show ?case
  proof (cases "rd data p")
    case (Ok x)
    obtain v q where x: "x = (v, q)" by (cases x)
    with Ok Suc assms(2) have "read_many rd n data q \<noteq> Panic" by blast
    then show ?thesis by (cases "read_many rd n data q") (auto simp: Ok x)
  next
    case Panic
    with assms(1) Suc.prems show ?thesis by blast
  qed simp
qed simp

lemma read_many_pos:
  assumes "\<And>p v q. P p \<Longrightarrow> rd data p = Ok (v, q) \<Longrightarrow> P q"
  shows "P p \<Longrightarrow> read_many rd n data p = Ok (vs, q) \<Longrightarrow> P q"
proof (induction n arbitrary: p vs)
  case (Suc n)
  from Suc.prems(2) obtain v p1 vs' where "rd data p = Ok (v, p1)" and "read_many rd n data p1 = Ok (vs', q)"
    by (auto simp: res_simps)
  with Suc.IH Suc.prems(1) assms show ?case by blast
qed simp

locale stream_codec =
  fixes ok :: "'a \<Rightarrow> bool" and enc :: "'a \<Rightarrow> u8 list" and rd :: "u8 list \<Rightarrow> usize \<Rightarrow> ('a \<times> usize) res"
  assumes rd_enc: "ok v \<Longrightarrow> fits (xs @ enc v @ ys) \<Longrightarrow>
      rd (xs @ enc v @ ys) (length xs) = Ok (v, length xs + length (enc v))"
begin

lemma rd_at:
  "ok v \<Longrightarrow> fits data \<Longrightarrow> data = xs @ enc v @ ys \<Longrightarrow> p = length xs \<Longrightarrow> rd data p = Ok (v, p + length (enc v))"
  by (simp add: rd_enc)

lemma read_many_at:
  "list_all ok vs \<Longrightarrow> fits (xs @ concat (map enc vs) @ ys) \<Longrightarrow>
     read_many rd (length vs) (xs @ concat (map enc vs) @ ys) (length xs)
       = Ok (vs, length xs + length (concat (map enc vs)))"
proof (induction vs arbitrary: xs)
  case (Cons v vs)
  have "read_many rd (length vs) ((xs @ enc v) @ concat (map enc vs) @ ys) (length (xs @ enc v))
      = Ok (vs, length (xs @ enc v) + length (concat (map enc vs)))"
    using Cons.prems by (intro Cons.IH) simp_all
  moreover have "rd (xs @ enc v @ concat (map enc vs) @ ys) (length xs) = Ok (v, length xs + length (enc v))"
    using Cons.prems by (intro rd_enc) simp_all
  ultimately show ?case by simp
qed simp

end

text \<open>\<open>n\<close> bytes, with the end checked: \<open>p.checked_add(n)\<close>, compare, slice.\<close>

definition read_block :: "nat \<Rightarrow> u8 list \<Rightarrow> usize \<Rightarrow> (u8 list \<times> usize) res" where
  "read_block n data p =
     rbind (ok_or (checked_add p n) OutOfBounds) (\<lambda>e.
     if length data < e then Err OutOfBounds
     else rbind (slice data p e) (\<lambda>bs. Ok (bs, e)))"

interpretation block: stream_codec "\<lambda>bs. length bs = n" "\<lambda>bs. bs" "read_block n" for n
proof
  fix v xs ys :: "u8 list"
  assume "length v = n" and "fits (xs @ v @ ys)"
  then show "read_block n (xs @ v @ ys) (length xs) = Ok (v, length xs + length v)"
    by (simp add: read_block_def checked_add_def lims seg_def)
qed

text \<open>A string up to its NUL: \<open>while p < data.len() && data[p] != 0 { p += 1 }\<close>, then the checks.\<close>

definition cstr_end :: "u8 list \<Rightarrow> usize \<Rightarrow> usize" where
  "cstr_end data p = p + length (takeWhile (\<lambda>b. b \<noteq> 0) (drop p data))"

definition read_cstr :: "nxs_error \<Rightarrow> u8 list \<Rightarrow> usize \<Rightarrow> (rstring \<times> usize) res" where
  "read_cstr bad data p =
     (let e = cstr_end data p in
      if length data \<le> e then Err OutOfBounds
      else rbind (slice data p e) (\<lambda>bs. rbind (ok_or (str_from_utf8 bs) bad) (\<lambda>s. Ok (s, e + 1))))"

definition nul_free :: "rstring \<Rightarrow> bool" where
  "nul_free s = (0 \<notin> set s)"

lemma cstr_end_at: "nul_free s \<Longrightarrow> cstr_end (xs @ s @ 0 # ys) (length xs) = length xs + length s"
  by (simp add: cstr_end_def takeWhile_append nul_free_def)

interpretation cstr: stream_codec "\<lambda>s. nul_free s \<and> valid_utf8 s" "\<lambda>s. s @ [0]" "read_cstr bad" for bad
  by unfold_locales (auto simp: read_cstr_def cstr_end_at Let_def seg_middle)

lemma cstr_end_ge: "p \<le> cstr_end data p"
  by (simp add: cstr_end_def)

text \<open>\<open>if p % 8 != 0 { p = p.checked_add(8 - p % 8)? }\<close>\<close>

definition pad_pos :: "usize \<Rightarrow> usize res" where
  "pad_pos p = (if p mod 8 = 0 then Ok p else ok_or (checked_add p (8 - p mod 8)) OutOfBounds)"

lemma pad_pos_Ok: "p < ISIZE_LIM \<Longrightarrow> pad_pos p = Ok (align8 p)"
proof -
  have "align8 p = p + (8 - p mod 8)" if "p mod 8 \<noteq> 0"
  proof -
    define q r where qr: "q = p div 8" "r = p mod 8"
    have p: "p = q * 8 + r" "r < 8" "r \<noteq> 0" using that by (simp_all add: qr)
    then have "(p + 7) div 8 = q + 1" by (intro div_nat_eqI) auto
    then have "align8 p = q * 8 + 8" by (simp add: align8_def)
    then show ?thesis using p unfolding qr(2)[symmetric] by simp
  qed
  moreover have "align8 p = p" if "p mod 8 = 0" using that by (intro align8_id) auto
  moreover assume "p < ISIZE_LIM"
  ultimately show ?thesis by (simp add: pad_pos_def checked_add_def lims)
qed

end
