(* ===== verification/Compiler.thy ===== *)
theory Compiler
  imports Parser Rust_Float Wire
begin

text \<open>
  The v1.1/v1.2 record compiler: \<^verbatim>\<open>rust/src/compiler.rs\<close>.

  \<open>compiler\<close> is the state of \<open>Compiler\<close>: the key dictionary, its inverse and the sigil of each slot.
  \<open>encode_object\<close> is the only operation that both reads and changes it.  A nested object is encoded
  by a compiler of its own, whose dictionary is the list of that object's keys.
\<close>

section \<open>The key dictionary\<close>

record compiler =
  dict :: "rstring list"
  key_map :: "rstring \<Rightarrow> usize option"
  slot_sigils :: "u8 list"

definition new_compiler :: compiler where
  "new_compiler = \<lparr>dict = [], key_map = Map.empty, slot_sigils = []\<rparr>"

definition intern_key :: "rstring \<Rightarrow> compiler \<Rightarrow> compiler" where
  "intern_key key c =
     (case key_map c key of
        Some _ \<Rightarrow> c
      | None \<Rightarrow> c\<lparr>dict := dict c @ [key], slot_sigils := slot_sigils c @ [0],
                  key_map := (key_map c)(key \<mapsto> length (dict c))\<rparr>)"

fun collect_keys_from_value :: "nxs_value \<Rightarrow> compiler \<Rightarrow> compiler" where
  "collect_keys_from_value (VObject fs) c =
     fold (\<lambda>f c. collect_keys_from_value (fvalue f) (intern_key (fkey f) c)) fs c"
| "collect_keys_from_value (VList vs) c = fold collect_keys_from_value vs c"
| "collect_keys_from_value _ c = c"

definition collect_keys :: "field list \<Rightarrow> compiler \<Rightarrow> compiler" where
  "collect_keys fs c =
     fold (\<lambda>f c. collect_keys_from_value (fvalue f) (intern_key (fkey f) c)) fs c"

definition mark_slot_sigil :: "usize \<Rightarrow> u8 \<Rightarrow> compiler \<Rightarrow> compiler" where
  "mark_slot_sigil slot sigil c =
     (if length (slot_sigils c) \<le> slot then c
      else let cur = slot_sigils c ! slot in
           if cur = 0 \<or> cur = SIGIL_NULL \<and> sigil \<noteq> SIGIL_NULL
           then c\<lparr>slot_sigils := (slot_sigils c)[slot := sigil]\<rparr> else c)"

definition value_sigil_byte :: "nxs_value \<Rightarrow> u8" where
  "value_sigil_byte v =
     (case v of
        VInt _ \<Rightarrow> SIGIL_INT | VFloat _ \<Rightarrow> SIGIL_FLOAT | VBool _ \<Rightarrow> SIGIL_BOOL
      | VKeyword _ \<Rightarrow> SIGIL_KEYWORD | VStr _ \<Rightarrow> SIGIL_STR | VTime _ \<Rightarrow> SIGIL_TIME
      | VBinary _ \<Rightarrow> SIGIL_BINARY | VLink _ \<Rightarrow> SIGIL_LINK | VNull \<Rightarrow> SIGIL_NULL
      | VObject _ \<Rightarrow> 0x4F | VList _ \<Rightarrow> 0x4C | VMacro _ \<Rightarrow> 0x21)"

section \<open>Macros\<close>

lemma length_utf8_le: "length (utf8 (dropWhile P cs)) \<le> length (utf8 cs)"
  by (induction cs) auto

lemma utf8_rev_length: "length (utf8 (rev cs)) = length (utf8 cs)"
  by (induction cs) auto

lemma length_trim: "length (trim s) \<le> length s"
proof -
  have "length (utf8 (trim_chars cs)) \<le> length (utf8 cs)" for cs
    unfolding trim_chars_def
    by (metis length_utf8_le le_trans utf8_rev_length)
  moreover have "length (utf8 (chars s)) \<le> length s"
    by (cases "from_utf8 s") (auto simp: chars_def dest: from_utf8_Some)
  ultimately show ?thesis unfolding trim_def using le_trans by blast
qed

text \<open>The value of \<open>a + b\<close> in a macro.\<close>

definition add_values :: "nxs_value \<Rightarrow> nxs_value \<Rightarrow> nxs_value res" where
  "add_values l r =
     (case (l, r) of
        (VStr a, VStr b) \<Rightarrow> Ok (VStr (a @ b))
      | (VInt a, VInt b) \<Rightarrow> ok_or (map_option (\<lambda>n. VInt (word_of_int n)) (checked_i64 (sint a + sint b))) Overflow
      | (VFloat a, VFloat b) \<Rightarrow> Ok (VFloat (f64_add a b))
      | _ \<Rightarrow> Err (MacroUnresolved ''incompatible types in +: {expr}''))"

function eval_macro :: "rstring \<Rightarrow> field list \<Rightarrow> nxs_value res" where
  "eval_macro expr0 scope =
     (let expr = trim expr0 in
      case strip_prefix [64] expr of
        Some key \<Rightarrow>
          (case find (\<lambda>f. fkey f = key) scope of
             Some f \<Rightarrow> Ok (fvalue f)
           | None \<Rightarrow> Err (MacroUnresolved ''@key not found in scope''))
      | None \<Rightarrow>
          if expr = bstr ''now()'' then Ok (VTime 0)
          else if expr \<noteq> [] \<and> hd expr = 34 \<and> last expr = 34 then
            rbind (str_slice expr 1 (length expr - 1)) (\<lambda>inner. Ok (VStr inner))
          else case parse_i64 expr of
                 Some n \<Rightarrow> Ok (VInt (word_of_int n))
               | None \<Rightarrow>
          case parse_f64 expr of
            Some f \<Rightarrow> Ok (VFloat f)
          | None \<Rightarrow>
          case split_once (bstr '' + '') expr of
            Some (p0, p1) \<Rightarrow>
              rbind (eval_macro (trim p0) scope) (\<lambda>left.
              rbind (eval_macro (trim p1) scope) (\<lambda>right. add_values left right))
          | None \<Rightarrow> Err (MacroUnresolved ''cannot evaluate: {expr}''))"
  by pat_completeness auto

termination
proof (relation "measure (\<lambda>(e, s). length e)", goal_cases)
  case (2 e scope x x2 p0 p1)
  then show ?case
    using length_trim[of e] length_trim[of p0] by (auto dest!: split_once_eq)
next
  case (3 e scope x x2 p0 p1 l)
  then show ?case
    using length_trim[of e] length_trim[of p1] by (auto dest!: split_once_eq)
qed simp

declare eval_macro.simps [simp del]

definition resolve_macro :: "nxs_value \<Rightarrow> field list \<Rightarrow> nxs_value res" where
  "resolve_macro v scope = (case v of VMacro e \<Rightarrow> eval_macro e scope | other \<Rightarrow> Ok other)"

section \<open>Encoding\<close>

text \<open>
  How deeply a value nests.  A macro resolves to a value of its scope, which is a part of the object
  that is being encoded, or to a value that holds no other, so encoding always descends.
\<close>

fun vheight :: "nxs_value \<Rightarrow> nat" where
  "vheight (VObject fs) = Suc (foldr (\<lambda>f. max (vheight (fvalue f))) fs 0)"
| "vheight (VList vs) = Suc (foldr (\<lambda>v. max (vheight v)) vs 0)"
| "vheight _ = 0"

definition fheight :: "field list \<Rightarrow> nat" where
  "fheight fs = foldr (\<lambda>f. max (vheight (fvalue f))) fs 0"

lemma vheight_object [simp]: "vheight (VObject fs) = Suc (fheight fs)"
  by (simp add: fheight_def)

declare vheight.simps(1) [simp del]

lemma foldr_max_ge: "x \<in> set xs \<Longrightarrow> g x \<le> foldr (\<lambda>x. max (g x)) xs (0::nat)"
  by (induction xs) auto

lemma fheight_ge: "f \<in> set fs \<Longrightarrow> vheight (fvalue f) \<le> fheight fs"
  unfolding fheight_def by (rule foldr_max_ge)

lemma add_values_height: "add_values l r = Ok v \<Longrightarrow> vheight v = 0"
  by (auto simp: add_values_def ok_or_def split: nxs_value.splits option.splits)

lemma eval_macro_height: "eval_macro e scope = Ok v \<Longrightarrow> vheight v \<le> fheight scope"
proof (induction e scope arbitrary: v rule: eval_macro.induct)
  case (1 e scope)
  from 1(3) show ?case
    by (subst (asm) eval_macro.simps)
      (auto simp: Let_def res_simps fheight_ge find_Some_iff dest!: add_values_height
        split: option.splits if_splits)
qed

lemma resolve_macro_height:
  "resolve_macro v scope = Ok w \<Longrightarrow> vheight v \<le> fheight scope \<Longrightarrow> vheight w \<le> fheight scope"
  by (auto simp: resolve_macro_def dest: eval_macro_height split: nxs_value.splits)

text \<open>The offsets of the values, one after the other from \<open>cursor\<close>; the table keeps 16 bits of each.\<close>

fun value_offsets :: "usize \<Rightarrow> u8 list list \<Rightarrow> u16 list" where
  "value_offsets cursor [] = []"
| "value_offsets cursor (buf # bufs) =
     word_of_nat cursor # value_offsets (cursor + length buf) bufs"

text \<open>
  The bytes of an object, once its fields are resolved to slots and its values are encoded: magic,
  length, bitmask, offset table, padding, values.
\<close>

definition object_bytes :: "usize list \<Rightarrow> usize \<Rightarrow> u8 list list \<Rightarrow> u8 list" where
  "object_bytes slots key_count value_bufs =
     (let mask = build_bitmask slots key_count;
          data_start = 8 + length mask + length slots * 2;
          data_start_aligned = align8 data_start;
          align_padding = data_start_aligned - data_start;
          offsets = value_offsets data_start_aligned value_bufs;
          total_len = data_start_aligned + sum_list (map length value_bufs) in
      u32_le MAGIC_OBJ @ u32_le (word_of_nat total_len) @ mask @ concat (map u16_le offsets)
        @ replicate align_padding 0 @ concat value_bufs)"

definition resolve_fields :: "compiler \<Rightarrow> field list \<Rightarrow> (usize \<times> nxs_value) list res" where
  "resolve_fields c fs =
     rmap (\<lambda>f. rbind (ok_or (key_map c (fkey f)) (ParseError ''key not in dict: {}'')) (\<lambda>i.
               rbind (resolve_macro (fvalue f) fs) (\<lambda>v. Ok (i, v)))) fs"

lemma resolve_fields_height:
  assumes "resolve_fields c fs = Ok rs" and "(i, v) \<in> set rs"
  shows "vheight v \<le> fheight fs"
proof -
  from assms obtain f where "f \<in> set fs" and "resolve_macro (fvalue f) fs = Ok v"
    unfolding resolve_fields_def rmap_Ok_iff list_all2_conv_all_nth in_set_conv_nth
    by (force simp: res_simps)
  then show ?thesis using fheight_ge resolve_macro_height by blast
qed

text \<open>The compiler that \<open>encode_value\<close> makes for a nested object.\<close>

definition inner_compiler :: "field list \<Rightarrow> compiler" where
  "inner_compiler fs =
     (let inner = collect_keys fs new_compiler; keys = map fkey fs in
      inner\<lparr>dict := keys, key_map := map_of (rev (zip keys [0..<length keys]))\<rparr>)"

definition empty_list_bytes :: "u8 list" where
  "empty_list_bytes = u32_le MAGIC_LIST @ u32_le 16 @ [0] @ u32_le 0 @ replicate 3 0"

definition list_bytes :: "u8 \<Rightarrow> u8 list list \<Rightarrow> u8 list" where
  "list_bytes sigil bufs =
     u32_le MAGIC_LIST @ u32_le (word_of_nat (16 + sum_list (map length bufs))) @ [sigil]
       @ u32_le (word_of_nat (length bufs)) @ replicate 3 0 @ concat bufs"

function
  encode_value :: "nxs_value \<Rightarrow> u8 list res" and
  encode_list :: "nxs_value list \<Rightarrow> u8 list res" and
  encode_object :: "field list \<Rightarrow> compiler \<Rightarrow> (u8 list \<times> compiler) res"
where
  "encode_value v =
     (case v of
        VInt n \<Rightarrow> Ok (u64_le n)
      | VFloat f \<Rightarrow> Ok (u64_le f)
      | VBool b \<Rightarrow> Ok ((if b then 1 else 0) # replicate 7 0)
      | VKeyword _ \<Rightarrow> Err UnsupportedFieldType
      | VStr s \<Rightarrow> Ok (pad8 (u32_le (word_of_nat (length s)) @ s))
      | VTime ns \<Rightarrow> Ok (u64_le ns)
      | VBinary raw \<Rightarrow> Ok (pad8 (u32_le (word_of_nat (length raw)) @ raw))
      | VLink off \<Rightarrow> Ok (u32_le off @ replicate 4 0)
      | VNull \<Rightarrow> Ok []
      | VObject fs \<Rightarrow> rbind (encode_object fs (inner_compiler fs)) (\<lambda>(b, _). Ok b)
      | VList vs \<Rightarrow> encode_list vs
      | VMacro _ \<Rightarrow> Err (MacroUnresolved ''unresolved macro in encode''))"
| "encode_list vs =
     (case vs of
        [] \<Rightarrow> Ok empty_list_bytes
      | v # _ \<Rightarrow>
          rbind (rmap (\<lambda>e. if value_sigil_byte e \<noteq> value_sigil_byte v then Err ListTypeMismatch
                          else encode_value e) vs)
            (\<lambda>bufs. Ok (list_bytes (value_sigil_byte v) bufs)))"
| "encode_object fs c =
     rbind (resolve_fields c fs) (\<lambda>resolved.
     rbind (rmap (\<lambda>(_, v). encode_value v) resolved) (\<lambda>bufs.
     Ok (object_bytes (map fst resolved) (length (dict c)) bufs,
         fold (\<lambda>(slot, v). mark_slot_sigil slot (value_sigil_byte v)) resolved c)))"
  by pat_completeness auto

termination
proof (relation "measure (\<lambda>x. case x of
      Inl v \<Rightarrow> 2 * vheight v
    | Inr (Inl vs) \<Rightarrow> 2 * foldr (\<lambda>v. max (vheight v)) vs 0 + 1
    | Inr (Inr (fs, c)) \<Rightarrow> 2 * fheight fs + 1)", goal_cases)
  case (4 vs v ws e)
  then show ?case using foldr_max_ge[of e vs vheight] by simp
next
  case (5 fs c rs x i v)
  then show ?case using resolve_fields_height[of c fs rs i v] by simp
qed simp_all

lemmas encode_simps = encode_value.simps encode_list.simps encode_object.simps

declare encode_simps [simp del]

section \<open>Files\<close>

definition encode_preamble :: "u64 \<Rightarrow> u16 \<Rightarrow> u8 list" where
  "encode_preamble dict_hash flags =
     u32_le MAGIC_FILE @ u16_le VERSION @ u16_le flags @ u64_le dict_hash @ u64_le 0 @ u64_le 0"

definition encode_schema :: "compiler \<Rightarrow> u8 list" where
  "encode_schema c =
     (let sigil = (\<lambda>i. let s = (if i < length (slot_sigils c) then slot_sigils c ! i else 0) in
                       if s = 0 then SIGIL_STR else s) in
      pad8 (u16_le (word_of_nat (length (dict c))) @ map sigil [0..<length (dict c)]
        @ concat (map (\<lambda>key. key @ [0]) (dict c))))"

definition encode_tail_index :: "u64 \<Rightarrow> u64 \<Rightarrow> u8 list" where
  "encode_tail_index data_sector_start tail_ptr =
     u32_le 1 @ u16_le 0 @ u64_le data_sector_start @ u64_le tail_ptr @ u32_le MAGIC_FOOTER"

definition compile :: "field list \<Rightarrow> compiler \<Rightarrow> u8 list res" where
  "compile fs c0 =
     (let c1 = collect_keys fs c0 in
      rbind (encode_object fs c1) (\<lambda>(data_sector, c2).
        let schema = encode_schema c2;
            tail_ptr = 32 + length schema + length data_sector in
        Ok (encode_preamble (murmur3_64 schema) FLAG_SCHEMA_EMBEDDED @ schema @ data_sector
          @ encode_tail_index (word_of_nat (32 + length schema)) (word_of_nat tail_ptr))))"

section \<open>The dictionary invariant\<close>

text \<open>
  The dictionary holds each key once, \<open>key_map\<close> is its inverse, and there is one sigil per slot.
\<close>

definition compiler_ok :: "compiler \<Rightarrow> bool" where
  "compiler_ok c \<longleftrightarrow> distinct (dict c) \<and> length (slot_sigils c) = length (dict c)
     \<and> (\<forall>k. key_map c k = position k (dict c))"

lemma compiler_ok_new: "compiler_ok new_compiler"
  by (simp add: compiler_ok_def new_compiler_def)

lemma intern_key_ok: "compiler_ok c \<Longrightarrow> compiler_ok (intern_key k c)"
  by (auto simp: compiler_ok_def intern_key_def position_append position_None dest: position_in_set
      split: option.splits)

lemma set_intern_key: "compiler_ok c \<Longrightarrow> set (dict (intern_key k c)) = insert k (set (dict c))"
  by (auto simp: compiler_ok_def intern_key_def dest: position_in_set split: option.splits)

lemma mark_slot_sigil_ok: "compiler_ok c \<Longrightarrow> compiler_ok (mark_slot_sigil i s c)"
  by (simp add: compiler_ok_def mark_slot_sigil_def Let_def)

lemma mark_slot_sigil_dict [simp]:
  "dict (mark_slot_sigil i s c) = dict c" "key_map (mark_slot_sigil i s c) = key_map c"
  by (simp_all add: mark_slot_sigil_def Let_def)

lemma fold_grows:
  assumes "\<And>x c. x \<in> set xs \<Longrightarrow> P c \<Longrightarrow> P (f x c) \<and> S c \<subseteq> S (f x c)" and "P c"
  shows "P (fold f xs c) \<and> S c \<subseteq> (S (fold f xs c) :: 'a set)"
  using assms
proof (induction xs arbitrary: c)
  case (Cons x xs)
  then have "P (f x c) \<and> S c \<subseteq> S (f x c)" by simp
  moreover from this Cons.IH[of "f x c"] Cons.prems(1)
  have "P (fold f xs (f x c)) \<and> S (f x c) \<subseteq> S (fold f xs (f x c))" by simp
  ultimately show ?case by auto
qed simp

lemma collect_value_ok:
  "compiler_ok c \<Longrightarrow> compiler_ok (collect_keys_from_value v c)
     \<and> set (dict c) \<subseteq> set (dict (collect_keys_from_value v c))"
proof (induction v c rule: collect_keys_from_value.induct)
  case (1 fs c)
  show ?case unfolding collect_keys_from_value.simps
  proof (rule fold_grows[where P = compiler_ok and S = "\<lambda>c. set (dict c)"])
    fix f c
    assume f: "f \<in> set fs" and c: "compiler_ok c"
    from 1(1)[OF f intern_key_ok[OF c]] set_intern_key[OF c, of "fkey f"]
    show "compiler_ok (collect_keys_from_value (fvalue f) (intern_key (fkey f) c))
      \<and> set (dict c) \<subseteq> set (dict (collect_keys_from_value (fvalue f) (intern_key (fkey f) c)))"
      by blast
  qed (rule 1(2))
next
  case (2 vs c)
  then show ?case unfolding collect_keys_from_value.simps
    by (intro fold_grows[where P = compiler_ok and S = "\<lambda>c. set (dict c)"]) auto
qed auto

lemma collect_keys_Cons:
  "collect_keys (f # fs) c = collect_keys fs (collect_keys_from_value (fvalue f) (intern_key (fkey f) c))"
  by (simp add: collect_keys_def)

lemma collect_keys_ok:
  "compiler_ok c \<Longrightarrow> compiler_ok (collect_keys fs c) \<and> set (dict c) \<subseteq> set (dict (collect_keys fs c))
     \<and> fkey ` set fs \<subseteq> set (dict (collect_keys fs c))"
proof (induction fs arbitrary: c)
  case Nil
  then show ?case by (simp add: collect_keys_def)
next
  case (Cons f fs)
  let ?c = "collect_keys_from_value (fvalue f) (intern_key (fkey f) c)"
  from collect_value_ok[OF intern_key_ok[OF Cons.prems]] set_intern_key[OF Cons.prems]
  have c: "compiler_ok ?c" "insert (fkey f) (set (dict c)) \<subseteq> set (dict ?c)" by auto
  from Cons.IH[OF c(1)] c(2) show ?case by (auto simp: collect_keys_Cons)
qed

lemma fold_mark_dict [simp]:
  "dict (fold (\<lambda>(i, v). mark_slot_sigil i (value_sigil_byte v)) rs c) = dict c"
  "key_map (fold (\<lambda>(i, v). mark_slot_sigil i (value_sigil_byte v)) rs c) = key_map c"
  by (induction rs arbitrary: c) auto

lemma fold_mark_ok:
  "compiler_ok c \<Longrightarrow> compiler_ok (fold (\<lambda>(i, v). mark_slot_sigil i (value_sigil_byte v)) rs c)"
  by (induction rs arbitrary: c) (auto simp: mark_slot_sigil_ok)

text \<open>
  C27: The key dictionary stays a bijection between keys and slots: collecting the keys of any fields
  keeps every slot where it was, gives every key of the fields a slot of its own, keeps one sigil per
  slot, and encoding an object afterwards changes none of this.
\<close>

theorem dictionary_invariant:
  assumes "compiler_ok c"
  shows "compiler_ok (collect_keys fs c)
       \<and> (\<forall>f. f \<in> set fs \<longrightarrow> key_map (collect_keys fs c) (fkey f) \<noteq> None)
       \<and> (\<forall>b c'. encode_object fs (collect_keys fs c) = Ok (b, c') \<longrightarrow>
             compiler_ok c' \<and> dict c' = dict (collect_keys fs c))"
proof -
  note ok = collect_keys_ok[OF assms, of fs]
  have "key_map (collect_keys fs c) (fkey f) \<noteq> None" if "f \<in> set fs" for f
    using ok that position_member[of "fkey f" "dict (collect_keys fs c)"]
    by (auto simp: compiler_ok_def)
  moreover have "compiler_ok c' \<and> dict c' = dict (collect_keys fs c)"
    if "encode_object fs (collect_keys fs c) = Ok (b, c')" for b c'
    using that ok by (subst (asm) encode_object.simps) (auto simp: res_simps fold_mark_ok)
  ultimately show ?thesis using ok by blast
qed

theorem dictionary_invariant_witness:
  "compiler_ok (collect_keys [Field (bstr ''a'') (VInt 1), Field (bstr ''a'') VNull] new_compiler)"
  using dictionary_invariant[OF compiler_ok_new] by blast

section \<open>The rule of eight\<close>

lemma sum_list_dvd8: "(\<And>b. b \<in> set bs \<Longrightarrow> 8 dvd length b) \<Longrightarrow> 8 dvd sum_list (map length bs)"
  by (induction bs) auto

lemma rmap_set: "rmap f xs = Ok ys \<Longrightarrow> y \<in> set ys \<Longrightarrow> \<exists>x \<in> set xs. f x = Ok y"
  unfolding rmap_Ok_iff by (induction xs ys rule: list_all2_induct) auto

lemma object_bytes_length:
  assumes "length bufs = length slots"
  shows "length (object_bytes slots n bufs)
       = align8 (8 + length (build_bitmask slots n) + length slots * 2) + sum_list (map length bufs)"
proof -
  have "length (value_offsets c bufs) = length bufs" for c
    by (induction c bufs rule: value_offsets.induct) simp_all
  then have "length (concat (map u16_le (value_offsets c bufs))) = length slots * 2" for c
    by (simp only: u16c.length_array assms)
  moreover have "8 + length (build_bitmask slots n) + length slots * 2
      \<le> align8 (8 + length (build_bitmask slots n) + length slots * 2)" by (rule align8_ge)
  ultimately show ?thesis
    by (simp only: object_bytes_def Let_def length_append length_uint_le length_replicate length_concat)
qed

lemma list_bytes_length: "length (list_bytes s bufs) = 16 + sum_list (map length bufs)"
  by (simp add: list_bytes_def length_concat)

lemma encode_aligned:
  "encode_value v = Ok b1 \<Longrightarrow> 8 dvd length b1"
  "encode_list vs = Ok b2 \<Longrightarrow> 8 dvd length b2"
  "encode_object fs c = Ok (b3, c3) \<Longrightarrow> 8 dvd length b3"
proof (induction v and vs and fs c arbitrary: b1 and b2 and b3 c3
    rule: encode_value_encode_list_encode_object.induct)
  case (1 v)
  from 1(3) show ?case
    by (subst (asm) encode_value.simps) (auto simp: res_simps split: nxs_value.splits dest: 1(1,2))
next
  case (2 vs)
  show ?case
  proof (cases vs)
    case Nil
    with 2(2) show ?thesis by (auto simp: encode_list.simps empty_list_bytes_def)
  next
    case (Cons v ws)
    with 2(2) obtain bufs where r: "rmap (\<lambda>e. if value_sigil_byte e \<noteq> value_sigil_byte v
        then Err ListTypeMismatch else encode_value e) vs = Ok bufs"
      and b: "b2 = list_bytes (value_sigil_byte v) bufs"
      by (subst (asm) encode_list.simps) (auto simp: res_simps)
    have "8 dvd length b" if "b \<in> set bufs" for b
      using rmap_set[OF r that] 2(1)[OF Cons] by (auto split: if_splits)
    then show ?thesis by (simp add: b list_bytes_length sum_list_dvd8)
  qed
next
  case (3 fs c)
  from 3(2) obtain rs bufs where r: "resolve_fields c fs = Ok rs"
    and bufs: "rmap (\<lambda>(_, v). encode_value v) rs = Ok bufs"
    and b: "b3 = object_bytes (map fst rs) (length (dict c)) bufs"
    by (subst (asm) encode_object.simps) (auto simp: res_simps)
  have "8 dvd length b" if "b \<in> set bufs" for b
    using rmap_set[OF bufs that] 3(1)[OF r] by auto
  moreover have "length bufs = length (map fst rs)" using rmap_Ok_length[OF bufs] by simp
  ultimately show ?case by (simp add: b object_bytes_length sum_list_dvd8)
qed

section \<open>Macros that do not do what the format says\<close>

text \<open>
  String concatenation in a macro is not evaluated where it starts with a literal or a reference:
  \<open>"a" + "b"\<close> is taken for the one literal between its first and its last quote, \<open>@a + 1\<close> for a
  reference to a key named \<open>a + 1\<close>, and a lone quote makes the compiler panic; the same sum with the
  reference on the right is evaluated.
\<close>

lemma macro_sums:
  "eval_macro (bstr ''\"a\" + \"b\"'') [] = Ok (VStr (bstr ''a\" + \"b''))
 \<and> eval_macro (bstr ''@a + 1'') [Field (bstr ''a'') (VInt 5)]
     = Err (MacroUnresolved ''@key not found in scope'')
 \<and> eval_macro (bstr ''1 + @a'') [Field (bstr ''a'') (VInt 5)] = Ok (VInt 6)
 \<and> eval_macro (bstr ''\"'') [] = Panic"
  by (intro conjI; code_simp)

end
