(* ===== verification/Compact_Schema.thy ===== *)
theory Compact_Schema
  imports Wire Rust_Float
begin

text \<open>
  The v1.3 compact encoding, first part: options, keyword promotion and the extended schema
  (\<^verbatim>\<open>rust/src/compact.rs\<close>, up to line 426).
\<close>

section \<open>Options\<close>

record compact_options =
  dense_frames :: bool
  packed_bools :: bool
  narrow_cells :: bool
  delta_tail :: bool
  keyword_promotion :: bool
  keyword_max_ratio :: f64
  keyword_min_records :: usize
  delta_block_size :: u32
  u16_string_lengths :: bool
  dense_wire_reorder :: bool

text \<open>\<open>0.5\<close> as an \<open>f64\<close>.\<close>

definition f64_half :: f64 where "f64_half = 0x3FE0000000000000"

definition default_options :: compact_options where
  "default_options =
     \<lparr>dense_frames = False, packed_bools = False, narrow_cells = False, delta_tail = False,
      keyword_promotion = False, keyword_max_ratio = f64_half, keyword_min_records = 32,
      delta_block_size = DEFAULT_DELTA_BLOCK_SIZE, u16_string_lengths = False,
      dense_wire_reorder = False\<rparr>"

definition compact_all :: compact_options where
  "compact_all =
     \<lparr>dense_frames = True, packed_bools = True, narrow_cells = True, delta_tail = True,
      keyword_promotion = True, keyword_max_ratio = f64_half, keyword_min_records = 32,
      delta_block_size = 1024, u16_string_lengths = True, dense_wire_reorder = True\<rparr>"

definition any_wire_flag :: "compact_options \<Rightarrow> bool" where
  "any_wire_flag o1 = (dense_frames o1 \<or> packed_bools o1 \<or> narrow_cells o1 \<or> delta_tail o1)"

definition preamble_flags :: "compact_options \<Rightarrow> u16" where
  "preamble_flags o1 =
     (let f = 0;
          f = (if dense_frames o1 then or f FLAG_DENSE_FRAMES else f);
          f = (if packed_bools o1 then or f FLAG_PACKED_BOOLS else f);
          f = (if narrow_cells o1 then or f FLAG_NARROW_CELLS else f);
          f = (if delta_tail o1 then or f FLAG_DELTA_TAIL else f) in
      if dense_wire_reorder o1 then or f FLAG_DENSE_WIRE_REORDER else f)"

definition options_version :: "compact_options \<Rightarrow> u16" where
  "options_version o1 = (if any_wire_flag o1 then VERSION_V13 else VERSION)"

abbreviation has_flag :: "u16 \<Rightarrow> u16 \<Rightarrow> bool" where
  "has_flag flags f \<equiv> and flags f \<noteq> 0"

section \<open>The extended schema\<close>

record ext_schema =
  s_keys :: "rstring list"
  s_sigils :: "u8 list"
  s_widths :: "u8 list"
  s_attrs :: "u8 list"
  s_pool :: "rstring list"

definition from_basic :: "rstring list \<Rightarrow> u8 list \<Rightarrow> ext_schema" where
  "from_basic keys sigils =
     \<lparr>s_keys = keys, s_sigils = sigils, s_widths = replicate (length keys) 0,
      s_attrs = replicate (length keys) 0, s_pool = []\<rparr>"

definition has_attr :: "u8 \<Rightarrow> ext_schema \<Rightarrow> usize \<Rightarrow> bool" where
  "has_attr a s slot = (case get_at (s_attrs s) slot of None \<Rightarrow> False | Some x \<Rightarrow> and x a \<noteq> 0)"

definition is_promoted :: "ext_schema \<Rightarrow> usize \<Rightarrow> bool" where
  "is_promoted s slot = has_attr FIELD_ATTR_PROMOTED s slot"

definition is_u16_len :: "ext_schema \<Rightarrow> usize \<Rightarrow> bool" where
  "is_u16_len s slot = has_attr FIELD_ATTR_U16_LEN s slot"

definition str_len_prefix :: "ext_schema \<Rightarrow> usize \<Rightarrow> usize" where
  "str_len_prefix s slot =
     (if is_promoted s slot then 0 else if is_u16_len s slot then 2 else 4)"

definition cell_width :: "ext_schema \<Rightarrow> usize \<Rightarrow> u8" where
  "cell_width s slot =
     (if is_promoted s slot \<or> get_at (s_sigils s) slot = Some SIGIL_KEYWORD then 2
      else let w = (case get_at (s_widths s) slot of None \<Rightarrow> 0 | Some w \<Rightarrow> w) in
           if w = 0 then 8 else w)"

definition bool_slots_of :: "ext_schema \<Rightarrow> usize list" where
  "bool_slots_of s = filter (\<lambda>i. s_sigils s ! i = SIGIL_BOOL) [0..<length (s_sigils s)]"

definition validate_reader_flags :: "u16 \<Rightarrow> bool \<Rightarrow> unit res" where
  "validate_reader_flags flags supports_v13 =
     (let unknown = and flags FLAG_V13_COMPACT_MASK in
      if \<not> supports_v13 \<and> unknown \<noteq> 0 then Err (UnsupportedFlags unknown) else Ok ())"

text \<open>The value pool: a count, then that many strings and the padding behind them.\<close>

definition read_pool :: "u8 list \<Rightarrow> usize \<Rightarrow> (rstring list \<times> usize) res" where
  "read_pool data p =
     (if length data < p + 2 then Ok ([], p)
      else rbind (rd_u16 data p) (\<lambda>n.
        if unat n = 0 then Ok ([], p + 2)
        else rbind (read_many (read_cstr (ParseError ''invalid UTF-8 in value pool'')) (unat n) data (p + 2))
          (\<lambda>(pool, p). rbind (pad_pos p) (\<lambda>p. Ok (pool, p)))))"

definition parse_extended_schema :: "u8 list \<Rightarrow> usize \<Rightarrow> u16 \<Rightarrow> (ext_schema \<times> usize) res" where
  "parse_extended_schema data pos flags =
     (if length data < wadd pos 2 then Err OutOfBounds
      else rbind (rd_u16 data pos) (\<lambda>kc.
      let key_count = unat kc in
      if 256 < key_count then Err OutOfBounds
      else rbind (read_block key_count data (pos + 2)) (\<lambda>(sigils, p).
      rbind (read_many (read_cstr (ParseError ''invalid UTF-8 in schema'')) key_count data p) (\<lambda>(keys, p).
      rbind (pad_pos p) (\<lambda>p.
      rbind (if has_flag flags FLAG_NARROW_CELLS then read_block key_count data p
             else Ok (replicate key_count 0, p)) (\<lambda>(widths, p).
      rbind (if has_flag flags FLAG_V13_COMPACT_MASK then read_block key_count data p
             else Ok (replicate key_count 0, p)) (\<lambda>(attrs, p).
      rbind (read_pool data p) (\<lambda>(pool, p).
      if length data < p then Err OutOfBounds
      else Ok (\<lparr>s_keys = keys, s_sigils = sigils, s_widths = widths, s_attrs = attrs, s_pool = pool\<rparr>, p)
      ))))))))"

definition get_or_zero :: "u8 list \<Rightarrow> usize \<Rightarrow> u8" where
  "get_or_zero xs i = (case get_at xs i of None \<Rightarrow> 0 | Some x \<Rightarrow> x)"

definition build_extended_schema :: "ext_schema \<Rightarrow> u16 \<Rightarrow> u8 list" where
  "build_extended_schema s flags =
     (let n = length (s_keys s);
          b = pad8 (u16_le (word_of_nat n) @ s_sigils s @ concat (map (\<lambda>k. k @ [0]) (s_keys s)));
          b = (if has_flag flags FLAG_NARROW_CELLS
               then b @ map (get_or_zero (s_widths s)) [0..<n] else b);
          b = (if has_flag flags FLAG_V13_COMPACT_MASK
               then b @ map (get_or_zero (s_attrs s)) [0..<n] else b);
          b = b @ u16_le (word_of_nat (length (s_pool s))) in
      if s_pool s = [] then b
      else pad8 (b @ concat (map (\<lambda>v. v @ [0]) (s_pool s))))"

section \<open>Inferring widths, promotion and length prefixes\<close>

definition infer_int_width :: "i64 \<Rightarrow> i64 \<Rightarrow> u8" where
  "infer_int_width lo hi =
     (if 0 \<le> sint lo \<and> sint hi \<le> 255 then 1
      else if - (2 ^ 15) \<le> sint lo \<and> sint hi \<le> 2 ^ 15 - 1 then 2
      else if - (2 ^ 31) \<le> sint lo \<and> sint hi \<le> 2 ^ 31 - 1 then 4
      else 8)"

definition infer_narrow_widths :: "u8 list \<Rightarrow> i64 list \<Rightarrow> i64 list \<Rightarrow> u8 list" where
  "infer_narrow_widths sigils mins maxs =
     map (\<lambda>i. if sigils ! i = SIGIL_INT then
                infer_int_width (case get_at mins i of None \<Rightarrow> 0 | Some x \<Rightarrow> x)
                  (case get_at maxs i of None \<Rightarrow> 0 | Some x \<Rightarrow> x)
              else if sigils ! i = SIGIL_FLOAT then 8 else 0) [0..<length sigils]"

definition intern_value :: "rstring \<Rightarrow> rstring list \<Rightarrow> rstring list \<times> u16" where
  "intern_value s pool =
     (case position s pool of
        Some i \<Rightarrow> (pool, word_of_nat i)
      | None \<Rightarrow> (pool @ [s], word_of_nat (length pool)))"

definition max_len :: "'a list list \<Rightarrow> usize" where
  "max_len vs = foldr (\<lambda>v. max (length v)) vs 0"

text \<open>The \<open>continue\<close>s of the loop of \<open>scan_keyword_promotion\<close>: whether it promotes a column.\<close>

definition promotes :: "f64 \<Rightarrow> usize \<Rightarrow> rstring list \<Rightarrow> bool" where
  "promotes max_ratio min_records vals =
     (let distinct = remdups vals;
          ratio = f64_div (f64_of_nat (length distinct)) (f64_of_nat (length vals)) in
      \<not> length vals < min_records \<and> distinct \<noteq> [] \<and> \<not> f64_lt max_ratio ratio)"

definition scan_keyword_promotion ::
  "u8 list \<Rightarrow> rstring list list \<Rightarrow> f64 \<Rightarrow> usize \<Rightarrow> u8 list \<times> rstring list"
where
  "scan_keyword_promotion sigils string_values max_ratio min_records =
     (let attrs = replicate (length sigils) 0 in
      if max_len string_values < min_records then (attrs, [])
      else fold (\<lambda>slot (attrs, pool).
             if sigils ! slot \<noteq> SIGIL_STR then (attrs, pool)
             else case get_at string_values slot of
                    None \<Rightarrow> (attrs, pool)
                  | Some vals \<Rightarrow>
                      if promotes max_ratio min_records vals
                      then (attrs[slot := or (attrs ! slot) FIELD_ATTR_PROMOTED],
                            fold (\<lambda>v p. fst (intern_value v p)) vals pool)
                      else (attrs, pool)) [0..<length sigils] (attrs, []))"

text \<open>\<open>field_attrs[slot]\<close> panics when the attributes are shorter than the sigils.\<close>

definition scan_u16_string_lengths :: "u8 list \<Rightarrow> rstring list list \<Rightarrow> u8 list \<Rightarrow> u8 list res" where
  "scan_u16_string_lengths sigils string_values attrs =
     rfold (\<lambda>slot attrs.
       if sigils ! slot \<noteq> SIGIL_STR then Ok attrs
       else rbind (idx attrs slot) (\<lambda>a.
         if and a FIELD_ATTR_PROMOTED \<noteq> 0 then Ok attrs
         else case get_at string_values slot of
                None \<Rightarrow> Ok attrs
              | Some vals \<Rightarrow>
                  if max_len vals \<le> 65535 then Ok (attrs[slot := or a FIELD_ATTR_U16_LEN])
                  else Ok attrs)) [0..<length sigils] attrs"

section \<open>The schema round trip\<close>

declare add_2_eq_Suc [simp del] add_2_eq_Suc' [simp del]

lemma align8_add: "8 dvd a \<Longrightarrow> align8 (a + b) = a + align8 b"
proof (erule dvdE)
  fix k
  assume a: "a = 8 * k"
  have "(8 * k + (b + 7)) div 8 = k + (b + 7) div 8" by simp
  then show "align8 (a + b) = a + align8 b" by (simp add: align8_def a add.assoc)
qed

lemma pad_pos_add: "8 dvd a \<Longrightarrow> a + b < ISIZE_LIM \<Longrightarrow> pad_pos (a + b) = Ok (a + align8 b)"
  by (simp add: pad_pos_Ok align8_add)

lemma map_get_or_zero: "map (get_or_zero xs) [0..<length xs] = xs"
  by (rule nth_equalityI) (simp_all add: get_or_zero_def)

lemma read_pool_at:
  assumes "list_all (\<lambda>s. nul_free s \<and> valid_utf8 s) pool" and "length pool < 65536"
    and "8 dvd length pre"
    and data: "data = pre @ xs @ u16_le (word_of_nat (length pool)) @ concat (map (\<lambda>v. v @ [0]) pool)
      @ pad @ post"
    and "fits data"
    and pad: "pad = (if pool = [] then []
       else replicate (align8 (length xs + 2 + length (concat (map (\<lambda>v. v @ [0]) pool)))
              - (length xs + 2 + length (concat (map (\<lambda>v. v @ [0]) pool)))) 0)"
  shows "read_pool data (length pre + length xs)
       = Ok (pool, length pre + length xs + 2 + length (concat (map (\<lambda>v. v @ [0]) pool)) + length pad)"
proof -
  let ?cat = "concat (map (\<lambda>v. v @ [0]) pool)"
  have rd: "rd_u16 data (length pre + length xs) = Ok (word_of_nat (length pool))"
    by (rule u16c.rd_at[OF assms(5), of "pre @ xs" _ "?cat @ pad @ post"]) (simp_all add: data)
  have un: "unat (word_of_nat (length pool) :: u16) = length pool"
    using assms(2) by (simp add: unat_of_nat)
  have le: "\<not> length data < length pre + length xs + 2" by (simp add: data)
  show ?thesis
  proof (cases "pool = []")
    case True
    then show ?thesis using pad rd un le by (simp add: read_pool_def)
  next
    case False
    have "read_many (read_cstr e) (length pool)
        ((pre @ xs @ u16_le (word_of_nat (length pool))) @ ?cat @ (pad @ post))
        (length (pre @ xs @ u16_le (word_of_nat (length pool))))
      = Ok (pool, length (pre @ xs @ u16_le (word_of_nat (length pool))) + length ?cat)" for e
      using assms by (intro cstr.read_many_at) simp_all
    then have many: "read_many (read_cstr e) (length pool) data (length pre + length xs + 2)
      = Ok (pool, length pre + (length xs + 2 + length ?cat))" for e
      by (simp add: data add.assoc)
    have "pad_pos (length pre + (length xs + 2 + length ?cat))
        = Ok (length pre + align8 (length xs + 2 + length ?cat))"
      using assms(5) by (intro pad_pos_add[OF assms(3)]) (simp add: data)
    with many rd un le show ?thesis
      using False pad align8_ge[of "length xs + 2 + length ?cat"] by (simp add: read_pool_def)
  qed
qed

text \<open>
  The schemas that the format can carry, and what of them the flags make the bytes carry.
\<close>

definition schema_ok :: "ext_schema \<Rightarrow> bool" where
  "schema_ok s \<longleftrightarrow>
     length (s_keys s) \<le> 256 \<and> length (s_sigils s) = length (s_keys s)
   \<and> length (s_widths s) = length (s_keys s) \<and> length (s_attrs s) = length (s_keys s)
   \<and> list_all (\<lambda>k. nul_free k \<and> valid_utf8 k) (s_keys s)
   \<and> list_all (\<lambda>k. nul_free k \<and> valid_utf8 k) (s_pool s) \<and> length (s_pool s) < 65536"

definition carried_schema :: "ext_schema \<Rightarrow> u16 \<Rightarrow> ext_schema" where
  "carried_schema s flags =
     s\<lparr>s_widths := if has_flag flags FLAG_NARROW_CELLS then s_widths s
                    else replicate (length (s_keys s)) 0,
       s_attrs := if has_flag flags FLAG_V13_COMPACT_MASK then s_attrs s
                    else replicate (length (s_keys s)) 0\<rparr>"

text \<open>
  C14: The extended schema is read back from where it was written: for a schema the format can carry,
  parsing the bytes that \<open>build_extended_schema\<close> emits, under the same flags and at an aligned
  position of any buffer, gives the schema with the widths and attributes the flags say are there,
  and ends right behind those bytes.
\<close>

theorem schema_roundtrip:
  assumes "schema_ok s" and "8 dvd length pre"
    and "fits (pre @ build_extended_schema s flags @ post)"
  shows "parse_extended_schema (pre @ build_extended_schema s flags @ post) (length pre) flags
       = Ok (carried_schema s flags, length pre + length (build_extended_schema s flags))"
proof -
  let ?n = "length (s_keys s)"
  let ?w = "word_of_nat ?n :: u16"
  let ?cat = "\<lambda>ks. concat (map (\<lambda>k. k @ [0]) ks)"
  define h where "h = u16_le ?w @ s_sigils s @ ?cat (s_keys s)"
  define p1 where "p1 = replicate (align8 (length h) - length h) (0::u8)"
  define W where "W = (if has_flag flags FLAG_NARROW_CELLS then s_widths s else [])"
  define A where "A = (if has_flag flags FLAG_V13_COMPACT_MASK then s_attrs s else [])"
  define x where "x = h @ p1 @ W @ A"
  define p2 where "p2 = (if s_pool s = [] then []
     else replicate (align8 (length x + 2 + length (?cat (s_pool s)))
            - (length x + 2 + length (?cat (s_pool s)))) (0::u8))"
  define data where "data = pre @ build_extended_schema s flags @ post"
  note ok = assms(1)[unfolded schema_ok_def]
  have build: "build_extended_schema s flags
      = x @ u16_le (word_of_nat (length (s_pool s))) @ ?cat (s_pool s) @ p2"
  proof -
    let ?u = "u16_le (word_of_nat (length (s_pool s)))"
    have "pad8 h = h @ p1" by (simp only: pad8_def p1_def)
    moreover have "map (get_or_zero (s_widths s)) [0..<?n] = s_widths s"
      "map (get_or_zero (s_attrs s)) [0..<?n] = s_attrs s"
      using ok map_get_or_zero[of "s_widths s"] map_get_or_zero[of "s_attrs s"] by simp_all
    ultimately have "build_extended_schema s flags
        = (if s_pool s = [] then x @ ?u else pad8 ((x @ ?u) @ ?cat (s_pool s)))"
      unfolding build_extended_schema_def Let_def h_def[symmetric] by (simp add: x_def W_def A_def)
    moreover have "length ((x @ ?u) @ ?cat (s_pool s)) = length x + 2 + length (?cat (s_pool s))"
      by simp
    ultimately show ?thesis unfolding p2_def pad8_def by (simp del: length_append add: append_assoc)
  qed
  have fits: "fits data" using assms(3) by (simp add: data_def)
  have d: "data = pre @ x @ u16_le (word_of_nat (length (s_pool s))) @ ?cat (s_pool s) @ p2 @ post"
    by (simp add: data_def build)
  define rest where "rest = u16_le (word_of_nat (length (s_pool s))) @ ?cat (s_pool s) @ p2 @ post"
  have d1: "data = pre @ u16_le ?w @ s_sigils s @ ?cat (s_keys s) @ p1 @ W @ A @ rest"
    by (simp add: d x_def h_def rest_def)
  have un: "unat ?w = ?n" using ok by (simp add: unat_of_nat)
  have "length pre + 2 \<le> length data" by (simp add: d1)
  then have len: "\<not> length data < wadd (length pre) 2" using fits by (simp add: lims)
  have r1: "rd_u16 data (length pre) = Ok ?w"
    by (rule u16c.rd_at[OF fits d1 refl])
  have r2: "read_block ?n data (length pre + 2) = Ok (s_sigils s, length pre + 2 + ?n)"
    using block.rd_at[of "s_sigils s" ?n data "pre @ u16_le ?w"] fits d1 ok by simp
  have r3: "read_many (read_cstr e) ?n data (length pre + 2 + ?n) = Ok (s_keys s, length pre + length h)" for e
    using cstr.read_many_at[of "s_keys s" "pre @ u16_le ?w @ s_sigils s" "p1 @ W @ A @ rest" e] fits d1 ok
    by (simp add: h_def add.assoc)
  have r4: "pad_pos (length pre + length h) = Ok (length (pre @ h @ p1))"
  proof -
    have "length pre + length h < ISIZE_LIM" using fits by (simp add: d1 h_def)
    moreover have "length (pre @ h @ p1) = length pre + align8 (length h)"
      using align8_ge[of "length h"] by (simp add: p1_def del: align8_ge)
    ultimately show ?thesis by (simp only: pad_pos_add[OF assms(2)])
  qed
  have r5: "(if has_flag flags FLAG_NARROW_CELLS then read_block ?n data (length (pre @ h @ p1))
      else Ok (replicate ?n 0, length (pre @ h @ p1)))
    = Ok (s_widths (carried_schema s flags), length (pre @ h @ p1 @ W))"
  proof (cases "has_flag flags FLAG_NARROW_CELLS")
    case True
    then have "data = (pre @ h @ p1) @ s_widths s @ A @ rest" by (simp add: d1 h_def W_def)
    from block.rd_at[OF _ fits this refl] ok True show ?thesis
      by (simp add: carried_schema_def W_def add.assoc)
  qed (simp add: carried_schema_def W_def)
  have r6: "(if has_flag flags FLAG_V13_COMPACT_MASK then read_block ?n data (length (pre @ h @ p1 @ W))
      else Ok (replicate ?n 0, length (pre @ h @ p1 @ W)))
    = Ok (s_attrs (carried_schema s flags), length pre + length x)"
  proof (cases "has_flag flags FLAG_V13_COMPACT_MASK")
    case True
    then have "data = (pre @ h @ p1 @ W) @ s_attrs s @ rest" by (simp add: d1 h_def A_def)
    from block.rd_at[OF _ fits this refl] ok True show ?thesis
      by (simp add: carried_schema_def A_def x_def add.assoc)
  qed (simp add: carried_schema_def A_def x_def)
  have r7: "read_pool data (length pre + length x)
      = Ok (s_pool s, length pre + length (build_extended_schema s flags))"
    using read_pool_at[OF _ _ assms(2) d fits] ok p2_def by (simp add: build)
  have "length pre + length (build_extended_schema s flags) \<le> length data" by (simp add: data_def)
  moreover have "\<lparr>s_keys = s_keys s, s_sigils = s_sigils s, s_widths = s_widths (carried_schema s flags),
      s_attrs = s_attrs (carried_schema s flags), s_pool = s_pool s\<rparr> = carried_schema s flags"
    by (simp add: carried_schema_def)
  ultimately show ?thesis
    unfolding data_def[symmetric] parse_extended_schema_def Let_def
    using len ok by (simp only: r1 un r2 r3 r4 r5 r6 r7 rbind.simps prod.case if_False) simp
qed

theorem schema_roundtrip_witness:
  "parse_extended_schema
     (replicate 32 0 @ build_extended_schema
        \<lparr>s_keys = [bstr ''id'', bstr ''city''], s_sigils = [SIGIL_INT, SIGIL_STR], s_widths = [2, 0],
         s_attrs = [0, 1], s_pool = [bstr ''Oslo'', bstr ''Rome'']\<rparr> 0x01F0 @ [7, 7]) 32 0x01F0
   = Ok (\<lparr>s_keys = [bstr ''id'', bstr ''city''], s_sigils = [SIGIL_INT, SIGIL_STR], s_widths = [2, 0],
         s_attrs = [0, 1], s_pool = [bstr ''Oslo'', bstr ''Rome'']\<rparr>, 64)"
proof -
  let ?s = "\<lparr>s_keys = [bstr ''id'', bstr ''city''], s_sigils = [SIGIL_INT, SIGIL_STR],
    s_widths = [2, 0], s_attrs = [0, 1], s_pool = [bstr ''Oslo'', bstr ''Rome'']\<rparr>"
  have "schema_ok ?s" by code_simp
  moreover have "fits (replicate 32 0 @ build_extended_schema ?s 0x01F0 @ [7, 7])" by code_simp
  moreover have "carried_schema ?s 0x01F0 = ?s" by code_simp
  moreover have "length (build_extended_schema ?s 0x01F0) = 32" by code_simp
  ultimately show ?thesis using schema_roundtrip[of ?s "replicate 32 0" "0x01F0" "[7, 7]"] by simp
qed

section \<open>Keyword promotion\<close>

lemma set_intern_values:
  "set (fold (\<lambda>v p. fst (intern_value v p)) vals pool) = set pool \<union> set vals"
proof (induction vals arbitrary: pool)
  case (Cons v vals)
  show ?case
    by (simp add: Cons.IH)
      (auto simp: intern_value_def position_None dest: position_Some nth_mem split: option.splits)
qed simp

lemma distinct_intern_values:
  "distinct pool \<Longrightarrow> distinct (fold (\<lambda>v p. fst (intern_value v p)) vals pool)"
  by (induction vals arbitrary: pool) (auto simp: intern_value_def position_None split: option.splits)

definition promotion_ok ::
  "u8 list \<Rightarrow> rstring list list \<Rightarrow> f64 \<Rightarrow> usize \<Rightarrow> u8 list \<Rightarrow> rstring list \<Rightarrow> usize \<Rightarrow> bool"
where
  "promotion_ok sigils vss ratio m attrs pool slot \<longleftrightarrow>
     (if and (attrs ! slot) FIELD_ATTR_PROMOTED = 0 then attrs ! slot = 0
      else sigils ! slot = SIGIL_STR \<and> slot < length vss \<and> promotes ratio m (vss ! slot)
         \<and> set (vss ! slot) \<subseteq> set pool)"

text \<open>
  Keyword promotion loses no string: a column that the scan promotes is a string column with at
  least the required number of values, all of its strings are in the value pool, and the pool holds
  each string once.
\<close>

lemma keyword_promotion_sound:
  assumes "scan_keyword_promotion sigils vss ratio m = (attrs, pool)" and "slot < length sigils"
  shows "distinct pool \<and> length attrs = length sigils \<and> promotion_ok sigils vss ratio m attrs pool slot"
proof (cases "max_len vss < m")
  case True
  with assms(1) have "attrs = replicate (length sigils) 0" "pool = []"
    by (auto simp: scan_keyword_promotion_def Let_def)
  with assms(2) show ?thesis by (simp add: promotion_ok_def)
next
  case False
  let ?step = "\<lambda>slot (attrs, pool).
             if sigils ! slot \<noteq> SIGIL_STR then (attrs, pool)
             else case get_at vss slot of
                    None \<Rightarrow> (attrs, pool)
                  | Some vals \<Rightarrow>
                      if promotes ratio m vals
                      then (attrs[slot := or (attrs ! slot) FIELD_ATTR_PROMOTED],
                            fold (\<lambda>v p. fst (intern_value v p)) vals pool)
                      else (attrs, pool)"
  let ?inv = "\<lambda>(attrs, pool). distinct pool \<and> length attrs = length sigils
      \<and> (\<forall>k < length sigils. promotion_ok sigils vss ratio m attrs pool k)"
  have step: "?inv (?step k st)" if "?inv st" for k st
  proof -
    obtain a p where st: "st = (a, p)" by (cases st)
    show ?thesis
    proof (cases "k < length vss \<and> sigils ! k = SIGIL_STR \<and> promotes ratio m (vss ! k)")
      case True
      have "promotion_ok sigils vss ratio m (a[k := or (a ! k) FIELD_ATTR_PROMOTED])
          (fold (\<lambda>v p. fst (intern_value v p)) (vss ! k) p) j" if "j < length sigils" for j
      proof (cases "j = k \<and> k < length a")
        case upd: True
        with True show ?thesis by (simp add: promotion_ok_def FIELD_ATTR_PROMOTED_def set_intern_values)
      next
        case False
        then have "a[k := or (a ! k) FIELD_ATTR_PROMOTED] ! j = a ! j"
          using that \<open>?inv st\<close> by (auto simp: st)
        moreover have "promotion_ok sigils vss ratio m a p j" using that \<open>?inv st\<close> by (simp add: st)
        ultimately show ?thesis by (auto simp: promotion_ok_def set_intern_values)
      qed
      with that True show ?thesis by (simp add: st distinct_intern_values)
    next
      case False
      with that show ?thesis by (auto simp: st get_at_def)
    qed
  qed
  have inv: "?inv (fold ?step ks (a, p))" if "?inv (a, p)" for ks a p
    using that
  proof (induction ks arbitrary: a p)
    case (Cons k ks)
    obtain a' p' where k: "?step k (a, p) = (a', p')" by (cases "?step k (a, p)")
    have "?inv (a', p')" using step[OF Cons.prems, of k] unfolding k .
    from Cons.IH[OF this] show ?case by (simp only: fold_simps k)
  qed simp
  have "?inv (fold ?step [0..<length sigils] (replicate (length sigils) 0, []))"
    by (rule inv) (auto simp: promotion_ok_def)
  moreover have "fold ?step [0..<length sigils] (replicate (length sigils) 0, []) = (attrs, pool)"
    using assms(1) False by (simp add: scan_keyword_promotion_def Let_def)
  ultimately have "?inv (attrs, pool)" by (simp only:)
  then show ?thesis using assms(2) by auto
qed

lemma f64_lt_nan: "\<not> f64_lt f64_nan x"
  by (simp add: f64_lt_def f64_is_nan_def f64_nan_def f64_abs_bits_def)

theorem keyword_promotion_sound_witness:
  "promotion_ok [SIGIL_STR] [[bstr ''a'', bstr ''b'', bstr ''a'', bstr ''a'']] f64_nan 4 [1]
     [bstr ''a'', bstr ''b''] 0"
proof -
  have "scan_keyword_promotion [SIGIL_STR] [[bstr ''a'', bstr ''b'', bstr ''a'', bstr ''a'']] f64_nan 4
      = ([1], [bstr ''a'', bstr ''b''])"
  proof -
    have "promotes f64_nan 4 [bstr ''a'', bstr ''b'', bstr ''a'', bstr ''a'']"
      by (simp add: promotes_def bstr_def f64_lt_nan)
    then show ?thesis
      by (simp add: scan_keyword_promotion_def max_len_def intern_value_def bstr_def FIELD_ATTR_PROMOTED_def)
  qed
  moreover have "0 < length [SIGIL_STR]" by simp
  ultimately show ?thesis by (rule keyword_promotion_sound[THEN conjunct2, THEN conjunct2])
qed

end
