(* ===== verification/Compact_Cells.thy ===== *)
theory Compact_Cells
  imports Compact_Schema
begin

text \<open>
  The v1.3 compact encoding, second part: the delta tail index, narrow cells and the value pool
  (\<^verbatim>\<open>rust/src/compact.rs\<close>, lines 427 to 702).
\<close>

section \<open>Checked reads\<close>

definition cell_bytes :: "nat \<Rightarrow> u8 list \<Rightarrow> usize \<Rightarrow> u8 list res" where
  "cell_bytes n data offset =
     rbind (ok_or (checked_add offset n) OutOfBounds) (\<lambda>e.
     ok_or (get_range data offset e) OutOfBounds)"

definition cell_u16 :: "u8 list \<Rightarrow> usize \<Rightarrow> u16 res" where
  "cell_u16 data p = rbind (cell_bytes 2 data p) (\<lambda>b. Ok (u16_of_le b))"

definition cell_u32 :: "u8 list \<Rightarrow> usize \<Rightarrow> u32 res" where
  "cell_u32 data p = rbind (cell_bytes 4 data p) (\<lambda>b. Ok (u32_of_le b))"

definition cell_u64 :: "u8 list \<Rightarrow> usize \<Rightarrow> u64 res" where
  "cell_u64 data p = rbind (cell_bytes 8 data p) (\<lambda>b. Ok (u64_of_le b))"

lemma cell_bytes_at:
  "fits (xs @ b @ ys) \<Longrightarrow> length b = n \<Longrightarrow> cell_bytes n (xs @ b @ ys) (length xs) = Ok b"
  by (simp add: cell_bytes_def checked_add_def lims seg_def)

lemma cell_bytes_no_panic [simp]: "cell_bytes n data p \<noteq> Panic"
  by (simp add: cell_bytes_def res_simps ok_or_def split: option.splits)

lemma cell_uint_no_panic [simp]:
  "cell_u16 data p \<noteq> Panic" "cell_u32 data p \<noteq> Panic" "cell_u64 data p \<noteq> Panic"
  by (simp_all add: cell_u16_def cell_u32_def cell_u64_def res_simps)

interpretation cell_u16c: fixed_codec u16_le cell_u16 2
  by unfold_locales (simp_all add: cell_u16_def cell_bytes_at)

interpretation cell_u32c: fixed_codec u32_le cell_u32 4
  by unfold_locales (simp_all add: cell_u32_def cell_bytes_at)

interpretation cell_u64c: fixed_codec u64_le cell_u64 8
  by unfold_locales (simp_all add: cell_u64_def cell_bytes_at)

text \<open>\<open>(pos + align - 1) & !(align - 1)\<close> on a 64-bit \<open>usize\<close>.\<close>

definition align_to :: "usize \<Rightarrow> usize \<Rightarrow> usize" where
  "align_to pos align =
     (if align = 0 then pos
      else unat (and (word_of_nat (pos + align - 1) :: u64) (not (word_of_nat (align - 1)))))"

section \<open>The delta tail index\<close>

record delta_layout =
  dl_tail_ptr :: u64
  dl_record_count :: usize
  dl_block_size :: u32
  dl_single_key_id :: bool
  dl_anchors_off :: usize
  dl_deltas_off :: usize
  dl_key_ids_off :: "usize option"

definition block_len :: "u32 \<Rightarrow> usize" where
  "block_len block_size = max (unat block_size) 1"

definition anchor_count_of :: "usize \<Rightarrow> usize \<Rightarrow> usize" where
  "anchor_count_of n a = (if n = 0 then 0 else (n + a - 1) div a)"

definition delta_of :: "u64 \<Rightarrow> u64 \<Rightarrow> u32 res" where
  "delta_of anchor offset =
     (if offset < anchor then Err OutOfBounds
      else if 4294967295 < offset - anchor then Err Overflow
      else Ok (ucast (offset - anchor)))"

definition build_delta_tail_index :: "u64 list \<Rightarrow> u64 \<Rightarrow> u32 \<Rightarrow> u8 list res" where
  "build_delta_tail_index abs_offsets tail_ptr block_size =
     (let n = length abs_offsets; a = block_len block_size;
          anchor_count = anchor_count_of n a;
          anchors = map (\<lambda>j. case get_at abs_offsets (j * a) of None \<Rightarrow> 0 | Some x \<Rightarrow> x) [0..<anchor_count] in
      rbind (rmap (\<lambda>k. rbind (idx anchors (k div a)) (\<lambda>anchor. delta_of anchor (abs_offsets ! k))) [0..<n])
        (\<lambda>deltas.
      Ok (pad8 (u32_le (word_of_nat n) @ u32_le block_size @ u16_le 1 @ u16_le (word_of_nat anchor_count))
          @ concat (map u64_le anchors) @ concat (map u32_le deltas)
          @ u64_le tail_ptr @ u32_le MAGIC_FOOTER)))"

definition parse_delta_tail_layout :: "u8 list \<Rightarrow> usize \<Rightarrow> delta_layout res" where
  "parse_delta_tail_layout data tail_ptr =
     rbind (ok_or (checked_add tail_ptr 8) OutOfBounds) (\<lambda>header_end.
     if length data < header_end then Err OutOfBounds
     else rbind (rd_u32 data tail_ptr) (\<lambda>rc.
          rbind (rd_u32 data (tail_ptr + 4)) (\<lambda>block_size.
     if length data < tail_ptr + 12 then Err OutOfBounds
     else rbind (rd_u16 data (tail_ptr + 8)) (\<lambda>ti_flags.
          rbind (rd_u16 data (tail_ptr + 10)) (\<lambda>ac.
          rbind (ok_or (checked_add tail_ptr (align_to 12 8)) OutOfBounds) (\<lambda>anchors_off.
          rbind (ok_or (checked_mul (unat ac) 8) OutOfBounds) (\<lambda>anchor_bytes.
          rbind (ok_or (checked_add anchors_off anchor_bytes) OutOfBounds) (\<lambda>deltas_off.
          rbind (ok_or (checked_mul (unat rc) 4) OutOfBounds) (\<lambda>delta_bytes.
          rbind (ok_or (checked_add deltas_off delta_bytes) OutOfBounds) (\<lambda>p.
          let single = and ti_flags 1 \<noteq> 0 in
          rbind (if single then Ok (None, p)
                 else rbind (ok_or (checked_mul (unat rc) 2) OutOfBounds) (\<lambda>key_bytes.
                      rbind (ok_or (checked_add p key_bytes) OutOfBounds) (\<lambda>q. Ok (Some p, q)))) (\<lambda>(key_ids_off, p).
          if length data < p then Err OutOfBounds
          else Ok \<lparr>dl_tail_ptr = word_of_nat tail_ptr, dl_record_count = unat rc, dl_block_size = block_size,
                   dl_single_key_id = single, dl_anchors_off = anchors_off, dl_deltas_off = deltas_off,
                   dl_key_ids_off = key_ids_off\<rparr>)))))))))))"

definition checked_off :: "usize \<Rightarrow> usize \<Rightarrow> usize \<Rightarrow> usize res" where
  "checked_off base i w =
     rbind (ok_or (checked_mul i w) OutOfBounds) (\<lambda>d. ok_or (checked_add base d) OutOfBounds)"

definition delta_record_offset :: "u8 list \<Rightarrow> delta_layout \<Rightarrow> usize \<Rightarrow> usize res" where
  "delta_record_offset data l index =
     (if dl_record_count l \<le> index then Err OutOfBounds
      else rbind (checked_off (dl_anchors_off l) (index div block_len (dl_block_size l)) 8) (\<lambda>anchor_off.
           rbind (cell_u64 data anchor_off) (\<lambda>anchor.
           rbind (checked_off (dl_deltas_off l) index 4) (\<lambda>delta_off.
           rbind (cell_u32 data delta_off) (\<lambda>delta.
           ok_or (checked_add (unat anchor) (unat delta)) OutOfBounds)))))"

text \<open>\<open>tail_start + index * 10\<close> is not checked.\<close>

definition classic_record_offset :: "u8 list \<Rightarrow> usize \<Rightarrow> usize \<Rightarrow> usize option" where
  "classic_record_offset data tail_start index =
     (let entry = wadd tail_start (index * 10) in
      map_option (\<lambda>b. unat (u64_of_le b)) (get_range data (wadd entry 2) (wadd entry 10)))"

section \<open>Record framing helpers\<close>

definition is_dense_record :: "u8 list \<Rightarrow> usize \<Rightarrow> bool res" where
  "is_dense_record data offset =
     (if length data < wadd offset 9 then Err OutOfBounds
      else rbind (rd_u32 data offset) (\<lambda>magic.
        if magic \<noteq> MAGIC_OBJ then Err BadMagic
        else rbind (idx data (offset + 8)) (\<lambda>hdr. Ok (and hdr RECORD_HDR_DENSE \<noteq> 0))))"

definition read_str_cell_len :: "u8 list \<Rightarrow> usize \<Rightarrow> usize \<Rightarrow> usize res" where
  "read_str_cell_len data off prefix_len =
     (if prefix_len = 2 then
        if length data < wadd off 2 then Err OutOfBounds
        else rbind (rd_u16 data off) (\<lambda>n. Ok (unat n))
      else if prefix_len = 4 then
        if length data < wadd off 4 then Err OutOfBounds
        else rbind (rd_u32 data off) (\<lambda>n. Ok (unat n))
      else Err OutOfBounds)"

definition advance_past_str_cell :: "usize \<Rightarrow> usize \<Rightarrow> usize \<Rightarrow> usize" where
  "advance_past_str_cell pos payload_len prefix_len =
     (let cell = prefix_len + payload_len; pad = (8 - cell mod 8) mod 8 in pos + cell + pad)"

section \<open>Narrow cells\<close>

definition encode_int_cell :: "i64 \<Rightarrow> u8 \<Rightarrow> u8 list res" where
  "encode_int_cell v width =
     (if width = 1 then if sint v < 0 \<or> 255 < sint v then Err ValueOutOfRange else Ok [ucast v]
      else if width = 2 then
        if sint v < - (2 ^ 15) \<or> 2 ^ 15 - 1 < sint v then Err ValueOutOfRange else Ok (u16_le (ucast v))
      else if width = 4 then
        if sint v < - (2 ^ 31) \<or> 2 ^ 31 - 1 < sint v then Err ValueOutOfRange else Ok (u32_le (ucast v))
      else if width = 8 then Ok (u64_le v)
      else Err (ParseError ''invalid int width: {width}''))"

definition decode_int_cell :: "u8 list \<Rightarrow> usize \<Rightarrow> u8 \<Rightarrow> i64 res" where
  "decode_int_cell data offset width =
     (if width = 1 then rbind (ok_or (get_at data offset) OutOfBounds) (\<lambda>b. Ok (ucast b))
      else if width = 2 then rbind (cell_u16 data offset) (\<lambda>b. Ok (scast b))
      else if width = 4 then rbind (cell_u32 data offset) (\<lambda>b. Ok (scast b))
      else if width = 8 then cell_u64 data offset
      else Err OutOfBounds)"

definition encode_f64_cell :: "f64 \<Rightarrow> u8 \<Rightarrow> u8 list res" where
  "encode_f64_cell v width =
     (if width = 4 then Ok (u32_le (f32_of_f64 v))
      else if width = 8 then Ok (u64_le v)
      else Err (ParseError ''invalid float width: {width}''))"

definition decode_f64_cell :: "u8 list \<Rightarrow> usize \<Rightarrow> u8 \<Rightarrow> f64 res" where
  "decode_f64_cell data offset width =
     (if width = 4 then rbind (cell_u32 data offset) (\<lambda>b. Ok (f64_of_f32 b))
      else if width = 8 then cell_u64 data offset
      else Err OutOfBounds)"

definition resolve_value_pool :: "ext_schema \<Rightarrow> u16 \<Rightarrow> rstring option" where
  "resolve_value_pool s index = get_at (s_pool s) (unat index)"

definition materialise_keyword :: "ext_schema \<Rightarrow> usize \<Rightarrow> u16 \<Rightarrow> rstring option" where
  "materialise_keyword s slot index =
     (let sig = get_or_zero (s_sigils s) slot in
      if sig = SIGIL_KEYWORD \<or> is_promoted s slot then resolve_value_pool s index else None)"

section \<open>Round trips\<close>

lemma align_to_12: "align_to 12 8 = 16"
  by (simp add: align_to_def)

lemma anchor_index: "k < n \<Longrightarrow> 0 < a \<Longrightarrow> k div a < anchor_count_of n a"
proof -
  assume a: "k < n" "0 < a"
  then have "k div a \<le> (n - 1) div a" by (intro div_le_mono) simp
  moreover have "(n + a - 1) div a = (n - 1) div a + 1"
  proof -
    from a have e: "n + a - 1 = (n - 1) + a" by simp
    show ?thesis unfolding e using a(2) by (intro div_add_self2) simp
  qed
  ultimately show ?thesis using a by (simp add: anchor_count_of_def)
qed

lemma delta_of_Ok: "delta_of anchor x = Ok d \<Longrightarrow> unat anchor + unat d = unat x"
proof -
  assume "delta_of anchor x = Ok d"
  then have le: "anchor \<le> x" and small: "x - anchor \<le> 4294967295" and d: "d = ucast (x - anchor)"
    by (auto simp: delta_of_def split: if_splits)
  from le have sub: "unat (x - anchor) = unat x - unat anchor" by (simp add: unat_sub)
  have "unat (x - anchor) \<le> 4294967295" using small by (simp add: word_le_nat_alt)
  then have "unat d = unat (x - anchor)" 
    by (simp add: d unsigned_ucast_eq take_bit_nat_eq_self)
  with sub le show ?thesis by (simp add: word_le_nat_alt)
qed

text \<open>The tail that the builder emits, and the layout that is read from it when the anchor count is cut to 16 bits.\<close>

definition delta_anchors :: "u64 list \<Rightarrow> u32 \<Rightarrow> u64 list" where
  "delta_anchors offs block_size =
     map (\<lambda>j. case get_at offs (j * block_len block_size) of None \<Rightarrow> 0 | Some x \<Rightarrow> x)
       [0..<anchor_count_of (length offs) (block_len block_size)]"

lemma delta_tail_shape:
  assumes "build_delta_tail_index offs tail_ptr block_size = Ok bytes"
  obtains deltas where
    "rmap (\<lambda>k. rbind (idx (delta_anchors offs block_size) (k div block_len block_size)) (\<lambda>anchor. delta_of anchor (offs ! k)))
       [0..<length offs] = Ok deltas"
    "bytes = u32_le (word_of_nat (length offs)) @ u32_le block_size @ u16_le 1
        @ u16_le (word_of_nat (anchor_count_of (length offs) (block_len block_size))) @ replicate 4 0
        @ concat (map u64_le (delta_anchors offs block_size)) @ concat (map u32_le deltas) @ u64_le tail_ptr @ u32_le MAGIC_FOOTER"
proof -
  let ?h = "u32_le (word_of_nat (length offs)) @ u32_le block_size @ u16_le 1
      @ u16_le (word_of_nat (anchor_count_of (length offs) (block_len block_size)))"
  have "length ?h = 12" by simp
  then have "pad8 ?h = ?h @ replicate 4 0" by (simp only: pad8_def) (simp add: align8_def)
  then have "\<exists>deltas. rmap (\<lambda>k. rbind (idx (delta_anchors offs block_size) (k div block_len block_size)) (\<lambda>anchor. delta_of anchor (offs ! k)))
       [0..<length offs] = Ok deltas
    \<and> bytes = ?h @ replicate 4 0 @ concat (map u64_le (delta_anchors offs block_size)) @ concat (map u32_le deltas)
        @ u64_le tail_ptr @ u32_le MAGIC_FOOTER"
    using assms unfolding delta_anchors_def by (auto simp: build_delta_tail_index_def Let_def res_simps)
  with that show thesis by auto
qed

lemma delta_tail_parses:
  fixes offs :: "u64 list" and block_size :: u32 and pre post :: "u8 list"
  defines "c \<equiv> anchor_count_of (length offs) (block_len block_size) mod 2 ^ 16"
  assumes "build_delta_tail_index offs tail_ptr block_size = Ok bytes" and "length offs < 2 ^ 32" and "fits (pre @ bytes @ post)"
  shows "parse_delta_tail_layout (pre @ bytes @ post) (length pre) = Ok
    \<lparr>dl_tail_ptr = word_of_nat (length pre), dl_record_count = length offs, dl_block_size = block_size,
     dl_single_key_id = True, dl_anchors_off = length pre + 16, dl_deltas_off = length pre + 16 + 8 * c, dl_key_ids_off = None\<rparr>"
proof -
  let ?n = "length offs" let ?c = "anchor_count_of (length offs) (block_len block_size)"
  obtain deltas where dl: "rmap (\<lambda>k. rbind (idx (delta_anchors offs block_size) (k div block_len block_size)) (\<lambda>anchor. delta_of anchor (offs ! k)))
       [0..<?n] = Ok deltas"
    and b: "bytes = u32_le (word_of_nat ?n) @ u32_le block_size @ u16_le 1 @ u16_le (word_of_nat ?c) @ replicate 4 0
        @ concat (map u64_le (delta_anchors offs block_size)) @ concat (map u32_le deltas) @ u64_le tail_ptr @ u32_le MAGIC_FOOTER"
    by (rule delta_tail_shape[OF assms(2)])
  define data rest where "data = pre @ bytes @ post"
    and "rest = replicate 4 0 @ concat (map u64_le (delta_anchors offs block_size)) @ concat (map u32_le deltas)
      @ u64_le tail_ptr @ u32_le MAGIC_FOOTER @ post"
  have d: "data = pre @ u32_le (word_of_nat ?n) @ u32_le block_size @ u16_le 1 @ u16_le (word_of_nat ?c) @ rest"
    by (simp add: data_def b rest_def)
  have fits: "fits data" using assms(4) by (simp add: data_def)
  have la: "length (delta_anchors offs block_size) = ?c" and "length deltas = ?n"
    using rmap_Ok_length[OF dl] by (simp_all add: delta_anchors_def)
  then have len: "length data = length pre + 28 + 8 * ?c + 4 * ?n + length post"
    by (simp add: d rest_def u64c.length_array u32c.length_array)
  have "c \<le> ?c" unfolding c_def by (rule mod_less_eq_dividend)
  then have bnd: "length pre + 16 + 8 * c + 4 * ?n \<le> length data" using len by simp
  have r0: "rd_u32 data (length pre) = Ok (word_of_nat ?n)" by (rule u32c.rd_at[OF fits d refl])
  have r4: "rd_u32 data (length pre + 4) = Ok block_size"
    by (rule u32c.rd_at[OF fits, of "pre @ u32_le (word_of_nat ?n)"]) (simp_all add: d)
  have r8: "rd_u16 data (length pre + 8) = Ok 1"
    by (rule u16c.rd_at[OF fits, of "pre @ u32_le (word_of_nat ?n) @ u32_le block_size"]) (simp_all add: d)
  have r10: "rd_u16 data (length pre + 10) = Ok (word_of_nat ?c)"
    by (rule u16c.rd_at[OF fits, of "pre @ u32_le (word_of_nat ?n) @ u32_le block_size @ u16_le 1"]) (simp_all add: d)
  have un: "unat (word_of_nat ?n :: u32) = ?n" "unat (word_of_nat ?c :: u16) = c"
    using assms(3) by (simp_all add: unat_of_nat c_def)
  have "parse_delta_tail_layout data (length pre) = Ok
    \<lparr>dl_tail_ptr = word_of_nat (length pre), dl_record_count = ?n, dl_block_size = block_size,
     dl_single_key_id = True, dl_anchors_off = length pre + 16, dl_deltas_off = length pre + 16 + 8 * c, dl_key_ids_off = None\<rparr>"
    using fits bnd len
    by (simp add: parse_delta_tail_layout_def checked_add_def checked_mul_def lims r0 r4 r8 r10 un align_to_12
        Let_def mult.commute)
  then show ?thesis by (simp add: data_def)
qed

text \<open>
  C15: The delta tail index gives back every record offset, as long as it has fewer than 65536 anchors: when
  \<open>build_delta_tail_index\<close> accepts a list of fewer than \<open>2 ^ 32\<close> offsets whose blocks need fewer than
  \<open>2 ^ 16\<close> anchors, parsing its bytes anywhere in a buffer succeeds with the same number of records, and the
  offset of record \<open>k\<close> that is computed from its anchor and its delta is the offset that was put in.  The
  builder accepts longer lists too, which are misread (\<open>delta_tail_anchors_cut\<close>).
\<close>

theorem delta_tail_roundtrip:
  assumes "build_delta_tail_index offs tail_ptr block_size = Ok bytes"
    and "length offs < 2 ^ 32" and "anchor_count_of (length offs) (block_len block_size) < 2 ^ 16"
    and "fits (pre @ bytes @ post)" and "k < length offs"
  shows "\<exists>l. parse_delta_tail_layout (pre @ bytes @ post) (length pre) = Ok l
           \<and> dl_record_count l = length offs \<and> dl_single_key_id l
           \<and> delta_record_offset (pre @ bytes @ post) l k = Ok (unat (offs ! k))"
proof -
  let ?n = "length offs" let ?a = "block_len block_size" let ?anchors = "delta_anchors offs block_size"
  let ?c = "anchor_count_of ?n ?a"
  obtain deltas where dl: "rmap (\<lambda>k. rbind (idx ?anchors (k div ?a)) (\<lambda>anchor. delta_of anchor (offs ! k))) [0..<?n] = Ok deltas"
    and b: "bytes = u32_le (word_of_nat ?n) @ u32_le block_size @ u16_le 1 @ u16_le (word_of_nat ?c) @ replicate 4 0
        @ concat (map u64_le ?anchors) @ concat (map u32_le deltas) @ u64_le tail_ptr @ u32_le MAGIC_FOOTER"
    by (rule delta_tail_shape[OF assms(1)])
  define data where "data = pre @ bytes @ post"
  have fits: "fits data" using assms(4) by (simp add: data_def)
  have la: "length ?anchors = ?c" and ld: "length deltas = ?n" using rmap_Ok_length[OF dl] by (simp_all add: delta_anchors_def)
  have ai: "k div ?a < length ?anchors" using anchor_index[OF assms(5)] la by (simp add: block_len_def)
  have "rbind (idx ?anchors (k div ?a)) (\<lambda>anchor. delta_of anchor (offs ! k)) = Ok (deltas ! k)"
    using dl assms(5) by (auto simp: rmap_Ok_iff list_all2_conv_all_nth)
  then have sum: "unat (?anchors ! (k div ?a)) + unat (deltas ! k) = unat (offs ! k)" using ai by (simp add: delta_of_Ok)
  let ?h = "u32_le (word_of_nat ?n) @ u32_le block_size @ u16_le 1 @ u16_le (word_of_nat ?c)"
  define rest where "rest = u64_le tail_ptr @ u32_le MAGIC_FOOTER @ post"
  have d: "data = pre @ ?h @ replicate 4 0 @ concat (map u64_le ?anchors) @ concat (map u32_le deltas) @ rest"
    by (simp add: data_def b rest_def)
  have bnd: "length pre + 16 + 8 * ?c + 4 * ?n \<le> length data" by (simp add: d u64c.length_array u32c.length_array la ld)
  have a: "cell_u64 data (length pre + 16 + (k div ?a) * 8) = Ok (?anchors ! (k div ?a))"
    using cell_u64c.rd_array[OF ai, of _ "pre @ ?h @ replicate 4 0" "concat (map u32_le deltas) @ rest"] fits by (simp add: d)
  have e: "cell_u32 data (length pre + 16 + 8 * ?c + k * 4) = Ok (deltas ! k)"
    using cell_u32c.rd_array[of k deltas "length pre + 16 + 8 * ?c + k * 4" "pre @ ?h @ replicate 4 0 @ concat (map u64_le ?anchors)" rest]
      fits assms(5) ld la by (simp add: d u64c.length_array mult.commute)
  have "k div ?a < ?c" using ai la by simp
  then have "checked_off (length pre + 16) (k div ?a) 8 = Ok (length pre + 16 + (k div ?a) * 8)"
    "checked_off (length pre + 16 + 8 * ?c) k 4 = Ok (length pre + 16 + 8 * ?c + k * 4)"
    using assms(5) fits bnd by (simp_all add: checked_off_def checked_add_def checked_mul_def lims)
  moreover have "unat (offs ! k) < USIZE_LIM" using unsigned_less[of "offs ! k"] by (simp add: lims)
  ultimately show ?thesis
    using delta_tail_parses[OF assms(1,2,4)] assms(3,5) a e sum
    by (simp add: data_def delta_record_offset_def checked_add_def)
qed

theorem delta_tail_roundtrip_witness:
  "\<exists>l. parse_delta_tail_layout ([9] @ (case build_delta_tail_index [64, 200, 264] 300 2 of Ok b \<Rightarrow> b | _ \<Rightarrow> []) @ [])
         (length [9 :: u8]) = Ok l \<and> dl_record_count l = length [64 :: u64, 200, 264] \<and> dl_single_key_id l
     \<and> delta_record_offset ([9] @ (case build_delta_tail_index [64, 200, 264] 300 2 of Ok b \<Rightarrow> b | _ \<Rightarrow> []) @ []) l 2
         = Ok (unat ([64 :: u64, 200, 264] ! 2))"
proof -
  let ?b = "case build_delta_tail_index [64, 200, 264] 300 2 of Ok b \<Rightarrow> b | _ \<Rightarrow> []"
  have b: "build_delta_tail_index [64, 200, 264] 300 2 = Ok ?b" by code_simp
  show ?thesis
    by (rule delta_tail_roundtrip[OF b]) code_simp+
qed

text \<open>
  With \<open>2 ^ 16\<close> anchors or more the count is cut, and the deltas are looked for among the anchors: record 0 is
  found at its own offset plus the low half of another record's offset.
\<close>

lemma le_nat_add: "le_nat (a + b) x = le_nat a x @ le_nat b (x div 256 ^ a)"
  by (induction a arbitrary: x) (simp_all add: div_mult2_eq)

lemma le_nat_mod: "le_nat n (x mod 256 ^ n) = le_nat n x"
  using le_nat_from_le[of "le_nat n x"] by (simp add: from_le_le_nat)

lemma low_half: "u64_le x = u32_le (ucast x) @ u32_le (ucast (drop_bit 32 x))"
proof -
  have "unat (ucast x :: u32) = unat x mod 2 ^ 32" by (simp add: unsigned_ucast_eq take_bit_eq_mod)
  moreover have "unat (ucast (drop_bit 32 x) :: u32) = unat x div 2 ^ 32 mod 2 ^ 32"
    by (simp add: unsigned_ucast_eq take_bit_eq_mod drop_bit_eq_div unat_div_distrib)
  moreover have "le_nat 8 n = le_nat 4 (n mod 2 ^ 32) @ le_nat 4 (n div 2 ^ 32 mod 2 ^ 32)" for n
    using le_nat_add[of 4 4 n] le_nat_mod[of 4 n] le_nat_mod[of 4 "n div 2 ^ 32"] by simp
  ultimately show ?thesis by (simp add: u64_le_def u32_le_def)
qed

lemma delta_tail_anchors_cut:
  assumes "build_delta_tail_index offs tail_ptr block_size = Ok bytes" and "length offs < 2 ^ 32" and "fits (pre @ bytes @ post)"
    and "2 ^ 16 \<le> anchor_count_of (length offs) (block_len block_size)"
    and "j = anchor_count_of (length offs) (block_len block_size) mod 2 ^ 16"
  shows "\<exists>l. parse_delta_tail_layout (pre @ bytes @ post) (length pre) = Ok l
    \<and> delta_record_offset (pre @ bytes @ post) l 0
        = ok_or (checked_add (unat (offs ! 0)) (unat (ucast (delta_anchors offs block_size ! j) :: u32))) OutOfBounds"
proof -
  let ?n = "length offs" let ?a = "block_len block_size" let ?anchors = "delta_anchors offs block_size"
  let ?c = "anchor_count_of ?n ?a"
  obtain deltas where dl: "rmap (\<lambda>k. rbind (idx ?anchors (k div ?a)) (\<lambda>anchor. delta_of anchor (offs ! k))) [0..<?n] = Ok deltas"
    and b: "bytes = u32_le (word_of_nat ?n) @ u32_le block_size @ u16_le 1 @ u16_le (word_of_nat ?c) @ replicate 4 0
        @ concat (map u64_le ?anchors) @ concat (map u32_le deltas) @ u64_le tail_ptr @ u32_le MAGIC_FOOTER"
    by (rule delta_tail_shape[OF assms(1)])
  define data where "data = pre @ bytes @ post"
  have fits: "fits data" using assms(3) by (simp add: data_def)
  have la: "length ?anchors = ?c" by (simp add: delta_anchors_def)
  have "j < 2 ^ 16" using assms(5) by simp
  then have j: "j < length ?anchors" and zero: "0 < length ?anchors" "0 < ?n"
    using assms(4) la by (auto simp: anchor_count_of_def split: if_splits)
  have first: "?anchors ! 0 = offs ! 0" using zero by (simp add: delta_anchors_def get_at_def)
  let ?h = "u32_le (word_of_nat ?n) @ u32_le block_size @ u16_le 1 @ u16_le (word_of_nat ?c)"
  define rest where "rest = concat (map u32_le deltas) @ u64_le tail_ptr @ u32_le MAGIC_FOOTER @ post"
  have d: "data = pre @ ?h @ replicate 4 0 @ concat (map u64_le ?anchors) @ rest" by (simp add: data_def b rest_def)
  have len: "length pre + 16 + 8 * ?c \<le> length data" by (simp add: d u64c.length_array la)
  have a: "cell_u64 data (length pre + 16) = Ok (offs ! 0)"
    using cell_u64c.rd_array[OF zero(1), of "length pre + 16" "pre @ ?h @ replicate 4 0" rest] fits first by (simp add: d)
  have "concat (map u64_le ?anchors) = concat (map u64_le (take j ?anchors)) @ u64_le (?anchors ! j) @ concat (map u64_le (drop (Suc j) ?anchors))"
    by (metis concat.simps(2) concat_append id_take_nth_drop[OF j] list.simps(9) map_append)
  then have "data = (pre @ ?h @ replicate 4 0 @ concat (map u64_le (take j ?anchors))) @ u32_le (ucast (?anchors ! j))
      @ (u32_le (ucast (drop_bit 32 (?anchors ! j))) @ concat (map u64_le (drop (Suc j) ?anchors)) @ rest)"
    by (simp add: d low_half)
  moreover have "length pre + 16 + 8 * j = length (pre @ ?h @ replicate 4 0 @ concat (map u64_le (take j ?anchors)))"
    using j by (simp add: u64c.length_array)
  ultimately have e: "cell_u32 data (length pre + 16 + 8 * j) = Ok (ucast (?anchors ! j))"
    by (rule cell_u32c.rd_at[OF fits])
  have "checked_off (length pre + 16) 0 8 = Ok (length pre + 16)" "checked_off (length pre + 16 + 8 * j) 0 4 = Ok (length pre + 16 + 8 * j)"
    using fits len j la by (simp_all add: checked_off_def checked_add_def checked_mul_def lims)
  then show ?thesis
    using delta_tail_parses[OF assms(1,2,3)] zero(2) a e by (simp add: data_def delta_record_offset_def assms(5))
qed

subsection \<open>Narrow cells\<close>

lemma sint_ucast_fits:
  fixes v :: "64 word"
  assumes "- (2 ^ (LENGTH('b) - 1)) \<le> sint v" and "sint v < 2 ^ (LENGTH('b) - 1)" and "LENGTH('b) \<le> 64"
  shows "sint (ucast v :: 'b::len word) = sint v"
proof -
  let ?n = "LENGTH('b) - Suc 0"
  have "sint (ucast v :: 'b word) = signed_take_bit ?n (uint v)"
    by (simp add: signed_ucast_eq)
  also have "\<dots> = signed_take_bit ?n (sint v)"
    using assms(3) by (simp only: sint_uint[of v] signed_take_bit_signed_take_bit) (simp add: min_absorb1)
  also have "\<dots> = sint v"
    using assms(1,2) by (intro signed_take_bit_int_eq_self) simp_all
  finally show ?thesis .
qed

lemma scast_ucast_fits:
  fixes v :: "64 word"
  assumes "- (2 ^ (LENGTH('b) - 1)) \<le> sint v" and "sint v < 2 ^ (LENGTH('b) - 1)" and "LENGTH('b) \<le> 64"
  shows "scast (ucast v :: 'b::len word) = v"
proof -
  have "scast (ucast v :: 'b word) = (word_of_int (sint (ucast v :: 'b word)) :: 64 word)"
    by (rule scast_eq)
  then show ?thesis unfolding sint_ucast_fits[OF assms] by simp
qed

lemma ucast_byte_fits: "0 \<le> sint v \<Longrightarrow> sint v \<le> 255 \<Longrightarrow> ucast (ucast v :: u8) = (v :: i64)"
proof -
  assume a: "0 \<le> sint v" "sint v \<le> 255"
  then have "uint v = sint v" by (simp add: uint_sint take_bit_int_eq_self)
  with a have "take_bit 8 (uint v) = uint v" by (intro take_bit_int_eq_self) simp_all
  then show ?thesis by (simp add: word_uint_eq_iff unsigned_ucast_eq unsigned_take_bit_eq)
qed

text \<open>
  A narrow integer cell is read back exactly: whatever \<open>encode_int_cell\<close> writes for a value and a
  width, \<open>decode_int_cell\<close> reads as that value from wherever the cell stands, negative values and the
  unsigned one-byte width included.
\<close>

lemma int_cell_roundtrip:
  assumes "encode_int_cell v width = Ok cell" and "fits (pre @ cell @ post)"
  shows "decode_int_cell (pre @ cell @ post) (length pre) width = Ok v"
proof -
  consider "width = 1" "0 \<le> sint v" "sint v \<le> 255" "cell = [ucast v]"
    | "width = 2" "- (2 ^ 15) \<le> sint v" "sint v < 2 ^ 15" "cell = u16_le (ucast v)"
    | "width = 4" "- (2 ^ 31) \<le> sint v" "sint v < 2 ^ 31" "cell = u32_le (ucast v)"
    | "width = 8" "cell = u64_le v"
    using assms(1) by (auto simp: encode_int_cell_def not_less not_le split: if_splits)
  then show ?thesis
  proof cases
    case 1
    then show ?thesis by (simp add: decode_int_cell_def ucast_byte_fits)
  next
    case 2
    then have "scast (ucast v :: u16) = v" by (intro scast_ucast_fits) simp_all
    with 2 assms(2) show ?thesis by (simp add: decode_int_cell_def cell_u16c.rd_enc)
  next
    case 3
    then have "scast (ucast v :: u32) = v" by (intro scast_ucast_fits) simp_all
    with 3 assms(2) show ?thesis by (simp add: decode_int_cell_def cell_u32c.rd_enc)
  next
    case 4
    with assms(2) show ?thesis by (simp add: decode_int_cell_def cell_u64c.rd_enc)
  qed
qed

text \<open>
  C30: Narrow integer columns lose nothing.  The width inferred from the least and the greatest value of a
  column takes every value between them, in as many bytes as the width says, and the cell is read back
  as that value from wherever it stands -- negative values and the unsigned one-byte width included.
\<close>

theorem narrow_int_column:
  assumes "sint lo \<le> sint v" and "sint v \<le> sint hi"
  shows "\<exists>cell. encode_int_cell v (infer_int_width lo hi) = Ok cell \<and> length cell = unat (infer_int_width lo hi)
    \<and> (\<forall>pre post. fits (pre @ cell @ post) \<longrightarrow>
         decode_int_cell (pre @ cell @ post) (length pre) (infer_int_width lo hi) = Ok v)"
proof -
  have "\<exists>cell. encode_int_cell v (infer_int_width lo hi) = Ok cell \<and> length cell = unat (infer_int_width lo hi)"
    using assms by (auto simp: infer_int_width_def encode_int_cell_def)
  then show ?thesis using int_cell_roundtrip by blast
qed

theorem narrow_int_column_witness:
  "\<exists>cell. encode_int_cell (- 2) (infer_int_width (- 3) 1000) = Ok cell \<and> length cell = 2
     \<and> decode_int_cell ([9] @ cell @ []) 1 2 = Ok (- 2)"
proof -
  have w: "infer_int_width (- 3) 1000 = 2" and le: "sint (- 3 :: i64) \<le> sint (- 2 :: i64)" "sint (- 2 :: i64) \<le> sint (1000 :: i64)"
    by code_simp+
  obtain cell where c: "encode_int_cell (- 2) 2 = Ok cell" "length cell = 2"
    "\<And>pre post. fits (pre @ cell @ post) \<Longrightarrow> decode_int_cell (pre @ cell @ post) (length pre) 2 = Ok (- 2)"
    using narrow_int_column[OF le] unfolding w by auto
  have "fits ([9] @ cell @ [])" using c(2) by (simp add: lims)
  from c(3)[OF this] show ?thesis using c(1,2) w by auto
qed

text \<open>
  A string of a promoted column survives: the index that \<open>append_cell\<close> writes for a string of the
  value pool resolves to that string, as long as the pool has at most 65536 entries -- the index is
  cut to 16 bits.
\<close>

lemma pool_index_resolves:
  assumes "position v (s_pool s) = Some i" and "length (s_pool s) \<le> 65536" and "is_promoted s slot"
  shows "materialise_keyword s slot (word_of_nat i) = Some v"
proof -
  have "i < length (s_pool s)" "s_pool s ! i = v" using position_Some[OF assms(1)] by auto
  then show ?thesis using assms(2,3)
    by (simp add: materialise_keyword_def resolve_value_pool_def unat_of_nat get_at_def)
qed

end
