(* ===== verification/Decoder.thy ===== *)
theory Decoder
  imports Compact_Cells
begin

text \<open>
  The minimal decoder of \<^verbatim>\<open>.nxb\<close> files: \<^verbatim>\<open>rust/src/decoder.rs\<close>.

  \<open>decode\<close> checks the preamble, the footer and the schema, and decodes the first record when the
  layout is row-oriented; \<open>decode_record_at\<close> decodes one record at an offset of the caller's choice.
  Offsets that come from outside are added with \<open>wadd\<close>, which wraps as \<open>usize\<close> does in a release
  build; a slice whose end has wrapped panics.
\<close>

section \<open>Preamble and footer\<close>

definition validate_preamble_flags :: "u16 \<Rightarrow> unit res" where
  "validate_preamble_flags flags =
     (if has_flag flags FLAG_COLUMNAR \<and> has_flag flags FLAG_PAX then Err InvalidFlags else Ok ())"

definition footer_size :: "u16 \<Rightarrow> usize" where
  "footer_size flags =
     (if has_flag flags FLAG_PAX then 28 else if has_flag flags FLAG_COLUMNAR then 20 else 12)"

datatype decoded_value =
    DInt i64
  | DFloat f64
  | DBool bool
  | DStr rstring
  | DTime i64
  | DBinary "u8 list"
  | DNull
  | DList "decoded_value list"
  | DObject "(rstring \<times> decoded_value) list"
  | DRaw "u8 list"

record decoded_file =
  df_version :: u16
  df_flags :: u16
  df_dict_hash :: u64
  df_tail_ptr :: u64
  df_keys :: "rstring list"
  df_sigils :: "u8 list"
  df_root_fields :: "(rstring \<times> decoded_value) list"
  df_record_count :: usize
  df_tail_start :: usize
  df_data_start :: usize

section \<open>Values\<close>

definition list_elem :: "u8 list \<Rightarrow> u8 \<Rightarrow> usize \<Rightarrow> decoded_value res" where
  "list_elem data sigil off =
     (if length data < off + 8 then Err OutOfBounds
      else if sigil = SIGIL_INT then rbind (rd_u64 data off) (\<lambda>v. Ok (DInt v))
      else if sigil = SIGIL_FLOAT then rbind (rd_u64 data off) (\<lambda>v. Ok (DFloat v))
      else rbind (slice data off (off + 8)) (\<lambda>bs. Ok (DRaw bs)))"

definition decode_list :: "u8 list \<Rightarrow> usize \<Rightarrow> decoded_value res" where
  "decode_list data offset =
     (if length data < offset + 16 then Err OutOfBounds
      else rbind (rd_u32 data offset) (\<lambda>magic.
        if magic \<noteq> MAGIC_LIST then Err BadMagic
        else rbind (idx data (offset + 8)) (\<lambda>elem_sigil.
             rbind (rd_u32 data (offset + 9)) (\<lambda>ec.
        let elem_count = unat ec; data_start = offset + 16;
            max_elems = (length data - data_start) div 8 in
        if max_elems < elem_count then Err OutOfBounds
        else rbind (rmap (\<lambda>i. list_elem data elem_sigil (data_start + i * 8)) [0..<elem_count])
               (\<lambda>items. Ok (DList items))))))"

definition MAX_LINK_DEPTH :: nat where "MAX_LINK_DEPTH = 16"

text \<open>The arms of the final \<open>match sigil\<close>, for an offset below the end of the data.\<close>

definition int_or_raw :: "u8 list \<Rightarrow> usize \<Rightarrow> decoded_value res" where
  "int_or_raw data offset =
     (if offset + 8 \<le> length data then rbind (rd_u64 data offset) (\<lambda>v. Ok (DInt v))
      else rbind (slice data offset (length data)) (\<lambda>bs. Ok (DRaw bs)))"

definition atomic8 :: "u8 list \<Rightarrow> usize \<Rightarrow> (u64 \<Rightarrow> decoded_value) \<Rightarrow> decoded_value res" where
  "atomic8 data offset mk =
     (if length data < offset + 8 then Err OutOfBounds
      else rbind (rd_u64 data offset) (\<lambda>v. Ok (mk v)))"

definition decode_str :: "u8 list \<Rightarrow> usize \<Rightarrow> decoded_value res" where
  "decode_str data offset =
     (if length data < offset + 4 then Err OutOfBounds
      else rbind (rd_u32 data offset) (\<lambda>l. let len = unat l in
        if 1024 * 1024 < len \<or> length data < offset + 4 + len then int_or_raw data offset
        else rbind (slice data (offset + 4) (offset + 4 + len)) (\<lambda>bs. Ok (DStr (from_utf8_lossy bs)))))"

definition decode_binary :: "u8 list \<Rightarrow> usize \<Rightarrow> decoded_value res" where
  "decode_binary data offset =
     (if length data < offset + 4 then Err OutOfBounds
      else rbind (rd_u32 data offset) (\<lambda>l. let len = unat l in
        if length data < offset + 4 + len then Err OutOfBounds
        else rbind (slice data (offset + 4) (offset + 4 + len)) (\<lambda>bs. Ok (DBinary bs))))"

definition decode_by_sigil :: "u8 list \<Rightarrow> usize \<Rightarrow> u8 \<Rightarrow> decoded_value res" where
  "decode_by_sigil data offset sigil =
     (if sigil = SIGIL_NULL then Ok DNull
      else if sigil = SIGIL_INT then atomic8 data offset DInt
      else if sigil = SIGIL_FLOAT then atomic8 data offset DFloat
      else if sigil = SIGIL_BOOL then rbind (idx data offset) (\<lambda>b. Ok (DBool (b \<noteq> 0)))
      else if sigil = SIGIL_STR then decode_str data offset
      else if sigil = SIGIL_TIME then atomic8 data offset DTime
      else if sigil = SIGIL_BINARY then decode_binary data offset
      else int_or_raw data offset)"

text \<open>Nested objects come back raw, lists are decoded, and everything else goes by its sigil.\<close>

definition decode_plain :: "u8 list \<Rightarrow> usize \<Rightarrow> u8 \<Rightarrow> decoded_value res" where
  "decode_plain data offset sigil =
     (if length data < offset + 4 then decode_by_sigil data offset sigil
      else rbind (rd_u32 data offset) (\<lambda>maybe_magic.
        if maybe_magic = MAGIC_OBJ then
          rbind (slice data offset (offset + min 8 (length data - offset))) (\<lambda>bs. Ok (DRaw bs))
        else if maybe_magic = MAGIC_LIST then decode_list data offset
        else decode_by_sigil data offset sigil))"

function decode_value_at_depth :: "u8 list \<Rightarrow> usize \<Rightarrow> u8 \<Rightarrow> nat \<Rightarrow> decoded_value res" where
  "decode_value_at_depth data offset sigil depth =
     (if length data \<le> offset then Err OutOfBounds
      else if sigil = SIGIL_LINK then
        if MAX_LINK_DEPTH \<le> depth then Err CircularLink
        else if length data < offset + 8 then Err OutOfBounds
        else rbind (rd_u64 data offset) (\<lambda>t.
          let target = unat t in
          if target = offset then Err CircularLink
          else decode_value_at_depth data target SIGIL_LINK (depth + 1))
      else decode_plain data offset sigil)"
  by pat_completeness auto

termination
  by (relation "measure (\<lambda>(data, offset, sigil, depth). MAX_LINK_DEPTH - depth)") auto

declare decode_value_at_depth.simps [simp del]

definition decode_value_at :: "u8 list \<Rightarrow> usize \<Rightarrow> u8 \<Rightarrow> decoded_value res" where
  "decode_value_at data offset sigil = decode_value_at_depth data offset sigil 0"

section \<open>Objects\<close>

text \<open>\<open>format!("key_{bit_idx}")\<close>\<close>

fun show_nat :: "nat \<Rightarrow> rstring" where
  "show_nat n = (if n < 10 then [byte (48 + n)] else show_nat (n div 10) @ [byte (48 + n mod 10)])"

declare show_nat.simps [simp del]

definition key_name :: "rstring list \<Rightarrow> usize \<Rightarrow> rstring" where
  "key_name keys i = (case get_at keys i of Some k \<Rightarrow> k | None \<Rightarrow> bstr ''key_'' @ show_nat i)"

definition read_offset :: "usize \<Rightarrow> u8 list \<Rightarrow> usize \<Rightarrow> (usize \<times> usize) res" where
  "read_offset base data pos =
     (if length data < pos + 2 then Err OutOfBounds
      else rbind (rd_u16 data pos) (\<lambda>off. Ok (base + unat off, pos + 2)))"

definition present_slots :: "bool list \<Rightarrow> usize list" where
  "present_slots bits = filter (\<lambda>i. bits ! i) [0..<length bits]"

definition decode_object ::
  "u8 list \<Rightarrow> usize \<Rightarrow> rstring list \<Rightarrow> u8 list \<Rightarrow> (rstring \<times> decoded_value) list res"
where
  "decode_object data offset keys sigils =
     (if length data < wadd offset 8 then Err OutOfBounds
      else rbind (rd_u32 data offset) (\<lambda>magic.
        if magic \<noteq> MAGIC_OBJ then Err BadMagic
        else rbind (rd_u32 data (offset + 4)) (\<lambda>obj_len.
             rbind (read_bitmask data (offset + 8) []) (\<lambda>(bits, pos).
        let slots = present_slots bits in
        if 512 < length slots then Err OutOfBounds
        else rbind (read_many (read_offset offset) (length slots) data pos) (\<lambda>(offsets, _).
             rmap (\<lambda>(i, off). rbind (decode_value_at data off (get_or_zero sigils i))
                                (\<lambda>v. Ok (key_name keys i, v))) (zip slots offsets))))))"

definition decode_record_at ::
  "u8 list \<Rightarrow> usize \<Rightarrow> rstring list \<Rightarrow> u8 list \<Rightarrow> (rstring \<times> decoded_value) list res"
where
  "decode_record_at data offset keys sigils = decode_object data offset keys sigils"

section \<open>Files\<close>

text \<open>A key name of the v1.1 schema: at most 257 bytes, then its NUL.\<close>

function skip_name :: "u8 list \<Rightarrow> usize \<Rightarrow> usize \<Rightarrow> usize res" where
  "skip_name data start pos =
     (if pos < length data \<and> data ! pos \<noteq> 0 then
        if 256 < pos - start then Err OutOfBounds else skip_name data start (pos + 1)
      else Ok pos)"
  by pat_completeness auto

termination
  by (relation "measure (\<lambda>(data, start, pos). length data - pos)") auto

declare skip_name.simps [simp del]

definition read_name :: "u8 list \<Rightarrow> usize \<Rightarrow> (rstring \<times> usize) res" where
  "read_name data start =
     rbind (skip_name data start start) (\<lambda>pos.
     rbind (slice data start pos) (\<lambda>bs.
     if length data \<le> pos then Err OutOfBounds else Ok (from_utf8_lossy bs, pos + 1)))"

definition parse_basic_schema :: "u8 list \<Rightarrow> usize \<Rightarrow> (rstring list \<times> u8 list \<times> usize) res" where
  "parse_basic_schema data pos =
     rbind (rd_u16 data pos) (\<lambda>kc.
     let key_count = unat kc in
     if 256 < key_count then Err OutOfBounds
     else rbind (read_block key_count data (pos + 2)) (\<lambda>(sigils, pos).
          rbind (read_many read_name key_count data pos) (\<lambda>(keys, pos).
          if length data < pos then Err OutOfBounds
          else rbind (pad_pos pos) (\<lambda>pos.
               if length data < pos then Err OutOfBounds else Ok (keys, sigils, pos)))))"

definition decode_schema ::
  "u8 list \<Rightarrow> u16 \<Rightarrow> u64 \<Rightarrow> (rstring list \<times> u8 list \<times> usize) res"
where
  "decode_schema data flags dict_hash =
     (if has_flag flags 2 \<and> 32 + 2 \<le> length data then
        rbind (if has_flag flags FLAG_V13_COMPACT_MASK
               then rbind (parse_extended_schema data 32 flags) (\<lambda>(ext, e). Ok (s_keys ext, s_sigils ext, e))
               else parse_basic_schema data 32) (\<lambda>(keys, sigils, schema_end).
        if length data < schema_end \<or> schema_end < 32 then Err OutOfBounds
        else rbind (slice data 32 schema_end) (\<lambda>bs.
             if murmur3_64 bs \<noteq> dict_hash then Err DictMismatch else Ok (keys, sigils, schema_end)))
      else Ok ([], [], 32))"

definition decode_tail_ptr :: "u8 list \<Rightarrow> u16 \<Rightarrow> u64 \<Rightarrow> u64 res" where
  "decode_tail_ptr data flags preamble_tail =
     (if has_flag flags (or FLAG_COLUMNAR FLAG_PAX) then
        if length data < footer_size flags then Err OutOfBounds
        else rd_u64 data (length data - footer_size flags)
      else if preamble_tail = 0 then
        if length data < 44 then Err OutOfBounds else rd_u64 data (length data - 12)
      else Ok preamble_tail)"

text \<open>The number of records and where the tail index starts.\<close>

definition decode_tail :: "u8 list \<Rightarrow> u16 \<Rightarrow> u64 \<Rightarrow> (usize \<times> usize) res" where
  "decode_tail data flags tail_ptr =
     (let tail_offset = unat tail_ptr in
      if has_flag flags FLAG_COLUMNAR \<or> has_flag flags FLAG_PAX then
        rbind (rd_u64 data (length data - footer_size flags + 8)) (\<lambda>rc. Ok (unat rc, tail_offset))
      else if has_flag flags FLAG_DELTA_TAIL then
        rbind (parse_delta_tail_layout data tail_offset) (\<lambda>l. Ok (dl_record_count l, tail_offset))
      else
        rbind (if saturating_add tail_offset 4 \<le> length data
               then rbind (rd_u32 data tail_offset) (\<lambda>rc. Ok (unat rc)) else Ok 0)
          (\<lambda>rc. Ok (rc, saturating_add tail_offset 4)))"

definition decode :: "u8 list \<Rightarrow> decoded_file res" where
  "decode data =
     (if length data < 32 then Err OutOfBounds
      else rbind (rd_u32 data 0) (\<lambda>magic.
      if magic \<noteq> MAGIC_FILE then Err BadMagic
      else rbind (rd_u32 data (length data - 4)) (\<lambda>footer_magic.
      if footer_magic \<noteq> MAGIC_FOOTER then Err BadMagic
      else rbind (rd_u16 data 4) (\<lambda>version.
           rbind (rd_u16 data 6) (\<lambda>flags.
           rbind (validate_preamble_flags flags) (\<lambda>_.
           rbind (rd_u64 data 8) (\<lambda>dict_hash.
           rbind (rd_u64 data 16) (\<lambda>preamble_tail.
      if has_flag flags FLAG_COLUMNAR \<and> preamble_tail = 0 then Err IncompatibleFlags
      else rbind (decode_tail_ptr data flags preamble_tail) (\<lambda>tail_ptr.
           rbind (decode_schema data flags dict_hash) (\<lambda>(keys, sigils, pos).
           rbind (if has_flag flags FLAG_PAX then
                    if length data < pos + 4 then Err OutOfBounds
                    else rbind (rd_u32 data pos) (\<lambda>m. if m \<noteq> MAGIC_PAGE then Err InvalidPageMagic else Ok ())
                  else Ok ()) (\<lambda>_.
           rbind (if \<not> has_flag flags FLAG_PAX \<and> pos < length data
                  then case decode_object data pos keys sigils of Err _ \<Rightarrow> Ok [] | r \<Rightarrow> r
                  else Ok []) (\<lambda>root_fields.
           rbind (decode_tail data flags tail_ptr) (\<lambda>(record_count, tail_start).
           Ok \<lparr>df_version = version, df_flags = flags, df_dict_hash = dict_hash, df_tail_ptr = tail_ptr,
               df_keys = keys, df_sigils = sigils, df_root_fields = root_fields,
               df_record_count = record_count, df_tail_start = tail_start, df_data_start = pos\<rparr>)))))))))))))"

end
