(* ===== verification/Compile_Decode.thy ===== *)
theory Compile_Decode
  imports Compiler Decoder
begin

text \<open>
  The record compiler against the decoder: what \<^verbatim>\<open>rust/src/compiler.rs\<close> writes,
  \<^verbatim>\<open>rust/src/decoder.rs\<close> reads back.
\<close>

section \<open>Values\<close>

text \<open>
  The values the decoder gives back as they were, and what they come back as.  Keywords and macros
  have no encoding, nulls and links none that the decoder reads back, and nested objects and lists
  come back in another form.
\<close>

fun decoded :: "nxs_value \<Rightarrow> decoded_value" where
  "decoded (VInt n) = DInt n"
| "decoded (VFloat f) = DFloat f"
| "decoded (VBool b) = DBool b"
| "decoded (VStr s) = DStr s"
| "decoded (VTime n) = DTime n"
| "decoded (VBinary b) = DBinary b"
| "decoded _ = DNull"

definition decodable :: "nxs_value \<Rightarrow> bool" where
  "decodable v =
     (case v of
        VInt _ \<Rightarrow> True | VFloat _ \<Rightarrow> True | VBool _ \<Rightarrow> True | VTime _ \<Rightarrow> True
      | VStr s \<Rightarrow> valid_utf8 s \<and> length s \<le> 1048576
      | VBinary b \<Rightarrow> length b < 2 ^ 32
      | _ \<Rightarrow> False)"

text \<open>The four bytes at the start of a value are not taken for the magic of an object or a list.\<close>

definition magic_free :: "u8 list \<Rightarrow> bool" where
  "magic_free b \<longleftrightarrow> u32_of_le (take 4 b) \<noteq> MAGIC_OBJ \<and> u32_of_le (take 4 b) \<noteq> MAGIC_LIST"

lemma pad8_prefix: "\<exists>p. pad8 b = b @ p"
  by (auto simp: pad8_def)

lemma encode_value_length:
  assumes "decodable v" and "encode_value v = Ok b"
  shows "4 \<le> length b"
proof -
  have "4 \<le> align8 (4 + n)" for n by (rule le_trans[OF _ align8_ge]) simp
  with assms show ?thesis
    by (auto simp: encode_value.simps decodable_def split: nxs_value.splits)
qed

lemma rd_u32_prefix:
  assumes "4 \<le> length b" and "fits (pre @ b @ post)"
  shows "rd_u32 (pre @ b @ post) (length pre) = Ok (u32_of_le (take 4 b))"
proof -
  have "seg (pre @ b @ post) (length pre) (length pre + 4) = take 4 b"
    using assms(1) by (intro seg_at[of _ _ _ "drop 4 b @ post"])
      (simp_all flip: append_assoc add: min_absorb2)
  then show ?thesis using assms by (simp add: rd_Ok)
qed

lemma decode_plain_magic_free:
  assumes "4 \<le> length b" and "fits (pre @ b @ post)" and "magic_free b"
  shows "decode_plain (pre @ b @ post) (length pre) s = decode_by_sigil (pre @ b @ post) (length pre) s"
  using assms by (simp add: decode_plain_def rd_u32_prefix magic_free_def)

lemma atomic8_at: "fits (pre @ u64_le w @ post) \<Longrightarrow> atomic8 (pre @ u64_le w @ post) (length pre) mk = Ok (mk w)"
  by (simp add: atomic8_def u64c.rd_enc)

lemma payload_at:
  assumes b: "b = pad8 (u32_le (word_of_nat (length s)) @ s)" and "length s < 2 ^ 32"
    and "fits (pre @ b @ post)"
  shows "rd_u32 (pre @ b @ post) (length pre) = Ok (word_of_nat (length s))"
    and "unat (word_of_nat (length s) :: u32) = length s"
    and "seg (pre @ b @ post) (length pre + 4) (length pre + 4 + length s) = s"
    and "length pre + 4 + length s \<le> length (pre @ b @ post)"
proof -
  obtain p where p: "b = u32_le (word_of_nat (length s)) @ s @ p"
    using pad8_prefix[of "u32_le (word_of_nat (length s)) @ s"] by (auto simp: b)
  show "rd_u32 (pre @ b @ post) (length pre) = Ok (word_of_nat (length s))"
    by (rule u32c.rd_at[of _ pre _ "s @ p @ post"]) (use assms(3) p in simp_all)
  show "unat (word_of_nat (length s) :: u32) = length s"
    using assms(2) by (simp add: unat_of_nat)
  show "seg (pre @ b @ post) (length pre + 4) (length pre + 4 + length s) = s"
    by (rule seg_at[of _ "pre @ u32_le (word_of_nat (length s))" _ "p @ post"]) (simp_all add: p)
  show "length pre + 4 + length s \<le> length (pre @ b @ post)" by (simp add: p)
qed

lemma value_roundtrip:
  assumes "decodable v" and "encode_value v = Ok b" and "magic_free b" and "fits (pre @ b @ post)"
  shows "decode_value_at (pre @ b @ post) (length pre) (value_sigil_byte v) = Ok (decoded v)"
proof -
  note len = encode_value_length[OF assms(1,2)]
  have link: "value_sigil_byte v \<noteq> SIGIL_LINK"
    using assms(1) by (auto simp: decodable_def value_sigil_byte_def sigil_defs split: nxs_value.splits)
  have pos: "\<not> length (pre @ b @ post) \<le> length pre" using len by auto
  have "decode_by_sigil (pre @ b @ post) (length pre) (value_sigil_byte v) = Ok (decoded v)"
  proof (cases v)
    case (VBool x)
    then have "b = (if x then 1 else 0) # replicate 7 0" using assms(2) by (simp add: encode_value.simps)
    then show ?thesis by (simp add: VBool decode_by_sigil_def value_sigil_byte_def sigil_defs)
  next
    case (VStr s)
    then have b: "b = pad8 (u32_le (word_of_nat (length s)) @ s)"
      and s: "valid_utf8 s" "length s \<le> 1048576"
      using assms(1,2) by (simp_all add: encode_value.simps decodable_def)
    then have "length s < 2 ^ 32" by simp
    from payload_at[OF b this assms(4)] s show ?thesis
      by (simp add: VStr decode_by_sigil_def value_sigil_byte_def sigil_defs decode_str_def Let_def
          valid_utf8_lossy)
  next
    case (VBinary s)
    then have b: "b = pad8 (u32_le (word_of_nat (length s)) @ s)" and s: "length s < 2 ^ 32"
      using assms(1,2) by (simp_all add: encode_value.simps decodable_def)
    from payload_at[OF b s assms(4)] show ?thesis
      by (simp add: VBinary decode_by_sigil_def value_sigil_byte_def sigil_defs decode_binary_def Let_def)
  qed (use assms in \<open>auto simp: encode_value.simps decodable_def decode_by_sigil_def value_sigil_byte_def
        sigil_defs atomic8_at\<close>)
  with decode_plain_magic_free[OF len assms(4,3)] link pos show ?thesis
    by (simp add: decode_value_at_def decode_value_at_depth.simps)
qed

section \<open>Objects\<close>

fun value_starts :: "usize \<Rightarrow> u8 list list \<Rightarrow> usize list" where
  "value_starts cursor [] = []"
| "value_starts cursor (buf # bufs) = cursor # value_starts (cursor + length buf) bufs"

lemma value_offsets_starts: "value_offsets cursor bufs = map word_of_nat (value_starts cursor bufs)"
  by (induction cursor bufs rule: value_starts.induct) simp_all

lemma length_value_starts [simp]: "length (value_starts c bufs) = length bufs"
  by (induction c bufs rule: value_starts.induct) simp_all

lemma value_starts_split:
  "k < length bufs \<Longrightarrow> \<exists>p q. concat bufs = p @ bufs ! k @ q \<and> value_starts c bufs ! k = c + length p"
proof (induction c bufs arbitrary: k rule: value_starts.induct)
  case (2 c b bs)
  show ?case
  proof (cases k)
    case 0
    then show ?thesis by (intro exI[of _ "[]"] exI[of _ "concat bs"]) simp
  next
    case (Suc j)
    with 2(2) have "j < length bs" by simp
    from 2(1)[OF this] obtain p q where "concat bs = p @ bs ! j @ q"
      "value_starts (c + length b) bs ! j = c + length b + length p" by blast
    with Suc show ?thesis by (intro exI[of _ "b @ p"] exI[of _ q]) simp
  qed
qed simp

lemma value_starts_bound: "x \<in> set (value_starts c bufs) \<Longrightarrow> c \<le> x \<and> x \<le> c + sum_list (map length bufs)"
  by (induction c bufs rule: value_starts.induct) auto

lemma unat_of_nat_u16: "d < 65536 \<Longrightarrow> unat (word_of_nat d :: u16) = d"
  by (simp add: unat_of_nat)

interpretation offs: stream_codec "\<lambda>x. base \<le> x \<and> x < base + 65536"
  "\<lambda>x. u16_le (word_of_nat (x - base))" "read_offset base" for base
proof
  fix v :: nat and xs ys :: "u8 list"
  assume v: "base \<le> v \<and> v < base + 65536"
    and fits: "fits (xs @ u16_le (word_of_nat (v - base)) @ ys)"
  then have "unat (word_of_nat (v - base) :: u16) = v - base"
    by (intro unat_of_nat_u16) (simp add: less_diff_conv2)
  with v fits show "read_offset base (xs @ u16_le (word_of_nat (v - base)) @ ys) (length xs)
      = Ok (v, length xs + length (u16_le (word_of_nat (v - base))))"
    by (simp add: read_offset_def u16c.rd_enc)
qed

lemma present_slots_of_mask:
  assumes "sorted_wrt (<) slots" and "\<And>i. i \<in> set slots \<Longrightarrow> i < n"
  shows "present_slots (map (\<lambda>i. i \<in> set slots) [0..<n] @ replicate m False) = slots"
proof -
  let ?bits = "map (\<lambda>i. i \<in> set slots) [0..<n] @ replicate m False"
  have "sorted_wrt (<) (filter (\<lambda>i. ?bits ! i) [0..<length ?bits])"
    by (intro sorted_wrt_filter) simp
  moreover have "set (filter (\<lambda>i. ?bits ! i) [0..<length ?bits]) = set slots"
    using assms(2) by (auto simp: nth_append)
  ultimately show ?thesis using assms(1)
    by (simp add: present_slots_def strict_sorted_equal)
qed

text \<open>
  An object is decoded by walking its present slots in ascending order beside its offset table.
\<close>

lemma decode_object_bytes:
  assumes sorted: "sorted_wrt (<) slots" and below: "\<And>i. i \<in> set slots \<Longrightarrow> i < n"
    and n: "0 < n" "n \<le> 512" and bufs: "length bufs = length slots"
    and small: "length (object_bytes slots n bufs) < 65536"
    and data: "data = pre @ object_bytes slots n bufs @ post" and fits: "fits data"
  shows "decode_object data (length pre) keys sigils =
      rmap (\<lambda>(i, off). rbind (decode_value_at data off (get_or_zero sigils i)) (\<lambda>v. Ok (key_name keys i, v)))
        (zip slots (map ((+) (length pre))
          (value_starts (align8 (8 + (n + 6) div 7 + length slots * 2)) bufs)))"
proof -
  let ?mask = "build_bitmask slots n"
  let ?ds = "align8 (8 + length ?mask + length slots * 2)"
  let ?st = "value_starts ?ds bufs"
  have mask: "length ?mask = (n + 6) div 7"
    using n by (simp add: build_bitmask_def length_bitmask_loop)
  define total where "total = ?ds + sum_list (map length bufs)"
  define pad where "pad = replicate (?ds - (8 + length ?mask + length slots * 2)) (0 :: u8)"
  have obj: "object_bytes slots n bufs = u32_le MAGIC_OBJ @ u32_le (word_of_nat total) @ ?mask
      @ concat (map u16_le (map word_of_nat ?st)) @ pad @ concat bufs"
    by (simp add: object_bytes_def Let_def value_offsets_starts total_def pad_def)
  have lt: "length (object_bytes slots n bufs) = total"
  proof -
    have "length (concat (map u16_le (map word_of_nat ?st))) = length slots * 2"
      by (simp only: u16c.length_array length_map length_value_starts bufs)
    moreover have "8 + length ?mask + length slots * 2 \<le> ?ds" by (rule align8_ge)
    ultimately show ?thesis
      by (simp only: obj length_append length_uint_le pad_def length_replicate total_def length_concat)
  qed
  define offsets where "offsets = map ((+) (length pre)) ?st"
  have enc: "concat (map (\<lambda>x. u16_le (word_of_nat (x - length pre))) offsets)
      = concat (map u16_le (map word_of_nat ?st))"
    by (simp add: offsets_def comp_def)
  define rest where "rest = pad @ concat bufs @ post"
  have d: "data = pre @ u32_le MAGIC_OBJ @ u32_le (word_of_nat total) @ ?mask
      @ concat (map (\<lambda>x. u16_le (word_of_nat (x - length pre))) offsets) @ rest"
    by (simp only: data obj enc rest_def append_assoc)
  have r0: "rd_u32 data (length pre) = Ok MAGIC_OBJ"
    by (rule u32c.rd_at[OF fits d refl])
  have r4: "rd_u32 data (length pre + 4) = Ok (word_of_nat total)"
    by (rule u32c.rd_at[OF fits, of "pre @ u32_le MAGIC_OBJ"]) (simp_all add: d)
  let ?tab = "concat (map (\<lambda>x. u16_le (word_of_nat (x - length pre))) offsets)"
  have rb: "read_bitmask data (length pre + 8) []
      = Ok (map (\<lambda>i. i \<in> set slots) [0..<n] @ replicate ((7 - n mod 7) mod 7) False,
            length pre + 8 + (n + 6) div 7)"
    using bitmask_roundtrip[OF n(1), of "pre @ u32_le MAGIC_OBJ @ u32_le (word_of_nat total)" slots
        "?tab @ rest"] n(2) by (simp add: d)
  have ps: "present_slots (map (\<lambda>i. i \<in> set slots) [0..<n] @ replicate ((7 - n mod 7) mod 7) False) = slots"
    using sorted below by (rule present_slots_of_mask)
  have "distinct slots" using sorted by (simp add: strict_sorted_iff)
  moreover have "set slots \<subseteq> {..<n}" using below by auto
  ultimately have ls: "length slots \<le> 512"
    using n(2) by (metis card_lessThan card_mono distinct_card finite_lessThan le_trans)
  have "x < 65536" if "x \<in> set ?st" for x
    using value_starts_bound[OF that] small lt by (simp add: total_def)
  then have off: "list_all (\<lambda>x. length pre \<le> x \<and> x < length pre + 65536) offsets"
    by (auto simp: offsets_def list_all_iff)
  have lo: "length offsets = length slots" by (simp add: offsets_def bufs)
  have "read_many (read_offset (length pre)) (length offsets)
      ((pre @ u32_le MAGIC_OBJ @ u32_le (word_of_nat total) @ ?mask) @ ?tab @ rest)
      (length (pre @ u32_le MAGIC_OBJ @ u32_le (word_of_nat total) @ ?mask))
    = Ok (offsets, length (pre @ u32_le MAGIC_OBJ @ u32_le (word_of_nat total) @ ?mask) + length ?tab)"
    using off fits by (intro offs.read_many_at) (simp_all add: d)
  then have rm: "read_many (read_offset (length pre)) (length slots) data (length pre + 8 + (n + 6) div 7)
    = Ok (offsets, length pre + 8 + (n + 6) div 7 + length ?tab)"
    by (simp add: d lo mask add.assoc)
  have le: "length pre + 8 \<le> length data" by (simp add: d)
  then have "wadd (length pre) 8 = length pre + 8" using fits by (simp add: lims)
  with le r0 r4 rb ps ls rm show ?thesis
    by (simp add: decode_object_def Let_def offsets_def mask)
qed

lemma object_bytes_split:
  assumes "length bufs = length slots" and "0 < n"
  shows "\<exists>hdr. object_bytes slots n bufs = hdr @ concat bufs
           \<and> length hdr = align8 (8 + (n + 6) div 7 + length slots * 2)"
proof -
  let ?mask = "build_bitmask slots n"
  let ?len = "8 + length ?mask + length slots * 2"
  let ?tab = "concat (map u16_le (value_offsets (align8 ?len) bufs))"
  define hdr where "hdr = u32_le MAGIC_OBJ
    @ u32_le (word_of_nat (align8 ?len + sum_list (map length bufs))) @ ?mask @ ?tab
    @ replicate (align8 ?len - ?len) 0"
  have mask: "length ?mask = (n + 6) div 7"
    using assms(2) by (simp add: build_bitmask_def length_bitmask_loop)
  have "length ?tab = length slots * 2"
    by (simp only: u16c.length_array value_offsets_starts length_map length_value_starts assms(1))
  moreover have "?len \<le> align8 ?len" by (rule align8_ge)
  ultimately have "length hdr = align8 ?len"
    by (simp only: hdr_def length_append length_uint_le length_replicate)
  moreover have "object_bytes slots n bufs = hdr @ concat bufs"
    by (simp add: object_bytes_def Let_def hdr_def)
  ultimately show ?thesis using mask by auto
qed

text \<open>An object is decoded value by value: what its values decode to, in slot order.\<close>

lemma object_decodes:
  assumes sorted: "sorted_wrt (<) slots" and below: "\<And>i. i \<in> set slots \<Longrightarrow> i < n"
    and n: "0 < n" "n \<le> 512" and bufs: "length bufs = length slots" and ds: "length ds = length slots"
    and val: "\<And>k a b. k < length slots \<Longrightarrow> data = a @ bufs ! k @ b \<Longrightarrow>
        decode_value_at data (length a) (get_or_zero sigils (slots ! k)) = Ok (ds ! k)"
    and small: "length (object_bytes slots n bufs) < 65536"
    and data: "data = pre @ object_bytes slots n bufs @ post" and fits: "fits data"
  shows "decode_object data (length pre) keys sigils = Ok (map (\<lambda>(i, d). (key_name keys i, d)) (zip slots ds))"
proof -
  let ?ds = "align8 (8 + (n + 6) div 7 + length slots * 2)"
  obtain hdr where hdr: "object_bytes slots n bufs = hdr @ concat bufs" "length hdr = ?ds"
    using object_bytes_split[OF bufs n(1)] by blast
  have at: "decode_value_at data (length pre + value_starts ?ds bufs ! k) (get_or_zero sigils (slots ! k)) = Ok (ds ! k)"
    if k: "k < length slots" for k
  proof -
    obtain p q where pq: "concat bufs = p @ bufs ! k @ q" "value_starts ?ds bufs ! k = ?ds + length p"
      using value_starts_split[of k bufs ?ds] k bufs by auto
    have "data = (pre @ hdr @ p) @ bufs ! k @ (q @ post)" by (simp add: data hdr(1) pq(1))
    from val[OF k this] show ?thesis by (simp only: length_append pq(2) hdr(2))
  qed
  have "rmap (\<lambda>(i, off). rbind (decode_value_at data off (get_or_zero sigils i)) (\<lambda>v. Ok (key_name keys i, v)))
        (zip slots (map ((+) (length pre)) (value_starts ?ds bufs)))
      = Ok (map (\<lambda>(i, d). (key_name keys i, d)) (zip slots ds))"
    unfolding rmap_Ok_iff by (rule list_all2_all_nthI) (use bufs ds at in auto)
  then show ?thesis
    using decode_object_bytes[OF sorted below n bufs small data fits, of keys sigils] by simp
qed

text \<open>An object whose values are decodable is decoded to those values, in slot order.\<close>

lemma object_roundtrip:
  assumes sorted: "sorted_wrt (<) slots" and below: "\<And>i. i \<in> set slots \<Longrightarrow> i < n"
    and n: "0 < n" "n \<le> 512" and vs: "length vs = length slots"
    and enc: "rmap encode_value vs = Ok bufs"
    and dec: "\<And>v. v \<in> set vs \<Longrightarrow> decodable v" and free: "\<And>b. b \<in> set bufs \<Longrightarrow> magic_free b"
    and sig: "\<And>k. k < length slots \<Longrightarrow> get_or_zero sigils (slots ! k) = value_sigil_byte (vs ! k)"
    and small: "length (object_bytes slots n bufs) < 65536"
    and data: "data = pre @ object_bytes slots n bufs @ post" and fits: "fits data"
  shows "decode_object data (length pre) keys sigils
       = Ok (map (\<lambda>(i, v). (key_name keys i, decoded v)) (zip slots vs))"
proof -
  have bufs: "length bufs = length slots" using rmap_Ok_length[OF enc] vs by simp
  have "decode_object data (length pre) keys sigils = Ok (map (\<lambda>(i, d). (key_name keys i, d)) (zip slots (map decoded vs)))"
  proof (rule object_decodes[OF sorted below n bufs _ _ small data fits])
    show "length (map decoded vs) = length slots" using vs by simp
    fix k a b assume k: "k < length slots" and d: "data = a @ bufs ! k @ b"
    have "encode_value (vs ! k) = Ok (bufs ! k)"
      using enc k vs bufs by (simp add: rmap_Ok_iff list_all2_conv_all_nth)
    then show "decode_value_at data (length a) (get_or_zero sigils (slots ! k)) = Ok (map decoded vs ! k)"
      using k vs bufs fits value_roundtrip[OF dec _ free, of "vs ! k" "bufs ! k" a b] by (simp add: d sig)
  qed
  then show ?thesis by (simp add: zip_map2 comp_def case_prod_beta)
qed

section \<open>Schemas\<close>

lemma skip_name_at:
  assumes "nul_free s" and "length s \<le> 257" and "j \<le> length s"
  shows "skip_name (xs @ s @ 0 # ys) (length xs) (length xs + j) = Ok (length xs + length s)"
  using assms(3)
proof (induction "length s - j" arbitrary: j)
  case 0
  then have "j = length s" by simp
  then show ?case by (subst skip_name.simps) (simp add: nth_append)
next
  case (Suc d)
  then have j: "j < length s" by simp
  have "s ! j \<noteq> 0" using j assms(1) by (metis nth_mem nul_free_def)
  then have "(xs @ s @ 0 # ys) ! (length xs + j) \<noteq> 0" using j by (simp add: nth_append)
  moreover have "skip_name (xs @ s @ 0 # ys) (length xs) (length xs + Suc j) = Ok (length xs + length s)"
    using Suc j by (intro Suc(1)) simp_all
  ultimately show ?case using j assms(2) by (subst skip_name.simps) simp
qed

definition name_ok :: "rstring \<Rightarrow> bool" where
  "name_ok s \<longleftrightarrow> nul_free s \<and> valid_utf8 s \<and> length s \<le> 257"

interpretation name: stream_codec name_ok "\<lambda>s. s @ [0]" read_name
proof
  fix v xs ys :: "u8 list"
  assume "name_ok v" and "fits (xs @ (v @ [0]) @ ys)"
  then show "read_name (xs @ (v @ [0]) @ ys) (length xs) = Ok (v, length xs + length (v @ [0]))"
    using skip_name_at[of v 0 xs ys]
    by (simp add: name_ok_def read_name_def seg_middle valid_utf8_lossy)
qed

text \<open>The schema that \<open>encode_schema\<close> writes is read back by the v1.1 branch of \<open>decode\<close>.\<close>

lemma basic_schema_roundtrip:
  assumes "length keys \<le> 256" and "length sigils = length keys" and "list_all name_ok keys"
    and "8 dvd length pre"
    and s: "s = pad8 (u16_le (word_of_nat (length keys)) @ sigils @ concat (map (\<lambda>k. k @ [0]) keys))"
    and data: "data = pre @ s @ post" and fits: "fits data"
  shows "parse_basic_schema data (length pre) = Ok (keys, sigils, length pre + length s)"
proof -
  let ?n = "length keys" let ?cat = "concat (map (\<lambda>k. k @ [0]) keys)"
  define h where "h = u16_le (word_of_nat ?n :: u16) @ sigils @ ?cat"
  define p where "p = replicate (align8 (length h) - length h) (0::u8)"
  have sp: "s = h @ p" unfolding s pad8_def p_def h_def ..
  have ls: "length s = align8 (length h)" unfolding s h_def[symmetric] by simp
  have d: "data = pre @ u16_le (word_of_nat ?n) @ sigils @ ?cat @ p @ post"
    by (simp add: data sp h_def)
  have un: "unat (word_of_nat ?n :: u16) = ?n" using assms(1) by (simp add: unat_of_nat)
  have r0: "rd_u16 data (length pre) = Ok (word_of_nat ?n)" by (rule u16c.rd_at[OF fits d refl])
  have r1: "read_block ?n data (length pre + 2) = Ok (sigils, length pre + 2 + ?n)"
    using block.rd_at[of sigils ?n data "pre @ u16_le (word_of_nat ?n)"] fits d assms(2) by simp
  have "read_many read_name ?n ((pre @ u16_le (word_of_nat ?n) @ sigils) @ ?cat @ (p @ post))
      (length (pre @ u16_le (word_of_nat ?n) @ sigils))
    = Ok (keys, length (pre @ u16_le (word_of_nat ?n) @ sigils) + length ?cat)"
    using assms(3) fits by (intro name.read_many_at) (simp_all add: d)
  then have r2: "read_many read_name ?n data (length pre + 2 + ?n) = Ok (keys, length pre + length h)"
    by (simp add: d h_def assms(2) add.assoc)
  have le: "length pre + length h \<le> length data" by (simp add: data sp)
  have r3: "pad_pos (length pre + length h) = Ok (length pre + length s)"
    unfolding ls using le fits by (intro pad_pos_add[OF assms(4)]) simp
  have "length pre + length s \<le> length data" by (simp add: data)
  with assms(1) le un r0 r1 r2 r3 show ?thesis by (simp add: parse_basic_schema_def Let_def)
qed

section \<open>Files\<close>

text \<open>The fields that the compiler and the decoder carry over: the conditions of the round trip.\<close>

definition fields_ok :: "field list \<Rightarrow> bool" where
  "fields_ok fs \<longleftrightarrow>
     fs \<noteq> [] \<and> length fs \<le> 256 \<and> distinct (map fkey fs)
   \<and> list_all (\<lambda>f. name_ok (fkey f) \<and> decodable (fvalue f)
        \<and> (case encode_value (fvalue f) of Ok b \<Rightarrow> magic_free b | _ \<Rightarrow> True)) fs"

lemma collect_decodable: "decodable v \<Longrightarrow> collect_keys_from_value v c = c"
  by (cases v) (simp_all add: decodable_def)

lemma collect_flat:
  assumes "\<And>f. f \<in> set fs \<Longrightarrow> decodable (fvalue f)" and "distinct (dict c @ map fkey fs)"
    and "compiler_ok c"
  shows "dict (collect_keys fs c) = dict c @ map fkey fs
     \<and> slot_sigils (collect_keys fs c) = slot_sigils c @ replicate (length fs) 0"
  using assms
proof (induction fs arbitrary: c)
  case Nil
  then show ?case by (simp add: collect_keys_def)
next
  case (Cons f fs)
  have "key_map c (fkey f) = None" using Cons.prems(2,3) by (simp add: compiler_ok_def position_None)
  then have i: "dict (intern_key (fkey f) c) = dict c @ [fkey f]"
    "slot_sigils (intern_key (fkey f) c) = slot_sigils c @ [0]" by (simp_all add: intern_key_def)
  have "dict (collect_keys fs (intern_key (fkey f) c)) = dict (intern_key (fkey f) c) @ map fkey fs
     \<and> slot_sigils (collect_keys fs (intern_key (fkey f) c))
       = slot_sigils (intern_key (fkey f) c) @ replicate (length fs) 0"
    using Cons.prems intern_key_ok[OF Cons.prems(3)] by (intro Cons.IH) (auto simp: i)
  then show ?case using Cons.prems(1)[of f] by (simp add: collect_keys_Cons collect_decodable i)
qed

lemma decodable_encodes: "decodable v \<Longrightarrow> \<exists>b. encode_value v = Ok b"
  by (cases v) (simp_all add: decodable_def encode_value.simps)

lemma value_sigil_nonzero: "value_sigil_byte v \<noteq> 0"
  by (simp add: value_sigil_byte_def sigil_defs split: nxs_value.split)

lemma mark_fresh:
  "slot_sigils c = xs @ replicate (length vs) 0 \<Longrightarrow>
     slot_sigils (fold (\<lambda>(i, v). mark_slot_sigil i (value_sigil_byte v))
       (zip [length xs..<length xs + length vs] vs) c) = xs @ map value_sigil_byte vs"
proof (induction vs arbitrary: c xs)
  case (Cons v vs)
  let ?c = "mark_slot_sigil (length xs) (value_sigil_byte v) c"
  have "slot_sigils ?c = (xs @ [value_sigil_byte v]) @ replicate (length vs) 0"
    using Cons.prems by (simp add: mark_slot_sigil_def Let_def nth_append)
  from Cons.IH[OF this] show ?case by (simp add: upt_conv_Cons del: upt_Suc)
qed simp

lemma resolve_decodable: "decodable v \<Longrightarrow> resolve_macro v scope = Ok v"
  by (cases v) (simp_all add: resolve_macro_def decodable_def)

lemma compile_flat:
  assumes ok: "fields_ok fs" and "c1 = collect_keys fs new_compiler"
  shows "\<exists>bufs c2. rmap encode_value (map fvalue fs) = Ok bufs
     \<and> encode_object fs c1 = Ok (object_bytes [0..<length fs] (length fs) bufs, c2)
     \<and> dict c2 = map fkey fs \<and> slot_sigils c2 = map (\<lambda>f. value_sigil_byte (fvalue f)) fs
     \<and> list_all magic_free bufs"
proof -
  let ?vs = "map fvalue fs"
  have dec: "decodable (fvalue f)" if "f \<in> set fs" for f
    using ok that by (auto simp: fields_ok_def list_all_iff)
  have c1: "dict c1 = map fkey fs" "slot_sigils c1 = replicate (length fs) 0"
    using collect_flat[of fs new_compiler] ok dec compiler_ok_new
    by (auto simp: assms(2) fields_ok_def new_compiler_def)
  have ok1: "compiler_ok c1" using collect_keys_ok[OF compiler_ok_new] assms(2) by blast
  have km: "key_map c1 (fkey (fs ! i)) = Some i" if "i < length fs" for i
    using ok1 c1(1) ok that position_nth[of "map fkey fs" i] by (simp add: compiler_ok_def fields_ok_def)
  have res: "resolve_fields c1 fs = Ok (zip [0..<length fs] ?vs)"
    unfolding resolve_fields_def rmap_Ok_iff
    by (rule list_all2_all_nthI) (simp_all add: km resolve_decodable dec)
  have "\<exists>b. encode_value v = Ok b" if "v \<in> set ?vs" for v
    using that dec decodable_encodes by auto
  then obtain g where "\<And>v. v \<in> set ?vs \<Longrightarrow> encode_value v = Ok (g v)" by metis
  then have bufs: "rmap encode_value ?vs = Ok (map g ?vs)" by (rule rmap_Ok_map)
  have free: "list_all magic_free (map g ?vs)"
    using ok \<open>\<And>v. v \<in> set ?vs \<Longrightarrow> encode_value v = Ok (g v)\<close>
    by (force simp: fields_ok_def list_all_iff)
  have "rmap (\<lambda>(_, v). encode_value v) (zip [0..<length fs] ?vs) = Ok (map g ?vs)"
    unfolding rmap_Ok_iff
    by (rule list_all2_all_nthI) (use bufs in \<open>simp_all add: rmap_Ok_iff list_all2_conv_all_nth\<close>)
  moreover define c2 where "c2 = fold (\<lambda>(i, v). mark_slot_sigil i (value_sigil_byte v)) (zip [0..<length fs] ?vs) c1"
  moreover have "slot_sigils c2 = map value_sigil_byte ?vs"
    using mark_fresh[of c1 "[]" ?vs] c1(2) by (simp add: c2_def)
  ultimately show ?thesis
    using res bufs free c1(1) by (subst encode_object.simps) (auto simp: comp_def)
qed

lemma map_schema_sigils:
  "(\<And>x. x \<in> set xs \<Longrightarrow> x \<noteq> 0) \<Longrightarrow>
     map (\<lambda>i. let s = (if i < length xs then xs ! i else 0) in if s = 0 then d else s) [0..<length xs] = xs"
  by (rule nth_equalityI) (auto simp: Let_def)

lemma unat_of_nat_u64: "d < 2 ^ 64 \<Longrightarrow> unat (word_of_nat d :: u64) = d"
  by (simp add: unat_of_nat)

text \<open>The reads that \<open>decode\<close> makes of a row file with an embedded v1.1 schema; \<open>es\<close> are the entries of its tail index.\<close>

lemma decode_row_data:
  assumes data: "data = encode_preamble (murmur3_64 schema) FLAG_SCHEMA_EMBEDDED @ schema @ body
      @ u32_le count @ es @ u64_le tail_ptr @ u32_le MAGIC_FOOTER"
    and tail: "tail_ptr = word_of_nat (32 + length schema + length body)"
    and fits: "fits data"
    and sch: "parse_basic_schema data 32 = Ok (keys, sigils, 32 + length schema)"
    and root: "(case decode_object data (32 + length schema) keys sigils of Err _ \<Rightarrow> Ok [] | r \<Rightarrow> r) = Ok root_fields"
  shows "decode data = Ok \<lparr>df_version = VERSION, df_flags = FLAG_SCHEMA_EMBEDDED,
      df_dict_hash = murmur3_64 schema, df_tail_ptr = tail_ptr, df_keys = keys, df_sigils = sigils,
      df_root_fields = root_fields, df_record_count = unat count,
      df_tail_start = 32 + length schema + length body + 4, df_data_start = 32 + length schema\<rparr>"
proof -
  let ?h = "murmur3_64 schema" let ?t = "es @ u64_le tail_ptr @ u32_le MAGIC_FOOTER"
  have d: "data = u32_le MAGIC_FILE @ u16_le VERSION @ u16_le FLAG_SCHEMA_EMBEDDED @ u64_le ?h
      @ u64_le 0 @ u64_le 0 @ schema @ body @ u32_le count @ ?t"
    by (simp add: data encode_preamble_def)
  have len: "length data = 32 + length schema + length body + 16 + length es" by (simp add: d)
  have r0: "rd_u32 data 0 = Ok MAGIC_FILE"
    by (rule u32c.rd_at[OF fits, of "[]"]) (simp_all add: d)
  have r4: "rd_u16 data 4 = Ok VERSION"
    by (rule u16c.rd_at[OF fits, of "u32_le MAGIC_FILE"]) (simp_all add: d)
  have r6: "rd_u16 data 6 = Ok FLAG_SCHEMA_EMBEDDED"
    by (rule u16c.rd_at[OF fits, of "u32_le MAGIC_FILE @ u16_le VERSION"]) (simp_all add: d)
  have r8: "rd_u64 data 8 = Ok ?h"
    by (rule u64c.rd_at[OF fits, of "u32_le MAGIC_FILE @ u16_le VERSION @ u16_le FLAG_SCHEMA_EMBEDDED"])
      (simp_all add: d)
  have r16: "rd_u64 data 16 = Ok 0"
    by (rule u64c.rd_at[OF fits, of "u32_le MAGIC_FILE @ u16_le VERSION @ u16_le FLAG_SCHEMA_EMBEDDED @ u64_le ?h"])
      (simp_all add: d)
  let ?pre = "u32_le MAGIC_FILE @ u16_le VERSION @ u16_le FLAG_SCHEMA_EMBEDDED @ u64_le ?h @ u64_le 0 @ u64_le 0"
  have rt: "rd_u32 data (32 + length schema + length body) = Ok count"
    by (rule u32c.rd_at[OF fits, of "?pre @ schema @ body" _ ?t]) (simp_all add: d)
  have rf: "rd_u32 data (length data - 4) = Ok MAGIC_FOOTER"
    by (rule u32c.rd_at[OF fits, of "?pre @ schema @ body @ u32_le count @ es @ u64_le tail_ptr" _ "[]"])
      (simp_all add: d)
  have rp: "rd_u64 data (length data - 12) = Ok tail_ptr"
    by (rule u64c.rd_at[OF fits, of "?pre @ schema @ body @ u32_le count @ es" _ "u32_le MAGIC_FOOTER"])
      (simp_all add: d)
  have flags: "\<not> has_flag FLAG_SCHEMA_EMBEDDED FLAG_COLUMNAR" "\<not> has_flag FLAG_SCHEMA_EMBEDDED FLAG_PAX"
    "\<not> has_flag FLAG_SCHEMA_EMBEDDED (or FLAG_COLUMNAR FLAG_PAX)"
    "\<not> has_flag FLAG_SCHEMA_EMBEDDED FLAG_V13_COMPACT_MASK" "\<not> has_flag FLAG_SCHEMA_EMBEDDED FLAG_DELTA_TAIL"
    "has_flag FLAG_SCHEMA_EMBEDDED 2"
    by (simp_all add: flag_defs FLAG_V13_COMPACT_MASK_eq)
  have "seg data 32 (32 + length schema) = schema"
    by (rule seg_at[of _ ?pre _ "body @ u32_le count @ ?t"]) (simp_all add: d)
  then have schema: "decode_schema data FLAG_SCHEMA_EMBEDDED ?h = Ok (keys, sigils, 32 + length schema)"
    using flags sch by (simp add: decode_schema_def len)
  have ut: "unat tail_ptr = 32 + length schema + length body"
    unfolding tail using fits by (intro unat_of_nat_u64) (simp add: len lims)
  have "decode_tail data FLAG_SCHEMA_EMBEDDED tail_ptr = Ok (unat count, 32 + length schema + length body + 4)"
    using flags rt fits by (simp add: decode_tail_def ut saturating_add_def len lims Let_def)
  moreover have "decode_tail_ptr data FLAG_SCHEMA_EMBEDDED 0 = Ok tail_ptr"
    using flags rp by (simp add: decode_tail_ptr_def len)
  ultimately show ?thesis
    using flags r0 r4 r6 r8 r16 rf schema root
    by (simp add: decode_def validate_preamble_flags_def len)
qed

lemma decode_row_file:
  assumes data: "data = encode_preamble (murmur3_64 schema) FLAG_SCHEMA_EMBEDDED @ schema @ obj
      @ encode_tail_index start tail_ptr"
    and tail: "tail_ptr = word_of_nat (32 + length schema + length obj)"
    and fits: "fits data"
    and sch: "parse_basic_schema data 32 = Ok (keys, sigils, 32 + length schema)"
    and root: "decode_object data (32 + length schema) keys sigils = Ok root_fields"
  shows "decode data = Ok \<lparr>df_version = VERSION, df_flags = FLAG_SCHEMA_EMBEDDED,
      df_dict_hash = murmur3_64 schema, df_tail_ptr = tail_ptr, df_keys = keys, df_sigils = sigils,
      df_root_fields = root_fields, df_record_count = 1,
      df_tail_start = 32 + length schema + length obj + 4, df_data_start = 32 + length schema\<rparr>"
  using decode_row_data[of data schema obj 1 "u16_le 0 @ u64_le start" tail_ptr keys sigils root_fields] assms
  by (simp add: encode_tail_index_def)

text \<open>
  C3: A compiled file is decoded to what was compiled, within these limits (\<open>fields_ok\<close>): one to 256 fields with
  distinct names of at most 257 bytes, valid UTF-8 and free of zero bytes; every value an integer, a float, a
  boolean, a time, a valid string of at most one MiB or a binary below four GiB -- no null, keyword, link, macro, object or list;
  and no value whose encoding begins with the magic number of an object or a list, which the decoder would
  take for one (\<open>decoder_departures\<close>).  Then the compiler succeeds, and if the file is smaller than 64 KiB the
  decoder accepts it -- magic numbers, schema hash, tail pointer and all -- and returns the keys in
  the order of the source, the sigil of each value, one record, and the values themselves.
\<close>

theorem compile_decode_roundtrip:
  assumes ok: "fields_ok fs"
  shows "\<exists>bytes. compile fs new_compiler = Ok bytes
     \<and> (length bytes < 65536 \<longrightarrow>
         (\<exists>file. decode bytes = Ok file
            \<and> df_root_fields file = map (\<lambda>f. (fkey f, decoded (fvalue f))) fs
            \<and> df_keys file = map fkey fs \<and> df_sigils file = map (\<lambda>f. value_sigil_byte (fvalue f)) fs
            \<and> df_record_count file = 1))"
proof -
  let ?n = "length fs" let ?vs = "map fvalue fs" let ?keys = "map fkey fs"
  let ?sigs = "map (\<lambda>f. value_sigil_byte (fvalue f)) fs"
  obtain bufs c2 where bufs: "rmap encode_value ?vs = Ok bufs"
    and obj: "encode_object fs (collect_keys fs new_compiler) = Ok (object_bytes [0..<?n] ?n bufs, c2)"
    and c2: "dict c2 = ?keys" "slot_sigils c2 = ?sigs" and free: "list_all magic_free bufs"
    using compile_flat[OF ok refl] by blast
  let ?obj = "object_bytes [0..<?n] ?n bufs" let ?s = "encode_schema c2"
  define tp where "tp = (word_of_nat (32 + length ?s + length ?obj) :: u64)"
  define bytes where "bytes = encode_preamble (murmur3_64 ?s) FLAG_SCHEMA_EMBEDDED @ ?s @ ?obj
      @ encode_tail_index (word_of_nat (32 + length ?s)) tp"
  have comp: "compile fs new_compiler = Ok bytes"
    by (simp add: compile_def Let_def obj bytes_def tp_def)
  have n: "0 < ?n" "?n \<le> 512" "?n \<le> 256" using ok by (simp_all add: fields_ok_def)
  have names: "list_all name_ok ?keys" using ok by (simp add: fields_ok_def list_all_iff)
  have dec: "\<And>v. v \<in> set ?vs \<Longrightarrow> decodable v" using ok by (auto simp: fields_ok_def list_all_iff)
  have s: "?s = pad8 (u16_le (word_of_nat (length ?keys)) @ ?sigs @ concat (map (\<lambda>k. k @ [0]) ?keys))"
  proof -
    have "map (\<lambda>i. let s = (if i < length ?sigs then ?sigs ! i else 0) in if s = 0 then SIGIL_STR else s)
        [0..<length ?sigs] = ?sigs"
      by (rule map_schema_sigils) (auto simp: value_sigil_nonzero)
    then show ?thesis unfolding encode_schema_def Let_def c2 by simp
  qed
  have pre: "length (encode_preamble (murmur3_64 ?s) FLAG_SCHEMA_EMBEDDED) = 32"
    by (simp add: encode_preamble_def)
  have goal: "\<exists>file. decode bytes = Ok file
      \<and> df_root_fields file = map (\<lambda>f. (fkey f, decoded (fvalue f))) fs
      \<and> df_keys file = ?keys \<and> df_sigils file = ?sigs \<and> df_record_count file = 1"
    if small: "length bytes < 65536"
  proof -
    have fits: "fits bytes" using small by (simp add: lims)
    have sch: "parse_basic_schema bytes 32 = Ok (?keys, ?sigs, 32 + length ?s)"
      using basic_schema_roundtrip[OF _ _ names _ s bytes_def fits] n(3) by (simp add: pre)
    have osmall: "length ?obj < 65536" using small by (simp add: bytes_def)
    have "decode_object bytes (length (encode_preamble (murmur3_64 ?s) FLAG_SCHEMA_EMBEDDED @ ?s)) ?keys ?sigs
        = Ok (map (\<lambda>(i, v). (key_name ?keys i, decoded v)) (zip [0..<?n] ?vs))"
    proof (rule object_roundtrip[OF _ _ n(1,2) _ bufs dec _ _ osmall _ fits])
      show "bytes = (encode_preamble (murmur3_64 ?s) FLAG_SCHEMA_EMBEDDED @ ?s) @ ?obj
          @ encode_tail_index (word_of_nat (32 + length ?s)) tp" by (simp add: bytes_def)
      show "magic_free b" if "b \<in> set bufs" for b using free that by (simp add: list_all_iff)
      show "get_or_zero ?sigs ([0..<?n] ! k) = value_sigil_byte (?vs ! k)" if "k < length [0..<?n]" for k
        using that by (simp add: get_or_zero_def)
    qed simp_all
    moreover have "map (\<lambda>(i, v). (key_name ?keys i, decoded v)) (zip [0..<?n] ?vs)
        = map (\<lambda>f. (fkey f, decoded (fvalue f))) fs"
      by (rule nth_equalityI) (simp_all add: key_name_def)
    ultimately have root: "decode_object bytes (32 + length ?s) ?keys ?sigs
        = Ok (map (\<lambda>f. (fkey f, decoded (fvalue f))) fs)" by (simp add: pre)
    show ?thesis
      using decode_row_file[OF bytes_def tp_def fits sch root] by simp
  qed
  show ?thesis using comp goal by blast
qed

theorem compile_decode_roundtrip_witness:
  "\<exists>bytes. compile [Field (bstr ''id'') (VInt 7), Field (bstr ''who'') (VStr (bstr ''Ada''))] new_compiler = Ok bytes
     \<and> (length bytes < 65536 \<longrightarrow>
         (\<exists>file. decode bytes = Ok file
            \<and> df_root_fields file = map (\<lambda>f. (fkey f, decoded (fvalue f)))
                [Field (bstr ''id'') (VInt 7), Field (bstr ''who'') (VStr (bstr ''Ada''))]
            \<and> df_keys file = map fkey [Field (bstr ''id'') (VInt 7), Field (bstr ''who'') (VStr (bstr ''Ada''))]
            \<and> df_sigils file = map (\<lambda>f. value_sigil_byte (fvalue f))
                [Field (bstr ''id'') (VInt 7), Field (bstr ''who'') (VStr (bstr ''Ada''))]
            \<and> df_record_count file = 1))"
  by (rule compile_decode_roundtrip) code_simp

section \<open>No input makes decode panic\<close>

lemma read_block_no_panic: "fits data \<Longrightarrow> read_block n data p \<noteq> Panic"
  by (auto simp: read_block_def res_simps checked_add_eq_Some slice_def split: if_splits)

lemma read_block_pos: "read_block n data p = Ok (bs, q) \<Longrightarrow> q \<le> length data \<and> q = p + n"
  by (auto simp: read_block_def res_simps checked_add_eq_Some slice_def split: if_splits)

lemma read_cstr_no_panic: "p \<le> length data \<Longrightarrow> read_cstr e data p \<noteq> Panic"
  using cstr_end_ge[of p data] by (auto simp: read_cstr_def Let_def res_simps slice_def)

lemma read_cstr_pos: "read_cstr e data p = Ok (s, q) \<Longrightarrow> q \<le> length data"
  by (auto simp: read_cstr_def Let_def res_simps split: if_splits)

lemma read_cstrs_no_panic: "p \<le> length data \<Longrightarrow> read_many (read_cstr e) n data p \<noteq> Panic"
  by (rule read_many_no_panic[where P = "\<lambda>p. p \<le> length data"])
    (auto simp: read_cstr_no_panic dest: read_cstr_pos)

lemma read_cstrs_pos: "p \<le> length data \<Longrightarrow> read_many (read_cstr e) n data p = Ok (ss, q) \<Longrightarrow> q \<le> length data"
  by (rule read_many_pos[where P = "\<lambda>p. p \<le> length data"]) (auto dest: read_cstr_pos)

lemma pad_pos_no_panic [simp]: "pad_pos p \<noteq> Panic"
  by (simp add: pad_pos_def)

lemma read_pool_no_panic: "fits data \<Longrightarrow> read_pool data p \<noteq> Panic"
  by (auto simp: read_pool_def res_simps rd_Ok read_cstrs_no_panic)

lemma parse_extended_schema_no_panic:
  assumes "fits data" and "pos + 2 \<le> length data"
  shows "parse_extended_schema data pos flags \<noteq> Panic"
proof -
  have "wadd pos 2 = pos + 2" using assms by (simp add: lims)
  then show ?thesis using assms
    by (auto simp: parse_extended_schema_def Let_def res_simps rd_Ok read_block_no_panic read_pool_no_panic
        dest!: read_block_pos dest: read_cstrs_no_panic split: if_splits)
qed

lemma skip_name_no_panic: "skip_name data s p \<noteq> Panic"
  by (induction data s p rule: skip_name.induct) (subst skip_name.simps, auto)

lemma skip_name_pos: "skip_name data s p = Ok q \<Longrightarrow> p \<le> length data \<Longrightarrow> p \<le> q \<and> q \<le> length data"
proof (induction data s p rule: skip_name.induct)
  case (1 data s p)
  from 1(2) show ?case
    using 1(1,3) by (subst (asm) skip_name.simps) (auto split: if_splits)
qed

lemma read_name_no_panic: "p \<le> length data \<Longrightarrow> read_name data p \<noteq> Panic"
  by (auto simp: read_name_def res_simps skip_name_no_panic slice_def dest: skip_name_pos)

lemma read_name_pos: "read_name data p = Ok (s, q) \<Longrightarrow> p \<le> length data \<Longrightarrow> q \<le> length data"
  by (auto simp: read_name_def res_simps split: if_splits)

lemma parse_basic_schema_no_panic:
  assumes "fits data" and "pos + 2 \<le> length data"
  shows "parse_basic_schema data pos \<noteq> Panic"
proof -
  have "read_many read_name n data p \<noteq> Panic" if "p \<le> length data" for n p
    by (rule read_many_no_panic[where P = "\<lambda>p. p \<le> length data", OF _ _ that])
      (auto simp: read_name_no_panic dest: read_name_pos)
  then show ?thesis using assms
    by (auto simp: parse_basic_schema_def Let_def res_simps rd_Ok read_block_no_panic dest!: read_block_pos
        split: if_splits)
qed

lemma decode_schema_no_panic: "fits data \<Longrightarrow> decode_schema data flags h \<noteq> Panic"
  by (auto simp: decode_schema_def res_simps parse_extended_schema_no_panic parse_basic_schema_no_panic
      slice_def split: if_splits)

lemma parse_delta_tail_no_panic: "fits data \<Longrightarrow> parse_delta_tail_layout data p \<noteq> Panic"
  by (auto simp: parse_delta_tail_layout_def Let_def res_simps checked_add_eq_Some rd_Ok split: if_splits)

lemma list_elem_no_panic: "fits data \<Longrightarrow> list_elem data s off \<noteq> Panic"
  by (auto simp: list_elem_def rd_Ok)

lemma decode_list_no_panic: "fits data \<Longrightarrow> decode_list data off \<noteq> Panic"
  by (auto simp: decode_list_def Let_def res_simps rd_Ok list_elem_no_panic intro!: rmap_no_panic)

lemma decode_by_sigil_no_panic:
  assumes "fits data" and "off < length data"
  shows "decode_by_sigil data off s \<noteq> Panic"
proof -
  have "int_or_raw data off \<noteq> Panic" "atomic8 data off mk \<noteq> Panic" "decode_binary data off \<noteq> Panic" for mk
    using assms by (auto simp: int_or_raw_def atomic8_def decode_binary_def Let_def rd_Ok)
  moreover from this have "decode_str data off \<noteq> Panic"
    using assms by (auto simp: decode_str_def Let_def rd_Ok)
  ultimately show ?thesis using assms(2) by (simp add: decode_by_sigil_def)
qed

lemma decode_value_at_depth_no_panic:
  "fits data \<Longrightarrow> decode_value_at_depth data off s d \<noteq> Panic"
proof (induction data off s d rule: decode_value_at_depth.induct)
  case (1 data off s d)
  then have "decode_plain data off s \<noteq> Panic" if "off < length data"
    using that by (auto simp: decode_plain_def rd_Ok decode_list_no_panic decode_by_sigil_no_panic)
  with 1 show ?case by (subst decode_value_at_depth.simps) (auto simp: rd_Ok Let_def)
qed

lemma read_bitmask_no_panic: "read_bitmask data p bits \<noteq> Panic"
  by (induction data p bits rule: read_bitmask.induct) (subst read_bitmask.simps, auto simp: Let_def)

lemma read_bitmask_pos: "read_bitmask data p bits = Ok (bs, q) \<Longrightarrow> q \<le> length data"
proof (induction data p bits rule: read_bitmask.induct)
  case (1 data p bits)
  from 1(2) show ?case
    using 1(1) by (subst (asm) read_bitmask.simps) (auto simp: Let_def split: if_splits)
qed

lemma decode_object_no_panic:
  assumes "fits data" and "offset + 8 < USIZE_LIM"
  shows "decode_object data offset keys sigils \<noteq> Panic"
proof -
  have off: "read_many (read_offset offset) n data p \<noteq> Panic" for n p
    by (rule read_many_no_panic[where P = "\<lambda>_. True"]) (auto simp: read_offset_def rd_Ok assms(1))
  have "rmap (\<lambda>(i, off). rbind (decode_value_at data off (get_or_zero sigils i))
      (\<lambda>v. Ok (key_name keys i, v))) xs \<noteq> Panic" for xs
    by (rule rmap_no_panic) (auto simp: decode_value_at_def decode_value_at_depth_no_panic assms(1) res_simps)
  with assms off show ?thesis
    by (auto simp: decode_object_def Let_def res_simps rd_Ok read_bitmask_no_panic split: if_splits)
qed

lemma decode_tail_no_panic:
  assumes "fits data" and "32 \<le> length data"
  shows "decode_tail data flags tail_ptr \<noteq> Panic"
proof -
  have "rd_u64 data (length data - footer_size flags + 8) \<noteq> Panic"
    if "has_flag flags FLAG_COLUMNAR \<or> has_flag flags FLAG_PAX"
    using that assms by (auto simp: footer_size_def rd_Ok)
  moreover have "rd_u32 data (unat tail_ptr) \<noteq> Panic" if "saturating_add (unat tail_ptr) 4 \<le> length data"
  proof -
    have "unat tail_ptr + 4 \<le> length data"
      using that assms(1) by (auto simp: saturating_add_def lims min_def split: if_splits)
    then show ?thesis using assms(1) by (simp add: rd_Ok)
  qed
  ultimately show ?thesis
    using assms(1) by (auto simp: decode_tail_def Let_def res_simps parse_delta_tail_no_panic)
qed

text \<open>
  C16: \<open>decode\<close> is total: whatever bytes it is given, it returns a file or an error and never panics.
\<close>

theorem decode_no_panic: "fits data \<Longrightarrow> decode data \<noteq> Panic"
proof -
  assume fits: "fits data"
  have tp: "decode_tail_ptr data flags t \<noteq> Panic" if "32 \<le> length data" for flags t
    using fits that by (auto simp: decode_tail_ptr_def rd_Ok footer_size_def)
  have obj: "decode_object data pos keys sigils \<noteq> Panic" if "pos < length data" for pos keys sigils
    using fits that by (intro decode_object_no_panic) (simp_all add: lims)
  show ?thesis
  proof (cases "length data < 32")
    case False
    with fits tp obj show ?thesis
      by (auto simp: decode_def res_simps rd_Ok validate_preamble_flags_def decode_schema_no_panic
          decode_tail_no_panic split: res.splits)
  qed (simp add: decode_def)
qed

theorem decode_no_panic_witness: "decode [0x42, 0x58] \<noteq> Panic"
  by (rule decode_no_panic) (simp add: lims)

section \<open>Where the round trip ends\<close>

text \<open>
  A link field is never decoded: whatever the file holds, following a link ends in an error,
  because every hop is decoded as a link again and only the depth limit or the end of the data stops
  it.
\<close>

lemma links_never_resolve: "decode_value_at data offset SIGIL_LINK \<noteq> Ok v"
proof -
  have "decode_value_at_depth data offset s d \<noteq> Ok v" if "s = SIGIL_LINK" for s d
    using that
  proof (induction data offset s d rule: decode_value_at_depth.induct)
    case (1 data offset s d)
    then show ?case by (subst decode_value_at_depth.simps) (auto simp: Let_def res_simps)
  qed
  then show ?thesis by (simp add: decode_value_at_def)
qed

text \<open>
  An integer can be taken for an object: a value whose low 32 bits are the magic number of an
  object is decoded as eight raw bytes and not as an integer, although its sigil says integer.
\<close>

lemma integer_taken_for_object:
  assumes "take 4 (u64_le n) = u32_le MAGIC_OBJ" and "fits (pre @ u64_le n @ post)"
  shows "decode_value_at (pre @ u64_le n @ post) (length pre) SIGIL_INT = Ok (DRaw (u64_le n))"
proof -
  let ?data = "pre @ u64_le n @ post"
  have "rd_u32 ?data (length pre) = Ok MAGIC_OBJ"
    using assms rd_u32_prefix[of "u64_le n" pre post] by simp
  moreover have "slice ?data (length pre) (length pre + 8) = Ok (u64_le n)"
    by (simp add: seg_def)
  ultimately show ?thesis
    by (simp add: decode_value_at_def decode_value_at_depth.simps decode_plain_def sigil_defs)
qed

text \<open>
  \<open>decode_record_at\<close> is not total: an offset within eight bytes of the end of the address space
  wraps around the bounds check and panics in the slice, for every file and every schema.
\<close>

lemma decode_record_at_panics:
  assumes "fits data" and "USIZE_LIM - 8 \<le> offset" and "offset < USIZE_LIM" and "8 \<le> length data"
  shows "decode_record_at data offset keys sigils = Panic"
proof -
  have "wadd offset 8 \<le> 8"
    using assms(2,3) by (simp add: wadd_def lims mod_if) linarith
  then have "\<not> length data < wadd offset 8" using assms(4) by simp
  moreover have "rd_u32 data offset = Panic"
    using assms(1,2) by (simp add: rd_u32_def slice_def lims)
  ultimately show ?thesis by (simp add: decode_record_at_def decode_object_def)
qed

text \<open>
  C37: What the decoder does not decode.  A link is never followed to a value, whatever the file; the
  integer whose bytes are the magic number of an object comes back as raw bytes; and \<open>decode_record_at\<close>
  panics at every offset within eight bytes of the end of the address space.
\<close>

theorem decoder_departures:
  "decode_value_at data offset SIGIL_LINK \<noteq> Ok v
   \<and> (length (pre @ u64_le 0x4E59584F @ post) < 2 ^ 60 \<longrightarrow>
        decode_value_at (pre @ u64_le 0x4E59584F @ post) (length pre) SIGIL_INT = Ok (DRaw (u64_le 0x4E59584F)))
   \<and> (8 \<le> length file \<and> length file < 2 ^ 60 \<and> 2 ^ 64 - 8 \<le> at \<and> at < 2 ^ 64 \<longrightarrow>
        decode_record_at file at keys sigils = Panic)"
proof (intro conjI impI)
  show "decode_value_at data offset SIGIL_LINK \<noteq> Ok v" by (rule links_never_resolve)
  assume "length (pre @ u64_le 0x4E59584F @ post) < 2 ^ 60"
  then have f: "fits (pre @ u64_le 0x4E59584F @ post)" by (simp add: lims)
  have "take 4 (u64_le 0x4E59584F) = u32_le MAGIC_OBJ" by code_simp
  from integer_taken_for_object[OF this f]
  show "decode_value_at (pre @ u64_le 0x4E59584F @ post) (length pre) SIGIL_INT = Ok (DRaw (u64_le 0x4E59584F))" .
next
  assume "8 \<le> length file \<and> length file < 2 ^ 60 \<and> 2 ^ 64 - 8 \<le> at \<and> at < 2 ^ 64"
  then show "decode_record_at file at keys sigils = Panic" by (intro decode_record_at_panics) (simp_all add: lims)
qed

theorem decoder_departures_witness:
  "decode_value_at ([7] @ u64_le 0x4E59584F @ []) 1 SIGIL_INT = Ok (DRaw (u64_le 0x4E59584F))
   \<and> decode_record_at (replicate 8 0) (2 ^ 64 - 8) [] [] = Panic"
  using decoder_departures[of "[]" 0 _ "[7]" "[]" "replicate 8 0" "2 ^ 64 - 8" "[]" "[]"] by simp

text \<open>
  C31: Slots and offsets can disagree: \<open>encode_object\<close> writes the offset table in the order of the
  fields, the readers take it in the order of the slots.  Where a nested object has introduced a key
  that a later field of the file uses, the two orders differ, and the file
  \<open>a { z: =1 } b: =2 z: =3\<close> is decoded with the values of \<open>b\<close> and \<open>z\<close> exchanged.
\<close>

theorem slot_order_exchanges_values:
  "\<exists>fs bytes c fields.
     rbind (tokenize u (map ch ''a { z: =1 } b: =2 z: =3'')) parse_file = Ok fs
   \<and> encode_object fs (collect_keys fs new_compiler) = Ok (bytes, c)
   \<and> decode_record_at bytes 0 (dict c) (slot_sigils c) = Ok fields
   \<and> map_of fields (bstr ''b'') = Some (DInt 3) \<and> map_of fields (bstr ''z'') = Some (DInt 2)"
proof -
  let ?fs = "[Field (bstr ''a'') (VObject [Field (bstr ''z'') (VInt 1)]), Field (bstr ''b'') (VInt 2),
    Field (bstr ''z'') (VInt 3)]"
  let ?out = "[(bstr ''a'', DRaw [79, 88, 89, 78, 24, 0, 0, 0]), (bstr ''z'', DInt 2), (bstr ''b'', DInt 3)]"
  have t: "rbind (tokenize u (map ch ''a { z: =1 } b: =2 z: =3'')) parse_file = Ok ?fs"
    by code_simp
  have "rbind (encode_object ?fs (collect_keys ?fs new_compiler))
      (\<lambda>(b, c). decode_record_at b 0 (dict c) (slot_sigils c)) = Ok ?out" by code_simp
  then obtain x where e: "encode_object ?fs (collect_keys ?fs new_compiler) = Ok x"
    and d: "(\<lambda>(b, c). decode_record_at b 0 (dict c) (slot_sigils c)) x = Ok ?out"
    by (rule rbind_OkE)
  obtain b c where x: "x = (b, c)" by (cases x)
  note e[unfolded x]
  moreover from d have "decode_record_at b 0 (dict c) (slot_sigils c) = Ok ?out"
    by (simp only: x prod.case)
  moreover have "map_of ?out (bstr ''b'') = Some (DInt 3)" "map_of ?out (bstr ''z'') = Some (DInt 2)"
    by (simp_all add: bstr_def)
  ultimately show ?thesis using t by (intro exI conjI)
qed

end
