(* ===== verification/Compact_Record.thy ===== *)
theory Compact_Record
  imports Compact_Cells
begin

text \<open>
  The v1.3 compact encoding, third part: record frames (\<^verbatim>\<open>rust/src/compact.rs\<close>, from \<open>RowCellPlan\<close>
  on).

  A dense frame holds a cell for every slot, in the wire order of the plan; a sparse frame holds a
  bitmask, an offset table and the cells that are present.  \<open>row_plan\<close> is the placement that both
  sides compute from the schema and the flags.  \<open>schema.sigils[fi]\<close> is an index that panics, so the
  functions that use it return a result.
\<close>

section \<open>The plan\<close>

record row_plan =
  pl_bool_slots :: "usize list"
  pl_first_bool :: "usize option"
  pl_packed_bools :: bool
  pl_narrow :: bool
  pl_dense_allowed :: bool
  pl_wire_reorder :: bool
  pl_fixed_offsets :: "usize option list option"
  pl_var_start :: "usize option"

definition is_var_sigil :: "u8 \<Rightarrow> bool" where
  "is_var_sigil sig \<longleftrightarrow> sig = SIGIL_STR \<or> sig = 0x3C"

definition bool_word_bytes :: "row_plan \<Rightarrow> usize" where
  "bool_word_bytes plan =
     (if \<not> pl_packed_bools plan \<or> pl_bool_slots plan = [] then 0
      else max ((length (pl_bool_slots plan) + 7) div 8) 1)"

text \<open>A slot whose value lies in the shared word of packed booleans.\<close>

definition in_bool_word :: "row_plan \<Rightarrow> usize \<Rightarrow> bool" where
  "in_bool_word plan fi = (pl_packed_bools plan \<and> fi \<in> set (pl_bool_slots plan))"

definition plan_width :: "ext_schema \<Rightarrow> row_plan \<Rightarrow> usize \<Rightarrow> usize" where
  "plan_width s plan fi = (if pl_narrow plan then unat (cell_width s fi) else 8)"

definition dense_cell_align_width :: "usize \<Rightarrow> ext_schema \<Rightarrow> row_plan \<Rightarrow> usize res" where
  "dense_cell_align_width fi s plan =
     (if in_bool_word plan fi then Ok (bool_word_bytes plan)
      else rbind (idx (s_sigils s) fi) (\<lambda>sig. Ok (
        if is_var_sigil sig then 0
        else if is_promoted s fi \<or> sig = SIGIL_KEYWORD then 2
        else if sig = SIGIL_INT \<or> sig = SIGIL_FLOAT then plan_width s plan fi
        else if sig = SIGIL_TIME then 8
        else if sig = SIGIL_BOOL \<and> \<not> pl_packed_bools plan then 8
        else if sig = SIGIL_NULL then 1
        else 8)))"

text \<open>\<open>sort_unstable_by\<close> with a strict order in which no two elements are equal.\<close>

primrec insert_by :: "('a \<Rightarrow> 'a \<Rightarrow> bool) \<Rightarrow> 'a \<Rightarrow> 'a list \<Rightarrow> 'a list" where
  "insert_by lt x [] = [x]"
| "insert_by lt x (y # ys) = (if lt x y then x # y # ys else y # insert_by lt x ys)"

definition sort_by :: "('a \<Rightarrow> 'a \<Rightarrow> bool) \<Rightarrow> 'a list \<Rightarrow> 'a list" where
  "sort_by lt xs = foldr (insert_by lt) xs []"

definition wire_before :: "usize \<times> usize \<Rightarrow> usize \<times> usize \<Rightarrow> bool" where
  "wire_before a b \<longleftrightarrow> fst b < fst a \<or> fst a = fst b \<and> snd a < snd b"

definition reordered_slots :: "ext_schema \<Rightarrow> row_plan \<Rightarrow> usize list res" where
  "reordered_slots s plan =
     rbind (rfold (\<lambda>fi (fixed, vars).
       rbind (idx (s_sigils s) fi) (\<lambda>sig.
       if is_var_sigil sig then Ok (fixed, vars @ [fi])
       else if in_bool_word plan fi then
         Ok (if pl_first_bool plan = Some fi then fixed @ [(bool_word_bytes plan, fi)] else fixed, vars)
       else rbind (dense_cell_align_width fi s plan) (\<lambda>w. Ok (fixed @ [(w, fi)], vars))))
       [0..<length (s_keys s)] ([], []))
     (\<lambda>(fixed, vars). Ok (map snd (sort_by wire_before fixed) @ vars))"

definition dense_wire_order :: "row_plan \<Rightarrow> ext_schema \<Rightarrow> usize list res" where
  "dense_wire_order plan s =
     (if \<not> pl_wire_reorder plan then Ok [0..<length (s_keys s)] else reordered_slots s plan)"

definition advance_past_bool_word :: "usize \<Rightarrow> row_plan \<Rightarrow> usize" where
  "advance_past_bool_word pos plan =
     (let bw = bool_word_bytes plan in align_to pos bw + bw)"

text \<open>The guard of the first arm of the \<open>match sig\<close> blocks.\<close>

definition width_arm :: "row_plan \<Rightarrow> u8 \<Rightarrow> bool" where
  "width_arm plan sig \<longleftrightarrow>
     (sig = SIGIL_INT \<or> sig = SIGIL_FLOAT \<or> sig = SIGIL_BOOL)
   \<and> (\<not> pl_packed_bools plan \<or> sig \<noteq> SIGIL_BOOL)"

definition advance_dense_past_cell_fixed ::
  "usize \<Rightarrow> usize \<Rightarrow> ext_schema \<Rightarrow> row_plan \<Rightarrow> usize res"
where
  "advance_dense_past_cell_fixed pos fi s plan =
     rbind (idx (s_sigils s) fi) (\<lambda>sig.
     let w = plan_width s plan fi in
     Ok (if in_bool_word plan fi then advance_past_bool_word pos plan
         else if width_arm plan sig then align_to pos w + w
         else if sig = SIGIL_KEYWORD then align_to pos 2 + 2
         else align_to pos 8 + 8))"

definition set_bool_offsets :: "row_plan \<Rightarrow> usize \<Rightarrow> usize option list \<Rightarrow> usize option list" where
  "set_bool_offsets plan base out =
     fold (\<lambda>(i, bs) out. out[bs := Some (base + i div 8)])
       (zip [0..<length (pl_bool_slots plan)] (pl_bool_slots plan)) out"

text \<open>\<open>out[bs]\<close> is in range as long as a schema has at most as many sigils as keys.\<close>

fun fixed_offsets_loop ::
  "ext_schema \<Rightarrow> row_plan \<Rightarrow> usize list \<Rightarrow> usize \<Rightarrow> usize option list
     \<Rightarrow> (usize option list \<times> usize option) res"
where
  "fixed_offsets_loop s plan [] pos out = Ok (out, None)"
| "fixed_offsets_loop s plan (fi # fis) pos out =
     (if in_bool_word plan fi then
        if pl_first_bool plan = Some fi then
          let bw = bool_word_bytes plan; base = align_to pos bw in
          if \<exists>bs \<in> set (pl_bool_slots plan). length out \<le> bs then Panic
          else fixed_offsets_loop s plan fis (base + bw) (set_bool_offsets plan base out)
        else fixed_offsets_loop s plan fis pos out
      else rbind (idx (s_sigils s) fi) (\<lambda>sig.
        if is_var_sigil sig then Ok (out, Some pos)
        else
          let off = (if is_promoted s fi \<or> sig = SIGIL_KEYWORD then align_to pos 2
                     else align_to pos (plan_width s plan fi)) in
          rbind (advance_dense_past_cell_fixed pos fi s plan) (\<lambda>pos'.
          fixed_offsets_loop s plan fis pos' (out[fi := Some off]))))"

definition precompute_dense_fixed_offsets ::
  "ext_schema \<Rightarrow> row_plan \<Rightarrow> (usize option list option \<times> usize option) res"
where
  "precompute_dense_fixed_offsets s plan =
     rbind (dense_wire_order plan s) (\<lambda>order.
     rbind (fixed_offsets_loop s plan order 0 (replicate (length (s_keys s)) None))
       (\<lambda>(out, var_start). Ok (Some out, var_start)))"

definition new_row_plan :: "ext_schema \<Rightarrow> u16 \<Rightarrow> row_plan res" where
  "new_row_plan s flags =
     (let slots = bool_slots_of s;
          base = \<lparr>pl_bool_slots = slots, pl_first_bool = (case slots of [] \<Rightarrow> None | b # _ \<Rightarrow> Some b),
                  pl_packed_bools = has_flag flags FLAG_PACKED_BOOLS,
                  pl_narrow = has_flag flags FLAG_NARROW_CELLS,
                  pl_dense_allowed = has_flag flags FLAG_DENSE_FRAMES,
                  pl_wire_reorder = has_flag flags FLAG_DENSE_WIRE_REORDER,
                  pl_fixed_offsets = None, pl_var_start = None\<rparr> in
      if pl_wire_reorder base \<and> pl_dense_allowed base then
        rbind (precompute_dense_fixed_offsets s base) (\<lambda>(offs, var_start).
        Ok (base\<lparr>pl_fixed_offsets := offs, pl_var_start := var_start\<rparr>))
      else Ok base)"

section \<open>Reading dense frames\<close>

definition advance_dense_past_cell ::
  "u8 list \<Rightarrow> usize \<Rightarrow> usize \<Rightarrow> usize \<Rightarrow> ext_schema \<Rightarrow> row_plan \<Rightarrow> usize res"
where
  "advance_dense_past_cell data body_base pos fi s plan =
     rbind (idx (s_sigils s) fi) (\<lambda>sig.
     let w = plan_width s plan fi in
     if in_bool_word plan fi then Ok (advance_past_bool_word pos plan)
     else if width_arm plan sig then Ok (align_to pos w + w)
     else if is_var_sigil sig then
       if is_promoted s fi then Ok (align_to pos 2 + 2)
       else let prefix = str_len_prefix s fi; abs = wadd body_base pos in
         if length data < wadd abs prefix then Err OutOfBounds
         else rbind (read_str_cell_len data abs prefix) (\<lambda>len.
              Ok (advance_past_str_cell pos len prefix))
     else if sig = SIGIL_KEYWORD then Ok (align_to pos 2 + 2)
     else Ok (align_to pos 8 + 8))"

text \<open>The loop over the variable-length tail of a reordered frame.\<close>

fun walk_var_tail ::
  "u8 list \<Rightarrow> usize \<Rightarrow> usize \<Rightarrow> usize \<Rightarrow> ext_schema \<Rightarrow> row_plan \<Rightarrow> usize list \<Rightarrow> usize option res"
where
  "walk_var_tail data body_base pos slot s plan [] = Ok None"
| "walk_var_tail data body_base pos slot s plan (fi # fis) =
     rbind (idx (s_sigils s) fi) (\<lambda>sig.
     if \<not> is_var_sigil sig then walk_var_tail data body_base pos slot s plan fis
     else if fi = slot then Ok (Some (wadd body_base pos))
     else rbind (advance_dense_past_cell data body_base pos fi s plan) (\<lambda>pos'.
          walk_var_tail data body_base pos' slot s plan fis))"

text \<open>The loop over all cells of a frame.\<close>

fun walk_cells ::
  "u8 list \<Rightarrow> usize \<Rightarrow> usize \<Rightarrow> usize \<Rightarrow> ext_schema \<Rightarrow> row_plan \<Rightarrow> usize list \<Rightarrow> usize option res"
where
  "walk_cells data body_base pos slot s plan [] = Ok None"
| "walk_cells data body_base pos slot s plan (fi # fis) =
     (if in_bool_word plan fi then
        if slot \<in> set (pl_bool_slots plan) \<and> pl_first_bool plan = Some fi then
          let byte = (case position slot (pl_bool_slots plan) of Some i \<Rightarrow> i div 8 | None \<Rightarrow> 0) in
          Ok (Some (wadd body_base (align_to pos (bool_word_bytes plan) + byte)))
        else walk_cells data body_base
               (if pl_first_bool plan = Some fi then advance_past_bool_word pos plan else pos) slot s plan fis
      else rbind (idx (s_sigils s) fi) (\<lambda>sig.
        if fi = slot then
          Ok (Some (wadd body_base
            (if is_promoted s fi \<or> sig = SIGIL_KEYWORD then align_to pos 2
             else if is_var_sigil sig then pos
             else align_to pos (plan_width s plan fi))))
        else rbind (advance_dense_past_cell data body_base pos fi s plan) (\<lambda>pos'.
             walk_cells data body_base pos' slot s plan fis)))"

definition dense_field_offset ::
  "u8 list \<Rightarrow> usize \<Rightarrow> usize \<Rightarrow> ext_schema \<Rightarrow> row_plan \<Rightarrow> usize option res"
where
  "dense_field_offset data obj_offset slot s plan =
     (let body_base = wadd obj_offset 9;
          walk = rbind (dense_wire_order plan s) (walk_cells data body_base 0 slot s plan) in
      case pl_fixed_offsets plan of
        None \<Rightarrow> walk
      | Some fixed \<Rightarrow>
          (case get_at fixed slot of
             Some (Some body_rel) \<Rightarrow> Ok (Some (wadd body_base body_rel))
           | _ \<Rightarrow>
               (case pl_var_start plan of
                  Some pos \<Rightarrow> rbind (dense_wire_order plan s) (walk_var_tail data body_base pos slot s plan)
                | None \<Rightarrow> walk)))"

section \<open>Reading offset tables\<close>

text \<open>
  The seven bits of one byte of the mask: \<open>cur\<close> counts slots, \<open>table_idx\<close> the present slots below
  the one looked for.
\<close>

fun scan7 :: "u8 \<Rightarrow> nat list \<Rightarrow> usize \<Rightarrow> usize \<times> usize \<times> bool \<Rightarrow> (usize \<times> usize \<times> bool) option" where
  "scan7 b [] slot st = Some st"
| "scan7 b (k # ks) slot (cur, table_idx, found) =
     (let set_bit = (and (drop_bit k (and b 0x7F)) 1 = 1) in
      if cur = slot then
        if \<not> set_bit then None else scan7 b ks slot (cur + 1, table_idx, True)
      else if cur < slot \<and> set_bit then scan7 b ks slot (cur + 1, table_idx + 1, found)
      else scan7 b ks slot (cur + 1, table_idx, found))"

function find_slot :: "u8 list \<Rightarrow> usize \<Rightarrow> usize \<Rightarrow> usize \<times> usize \<times> bool \<Rightarrow> (u8 \<times> usize \<times> usize) option" where
  "find_slot data p slot st =
     (case get_at data p of
        None \<Rightarrow> None
      | Some b \<Rightarrow>
          (case scan7 b [0..<7] slot st of
             None \<Rightarrow> None
           | Some (cur, table_idx, found) \<Rightarrow>
               if found \<and> and b 0x80 = 0 then Some (b, p + 1, table_idx)
               else if slot < cur \<and> found then Some (b, p + 1, table_idx)
               else if and b 0x80 = 0 then None
               else find_slot data (p + 1) slot (cur, table_idx, found)))"
  by pat_completeness auto

termination find_slot
  by (relation "measure (\<lambda>(data, p, slot, st). length data - p)") (auto simp: get_at_def split: if_splits)

text \<open>\<open>while b & 0x80 != 0 { b = *data.get(p)?; p += 1 }\<close>\<close>

function mask_end :: "u8 list \<Rightarrow> u8 \<Rightarrow> usize \<Rightarrow> usize option" where
  "mask_end data b p =
     (if and b 0x80 = 0 then Some p
      else case get_at data p of None \<Rightarrow> None | Some b' \<Rightarrow> mask_end data b' (p + 1))"
  by pat_completeness auto

termination mask_end
  by (relation "measure (\<lambda>(data, b, p). length data - p)") (auto simp: get_at_def split: if_splits)

declare find_slot.simps [simp del] mask_end.simps [simp del]

definition resolve_slot_v12 :: "u8 list \<Rightarrow> usize \<Rightarrow> usize \<Rightarrow> usize option" where
  "resolve_slot_v12 data obj_offset slot =
     Option.bind (checked_add obj_offset 8) (\<lambda>p0.
     Option.bind (find_slot data p0 slot (0, 0, False)) (\<lambda>(b, p, table_idx).
     Option.bind (mask_end data b p) (\<lambda>p'.
     Option.bind (get_u16 data (p' + table_idx * 2)) (\<lambda>rel.
     checked_add obj_offset (unat rel)))))"

function sparse_bitmask_end_loop :: "u8 list \<Rightarrow> usize \<Rightarrow> usize \<Rightarrow> usize \<Rightarrow> usize option" where
  "sparse_bitmask_end_loop data p cur field_count =
     (case get_at data p of
        None \<Rightarrow> None
      | Some b \<Rightarrow>
          if field_count \<le> cur + 7 then Some (p + 1)
          else if and b 0x80 = 0 then Some (p + 1)
          else sparse_bitmask_end_loop data (p + 1) (cur + 7) field_count)"
  by pat_completeness auto

termination sparse_bitmask_end_loop
  by (relation "measure (\<lambda>(data, p, cur, n). length data - p)") (auto simp: get_at_def split: if_splits)

definition sparse_bitmask_end :: "u8 list \<Rightarrow> usize \<Rightarrow> usize \<Rightarrow> usize option" where
  "sparse_bitmask_end data obj_offset field_count =
     sparse_bitmask_end_loop data (obj_offset + 9) 0 field_count"

text \<open>The bit of one slot; \<open>None\<close> when the mask or the data ends before it.\<close>

function sparse_bit :: "u8 list \<Rightarrow> usize \<Rightarrow> usize \<Rightarrow> usize \<Rightarrow> bool option" where
  "sparse_bit data p cur target =
     (case get_at data p of
        None \<Rightarrow> None
      | Some b \<Rightarrow>
          if cur \<le> target \<and> target < cur + 7 then
            Some (and (drop_bit (target - cur) (and b 0x7F)) 1 = 1)
          else if and b 0x80 = 0 then None
          else sparse_bit data (p + 1) (cur + 7) target)"
  by pat_completeness auto

termination sparse_bit
  by (relation "measure (\<lambda>(data, p, cur, n). length data - p)") (auto simp: get_at_def split: if_splits)

declare sparse_bitmask_end_loop.simps [simp del] sparse_bit.simps [simp del]

definition is_bit_set_sparse :: "u8 list \<Rightarrow> usize \<Rightarrow> usize \<Rightarrow> bool" where
  "is_bit_set_sparse data obj_offset slot =
     (case sparse_bit data (obj_offset + 9) 0 slot of None \<Rightarrow> False | Some b \<Rightarrow> b)"

definition sparse_present_slots :: "u8 list \<Rightarrow> usize \<Rightarrow> usize \<Rightarrow> usize list" where
  "sparse_present_slots data obj_offset field_count =
     filter (is_bit_set_sparse data obj_offset) [0..<field_count]"

text \<open>The slots that have an entry in the offset table: of the packed booleans only the first.\<close>

fun offset_table_loop :: "row_plan \<Rightarrow> bool \<Rightarrow> usize list \<Rightarrow> usize list" where
  "offset_table_loop plan added [] = []"
| "offset_table_loop plan added (fi # fis) =
     (if fi \<in> set (pl_bool_slots plan) then
        if added then offset_table_loop plan added fis else fi # offset_table_loop plan True fis
      else fi # offset_table_loop plan added fis)"

definition sparse_offset_table_slots :: "usize list \<Rightarrow> row_plan \<Rightarrow> usize list" where
  "sparse_offset_table_slots present plan =
     (if \<not> pl_packed_bools plan then present else offset_table_loop plan False present)"

definition resolve_slot_v13_sparse ::
  "u8 list \<Rightarrow> usize \<Rightarrow> usize \<Rightarrow> ext_schema \<Rightarrow> row_plan \<Rightarrow> usize option"
where
  "resolve_slot_v13_sparse data obj_offset slot s plan =
     (if \<not> is_bit_set_sparse data obj_offset slot then None
      else let n = length (s_keys s);
               ot = sparse_offset_table_slots (sparse_present_slots data obj_offset n) plan in
        Option.bind (sparse_bitmask_end data obj_offset n) (\<lambda>table_base.
        if in_bool_word plan slot then
          Option.bind (find (\<lambda>fi. fi \<in> set (pl_bool_slots plan)) ot) (\<lambda>bool_table_fi.
          Option.bind (position bool_table_fi ot) (\<lambda>table_idx.
          Option.bind (get_u16 data (table_base + table_idx * 2)) (\<lambda>rel.
          Option.bind (position slot (pl_bool_slots plan)) (\<lambda>bit_in_word.
          Some (obj_offset + unat rel + bit_in_word div 8)))))
        else
          Option.bind (position slot ot) (\<lambda>table_idx.
          Option.bind (get_u16 data (table_base + table_idx * 2)) (\<lambda>rel.
          Some (obj_offset + unat rel)))))"

text \<open>\<open>.ok().flatten()\<close> drops an error of the walk; a panic stays one.\<close>

definition resolve_field_offset ::
  "u8 list \<Rightarrow> usize \<Rightarrow> usize \<Rightarrow> ext_schema \<Rightarrow> row_plan \<Rightarrow> bool \<Rightarrow> usize option res"
where
  "resolve_field_offset data obj_offset slot s plan dense =
     (if dense then
        (case Option.bind (checked_add obj_offset 8) (get_at data) of
           None \<Rightarrow> Ok None
         | Some hdr \<Rightarrow>
             if and hdr RECORD_HDR_DENSE \<noteq> 0 then
               (case dense_field_offset data obj_offset slot s plan of Err _ \<Rightarrow> Ok None | r \<Rightarrow> r)
             else Ok (resolve_slot_v13_sparse data obj_offset slot s plan))
      else Ok (resolve_slot_v12 data obj_offset slot))"

definition read_packed_bool ::
  "u8 list \<Rightarrow> usize \<Rightarrow> usize \<Rightarrow> ext_schema \<Rightarrow> row_plan \<Rightarrow> bool option res"
where
  "read_packed_bool data obj_offset slot s plan =
     rbind (resolve_field_offset data obj_offset slot s plan True) (\<lambda>off. Ok (
       Option.bind off (\<lambda>off.
       Option.bind (position slot (pl_bool_slots plan)) (\<lambda>bit_pos.
       Option.bind (get_at data off) (\<lambda>byte.
       Some (and (drop_bit (bit_pos mod 8) byte) 1 = 1))))))"

section \<open>Writing records\<close>

datatype compact_cell =
    CI64 i64
  | CF64 f64
  | CBool bool
  | CStr rstring
  | CTime i64
  | CNull
  | CKeyword u16

text \<open>\<open>while body.len() % m != 0 { body.push(0) }\<close>\<close>

definition pad_to :: "usize \<Rightarrow> u8 list \<Rightarrow> u8 list" where
  "pad_to m body = body @ replicate ((m - length body mod m) mod m) 0"

definition append_cell ::
  "u8 list \<Rightarrow> usize \<Rightarrow> compact_cell \<Rightarrow> ext_schema \<Rightarrow> row_plan \<Rightarrow> u8 list res"
where
  "append_cell body fi cell s plan =
     (let w = (if pl_narrow plan then cell_width s fi else 8) in
      case cell of
        CI64 v \<Rightarrow> rbind (encode_int_cell v w) (\<lambda>b. Ok (pad_to (unat w) body @ b))
      | CF64 v \<Rightarrow> rbind (encode_f64_cell v w) (\<lambda>b. Ok (pad_to (unat w) body @ b))
      | CBool v \<Rightarrow>
          if \<not> pl_packed_bools plan then Ok (pad_to 8 body @ (if v then 1 else 0) # replicate 7 0)
          else Ok body
      | CTime v \<Rightarrow> Ok (pad_to 8 body @ u64_le v)
      | CStr str \<Rightarrow>
          if is_promoted s fi then
            rbind (ok_or (position str (s_pool s)) DictMismatch) (\<lambda>i.
            Ok (pad_to 2 body @ u16_le (word_of_nat i)))
          else
            let prefix = str_len_prefix s fi; pad = (8 - (prefix + length str) mod 8) mod 8 in
            if prefix = 2 then
              if 65535 < length str then Err ValueOutOfRange
              else Ok (body @ u16_le (word_of_nat (length str)) @ str @ replicate pad 0)
            else Ok (body @ u32_le (word_of_nat (length str)) @ str @ replicate pad 0)
      | CKeyword i \<Rightarrow> Ok (pad_to 2 body @ u16_le i)
      | CNull \<Rightarrow> Ok body)"

text \<open>\<open>map.insert\<close> in the order of the cells: the last cell of a slot counts.\<close>

definition cell_of :: "(u16 \<times> compact_cell) list \<Rightarrow> usize \<Rightarrow> compact_cell option" where
  "cell_of cells fi = map_of (rev cells) (word_of_nat fi)"

definition bool_word :: "(u16 \<times> compact_cell) list \<Rightarrow> row_plan \<Rightarrow> (usize \<Rightarrow> bool) \<Rightarrow> u64" where
  "bool_word cells plan use =
     fold (\<lambda>(bi, bs) w.
       if use bs \<and> cell_of cells bs = Some (CBool True) then or w (push_bit (bi mod 64) 1) else w)
       (zip [0..<length (pl_bool_slots plan)] (pl_bool_slots plan)) 0"

text \<open>\<open>bytes[..bw]\<close> panics above eight bytes, that is above 64 boolean fields.\<close>

definition emit_bool_word :: "u8 list \<Rightarrow> u64 \<Rightarrow> row_plan \<Rightarrow> u8 list res" where
  "emit_bool_word body word plan =
     (let bw = bool_word_bytes plan in
      rbind (slice (u64_le word) 0 bw) (\<lambda>b. Ok (pad_to bw body @ b)))"

fun encode_dense_loop ::
  "(u16 \<times> compact_cell) list \<Rightarrow> ext_schema \<Rightarrow> row_plan \<Rightarrow> usize list \<Rightarrow> u8 list \<Rightarrow> u8 list res"
where
  "encode_dense_loop cells s plan [] body = Ok body"
| "encode_dense_loop cells s plan (fi # fis) body =
     (if in_bool_word plan fi then
        if pl_first_bool plan = Some fi then
          rbind (emit_bool_word body (bool_word cells plan (\<lambda>_. True)) plan)
            (encode_dense_loop cells s plan fis)
        else encode_dense_loop cells s plan fis body
      else rbind (ok_or (cell_of cells fi) OutOfBounds) (\<lambda>cell.
           rbind (append_cell body fi cell s plan) (encode_dense_loop cells s plan fis)))"

definition encode_dense_body ::
  "(u16 \<times> compact_cell) list \<Rightarrow> ext_schema \<Rightarrow> row_plan \<Rightarrow> u8 list res"
where
  "encode_dense_body cells s plan =
     rbind (dense_wire_order plan s) (\<lambda>order. encode_dense_loop cells s plan order [])"

definition sparse_cell_body_start :: "usize \<Rightarrow> usize \<Rightarrow> ext_schema \<Rightarrow> row_plan \<Rightarrow> usize res" where
  "sparse_cell_body_start body_len fi s plan =
     rbind (idx (s_sigils s) fi) (\<lambda>sig. Ok (
       if width_arm plan sig then align_to body_len (plan_width s plan fi)
       else if sig = SIGIL_TIME then align_to body_len 8
       else if (sig = SIGIL_KEYWORD \<or> is_var_sigil sig) \<and> is_promoted s fi then align_to body_len 2
       else if is_var_sigil sig then body_len
       else align_to body_len 8))"

text \<open>
  \<open>starts\<close> is the hash map from slots to offsets in the body.  The offset of the word of booleans is
  taken before \<open>emit_bool_word\<close> pads the body.
\<close>

fun encode_sparse_loop ::
  "(u16 \<times> compact_cell) list \<Rightarrow> ext_schema \<Rightarrow> bool list \<Rightarrow> row_plan \<Rightarrow> usize list
     \<Rightarrow> u8 list \<Rightarrow> (usize \<Rightarrow> usize option) \<Rightarrow> bool \<Rightarrow> (u8 list \<times> (usize \<Rightarrow> usize option)) res"
where
  "encode_sparse_loop cells s present plan [] body starts emitted = Ok (body, starts)"
| "encode_sparse_loop cells s present plan (fi # fis) body starts emitted =
     rbind (idx present fi) (\<lambda>here.
     if \<not> here then encode_sparse_loop cells s present plan fis body starts emitted
     else if in_bool_word plan fi then
       if emitted then encode_sparse_loop cells s present plan fis body starts emitted
       else if \<exists>bs \<in> set (pl_bool_slots plan). length present \<le> bs then Panic
       else
         let base = length body;
             starts' = fold (\<lambda>(bi, bs) m. if present ! bs then m(bs \<mapsto> base + bi div 8) else m)
               (zip [0..<length (pl_bool_slots plan)] (pl_bool_slots plan)) (starts(fi \<mapsto> base)) in
         rbind (emit_bool_word body (bool_word cells plan (\<lambda>bs. present ! bs)) plan) (\<lambda>body'.
         encode_sparse_loop cells s present plan fis body' starts' True)
     else case cell_of cells fi of
       None \<Rightarrow> Panic
     | Some cell \<Rightarrow>
         rbind (sparse_cell_body_start (length body) fi s plan) (\<lambda>start.
         rbind (append_cell (body @ replicate (start - length body) 0) fi cell s plan) (\<lambda>body'.
         encode_sparse_loop cells s present plan fis body' (starts(fi \<mapsto> start)) emitted)))"

definition encode_sparse_body ::
  "(u16 \<times> compact_cell) list \<Rightarrow> ext_schema \<Rightarrow> bool list \<Rightarrow> row_plan \<Rightarrow> (u8 list \<times> (usize \<Rightarrow> usize option)) res"
where
  "encode_sparse_body cells s present plan =
     encode_sparse_loop cells s present plan [0..<length (s_keys s)] [] Map.empty False"

definition build_bitmask_bytes :: "bool list \<Rightarrow> u8 list" where
  "build_bitmask_bytes present = (if present = [] then [0] else bitmask_loop present)"

definition mark_present :: "(u16 \<times> compact_cell) list \<Rightarrow> usize \<Rightarrow> bool list" where
  "mark_present cells n = map (\<lambda>i. i \<in> (\<lambda>c. unat (fst c)) ` set cells) [0..<n]"

definition frame_record :: "u8 list \<Rightarrow> u8 list" where
  "frame_record rest = u32_le MAGIC_OBJ @ u32_le (word_of_nat (8 + length rest)) @ rest"

definition encode_compact_record ::
  "(u16 \<times> compact_cell) list \<Rightarrow> ext_schema \<Rightarrow> compact_options \<Rightarrow> u8 list res"
where
  "encode_compact_record cells s o1 =
     (let n = length (s_keys s); present = mark_present cells n;
          dense = (dense_frames o1 \<and> list_all (\<lambda>p. p) present) in
      rbind (new_row_plan s (preamble_flags o1)) (\<lambda>plan.
      if dense then
        rbind (encode_dense_body cells s plan) (\<lambda>body. Ok (frame_record (RECORD_HDR_DENSE # body)))
      else
        rbind (encode_sparse_body cells s present plan) (\<lambda>(body, starts).
        let hdr = (if dense_frames o1 then [0] else []) @ build_bitmask_bytes present;
            header_len = 8 + length hdr;
            ot = sparse_offset_table_slots (filter (\<lambda>i. present ! i) [0..<n]) plan;
            data_start = align_to (header_len + length ot * 2) 8 in
        rbind (rmap (\<lambda>fi. rbind (ok_or (starts fi) (ParseError ''missing sparse body offset for field {fi}''))
                 (\<lambda>start. Ok (word_of_nat (data_start + start)))) ot) (\<lambda>rel_offs.
        Ok (frame_record (hdr @ concat (map u16_le rel_offs)
          @ replicate (data_start - (header_len + length ot * 2)) 0 @ body))))))"

end
