(* ===== verification/Writer.thy ===== *)
theory Writer
  imports Compact_Record
begin

text \<open>
  The record writer: \<^verbatim>\<open>rust/src/writer.rs\<close>.

  \<open>nxs_writer\<close> is the state of \<open>NxsWriter\<close>.  A plain writer reserves the mask and the offset table of an
  object in its buffer, appends values behind them and patches both when the object is closed; a
  compact writer buffers cells and encodes them in \<open>finish\<close>.  Every index and slice that can be out of
  range is a panic, and so is \<open>expect\<close> on a failure.
\<close>

section \<open>State\<close>

record wr_schema =
  ws_keys :: "rstring list"
  ws_bitmask_bytes :: usize
  ws_sigils :: "u8 list"

definition new_schema :: "rstring list \<Rightarrow> wr_schema" where
  "new_schema keys =
     \<lparr>ws_keys = keys, ws_bitmask_bytes = max ((length keys + 6) div 7) 1, ws_sigils = replicate (length keys) 0\<rparr>"

record frame =
  f_start :: usize
  f_bitmask :: "u8 list"
  f_offset_table :: "u16 list"
  f_last_slot :: int
  f_needs_sort :: bool
  f_slot_offsets :: "(u16 \<times> u32) list"
  f_cells :: "(u16 \<times> compact_cell) list"

text \<open>The stack of open frames has its top first.\<close>

record nxs_writer =
  w_schema :: wr_schema
  w_buf :: "u8 list"
  w_frames :: "frame list"
  w_record_offsets :: "u32 list"
  w_slot_sigils :: "u8 list"
  w_compact :: "compact_options option"
  w_int_min :: "i64 list"
  w_int_max :: "i64 list"
  w_string_cols :: "rstring list list"
  w_pending :: "(u16 \<times> compact_cell) list list"

definition writer_with_compact :: "wr_schema \<Rightarrow> compact_options option \<Rightarrow> nxs_writer" where
  "writer_with_compact s c =
     (let n = length (ws_keys s) in
      \<lparr>w_schema = s, w_buf = [], w_frames = [], w_record_offsets = [], w_slot_sigils = replicate n 0,
       w_compact = c, w_int_min = replicate n 0x7FFFFFFFFFFFFFFF, w_int_max = replicate n 0x8000000000000000,
       w_string_cols = replicate n [], w_pending = []\<rparr>)"

definition new_writer :: "wr_schema \<Rightarrow> nxs_writer" where
  "new_writer s = writer_with_compact s None"

section \<open>Objects\<close>

definition frame_at :: "usize \<Rightarrow> u8 list \<Rightarrow> frame" where
  "frame_at start bits =
     \<lparr>f_start = start, f_bitmask = bits, f_offset_table = [], f_last_slot = - 1, f_needs_sort = False,
      f_slot_offsets = [], f_cells = []\<rparr>"

text \<open>The zeroed mask with its continuation bits.\<close>

definition empty_mask :: "usize \<Rightarrow> u8 list" where
  "empty_mask n = replicate (n - 1) 0x80 @ replicate (n - (n - 1)) 0"

definition begin_object :: "nxs_writer \<Rightarrow> nxs_writer" where
  "begin_object w =
     (let w = (if w_frames w = [] \<and> w_compact w = None
               then w\<lparr>w_record_offsets := w_record_offsets w @ [word_of_nat (length (w_buf w))]\<rparr> else w);
          start = length (w_buf w) in
      if w_compact w \<noteq> None then w\<lparr>w_frames := frame_at start [] # w_frames w\<rparr>
      else
        let bits = empty_mask (ws_bitmask_bytes (w_schema w));
            head = u32_le MAGIC_OBJ @ u32_le 0 @ bits @ replicate (length (ws_keys (w_schema w)) * 2) 0 in
        w\<lparr>w_frames := frame_at start bits # w_frames w, w_buf := w_buf w @ pad8 head\<rparr>)"

text \<open>\<open>buf[p..p + n].copy_from_slice(bs)\<close> over \<open>n\<close> bytes.\<close>

definition patch :: "usize \<Rightarrow> u8 list \<Rightarrow> u8 list \<Rightarrow> u8 list res" where
  "patch p bs buf =
     (if p + length bs \<le> length buf then Ok (take p buf @ bs @ drop (p + length bs) buf) else Panic)"

fun patch_table :: "usize \<Rightarrow> u16 list \<Rightarrow> u8 list \<Rightarrow> u8 list res" where
  "patch_table p [] buf = Ok buf"
| "patch_table p (off # offs) buf = rbind (patch p (u16_le off) buf) (patch_table (p + 2) offs)"

text \<open>
  The entries of the offset table in slot order.  \<open>sort_unstable_by_key\<close> leaves the order of equal
  slots open; no theorem below has two equal slots.
\<close>

definition table_entries :: "frame \<Rightarrow> u16 list" where
  "table_entries fr =
     (if \<not> f_needs_sort fr then f_offset_table fr
      else map (\<lambda>(_, off). word_of_int (uint off - int (f_start fr)))
             (sort_by (\<lambda>a b. fst a < fst b) (f_slot_offsets fr)))"

definition end_object :: "nxs_writer \<Rightarrow> nxs_writer res" where
  "end_object w =
     (case w_frames w of
        [] \<Rightarrow> Panic
      | fr # frs \<Rightarrow>
          if w_compact w \<noteq> None then
            Ok (w\<lparr>w_frames := frs, w_pending := w_pending w @ [f_cells fr]\<rparr>)
          else
            let total = length (w_buf w) - f_start fr;
                mask_off = f_start fr + 8;
                table = mask_off + length (f_bitmask fr);
                used = length (f_offset_table fr) * 2;
                reserved = length (ws_keys (w_schema w)) * 2 in
            rbind (patch (f_start fr + 4) (u32_le (word_of_nat total)) (w_buf w)) (\<lambda>buf.
            rbind (patch mask_off (f_bitmask fr) buf) (\<lambda>buf.
            rbind (patch_table table (table_entries fr) buf) (\<lambda>buf.
            rbind (if used < reserved then patch (table + used) (replicate (reserved - used) 0) buf else Ok buf) (\<lambda>buf.
            Ok (w\<lparr>w_frames := frs, w_buf := buf\<rparr>))))))"

definition data_sector_since :: "nxs_writer \<Rightarrow> usize \<Rightarrow> u8 list" where
  "data_sector_since w start = (if start < length (w_buf w) then drop start (w_buf w) else [])"

section \<open>Typed writes\<close>

definition writer_mark_sigil :: "u16 \<Rightarrow> u8 \<Rightarrow> nxs_writer \<Rightarrow> nxs_writer" where
  "writer_mark_sigil slot sigil w =
     (let i = unat slot in
      if i < length (w_slot_sigils w) \<and>
         (w_slot_sigils w ! i = 0 \<or> w_slot_sigils w ! i = SIGIL_NULL \<and> sigil \<noteq> SIGIL_NULL)
      then w\<lparr>w_slot_sigils := (w_slot_sigils w)[i := sigil]\<rparr> else w)"

definition push_compact :: "u16 \<Rightarrow> compact_cell \<Rightarrow> nxs_writer \<Rightarrow> nxs_writer" where
  "push_compact slot cell w =
     (case w_frames w of
        [] \<Rightarrow> w
      | fr # frs \<Rightarrow> w\<lparr>w_frames := fr\<lparr>f_cells := f_cells fr @ [(slot, cell)]\<rparr> # frs\<rparr>)"

definition mark_slot :: "u16 \<Rightarrow> nxs_writer \<Rightarrow> nxs_writer res" where
  "mark_slot slot w =
     (case w_frames w of
        [] \<Rightarrow> Panic
      | fr # frs \<Rightarrow>
          let i = unat slot in
          rbind (idx (f_bitmask fr) (i div 7)) (\<lambda>b.
          let fr' = fr\<lparr>f_bitmask := (f_bitmask fr)[i div 7 := or b (push_bit (i mod 7) 1)],
                       f_needs_sort := f_needs_sort fr \<or> int i < f_last_slot fr,
                       f_last_slot := int i,
                       f_offset_table := f_offset_table fr @ [word_of_nat (length (w_buf w) - f_start fr)],
                       f_slot_offsets := f_slot_offsets fr @ [(slot, word_of_nat (length (w_buf w)))]\<rparr> in
          Ok (w\<lparr>w_frames := fr' # frs\<rparr>)))"

definition write_plain :: "u16 \<Rightarrow> u8 list \<Rightarrow> nxs_writer \<Rightarrow> nxs_writer res" where
  "write_plain slot bs w = rbind (mark_slot slot w) (\<lambda>w. Ok (w\<lparr>w_buf := w_buf w @ bs\<rparr>))"

text \<open>The two halves of the typed writes: a compact writer buffers a cell, any other writes bytes.\<close>

definition write_cell :: "u16 \<Rightarrow> compact_cell \<Rightarrow> u8 list \<Rightarrow> nxs_writer \<Rightarrow> nxs_writer res" where
  "write_cell slot cell bs w =
     (if w_compact w \<noteq> None then Ok (push_compact slot cell w) else write_plain slot bs w)"

definition note_int :: "u16 \<Rightarrow> i64 \<Rightarrow> nxs_writer \<Rightarrow> nxs_writer" where
  "note_int slot v w =
     (let i = unat slot in
      if i < length (w_int_min w) then
        w\<lparr>w_int_min := (w_int_min w)[i := (if sint v < sint (w_int_min w ! i) then v else w_int_min w ! i)],
          w_int_max := (w_int_max w)[i := (if sint (w_int_max w ! i) < sint v then v else w_int_max w ! i)]\<rparr>
      else w)"

definition write_i64 :: "u16 \<Rightarrow> i64 \<Rightarrow> nxs_writer \<Rightarrow> nxs_writer res" where
  "write_i64 slot v w = write_cell slot (CI64 v) (u64_le v) (note_int slot v (writer_mark_sigil slot SIGIL_INT w))"

definition write_f64 :: "u16 \<Rightarrow> f64 \<Rightarrow> nxs_writer \<Rightarrow> nxs_writer res" where
  "write_f64 slot v w = write_cell slot (CF64 v) (u64_le v) (writer_mark_sigil slot SIGIL_FLOAT w)"

definition write_bool :: "u16 \<Rightarrow> bool \<Rightarrow> nxs_writer \<Rightarrow> nxs_writer res" where
  "write_bool slot v w =
     write_cell slot (CBool v) ((if v then 1 else 0) # replicate 7 0) (writer_mark_sigil slot SIGIL_BOOL w)"

definition write_time :: "u16 \<Rightarrow> i64 \<Rightarrow> nxs_writer \<Rightarrow> nxs_writer res" where
  "write_time slot v w = write_cell slot (CTime v) (u64_le v) (writer_mark_sigil slot SIGIL_TIME w)"

definition write_null :: "u16 \<Rightarrow> nxs_writer \<Rightarrow> nxs_writer res" where
  "write_null slot w = write_plain slot (replicate 8 0) (writer_mark_sigil slot SIGIL_NULL w)"

definition prefixed_bytes :: "u8 list \<Rightarrow> u8 list" where
  "prefixed_bytes bs = u32_le (word_of_nat (length bs)) @ bs @ replicate ((8 - (4 + length bs) mod 8) mod 8) 0"

definition note_str :: "u16 \<Rightarrow> rstring \<Rightarrow> nxs_writer \<Rightarrow> nxs_writer" where
  "note_str slot v w =
     (let i = unat slot in
      if i < length (w_string_cols w)
      then w\<lparr>w_string_cols := (w_string_cols w)[i := (w_string_cols w ! i) @ [v]]\<rparr> else w)"

definition write_str :: "u16 \<Rightarrow> rstring \<Rightarrow> nxs_writer \<Rightarrow> nxs_writer res" where
  "write_str slot v w =
     write_cell slot (CStr v) (prefixed_bytes v) (note_str slot v (writer_mark_sigil slot SIGIL_STR w))"

definition write_bytes :: "u16 \<Rightarrow> u8 list \<Rightarrow> nxs_writer \<Rightarrow> nxs_writer res" where
  "write_bytes slot v w = write_plain slot (prefixed_bytes v) (writer_mark_sigil slot SIGIL_BINARY w)"

definition list64_bytes :: "u8 \<Rightarrow> u64 list \<Rightarrow> u8 list" where
  "list64_bytes sigil vs =
     u32_le MAGIC_LIST @ u32_le (word_of_nat (16 + length vs * 8)) @ [sigil]
       @ u32_le (word_of_nat (length vs)) @ [0, 0, 0] @ concat (map u64_le vs)"

definition write_list_i64 :: "u16 \<Rightarrow> i64 list \<Rightarrow> nxs_writer \<Rightarrow> nxs_writer res" where
  "write_list_i64 slot vs w = write_plain slot (list64_bytes SIGIL_INT vs) (writer_mark_sigil slot 0x4C w)"

definition write_list_f64 :: "u16 \<Rightarrow> f64 list \<Rightarrow> nxs_writer \<Rightarrow> nxs_writer res" where
  "write_list_f64 slot vs w = write_plain slot (list64_bytes SIGIL_FLOAT vs) (writer_mark_sigil slot 0x4C w)"

section \<open>Sealing a file\<close>

definition build_schema :: "rstring list \<Rightarrow> u8 list \<Rightarrow> u8 list" where
  "build_schema keys sigils =
     pad8 (u16_le (word_of_nat (length keys))
       @ map (\<lambda>i. let s = get_or_zero sigils i in if s = 0 then SIGIL_STR else s) [0..<length keys]
       @ concat (map (\<lambda>k. k @ [0]) keys))"

definition build_tail_index_records :: "u64 list \<Rightarrow> u64 \<Rightarrow> u8 list" where
  "build_tail_index_records offs tail_ptr =
     u32_le (word_of_nat (length offs))
       @ concat (map (\<lambda>(i, off). u16_le (word_of_nat i) @ u64_le off) (zip [0..<length offs] offs))
       @ u64_le tail_ptr @ u32_le MAGIC_FOOTER"

definition writer_ext_schema :: "nxs_writer \<Rightarrow> compact_options \<Rightarrow> ext_schema res" where
  "writer_ext_schema w o1 =
     (let sigils = map (\<lambda>s. if s = 0 then SIGIL_STR else s) (w_slot_sigils w);
          widths = (if narrow_cells o1 then infer_narrow_widths sigils (w_int_min w) (w_int_max w)
                    else replicate (length sigils) 0);
          (attrs, pool) = (if keyword_promotion o1
             then scan_keyword_promotion sigils (w_string_cols w) (keyword_max_ratio o1) (keyword_min_records o1)
             else (replicate (length sigils) 0, []));
          widths = (if narrow_cells o1
             then map (\<lambda>i. if i < length attrs \<and> and (attrs ! i) FIELD_ATTR_PROMOTED \<noteq> 0 then 2 else widths ! i)
                    [0..<length widths] else widths) in
      rbind (if u16_string_lengths o1 then scan_u16_string_lengths sigils (w_string_cols w) attrs else Ok attrs)
        (\<lambda>attrs. Ok \<lparr>s_keys = ws_keys (w_schema w), s_sigils = sigils, s_widths = widths, s_attrs = attrs, s_pool = pool\<rparr>))"

definition expect_ok :: "'a res \<Rightarrow> 'a res" where
  "expect_ok r = (case r of Ok x \<Rightarrow> Ok x | _ \<Rightarrow> Panic)"

text \<open>The pending records of a compact writer: the data sector and where each record starts in it.\<close>

fun encode_pending ::
  "(u16 \<times> compact_cell) list list \<Rightarrow> ext_schema \<Rightarrow> compact_options \<Rightarrow> u8 list \<Rightarrow> u32 list \<Rightarrow> (u8 list \<times> u32 list) res"
where
  "encode_pending [] s o1 data offs = Ok (pad8 data, offs)"
| "encode_pending (cells # rest) s o1 data offs =
     rbind (expect_ok (encode_compact_record cells s o1)) (\<lambda>obj.
     encode_pending rest s o1 (data @ obj) (offs @ [word_of_nat (length data)]))"

definition file_preamble :: "u16 \<Rightarrow> u16 \<Rightarrow> u8 list \<Rightarrow> u8 list" where
  "file_preamble version flags schema_bytes =
     u32_le MAGIC_FILE @ u16_le version @ u16_le flags @ u64_le (murmur3_64 schema_bytes) @ u64_le 0 @ u64_le 0"

definition assemble_file :: "u16 \<Rightarrow> u16 \<Rightarrow> u8 list \<Rightarrow> u8 list \<Rightarrow> (u64 \<Rightarrow> u8 list res) \<Rightarrow> u8 list res" where
  "assemble_file version flags schema_bytes data tail =
     rbind (tail (word_of_nat (32 + length schema_bytes + length data))) (\<lambda>t.
     Ok (file_preamble version flags schema_bytes @ schema_bytes @ data @ t))"

definition absolute :: "u8 list \<Rightarrow> u32 list \<Rightarrow> u64 list" where
  "absolute schema_bytes offs = map (\<lambda>rel. word_of_nat (32 + length schema_bytes) + ucast rel) offs"

definition finish :: "nxs_writer \<Rightarrow> u8 list res" where
  "finish w =
     (case w_compact w of
        None \<Rightarrow>
          let sb = build_schema (ws_keys (w_schema w)) (w_slot_sigils w) in
          assemble_file VERSION FLAG_SCHEMA_EMBEDDED sb (w_buf w)
            (\<lambda>tp. Ok (build_tail_index_records (absolute sb (w_record_offsets w)) tp))
      | Some o1 \<Rightarrow>
          rbind (writer_ext_schema w o1) (\<lambda>ext.
          let sb = build_extended_schema ext (preamble_flags o1) in
          rbind (encode_pending (w_pending w) ext o1 [] []) (\<lambda>(data, offs).
          assemble_file (options_version o1) (or FLAG_SCHEMA_EMBEDDED (preamble_flags o1)) sb data
            (\<lambda>tp. if delta_tail o1
                  then expect_ok (build_delta_tail_index (absolute sb offs) tp (delta_block_size o1))
                  else Ok (build_tail_index_records (absolute sb offs) tp)))))"

text \<open>The two halves of a streamed file, as the bytes they write.\<close>

definition stream_file_header :: "wr_schema \<Rightarrow> u8 list \<times> u64" where
  "stream_file_header s =
     (let sb = build_schema (ws_keys s) [] in
      (file_preamble VERSION FLAG_SCHEMA_EMBEDDED sb @ sb, word_of_nat (32 + length sb)))"

definition stream_file_footer :: "u8 list \<Rightarrow> u64 list \<Rightarrow> u8 list \<times> u64" where
  "stream_file_footer file offs =
     (let tail_ptr = word_of_nat (length file) in (file @ build_tail_index_records offs tail_ptr, tail_ptr))"

end
