(* ===== verification/Record_Slots.thy ===== *)
theory Record_Slots
  imports Compact_Record
begin

text \<open>
  Looking up a slot in a sparse record: the v1.2 and the v1.3 readers of the presence mask
  (\<^verbatim>\<open>rust/src/compact.rs\<close>, \<open>resolve_slot_v12\<close> and \<open>resolve_slot_v13_sparse\<close>) against the mask that the
  writers build.
\<close>

declare scan7.simps(2) [simp del]

section \<open>Scanning a presence mask\<close>

text \<open>\<open>present_at\<close> is what a mask says of a slot, \<open>rank\<close> the number of present slots below it.\<close>

definition present_at :: "bool list \<Rightarrow> usize \<Rightarrow> bool" where
  "present_at bits i \<longleftrightarrow> i < length bits \<and> bits ! i"

definition rank :: "bool list \<Rightarrow> usize \<Rightarrow> nat" where
  "rank bits i = length (filter id (take i bits))"

lemma present_at_drop: "k \<le> i \<Longrightarrow> present_at (drop k bits) (i - k) = present_at bits i"
  by (cases "k \<le> length bits") (auto simp: present_at_def)

lemma rank_drop: "k \<le> i \<Longrightarrow> rank (take k bits) k + rank (drop k bits) (i - k) = rank bits i"
proof -
  assume "k \<le> i"
  then have "take i bits = take k bits @ take (i - k) (drop k bits)"
    by (metis le_add_diff_inverse take_add)
  then show ?thesis by (simp add: rank_def)
qed

lemma rank_less: "present_at bits i \<Longrightarrow> rank bits i < length (filter id bits)"
proof -
  assume a: "present_at bits i"
  then have "bits = take i bits @ bits ! i # drop (Suc i) bits"
    by (intro id_take_nth_drop) (simp add: present_at_def)
  then have "length (filter id bits) = rank bits i + length (filter id (bits ! i # drop (Suc i) bits))"
    by (metis filter_append length_append rank_def)
  with a show ?thesis by (simp add: present_at_def)
qed

text \<open>A byte of the mask, by its seven bits and its continuation bit.\<close>

lemma bitmask_loop_Cons:
  assumes "bits \<noteq> []"
  obtains b where "bitmask_loop bits = b # bitmask_loop (drop 7 bits)"
    and "\<And>k. k < 7 \<Longrightarrow> bit b k = present_at bits k"
    and "bit b 7 = (drop 7 bits \<noteq> [])"
proof (cases "7 < length bits")
  case True
  show thesis
  proof (rule that)
    show "bitmask_loop bits = or (set_bits 0 (take 7 bits) 0) 0x80 # bitmask_loop (drop 7 bits)"
      using True by (subst bitmask_loop.simps) (auto simp: Let_def)
  qed (use True in \<open>auto simp: bit_or_iff bit_0x80 bit_set_bits present_at_def simp del: bit_numeral_word_iff\<close>)
next
  case False
  show thesis
  proof (rule that)
    show "bitmask_loop bits = set_bits 0 (take 7 bits) 0 # bitmask_loop (drop 7 bits)"
      using False assms by (subst bitmask_loop.simps) (auto simp: Let_def)
  qed (use False in \<open>auto simp: bit_set_bits present_at_def\<close>)
qed

lemma bit_0x7F: "bit (0x7F :: u8) k \<longleftrightarrow> k < 7"
proof -
  have "(0x7F :: u8) = mask 7" by (simp add: mask_eq_exp_minus_1)
  then show ?thesis by (simp only: bit_mask_iff) auto
qed

lemma read_low_bit: "(and (drop_bit k (and b 0x7F)) 1 = (1 :: u8)) = (bit b k \<and> k < 7)"
  by (simp only: read_bit bit_and_iff bit_0x7F)

lemma scan7_Cons:
  "k < 7 \<Longrightarrow> scan7 b (k # ks) slot (cur, ti, found) =
     (if cur = slot then if bit b k then scan7 b ks slot (cur + 1, ti, True) else None
      else scan7 b ks slot (cur + 1, if cur < slot \<and> bit b k then ti + 1 else ti, found))"
  by (simp only: scan7.simps(2) Let_def read_low_bit) simp

lemma scan7_before:
  "slot < c \<Longrightarrow> scan7 b ks slot (c, ti, f) = Some (c + length ks, ti, f)"
  by (induction ks arbitrary: c) (auto simp: scan7.simps(2) Let_def)

lemma scan7_at:
  "list_all (\<lambda>k. k < 7) ks \<Longrightarrow> c \<le> slot \<Longrightarrow>
     scan7 b ks slot (c, ti, f) =
       (if slot < c + length ks then
          if bit b (ks ! (slot - c))
          then Some (c + length ks, ti + length (filter (bit b) (take (slot - c) ks)), True) else None
        else Some (c + length ks, ti + length (filter (bit b) ks), f))"
proof (induction ks arbitrary: c ti)
  case (Cons k ks)
  show ?case
  proof (cases "c = slot")
    case True
    then show ?thesis using Cons.prems scan7_before[of slot "c + 1" b ks ti True]
      by (simp add: scan7_Cons)
  next
    case False
    then obtain d where d: "slot - c = Suc d" "slot - Suc c = d"
      using Cons.prems by (metis Suc_diff_Suc le_neq_implies_less)
    from False Cons.prems have "c < slot" by simp
    then show ?thesis using Cons.prems Cons.IH[of "Suc c" ti] Cons.IH[of "Suc c" "Suc ti"] d
      by (auto simp: scan7_Cons)
  qed
qed simp

lemma filter_bits7:
  assumes "\<And>k. k < 7 \<Longrightarrow> bit b k = present_at bits k" and "i \<le> 7"
  shows "length (filter (bit b) (take i [0..<7])) = rank bits i"
proof -
  have "take i [0..<7] = [0..<i]" using assms(2) by (simp add: take_upt)
  moreover have "filter (bit b) [0..<i] = filter (present_at bits) [0..<i]"
    using assms by (intro filter_cong) auto
  moreover have "length (filter (present_at bits) [0..<i]) = rank bits i"
  proof (induction i)
    case (Suc i)
    then show ?case
      by (cases "i < length bits") (auto simp: rank_def present_at_def take_Suc_conv_app_nth)
  qed (simp add: rank_def)
  ultimately show ?thesis by simp
qed

lemma scan_byte:
  assumes "\<And>k. k < 7 \<Longrightarrow> bit b k = present_at bits k" and "c \<le> slot"
  shows "scan7 b [0..<7] slot (c, ti, False) =
     (if slot < c + 7 then
        if present_at bits (slot - c) then Some (c + 7, ti + rank bits (slot - c), True) else None
      else Some (c + 7, ti + rank bits 7, False))"
proof -
  have n: "[0..<7] ! i = i" if "i < 7" for i :: nat
    using that by simp
  show ?thesis
    using scan7_at[of "[0..<7]" c slot b ti False] assms(2) n[of "slot - c"]
      filter_bits7[OF assms(1), of "slot - c"] filter_bits7[OF assms(1), of 7] assms(1)
    by (auto simp: list_all_iff)
qed

lemma mask_end_at:
  assumes "bit b 7 = (bits \<noteq> [])"
  shows "mask_end (pre @ bitmask_loop bits @ post) b (length pre)
       = Some (length pre + length (bitmask_loop bits))"
  using assms
proof (induction bits arbitrary: b pre rule: bitmask_loop.induct)
  case (1 bits)
  show ?case
  proof (cases "bits = []")
    case True
    then show ?thesis using 1(2) by (simp add: mask_end.simps bitmask_loop.simps byte_high_bit)
  next
    case False
    from bitmask_loop_Cons[OF False] obtain b' where b': "bitmask_loop bits = b' # bitmask_loop (drop 7 bits)"
      "bit b' 7 = (drop 7 bits \<noteq> [])" by metis
    have "mask_end ((pre @ [b']) @ bitmask_loop (drop 7 bits) @ post) b' (length (pre @ [b']))
        = Some (length (pre @ [b']) + length (bitmask_loop (drop 7 bits)))"
      by (rule 1(1)[OF False refl refl b'(2)])
    then show ?thesis using False 1(2) b' by (subst mask_end.simps) (simp add: byte_high_bit get_at_def)
  qed
qed

definition scan_mask :: "u8 list \<Rightarrow> usize \<Rightarrow> usize \<Rightarrow> usize \<times> usize \<times> bool \<Rightarrow> (usize \<times> usize) option" where
  "scan_mask data p slot st =
     Option.bind (find_slot data p slot st) (\<lambda>(b, p, table_idx).
     Option.bind (mask_end data b p) (\<lambda>p'. Some (p', table_idx)))"

lemma scan_mask_at:
  assumes "bits \<noteq> []" and "c \<le> slot"
  shows "scan_mask (pre @ bitmask_loop bits @ post) (length pre) slot (c, ti, False)
       = (if present_at bits (slot - c)
          then Some (length pre + length (bitmask_loop bits), ti + rank bits (slot - c)) else None)"
  using assms
proof (induction bits arbitrary: c ti pre rule: bitmask_loop.induct)
  case (1 bits)
  from bitmask_loop_Cons[OF 1(2)] obtain b where b: "bitmask_loop bits = b # bitmask_loop (drop 7 bits)"
    "\<And>k. k < 7 \<Longrightarrow> bit b k = present_at bits k" "bit b 7 = (drop 7 bits \<noteq> [])" by metis
  let ?data = "pre @ bitmask_loop bits @ post"
  have data: "?data = (pre @ [b]) @ bitmask_loop (drop 7 bits) @ post" by (simp add: b(1))
  have get: "get_at ?data (length pre) = Some b" by (simp add: b(1) get_at_def)
  have me: "mask_end ?data b (length pre + 1) = Some (length pre + length (bitmask_loop bits))"
    using mask_end_at[OF b(3), of "pre @ [b]" post] unfolding data by (simp add: b(1))
  show ?case
  proof (cases "slot < c + 7")
    case True
    then show ?thesis using me 1(3) unfolding scan_mask_def
      by (subst find_slot.simps) (auto simp: get scan_byte[OF b(2)] byte_high_bit)
  next
    case False
    show ?thesis
    proof (cases "drop 7 bits = []")
      case True
      then have "\<not> present_at bits (slot - c)" using False by (auto simp: present_at_def)
      then show ?thesis using False b(3) True 1(3) unfolding scan_mask_def
        by (subst find_slot.simps) (simp add: get scan_byte[OF b(2)] byte_high_bit)
    next
      case nonempty: False
      have "scan_mask ?data (length pre) slot (c, ti, False)
          = scan_mask ((pre @ [b]) @ bitmask_loop (drop 7 bits) @ post) (length (pre @ [b])) slot
              (c + 7, ti + rank bits 7, False)"
        using False b(3) nonempty 1(3) unfolding scan_mask_def data[symmetric]
        by (subst find_slot.simps) (simp add: get scan_byte[OF b(2)] byte_high_bit)
      also have "\<dots> = (if present_at (drop 7 bits) (slot - (c + 7))
          then Some (length (pre @ [b]) + length (bitmask_loop (drop 7 bits)),
                     ti + rank bits 7 + rank (drop 7 bits) (slot - (c + 7))) else None)"
        by (rule 1(1)[OF 1(2) refl refl nonempty]) (use False in simp)
      finally show ?thesis
        using False b(1) present_at_drop[of 7 "slot - c" bits] rank_drop[of 7 "slot - c" bits]
        by (simp add: rank_def)
    qed
  qed
qed

lemma present_at_none: "\<not> present_at (replicate n False) i"
  by (simp add: present_at_def)

lemma scan_mask_bitmask:
  "scan_mask (pre @ build_bitmask_bytes bits @ post) (length pre) slot (0, 0, False)
     = (if present_at bits slot
        then Some (length pre + length (build_bitmask_bytes bits), rank bits slot) else None)"
proof (cases "bits = []")
  case True
  have z: "present_at (replicate 7 False) = (\<lambda>_. False)"
    by (rule ext) (rule Eq_FalseI[OF present_at_none, THEN meta_eq_to_obj_eq])
  have b: "k < 7 \<Longrightarrow> bit (0 :: u8) k = present_at (replicate 7 False) k" for k by (simp add: z)
  show ?thesis unfolding scan_mask_def
    by (subst find_slot.simps)
      (simp add: True build_bitmask_bytes_def get_at_def present_at_def scan_byte[OF b, of 0] z)
next
  case False
  then show ?thesis using scan_mask_at[OF False, of 0 slot pre post 0] by (simp add: build_bitmask_bytes_def)
qed

text \<open>\<open>data.get(a..a + 2)?\<close> keeps the contract of the 16-bit fields too.\<close>

interpretation get_u16c: fixed_codec u16_le "\<lambda>data p. ok_or (get_u16 data p) OutOfBounds" 2
  by unfold_locales (simp_all add: byte_simps seg_at ok_or_def)

lemma get_u16_table:
  assumes "k < length offs" and "p = length xs + k * 2" and "fits (xs @ concat (map u16_le offs) @ ys)"
  shows "get_u16 (xs @ concat (map u16_le offs) @ ys) p = Some (offs ! k)"
  using get_u16c.rd_array[OF assms] by (simp add: ok_or_def split: option.splits)

lemma resolve_slot_v12_scan:
  "resolve_slot_v12 data off slot =
     Option.bind (checked_add off 8) (\<lambda>p0.
     Option.bind (scan_mask data p0 slot (0, 0, False)) (\<lambda>(p', table_idx).
     Option.bind (get_u16 data (p' + table_idx * 2)) (\<lambda>rel. checked_add off (unat rel))))"
  by (cases "checked_add off 8")
    (auto simp: resolve_slot_v12_def scan_mask_def Option.bind_assoc intro!: arg_cong2[where f = Option.bind])

lemma resolve_slot_v12_at:
  assumes "length hdr = 8" and "length offs = length (filter id present)"
    and "fits (pre @ hdr @ build_bitmask_bytes present @ concat (map u16_le offs) @ post)"
  shows "resolve_slot_v12 (pre @ hdr @ build_bitmask_bytes present @ concat (map u16_le offs) @ post)
           (length pre) slot
       = (if slot < length present \<and> present ! slot
          then Some (length pre + unat (offs ! length (filter id (take slot present)))) else None)"
proof -
  let ?m = "build_bitmask_bytes present"
  let ?data = "pre @ hdr @ ?m @ concat (map u16_le offs) @ post"
  have scan: "scan_mask ?data (length pre + 8) slot (0, 0, False)
      = (if present_at present slot then Some (length pre + 8 + length ?m, rank present slot) else None)"
    using scan_mask_bitmask[of "pre @ hdr" present "concat (map u16_le offs) @ post" slot] assms(1) by simp
  have add: "checked_add (length pre) 8 = Some (length pre + 8)"
    "checked_add (length pre) (unat r) = Some (length pre + unat r)" for r :: u16
    using assms(1,3) unsigned_less[of r, where 'a = nat] by (simp_all add: checked_add_def lims)
  show ?thesis
  proof (cases "present_at present slot")
    case True
    then have "get_u16 ?data (length pre + 8 + length ?m + rank present slot * 2) = Some (offs ! rank present slot)"
      using get_u16_table[of "rank present slot" offs _ "pre @ hdr @ ?m" post] rank_less[OF True] assms
      by (simp add: add.assoc)
    with True show ?thesis unfolding resolve_slot_v12_scan
      by (simp add: add scan present_at_def[symmetric] rank_def[symmetric])
  qed (simp add: resolve_slot_v12_scan add scan present_at_def[symmetric])
qed


section \<open>The v1.3 sparse reader\<close>

lemma sparse_bit_at:
  assumes "bits \<noteq> []" and "c \<le> slot"
  shows "sparse_bit (pre @ bitmask_loop bits @ post) (length pre) c slot
       = (if slot - c < (length bits + 6) div 7 * 7 then Some (present_at bits (slot - c)) else None)"
  using assms
proof (induction bits arbitrary: c pre rule: bitmask_loop.induct)
  case (1 bits)
  from bitmask_loop_Cons[OF 1(2)] obtain b where b: "bitmask_loop bits = b # bitmask_loop (drop 7 bits)"
    "\<And>k. k < 7 \<Longrightarrow> bit b k = present_at bits k" "bit b 7 = (drop 7 bits \<noteq> [])" by metis
  let ?data = "pre @ bitmask_loop bits @ post"
  have get: "get_at ?data (length pre) = Some b" by (simp add: b(1) get_at_def)
  have n: "(length bits + 6) div 7 = 1 + (length (drop 7 bits) + 6) div 7"
    using length_bitmask_loop[of bits] length_bitmask_loop[of "drop 7 bits"] by (simp add: b(1))
  show ?case
  proof (cases "slot < c + 7")
    case True
    then have "slot - c < 7" using 1(3) by simp
    with True show ?thesis using 1(3) b(2)[of "slot - c"] n
      by (subst sparse_bit.simps) (simp add: get read_low_bit del: drop_bit_and)
  next
    case False
    show ?thesis
    proof (cases "drop 7 bits = []")
      case True
      then show ?thesis using False b(3) n
        by (subst sparse_bit.simps) (simp add: get byte_high_bit)
    next
      case nonempty: False
      have "sparse_bit ?data (length pre) c slot
          = sparse_bit ((pre @ [b]) @ bitmask_loop (drop 7 bits) @ post) (length (pre @ [b])) (c + 7) slot"
        using False b(3) nonempty get by (subst sparse_bit.simps) (simp add: byte_high_bit b(1))
      also have "\<dots> = (if slot - (c + 7) < (length (drop 7 bits) + 6) div 7 * 7
          then Some (present_at (drop 7 bits) (slot - (c + 7))) else None)"
        by (rule 1(1)[OF 1(2) refl refl nonempty]) (use False in simp)
      finally have step: "sparse_bit ?data (length pre) c slot
        = (if slot - (c + 7) < (length (drop 7 bits) + 6) div 7 * 7
           then Some (present_at (drop 7 bits) (slot - (c + 7))) else None)" .
      obtain d where d: "slot = c + 7 + d" using False by (metis le_Suc_ex not_less)
      show ?thesis using present_at_drop[of 7 "7 + d" bits] n step by (simp add: d)
    qed
  qed
qed

lemma is_bit_set_sparse_at:
  assumes "length hdr = 9"
  shows "is_bit_set_sparse (pre @ hdr @ build_bitmask_bytes bits @ post) (length pre) slot = present_at bits slot"
proof (cases "bits = []")
  case True
  show ?thesis unfolding is_bit_set_sparse_def
    by (subst sparse_bit.simps) (use assms in \<open>auto simp: True build_bitmask_bytes_def get_at_def present_at_def nth_append\<close>)
next
  case False
  have "sparse_bit ((pre @ hdr) @ bitmask_loop bits @ post) (length (pre @ hdr)) 0 slot
     = (if slot < (length bits + 6) div 7 * 7 then Some (present_at bits slot) else None)"
    using sparse_bit_at[OF False, of 0 slot "pre @ hdr"] by simp
  then show ?thesis using assms False
    by (auto simp: is_bit_set_sparse_def build_bitmask_bytes_def present_at_def split: if_splits)
qed

lemma sparse_bitmask_end_loop_at:
  assumes "bits \<noteq> []" and "n = c + length bits"
  shows "sparse_bitmask_end_loop (pre @ bitmask_loop bits @ post) (length pre) c n
       = Some (length pre + length (bitmask_loop bits))"
  using assms
proof (induction bits arbitrary: c pre rule: bitmask_loop.induct)
  case (1 bits)
  from bitmask_loop_Cons[OF 1(2)] obtain b where b: "bitmask_loop bits = b # bitmask_loop (drop 7 bits)"
    "bit b 7 = (drop 7 bits \<noteq> [])" by metis
  show ?case
  proof (cases "length bits \<le> 7")
    case True
    then show ?thesis using b(1) 1(3)
      by (subst sparse_bitmask_end_loop.simps) (simp add: get_at_def bitmask_loop.simps)
  next
    case False
    have "sparse_bitmask_end_loop ((pre @ [b]) @ bitmask_loop (drop 7 bits) @ post) (length (pre @ [b])) (c + 7) n
        = Some (length (pre @ [b]) + length (bitmask_loop (drop 7 bits)))"
      by (rule 1(1)[OF 1(2) refl refl]) (use False 1(3) in simp_all)
    then show ?thesis using False b 1(3)
      by (subst sparse_bitmask_end_loop.simps) (simp add: get_at_def byte_high_bit)
  qed
qed

lemma sparse_bitmask_end_at:
  assumes "length hdr = 9"
  shows "sparse_bitmask_end (pre @ hdr @ build_bitmask_bytes bits @ post) (length pre) (length bits)
       = Some (length pre + 9 + length (build_bitmask_bytes bits))"
proof (cases "bits = []")
  case True
  show ?thesis unfolding sparse_bitmask_end_def
    by (subst sparse_bitmask_end_loop.simps)
      (use assms in \<open>simp add: True build_bitmask_bytes_def get_at_def nth_append\<close>)
next
  case False
  then show ?thesis using sparse_bitmask_end_loop_at[OF False, of "length bits" 0 "pre @ hdr" post] assms
    by (simp add: sparse_bitmask_end_def build_bitmask_bytes_def)
qed

text \<open>The slots of the offset table, as the writer computes them.\<close>

abbreviation table_slots :: "bool list \<Rightarrow> row_plan \<Rightarrow> usize list" where
  "table_slots present plan \<equiv>
     sparse_offset_table_slots (filter (\<lambda>i. present ! i) [0..<length present]) plan"

lemma sparse_present_slots_at:
  assumes "length hdr = 9"
  shows "sparse_present_slots (pre @ hdr @ build_bitmask_bytes bits @ post) (length pre) (length bits)
       = filter (\<lambda>i. bits ! i) [0..<length bits]"
  unfolding sparse_present_slots_def is_bit_set_sparse_at[OF assms]
  by (rule filter_cong) (simp_all add: present_at_def)

theorem resolve_slot_v13_finds:
  assumes "length hdr = 9" and "length present = length (s_keys s)"
    and "length offs = length (table_slots present plan)"
    and "slot < length present" and "\<not> in_bool_word plan slot"
    and "fits (pre @ hdr @ build_bitmask_bytes present @ concat (map u16_le offs) @ post)"
  shows "resolve_slot_v13_sparse (pre @ hdr @ build_bitmask_bytes present @ concat (map u16_le offs) @ post)
           (length pre) slot s plan
       = (if present ! slot
          then map_option (\<lambda>i. length pre + unat (offs ! i)) (position slot (table_slots present plan)) else None)"
proof -
  let ?m = "build_bitmask_bytes present"
  let ?data = "pre @ hdr @ ?m @ concat (map u16_le offs) @ post"
  have rd: "get_u16 ?data (length pre + 9 + length ?m + i * 2) = Some (offs ! i)"
    if "position slot (table_slots present plan) = Some i" for i
    using get_u16_table[of i offs _ "pre @ hdr @ ?m" post] position_Some[OF that] assms
    by (simp add: add.assoc)
  have "is_bit_set_sparse ?data (length pre) slot = present ! slot"
    using is_bit_set_sparse_at[OF assms(1)] assms(4) by (simp add: present_at_def)
  moreover have "sparse_bitmask_end ?data (length pre) (length (s_keys s)) = Some (length pre + 9 + length ?m)"
    using sparse_bitmask_end_at[OF assms(1), of pre present] assms(2) by simp
  moreover have "sparse_present_slots ?data (length pre) (length (s_keys s))
      = filter (\<lambda>i. present ! i) [0..<length present]"
    using sparse_present_slots_at[OF assms(1), of pre present] assms(2) by simp
  ultimately show ?thesis
    using assms(5) rd
    by (cases "position slot (table_slots present plan)") (simp_all add: resolve_slot_v13_sparse_def Let_def)
qed

end
