(* ===== verification/Wire_Order.thy ===== *)
theory Wire_Order
  imports Compact_Record "HOL-Library.Multiset"
begin

text \<open>
  The order of the cells in a reordered dense frame (\<^verbatim>\<open>rust/src/compact.rs\<close>, \<open>dense_wire_order\<close>): fixed
  cells from wide to narrow, then the variable ones.
\<close>

section \<open>The wire order\<close>

lemma mset_insert_by: "mset (insert_by lt x ys) = add_mset x (mset ys)"
  by (induction ys) auto

lemma mset_sort_by: "mset (sort_by lt xs) = mset xs"
  unfolding sort_by_def by (induction xs) (auto simp: mset_insert_by)

lemma sorted_insert_by:
  assumes "\<And>a b c. le a b \<Longrightarrow> le b c \<Longrightarrow> le a c" and "\<And>a b. lt a b \<Longrightarrow> le a b" and "\<And>a b. \<not> lt a b \<Longrightarrow> le b a"
  shows "sorted_wrt le ys \<Longrightarrow> sorted_wrt le (insert_by lt x ys)"
proof (induction ys)
  case (Cons y ys)
  have "set (insert_by lt x ys) = insert x (set ys)"
    using mset_insert_by[of lt x ys] by (metis set_mset_add_mset_insert set_mset_mset)
  with Cons assms show ?case by (auto; blast)
qed simp

lemma sorted_sort_by:
  assumes "\<And>a b c. le a b \<Longrightarrow> le b c \<Longrightarrow> le a c" and "\<And>a b. lt a b \<Longrightarrow> le a b" and "\<And>a b. \<not> lt a b \<Longrightarrow> le b a"
  shows "sorted_wrt le (sort_by lt xs)"
  unfolding sort_by_def by (induction xs) (auto intro: sorted_insert_by[OF assms])

text \<open>A slot that has a cell of its own among the fixed ones.\<close>

definition own_fixed_cell :: "ext_schema \<Rightarrow> row_plan \<Rightarrow> usize \<Rightarrow> bool" where
  "own_fixed_cell s plan fi \<longleftrightarrow>
     \<not> is_var_sigil (s_sigils s ! fi) \<and> (in_bool_word plan fi \<longrightarrow> pl_first_bool plan = Some fi)"

definition wire_width :: "ext_schema \<Rightarrow> row_plan \<Rightarrow> usize \<Rightarrow> usize" where
  "wire_width s plan fi = (case dense_cell_align_width fi s plan of Ok w \<Rightarrow> w | _ \<Rightarrow> 0)"

lemma wire_width_Ok: "fi < length (s_sigils s) \<Longrightarrow> dense_cell_align_width fi s plan = Ok (wire_width s plan fi)"
  by (simp add: wire_width_def dense_cell_align_width_def idx_ok)

lemma wire_width_word: "in_bool_word plan fi \<Longrightarrow> wire_width s plan fi = bool_word_bytes plan"
  by (simp add: wire_width_def dense_cell_align_width_def)

lemma reordered_slots_fold:
  assumes "\<forall>fi \<in> set fis. fi < length (s_sigils s)"
  shows "rfold (\<lambda>fi (fixed, vars).
       rbind (idx (s_sigils s) fi) (\<lambda>sig.
       if is_var_sigil sig then Ok (fixed, vars @ [fi])
       else if in_bool_word plan fi then
         Ok (if pl_first_bool plan = Some fi then fixed @ [(bool_word_bytes plan, fi)] else fixed, vars)
       else rbind (dense_cell_align_width fi s plan) (\<lambda>w. Ok (fixed @ [(w, fi)], vars)))) fis (fixed, vars)
     = Ok (fixed @ map (\<lambda>fi. (wire_width s plan fi, fi)) (filter (own_fixed_cell s plan) fis),
           vars @ filter (\<lambda>fi. is_var_sigil (s_sigils s ! fi)) fis)"
  using assms
  by (induction fis arbitrary: fixed vars)
    (auto simp: idx_ok own_fixed_cell_def wire_width_Ok wire_width_word)

definition wire_le :: "usize \<times> usize \<Rightarrow> usize \<times> usize \<Rightarrow> bool" where
  "wire_le a b \<longleftrightarrow> fst b < fst a \<or> fst a = fst b \<and> snd a \<le> snd b"

text \<open>The fixed part of the order.\<close>

definition fixed_order :: "ext_schema \<Rightarrow> row_plan \<Rightarrow> usize list" where
  "fixed_order s plan = map snd (sort_by wire_before
     (map (\<lambda>fi. (wire_width s plan fi, fi)) (filter (own_fixed_cell s plan) [0..<length (s_keys s)])))"

definition var_order :: "ext_schema \<Rightarrow> usize list" where
  "var_order s = filter (\<lambda>fi. is_var_sigil (s_sigils s ! fi)) [0..<length (s_keys s)]"

lemma reordered_slots_eq:
  "length (s_keys s) \<le> length (s_sigils s) \<Longrightarrow> reordered_slots s plan = Ok (fixed_order s plan @ var_order s)"
  unfolding reordered_slots_def
  by (subst reordered_slots_fold) (auto simp: fixed_order_def var_order_def)

lemma mset_fixed_order:
  "mset (fixed_order s plan) = mset (filter (own_fixed_cell s plan) [0..<length (s_keys s)])"
proof -
  have "mset (fixed_order s plan) = image_mset snd (mset (map (\<lambda>fi. (wire_width s plan fi, fi))
      (filter (own_fixed_cell s plan) [0..<length (s_keys s)])))"
    by (simp only: fixed_order_def mset_map mset_sort_by)
  also have "\<dots> = mset (map snd (map (\<lambda>fi. (wire_width s plan fi, fi))
      (filter (own_fixed_cell s plan) [0..<length (s_keys s)])))" by (simp only: mset_map)
  also have "\<dots> = mset (filter (own_fixed_cell s plan) [0..<length (s_keys s)])" by (simp add: comp_def)
  finally show ?thesis .
qed

lemma fixed_order_set:
  "set (fixed_order s plan) = {fi. fi < length (s_keys s) \<and> own_fixed_cell s plan fi}"
  using mset_eq_setD[OF mset_fixed_order[of s plan]] by auto

lemma distinct_fixed_order: "distinct (fixed_order s plan)"
  using mset_fixed_order[of s plan] by (metis distinct_filter distinct_upt mset_eq_imp_distinct_iff)

lemma sorted_fixed_order:
  "sorted_wrt (\<lambda>a b. wire_le (wire_width s plan a, a) (wire_width s plan b, b)) (fixed_order s plan)"
proof -
  let ?ps = "sort_by wire_before
     (map (\<lambda>fi. (wire_width s plan fi, fi)) (filter (own_fixed_cell s plan) [0..<length (s_keys s)]))"
  have "sorted_wrt wire_le ?ps"
    by (rule sorted_sort_by) (auto simp: wire_le_def wire_before_def)
  moreover have "\<forall>p \<in> set ?ps. p = (wire_width s plan (snd p), snd p)"
    by (auto simp flip: set_mset_mset simp: mset_sort_by)
  ultimately show ?thesis unfolding fixed_order_def sorted_wrt_map
    by (elim sorted_wrt_mono_rel[rotated]) metis
qed

text \<open>
  C26: The wire order of a reordered frame holds every slot once -- of the packed booleans only the first,
  which stands for their common word -- with the fixed cells before the variable ones: the fixed cells
  sorted by falling width and then by slot, the variable ones in schema order.
\<close>

theorem wire_order_sorted:
  assumes "length (s_keys s) \<le> length (s_sigils s)" and "pl_wire_reorder plan"
  shows "\<exists>fixed. dense_wire_order plan s
             = Ok (fixed @ filter (\<lambda>fi. is_var_sigil (s_sigils s ! fi)) [0..<length (s_keys s)])
           \<and> distinct fixed
           \<and> set fixed = {fi. fi < length (s_keys s) \<and> \<not> is_var_sigil (s_sigils s ! fi)
                             \<and> (in_bool_word plan fi \<longrightarrow> pl_first_bool plan = Some fi)}
           \<and> sorted_wrt (\<lambda>a b. wire_width s plan b < wire_width s plan a
                             \<or> wire_width s plan a = wire_width s plan b \<and> a \<le> b) fixed"
  using assms reordered_slots_eq[OF assms(1), of plan] distinct_fixed_order[of s plan]
    fixed_order_set[of s plan] sorted_fixed_order[of s plan]
  by (intro exI[of _ "fixed_order s plan"])
    (simp add: dense_wire_order_def var_order_def own_fixed_cell_def wire_le_def)

theorem wire_order_sorted_witness:
  "\<exists>fixed. dense_wire_order \<lparr>pl_bool_slots = [1, 3], pl_first_bool = Some 1, pl_packed_bools = True, pl_narrow = True,
       pl_dense_allowed = True, pl_wire_reorder = True, pl_fixed_offsets = None, pl_var_start = None\<rparr>
     \<lparr>s_keys = [[1], [2], [3], [4]], s_sigils = [SIGIL_STR, SIGIL_BOOL, SIGIL_INT, SIGIL_BOOL],
      s_widths = [0, 0, 4, 0], s_attrs = [0, 0, 0, 0], s_pool = []\<rparr> = Ok (fixed @ [0])"
  using wire_order_sorted[of "\<lparr>s_keys = [[1], [2], [3], [4]], s_sigils = [SIGIL_STR, SIGIL_BOOL, SIGIL_INT, SIGIL_BOOL],
      s_widths = [0, 0, 4, 0], s_attrs = [0, 0, 0, 0], s_pool = []\<rparr>"
      "\<lparr>pl_bool_slots = [1, 3], pl_first_bool = Some 1, pl_packed_bools = True, pl_narrow = True,
       pl_dense_allowed = True, pl_wire_reorder = True, pl_fixed_offsets = None, pl_var_start = None\<rparr>"]
  by (auto simp: upt_rec is_var_sigil_def SIGIL_STR_def SIGIL_BOOL_def SIGIL_INT_def)

end
