(* ===== verification/Record_Frames.thy ===== *)
theory Record_Frames
  imports Record_Slots Wire_Order
begin

text \<open>
  Record frames are read back: the cells that \<open>append_cell\<close> writes against the positions that the
  readers compute (\<^verbatim>\<open>rust/src/compact.rs\<close>, \<open>encode_compact_record\<close> and \<open>dense_field_offset\<close>).
\<close>

section \<open>Alignment\<close>

text \<open>
  The masking of \<open>align_to\<close> rounds up when the alignment is a power of two, as every width is but
  a word of three, five, six or seven bytes of packed booleans.
\<close>

lemma and_not_mask: "and w (not (mask k)) = (w :: 'a::len word) - take_bit k w"
proof -
  have "and w (not (mask k)) = push_bit k (drop_bit k w)"
    by (rule bit_word_eqI) (auto simp: bit_simps)
  moreover have "push_bit k (drop_bit k w) + take_bit k w = w" by (rule bits_ident)
  ultimately show ?thesis by (metis add_diff_cancel_right')
qed

lemma align_to_pow2:
  assumes "pos < ISIZE_LIM" and "k \<le> 3"
  shows "align_to pos (2 ^ k) = (pos + 2 ^ k - 1) - (pos + 2 ^ k - 1) mod 2 ^ k"
proof -
  let ?q = "pos + 2 ^ k - 1" and ?w = "word_of_nat (pos + 2 ^ k - 1) :: u64"
  have "(2::nat) ^ k \<le> 2 ^ 3" using assms(2) by (intro power_increasing) auto
  then have q: "unat ?w = ?q" using assms(1) by (simp add: unat_of_nat lims)
  have "word_of_nat (2 ^ k - 1) = (mask k :: u64)" by (simp add: mask_eq_exp_minus_1)
  then have "align_to pos (2 ^ k) = unat (?w - take_bit k ?w)"
    by (simp add: align_to_def and_not_mask)
  also have "\<dots> = unat ?w - unat (take_bit k ?w)"
    by (rule unat_sub) (simp add: word_le_nat_alt unsigned_take_bit_eq take_bit_nat_less_eq_self)
  also have "\<dots> = ?q - ?q mod 2 ^ k" by (simp only: unsigned_take_bit_eq q take_bit_nat_def)
  finally show ?thesis .
qed

definition cell_step :: "nat \<Rightarrow> bool" where
  "cell_step m \<longleftrightarrow> m = 1 \<or> m = 2 \<or> m = 4 \<or> m = 8"

lemma cell_stepE: assumes "cell_step m" obtains k where "m = 2 ^ k" "k \<le> 3"
proof -
  have "\<exists>k\<le>3. m = 2 ^ k"
    using assms exI[of "\<lambda>k. k \<le> 3 \<and> m = 2 ^ k" 0] exI[of "\<lambda>k. k \<le> 3 \<and> m = 2 ^ k" 1]
      exI[of "\<lambda>k. k \<le> 3 \<and> m = 2 ^ k" 2] exI[of "\<lambda>k. k \<le> 3 \<and> m = 2 ^ k" 3]
    by (auto simp: cell_step_def)
  then show thesis using that by blast
qed

lemma round_up: "0 < m \<Longrightarrow> (n + m - 1) - (n + m - 1) mod m = n + (m - n mod m) mod (m::nat)"
proof -
  assume m: "0 < m"
  define q r where qr: "q = n div m" "r = n mod m"
  have n: "n = m * q + r" and r: "r < m" using m by (simp_all add: qr)
  show ?thesis
  proof (cases "r = 0")
    case True
    then have "n + m - 1 = m * q + (m - 1)" using m n by simp
    moreover have "(m * q + (m - 1)) mod m = m - 1" using m by (subst mod_mult_self4) simp
    ultimately show ?thesis using True m n by simp
  next
    case False
    then have "n + m - 1 = m * (q + 1) + (r - 1)" using m n by simp
    moreover have "(m * (q + 1) + (r - 1)) mod m = r - 1" using r by (subst mod_mult_self4) simp
    ultimately show ?thesis using False r n by (simp add: qr[symmetric])
  qed
qed

lemma pad_to_align:
  assumes "cell_step m" and "fits body"
  shows "pad_to m body = body @ replicate (align_to (length body) m - length body) 0"
    and "length body \<le> align_to (length body) m"
proof -
  from assms(1) obtain k where k: "m = 2 ^ k" "k \<le> 3" by (rule cell_stepE)
  have "align_to (length body) m = length body + (m - length body mod m) mod m"
    using align_to_pow2[OF assms(2) k(2)] round_up[of m "length body"] by (simp add: k(1))
  then show "pad_to m body = body @ replicate (align_to (length body) m - length body) 0"
    and "length body \<le> align_to (length body) m" by (simp_all add: pad_to_def)
qed

lemma length_pad_to: "cell_step m \<Longrightarrow> fits body \<Longrightarrow> length (pad_to m body) = align_to (length body) m"
  using pad_to_align[of m body] by simp

section \<open>Cells\<close>

definition cell_w :: "ext_schema \<Rightarrow> row_plan \<Rightarrow> usize \<Rightarrow> u8" where
  "cell_w s plan fi = (if pl_narrow plan then cell_width s fi else 8)"

lemma plan_width_cell_w: "plan_width s plan fi = unat (cell_w s plan fi)"
  by (simp add: plan_width_def cell_w_def)

text \<open>
  A cell of the kind its slot declares.  Only strings are promoted, and the eight-byte kinds have no
  declared width, as \<open>build_extended_schema\<close> and its callers leave it.
\<close>

definition typed_cell :: "ext_schema \<Rightarrow> row_plan \<Rightarrow> usize \<Rightarrow> compact_cell \<Rightarrow> bool" where
  "typed_cell s plan fi cell \<longleftrightarrow> fi < length (s_sigils s) \<and> (let sig = s_sigils s ! fi in
     case cell of
       CI64 _ \<Rightarrow> sig = SIGIL_INT \<and> \<not> is_promoted s fi
     | CF64 _ \<Rightarrow> sig = SIGIL_FLOAT \<and> \<not> is_promoted s fi
     | CBool _ \<Rightarrow> sig = SIGIL_BOOL \<and> \<not> is_promoted s fi \<and> \<not> pl_packed_bools plan \<and> plan_width s plan fi = 8
     | CTime _ \<Rightarrow> sig = SIGIL_TIME \<and> \<not> is_promoted s fi \<and> plan_width s plan fi = 8
     | CStr str \<Rightarrow> is_var_sigil sig \<and> length str < 2 ^ 32
     | CKeyword _ \<Rightarrow> sig = SIGIL_KEYWORD
     | CNull \<Rightarrow> False)"

text \<open>What the readers of a cell find at its offset.\<close>

definition cell_reads :: "u8 list \<Rightarrow> usize \<Rightarrow> ext_schema \<Rightarrow> row_plan \<Rightarrow> usize \<Rightarrow> compact_cell \<Rightarrow> bool" where
  "cell_reads data off s plan fi cell =
     (case cell of
        CI64 v \<Rightarrow> decode_int_cell data off (cell_w s plan fi) = Ok v
      | CF64 v \<Rightarrow> decode_f64_cell data off (cell_w s plan fi)
                    = Ok (if cell_w s plan fi = 4 then f64_of_f32 (f32_of_f64 v) else v)
      | CBool v \<Rightarrow> get_at data off = Some (if v then 1 else 0)
      | CTime v \<Rightarrow> cell_u64 data off = Ok v
      | CStr str \<Rightarrow>
          if is_promoted s fi then
            \<exists>i. cell_u16 data off = Ok (word_of_nat i) \<and> position str (s_pool s) = Some i
          else read_str_cell_len data off (str_len_prefix s fi) = Ok (length str)
             \<and> seg data (off + str_len_prefix s fi) (off + str_len_prefix s fi + length str) = str
      | CKeyword i \<Rightarrow> cell_u16 data off = Ok i
      | CNull \<Rightarrow> True)"

text \<open>The offset that both walks give a slot when its cell begins at or behind \<open>pos\<close>.\<close>

definition cell_start :: "ext_schema \<Rightarrow> row_plan \<Rightarrow> usize \<Rightarrow> usize \<Rightarrow> usize" where
  "cell_start s plan fi pos =
     (if is_promoted s fi \<or> s_sigils s ! fi = SIGIL_KEYWORD then align_to pos 2
      else if is_var_sigil (s_sigils s ! fi) then pos
      else align_to pos (plan_width s plan fi))"

lemma encode_int_cell_width:
  "encode_int_cell v w = Ok b \<Longrightarrow> cell_step (unat w) \<and> length b = unat w"
  by (auto simp: encode_int_cell_def cell_step_def split: if_splits)

lemma encode_f64_cell_width:
  "encode_f64_cell v w = Ok b \<Longrightarrow> cell_step (unat w) \<and> length b = unat w"
  by (auto simp: encode_f64_cell_def cell_step_def split: if_splits)

lemma f64_cell_reads:
  "encode_f64_cell v w = Ok b \<Longrightarrow> fits (xs @ b @ ys) \<Longrightarrow>
     decode_f64_cell (xs @ b @ ys) (length xs) w = Ok (if w = 4 then f64_of_f32 (f32_of_f64 v) else v)"
  by (auto simp: encode_f64_cell_def decode_f64_cell_def cell_u32c.rd_enc cell_u64c.rd_enc split: if_splits)

lemmas cell_sigils = SIGIL_INT_def SIGIL_FLOAT_def SIGIL_BOOL_def SIGIL_KEYWORD_def SIGIL_STR_def
  SIGIL_TIME_def SIGIL_NULL_def is_var_sigil_def

lemma align_to_1: "pos < ISIZE_LIM \<Longrightarrow> align_to pos 1 = pos"
  using align_to_pow2[of pos 0] by simp

text \<open>
  One cell: \<open>append_cell\<close> pads to the offset the readers compute and writes bytes that read as the
  cell; a fixed cell takes as many bytes as the readers skip.
\<close>

definition placed :: "ext_schema \<Rightarrow> row_plan \<Rightarrow> usize \<Rightarrow> compact_cell \<Rightarrow> u8 list \<Rightarrow> u8 list \<Rightarrow> bool" where
  "placed s plan fi cell body out \<longleftrightarrow>
     (\<exists>p. out = body @ replicate (cell_start s plan fi (length body) - length body) 0 @ p
        \<and> length body \<le> cell_start s plan fi (length body)
        \<and> (\<forall>xs ys. fits (xs @ p @ ys) \<longrightarrow> cell_reads (xs @ p @ ys) (length xs) s plan fi cell))"

lemma placedI:
  assumes "pad_to m body @ p = out" and "cell_step m" and "fits body"
    and "cell_start s plan fi (length body) = align_to (length body) m"
    and "\<And>xs ys. fits (xs @ p @ ys) \<Longrightarrow> cell_reads (xs @ p @ ys) (length xs) s plan fi cell"
  shows "placed s plan fi cell body out"
  using assms pad_to_align[OF assms(2,3)] unfolding placed_def by (intro exI[of _ p]) auto

lemma append_cell_placed:
  assumes "append_cell body fi cell s plan = Ok out" and "typed_cell s plan fi cell" and "fits body"
  shows "placed s plan fi cell body out"
proof (cases cell)
  case (CI64 v)
  from assms(1) obtain b where b: "encode_int_cell v (cell_w s plan fi) = Ok b"
    "pad_to (unat (cell_w s plan fi)) body @ b = out"
    by (auto simp: CI64 append_cell_def cell_w_def Let_def elim!: rbind_OkE)
  show ?thesis
    by (rule placedI[OF b(2)])
      (use encode_int_cell_width[OF b(1)] assms(2,3) in
        \<open>auto simp: CI64 typed_cell_def cell_start_def cell_sigils plan_width_cell_w cell_reads_def
          intro: int_cell_roundtrip[OF b(1)]\<close>)
next
  case (CF64 v)
  from assms(1) obtain b where b: "encode_f64_cell v (cell_w s plan fi) = Ok b"
    "pad_to (unat (cell_w s plan fi)) body @ b = out"
    by (auto simp: CF64 append_cell_def cell_w_def Let_def elim!: rbind_OkE)
  show ?thesis
    by (rule placedI[OF b(2)])
      (use encode_f64_cell_width[OF b(1)] f64_cell_reads[OF b(1)] assms(2,3) in
        \<open>auto simp: CF64 typed_cell_def cell_start_def cell_sigils plan_width_cell_w cell_reads_def\<close>)
next
  case (CBool v)
  show ?thesis
    by (rule placedI[of 8 _ "(if v then 1 else 0) # replicate 7 0"])
      (use assms in \<open>auto simp: CBool append_cell_def typed_cell_def cell_start_def cell_sigils cell_reads_def
        cell_step_def get_at_def\<close>)
next
  case (CTime v)
  show ?thesis
    by (rule placedI[of 8 _ "u64_le v"])
      (use assms in \<open>auto simp: CTime append_cell_def typed_cell_def cell_start_def cell_sigils cell_reads_def
        cell_step_def cell_u64c.rd_enc\<close>)
next
  case (CKeyword i)
  show ?thesis
    by (rule placedI[of 2 _ "u16_le i"])
      (use assms in \<open>auto simp: CKeyword append_cell_def typed_cell_def cell_start_def cell_sigils cell_reads_def
        cell_step_def cell_u16c.rd_enc\<close>)
next
  case (CStr str)
  show ?thesis
  proof (cases "is_promoted s fi")
    case True
    with assms(1) obtain i where i: "position str (s_pool s) = Some i"
      "pad_to 2 body @ u16_le (word_of_nat i) = out"
      by (auto simp: CStr append_cell_def Let_def ok_or_def split: option.splits elim!: rbind_OkE)
    show ?thesis
      by (rule placedI[OF i(2)])
        (use True assms(2,3) i(1) in \<open>auto simp: CStr cell_start_def cell_reads_def cell_step_def cell_u16c.rd_enc\<close>)
  next
    case False
    let ?pre = "if str_len_prefix s fi = 2 then u16_le (word_of_nat (length str)) else u32_le (word_of_nat (length str))"
    let ?pad = "replicate ((8 - (str_len_prefix s fi + length str) mod 8) mod 8) 0"
    have out: "out = body @ ?pre @ str @ ?pad" and len: "str_len_prefix s fi = 2 \<Longrightarrow> length str \<le> 65535"
      using assms(1) False by (auto simp: CStr append_cell_def Let_def split: if_splits)
    have "read_str_cell_len (xs @ (?pre @ str @ ?pad) @ ys) (length xs) (str_len_prefix s fi) = Ok (length str)
       \<and> seg (xs @ (?pre @ str @ ?pad) @ ys) (length xs + str_len_prefix s fi)
            (length xs + str_len_prefix s fi + length str) = str"
      if "fits (xs @ (?pre @ str @ ?pad) @ ys)" for xs ys
      using that False len assms(2)
      by (auto simp: str_len_prefix_def read_str_cell_len_def u16c.rd_enc u32c.rd_enc lims unat_of_nat
          typed_cell_def CStr seg_def)
    then show ?thesis unfolding placed_def using False assms(2)
      by (intro exI[of _ "?pre @ str @ ?pad"])
        (auto simp: out CStr cell_start_def cell_reads_def typed_cell_def cell_sigils)
  qed
qed (use assms(2) in \<open>simp add: typed_cell_def\<close>)

lemma append_cell_extends: "append_cell body fi cell s plan = Ok out \<Longrightarrow> \<exists>p. out = body @ p"
  by (cases cell) (auto simp: append_cell_def Let_def pad_to_def split: if_splits elim!: rbind_OkE)

lemma append_cell_grows: "append_cell body fi cell s plan = Ok out \<Longrightarrow> length body \<le> length out"
  using append_cell_extends by fastforce

lemma advance_fixed:
  assumes "append_cell body fi cell s plan = Ok out" and "typed_cell s plan fi cell" and "fits body"
    and "\<not> is_var_sigil (s_sigils s ! fi)" and "\<not> in_bool_word plan fi"
  shows "advance_dense_past_cell_fixed (length body) fi s plan = Ok (length out)"
proof -
  have step: "cell_step 8" "cell_step 2" by (simp_all add: cell_step_def)
  show ?thesis
  proof (cases cell)
    case (CI64 v)
    from assms(1) obtain b where b: "encode_int_cell v (cell_w s plan fi) = Ok b"
      "out = pad_to (unat (cell_w s plan fi)) body @ b"
      by (auto simp: CI64 append_cell_def cell_w_def Let_def elim!: rbind_OkE)
    with encode_int_cell_width[OF b(1)] assms(2-5) show ?thesis
      by (simp add: CI64 advance_dense_past_cell_fixed_def typed_cell_def cell_sigils width_arm_def
          plan_width_cell_w idx_ok length_pad_to Let_def)
  next
    case (CF64 v)
    from assms(1) obtain b where b: "encode_f64_cell v (cell_w s plan fi) = Ok b"
      "out = pad_to (unat (cell_w s plan fi)) body @ b"
      by (auto simp: CF64 append_cell_def cell_w_def Let_def elim!: rbind_OkE)
    with encode_f64_cell_width[OF b(1)] assms(2-5) show ?thesis
      by (simp add: CF64 advance_dense_past_cell_fixed_def typed_cell_def cell_sigils width_arm_def
          plan_width_cell_w idx_ok length_pad_to Let_def)
  qed (use assms step in \<open>auto simp: append_cell_def advance_dense_past_cell_fixed_def typed_cell_def cell_sigils
        width_arm_def idx_ok length_pad_to Let_def\<close>)
qed

lemma advance_walk_fixed:
  assumes "\<not> is_var_sigil (s_sigils s ! fi)"
  shows "advance_dense_past_cell data base pos fi s plan = advance_dense_past_cell_fixed pos fi s plan"
  using assms
  by (cases "idx (s_sigils s) fi")
    (auto simp: advance_dense_past_cell_def advance_dense_past_cell_fixed_def Let_def idx_def split: if_splits)

lemma advance_walk_str:
  assumes "append_cell body fi (CStr str) s plan = Ok out" and "typed_cell s plan fi (CStr str)"
    and "\<not> in_bool_word plan fi" and "fits (xs @ out @ ys)"
  shows "advance_dense_past_cell (xs @ out @ ys) (length xs) (length body) fi s plan = Ok (length out)"
proof (cases "is_promoted s fi")
  case True
  with assms(1) obtain i where "pad_to 2 body @ u16_le i = out"
    by (auto simp: append_cell_def Let_def ok_or_def split: option.splits elim!: rbind_OkE)
  then have "out = pad_to 2 body @ u16_le i" by simp
  moreover have "length (pad_to 2 body) = align_to (length body) 2"
    using append_cell_grows[OF assms(1)] assms(4) by (intro length_pad_to) (simp_all add: cell_step_def)
  ultimately show ?thesis using True assms(2-4)
    by (auto simp: advance_dense_past_cell_def typed_cell_def cell_sigils width_arm_def idx_ok Let_def)
next
  case False
  let ?n = "str_len_prefix s fi"
  let ?pad = "replicate ((8 - (?n + length str) mod 8) mod 8) (0::u8)"
  let ?pre = "if ?n = 2 then u16_le (word_of_nat (length str)) else u32_le (word_of_nat (length str))"
  have out: "out = body @ ?pre @ str @ ?pad"
    using assms(1) False by (auto simp: append_cell_def Let_def split: if_splits)
  have n: "?n = 2 \<or> ?n = 4" "length ?pre = ?n" using False by (auto simp: str_len_prefix_def)
  have "fits body" using append_cell_grows[OF assms(1)] assms(4) by simp
  from append_cell_placed[OF assms(1,2) this]
  obtain p where p: "out = body @ replicate (cell_start s plan fi (length body) - length body) 0 @ p"
    "\<And>xs ys. fits (xs @ p @ ys) \<Longrightarrow> cell_reads (xs @ p @ ys) (length xs) s plan fi (CStr str)"
    unfolding placed_def by auto
  have "cell_start s plan fi (length body) = length body"
    using False assms(2) by (auto simp: cell_start_def typed_cell_def cell_sigils)
  with p assms(4) have "cell_reads ((xs @ body) @ p @ ys) (length (xs @ body)) s plan fi (CStr str)"
    by (intro p(2)) simp
  with False have "read_str_cell_len (xs @ out @ ys) (length xs + length body) ?n = Ok (length str)"
    using p(1) \<open>cell_start s plan fi (length body) = length body\<close> by (simp add: cell_reads_def)
  moreover have "length out = advance_past_str_cell (length body) (length str) ?n"
    by (simp add: advance_past_str_cell_def Let_def out n(2))
  moreover have "wadd (length xs) (length body) = length xs + length body"
    "wadd (length xs + length body) ?n = length xs + length body + ?n"
    "length xs + length body + ?n \<le> length (xs @ out @ ys)"
    using assms(4) n by (auto simp: out lims)
  ultimately show ?thesis using False assms(2,3)
    by (auto simp: advance_dense_past_cell_def typed_cell_def cell_sigils width_arm_def idx_ok Let_def)
qed

lemma advance_walk:
  assumes "append_cell body fi cell s plan = Ok out" and "typed_cell s plan fi cell"
    and "\<not> in_bool_word plan fi" and "fits (xs @ out @ ys)"
  shows "advance_dense_past_cell (xs @ out @ ys) (length xs) (length body) fi s plan = Ok (length out)"
proof (cases "is_var_sigil (s_sigils s ! fi)")
  case True
  then obtain str where "cell = CStr str"
    using assms(2) by (cases cell) (auto simp: typed_cell_def cell_sigils)
  with assms show ?thesis using advance_walk_str by blast
next
  case False
  have "length body \<le> length out"
    using append_cell_grows[OF assms(1)] .
  with False assms show ?thesis by (simp add: advance_walk_fixed advance_fixed)
qed

section \<open>Dense frames\<close>

lemma emit_bool_word_Ok:
  assumes "emit_bool_word body w plan = Ok out"
  shows "out = pad_to (bool_word_bytes plan) body @ take (bool_word_bytes plan) (u64_le w)"
    and "bool_word_bytes plan \<le> 8"
  using assms by (auto simp: emit_bool_word_def Let_def slice_def seg_def split: if_splits elim!: rbind_OkE)

lemma advance_bool_word:
  assumes "emit_bool_word body w plan = Ok out" and "cell_step (bool_word_bytes plan)" and "fits body"
  shows "length out = advance_past_bool_word (length body) plan"
  using emit_bool_word_Ok[OF assms(1)] assms(2,3)
  by (simp add: advance_past_bool_word_def Let_def length_pad_to min_def)

lemma encode_dense_loop_extends:
  "encode_dense_loop cells s plan fis body = Ok out \<Longrightarrow> \<exists>p. out = body @ p"
proof (induction fis arbitrary: body)
  case (Cons fi fis)
  have emit: "\<exists>p. b = body @ p" if "emit_bool_word body w plan = Ok b" for w b
    using emit_bool_word_Ok(1)[OF that] by (auto simp: pad_to_def)
  from Cons.prems obtain b where "encode_dense_loop cells s plan fis b = Ok out" and "\<exists>p. b = body @ p"
    by (auto dest: emit append_cell_extends split: if_splits elim!: rbind_OkE)
  with Cons.IH[of b] show ?case by auto
qed simp

text \<open>
  The conditions under which the placement of reader and writer agree: a word of packed booleans of
  one, two, four or eight bytes, and a cell of the declared kind for every other slot.
\<close>

definition plan_ok :: "row_plan \<Rightarrow> bool" where
  "plan_ok plan \<longleftrightarrow>
     (pl_packed_bools plan \<and> pl_bool_slots plan \<noteq> [] \<longrightarrow> cell_step (bool_word_bytes plan))"

definition cells_typed :: "(u16 \<times> compact_cell) list \<Rightarrow> ext_schema \<Rightarrow> row_plan \<Rightarrow> usize set \<Rightarrow> bool" where
  "cells_typed cells s plan fis \<longleftrightarrow>
     (\<forall>fi \<in> fis. \<not> in_bool_word plan fi \<longrightarrow> (\<exists>cell. cell_of cells fi = Some cell \<and> typed_cell s plan fi cell))"

lemma cells_typed_insert:
  "cells_typed cells s plan (insert fi fis) \<longleftrightarrow>
     (\<not> in_bool_word plan fi \<longrightarrow> (\<exists>cell. cell_of cells fi = Some cell \<and> typed_cell s plan fi cell))
   \<and> cells_typed cells s plan fis"
  by (auto simp: cells_typed_def)

lemma in_bool_word_step: "plan_ok plan \<Longrightarrow> in_bool_word plan fi \<Longrightarrow> cell_step (bool_word_bytes plan)"
  by (auto simp: plan_ok_def in_bool_word_def)

text \<open>One turn of the writer's loop, as the readers see it.\<close>

lemma encode_dense_loop_Cons:
  assumes "encode_dense_loop cells s plan (fi # fis) body = Ok out" and "fits out"
  obtains (word) b where "in_bool_word plan fi" "pl_first_bool plan = Some fi"
      "emit_bool_word body (bool_word cells plan (\<lambda>_. True)) plan = Ok b"
      "encode_dense_loop cells s plan fis b = Ok out" "fits body" "\<exists>p. out = b @ p"
  | (skip) "in_bool_word plan fi" "pl_first_bool plan \<noteq> Some fi" "encode_dense_loop cells s plan fis body = Ok out"
  | (cell) c b where "\<not> in_bool_word plan fi" "cell_of cells fi = Some c" "append_cell body fi c s plan = Ok b"
      "encode_dense_loop cells s plan fis b = Ok out" "fits body" "\<exists>p. out = b @ p"
proof -
  have "fits body" using encode_dense_loop_extends[OF assms(1)] assms(2) by auto
  with assms(1) show thesis
    by (cases "in_bool_word plan fi"; cases "pl_first_bool plan = Some fi"; cases "cell_of cells fi")
      (auto elim!: rbind_OkE dest: encode_dense_loop_extends intro: that simp: ok_or_def)
qed

lemma placed_reads:
  assumes "placed s plan fi cell body b" and "fits (xs @ b @ ys)"
  shows "cell_reads (xs @ b @ ys) (length xs + cell_start s plan fi (length body)) s plan fi cell"
proof -
  let ?z = "replicate (cell_start s plan fi (length body) - length body) (0::u8)"
  from assms(1) obtain p where p: "b = body @ ?z @ p" "length body \<le> cell_start s plan fi (length body)"
    "\<And>xs ys. fits (xs @ p @ ys) \<Longrightarrow> cell_reads (xs @ p @ ys) (length xs) s plan fi cell"
    unfolding placed_def by auto
  have "cell_reads ((xs @ body @ ?z) @ p @ ys) (length (xs @ body @ ?z)) s plan fi cell"
    using assms(2) by (intro p(3)) (simp add: p(1))
  then show ?thesis using p(2) by (simp add: p(1))
qed

lemma walk_cells_here:
  assumes "\<not> in_bool_word plan fi" and "fi < length (s_sigils s)"
  shows "walk_cells data base pos fi s plan (fi # fis) = Ok (Some (wadd base (cell_start s plan fi pos)))"
  using assms by (simp add: idx_ok cell_start_def)

lemma placed_start_le: "placed s plan fi cell body b \<Longrightarrow> cell_start s plan fi (length body) \<le> length b"
  by (auto simp: placed_def)

lemma dense_walk:
  assumes "encode_dense_loop cells s plan fis body = Ok out" and "fits (xs @ out @ ys)"
    and "plan_ok plan" and "cells_typed cells s plan (set fis)"
    and "slot \<in> set fis" and "\<not> in_bool_word plan slot"
  shows "\<exists>off. walk_cells (xs @ out @ ys) (length xs) (length body) slot s plan fis = Ok (Some off)
           \<and> cell_reads (xs @ out @ ys) off s plan slot (the (cell_of cells slot))"
  using assms(1,4,5)
proof (induction fis arbitrary: body)
  case (Cons fi fis)
  have "fits out" using assms(2) by simp
  from Cons.prems(1) this show ?case
  proof (cases rule: encode_dense_loop_Cons)
    case (word b)
    then have "slot \<notin> set (pl_bool_slots plan)" "slot \<in> set fis"
      using assms(6) Cons.prems(3) by (auto simp: in_bool_word_def)
    then show ?thesis
      using Cons.IH[OF word(4)] Cons.prems(2) word
        advance_bool_word[OF word(3) in_bool_word_step[OF assms(3) word(1)] word(5)]
      by (simp add: cells_typed_insert)
  next
    case skip
    then have "slot \<in> set fis" using assms(6) Cons.prems(3) by auto
    then show ?thesis using Cons.IH[OF skip(3)] Cons.prems(2) skip by (simp add: cells_typed_insert)
  next
    case (cell c b)
    then have typed: "typed_cell s plan fi c" using Cons.prems(2) by (auto simp: cells_typed_insert)
    then have sig: "fi < length (s_sigils s)" by (simp add: typed_cell_def)
    note pl = append_cell_placed[OF cell(3) typed cell(5)]
    from cell(6) obtain p where out: "out = b @ p" by auto
    show ?thesis
    proof (cases "fi = slot")
      case True
      have "wadd (length xs) (cell_start s plan fi (length body)) = length xs + cell_start s plan fi (length body)"
        using placed_start_le[OF pl] assms(2) by (simp add: out lims)
      then show ?thesis
        using placed_reads[OF pl, of xs "p @ ys"] assms(2) cell(2) walk_cells_here[OF cell(1) sig]
        by (simp add: True[symmetric] out)
    next
      case False
      then have "slot \<in> set fis" using Cons.prems(3) by auto
      then show ?thesis
        using Cons.IH[OF cell(4)] Cons.prems(2) False cell(1) sig
          advance_walk[OF cell(3) typed cell(1), of xs "p @ ys"] assms(2)
        by (simp add: cells_typed_insert idx_ok out)
    qed
  qed
qed simp

text \<open>The word of packed booleans, bit by bit.\<close>

lemma bit_bool_word_loop:
  fixes upd :: "nat \<times> usize \<Rightarrow> u64 \<Rightarrow> u64"
  assumes "n \<le> 64" and "length ss + m = n"
    and upd: "\<And>i x w. upd (i, x) w = (if P x then or w (push_bit (i mod 64) 1) else w)"
  shows "bit (fold upd (zip [m..<n] ss) w) k \<longleftrightarrow> bit w k \<or> m \<le> k \<and> k < n \<and> P (ss ! (k - m))"
  using assms(2)
proof (induction ss arbitrary: m w)
  case (Cons x ss)
  then have m: "m < n" by simp
  then have z: "zip [m..<n] (x # ss) = (m, x) # zip [Suc m..<n] ss" by (simp add: upt_conv_Cons)
  have "bit (upd (m, x) w) k \<longleftrightarrow> bit w k \<or> k = m \<and> P x"
    using m assms(1) by (auto simp: upd bit_or_iff bit_pow)
  moreover have "bit (fold upd (zip [Suc m..<n] ss) (upd (m, x) w)) k
      \<longleftrightarrow> bit (upd (m, x) w) k \<or> Suc m \<le> k \<and> k < n \<and> P (ss ! (k - Suc m))"
    using Cons by simp
  moreover have "(x # ss) ! (k - m) = ss ! (k - Suc m)" if "m < k" using that by (simp add: nth_Cons')
  ultimately show ?case using m unfolding z by (cases "m < k") auto
qed auto

lemma bit_bool_word:
  "length (pl_bool_slots plan) \<le> 64 \<Longrightarrow> k < length (pl_bool_slots plan) \<Longrightarrow>
     bit (bool_word cells plan use) k
       = (use (pl_bool_slots plan ! k) \<and> cell_of cells (pl_bool_slots plan ! k) = Some (CBool True))"
  unfolding bool_word_def
  by (subst bit_bool_word_loop[where P = "\<lambda>bs. use bs \<and> cell_of cells bs = Some (CBool True)"]) auto

lemma le_nat_nth: "j < n \<Longrightarrow> le_nat n x ! j = word_of_nat (x div 256 ^ j)"
proof (induction n arbitrary: x j)
  case (Suc n)
  then show ?case by (cases j) (simp_all add: div_mult2_eq)
qed simp

lemma bit_u64_le: "j < 8 \<Longrightarrow> k < 8 \<Longrightarrow> bit (u64_le w ! j) k = bit w (8 * j + k)"
proof -
  assume a: "j < 8" "k < 8"
  have "(256::nat) ^ j = 2 ^ (8 * j)" by (simp add: power_mult)
  then have "bit (u64_le w ! j) k = bit (unat w div 2 ^ (8 * j)) k"
    using a by (simp add: u64_le_def le_nat_nth bit_of_nat_iff)
  also have "\<dots> = bit (unat w) (8 * j + k)" by (simp add: bit_iff_odd div_mult2_eq power_add)
  also have "\<dots> = bit w (8 * j + k)" using a by (simp add: bit_unsigned_iff)
  finally show ?thesis .
qed


lemma bool_word_bytes_ge:
  "pl_packed_bools plan \<Longrightarrow> i < length (pl_bool_slots plan) \<Longrightarrow> i div 8 < bool_word_bytes plan"
  unfolding bool_word_bytes_def by (cases "pl_bool_slots plan") auto

lemma bool_slots_le: "pl_packed_bools plan \<Longrightarrow> bool_word_bytes plan \<le> 8 \<Longrightarrow> length (pl_bool_slots plan) \<le> 64"
  unfolding bool_word_bytes_def by (auto split: if_splits)

lemma emit_bool_word_bit:
  assumes "emit_bool_word body (bool_word cells plan use) plan = Ok b" and "cell_step (bool_word_bytes plan)"
    and "fits body" and "pl_packed_bools plan" and "position slot (pl_bool_slots plan) = Some i"
  shows "\<exists>x. get_at (xs @ b @ ys) (length xs + (align_to (length body) (bool_word_bytes plan) + i div 8)) = Some x
           \<and> (and (drop_bit (i mod 8) x) 1 = 1) = (use slot \<and> cell_of cells slot = Some (CBool True))"
proof -
  let ?bw = "bool_word_bytes plan" and ?w = "bool_word cells plan use"
  note b = emit_bool_word_Ok[OF assms(1)]
  have i: "i < length (pl_bool_slots plan)" "pl_bool_slots plan ! i = slot"
    using position_Some[OF assms(5)] by auto
  have d: "i div 8 < ?bw" using bool_word_bytes_ge[OF assms(4) i(1)] .
  have "bit (u64_le ?w ! (i div 8)) (i mod 8) = bit ?w (8 * (i div 8) + i mod 8)"
    using d b(2) by (intro bit_u64_le) auto
  also have "\<dots> = (use slot \<and> cell_of cells slot = Some (CBool True))"
    using bit_bool_word[OF bool_slots_le[OF assms(4) b(2)] i(1)] i(2) by simp
  finally have bit: "bit (u64_le ?w ! (i div 8)) (i mod 8) = (use slot \<and> cell_of cells slot = Some (CBool True))" .
  have "get_at (xs @ b @ ys) (length xs + (align_to (length body) ?bw + i div 8)) = Some (u64_le ?w ! (i div 8))"
    using d b by (simp add: get_at_def nth_append length_pad_to[OF assms(2,3)] min_def)
  with bit show ?thesis by (simp add: read_bit)
qed

lemma dense_walk_bool:
  assumes "encode_dense_loop cells s plan fis body = Ok out" and "fits (xs @ out @ ys)"
    and "plan_ok plan" and "cells_typed cells s plan (set fis)"
    and "pl_packed_bools plan" and "pl_first_bool plan = Some f" and "f \<in> set (pl_bool_slots plan)"
    and "f \<in> set fis" and "position slot (pl_bool_slots plan) = Some i"
  shows "\<exists>off x. walk_cells (xs @ out @ ys) (length xs) (length body) slot s plan fis = Ok (Some off)
           \<and> get_at (xs @ out @ ys) off = Some x
           \<and> (and (drop_bit (i mod 8) x) 1 = 1) = (cell_of cells slot = Some (CBool True))"
  using assms(1,4,8)
proof (induction fis arbitrary: body)
  case (Cons fi fis)
  have slot: "slot \<in> set (pl_bool_slots plan)" using position_Some[OF assms(9)] by auto
  have "fits out" using assms(2) by simp
  from Cons.prems(1) this show ?case
  proof (cases rule: encode_dense_loop_Cons)
    case (word b)
    from word(6) obtain p where out: "out = b @ p" by auto
    have step: "cell_step (bool_word_bytes plan)" by (rule in_bool_word_step[OF assms(3) word(1)])
    obtain x where x: "get_at (xs @ b @ p @ ys) (length xs + (align_to (length body) (bool_word_bytes plan) + i div 8)) = Some x"
      "(and (drop_bit (i mod 8) x) 1 = 1) = (cell_of cells slot = Some (CBool True))"
      using emit_bool_word_bit[OF word(3) step word(5) assms(5,9), of xs "p @ ys"] by auto
    moreover from x(1) have "length xs + (align_to (length body) (bool_word_bytes plan) + i div 8) < length (xs @ out @ ys)"
      by (simp add: get_at_def out split: if_splits)
    ultimately show ?thesis using word(1,2) assms(2,6,9) slot by (simp add: out lims)
  next
    case skip
    then have "f \<in> set fis" using Cons.prems(3) assms(6) by auto
    then show ?thesis using Cons.IH[OF skip(3)] Cons.prems(2) skip by (simp add: cells_typed_insert)
  next
    case (cell c b)
    then have typed: "typed_cell s plan fi c" using Cons.prems(2) by (auto simp: cells_typed_insert)
    from cell(6) obtain p where out: "out = b @ p" by auto
    have "fi \<noteq> slot" "fi \<noteq> f" using cell(1) slot assms(5,7) by (auto simp: in_bool_word_def)
    then show ?thesis
      using Cons.IH[OF cell(4)] Cons.prems(2,3) cell(1) typed
        advance_walk[OF cell(3) typed cell(1), of xs "p @ ys"] assms(2)
      by (auto simp: cells_typed_insert idx_ok out typed_cell_def)
  qed
qed simp

section \<open>Precomputed offsets\<close>

lemma length_set_bool_offsets [simp]: "length (set_bool_offsets plan base tab) = length tab"
proof -
  have "length (fold (\<lambda>(i, bs) out. out[bs := Some (base + i div 8)]) zs tab) = length tab" for zs
    by (induction zs arbitrary: tab) auto
  then show ?thesis by (simp add: set_bool_offsets_def)
qed

lemma set_bool_offsets_other:
  "slot \<notin> set (pl_bool_slots plan) \<Longrightarrow> set_bool_offsets plan base tab ! slot = tab ! slot"
proof -
  assume a: "slot \<notin> set (pl_bool_slots plan)"
  have "slot \<notin> snd ` set zs \<Longrightarrow> fold (\<lambda>(i, bs) out. out[bs := Some (base + i div 8)]) zs tab ! slot = tab ! slot" for zs
    by (induction zs arbitrary: tab) auto
  moreover have "slot \<notin> snd ` set (zip [0..<length (pl_bool_slots plan)] (pl_bool_slots plan))"
    using a by (auto dest: set_zip_rightD)
  ultimately show ?thesis by (simp add: set_bool_offsets_def)
qed

lemma set_bool_offsets_slot:
  assumes "position slot (pl_bool_slots plan) = Some i" and "distinct (pl_bool_slots plan)" and "slot < length tab"
  shows "set_bool_offsets plan base tab ! slot = Some (base + i div 8)"
proof -
  have "fold (\<lambda>(i, bs) out. out[bs := Some (base + i div 8)]) (zip [m..<m + length ss] ss) tab ! slot
      = Some (base + (m + k) div 8)"
    if "k < length ss" "ss ! k = slot" "distinct ss" "slot < length tab" for m k ss tab
    using that
  proof (induction ss arbitrary: m k tab)
    case (Cons x ss)
    have z: "zip [m..<m + length (x # ss)] (x # ss) = (m, x) # zip [Suc m..<Suc m + length ss] ss"
      by (simp add: upt_conv_Cons del: upt_Suc)
    show ?case
    proof (cases k)
      case 0
      have "fold (\<lambda>(i, bs) out. out[bs := Some (base + i div 8)]) zs t ! slot = t ! slot"
        if "slot \<notin> snd ` set zs" for zs t
        using that by (induction zs arbitrary: t) auto
      moreover have "slot \<notin> snd ` set (zip [Suc m..<Suc m + length ss] ss)"
        using Cons.prems 0 by (auto dest: set_zip_rightD)
      ultimately show ?thesis using Cons.prems 0 unfolding z by (simp del: upt_Suc)
    next
      case (Suc k')
      then show ?thesis using Cons.IH[of k' "tab[x := Some (base + m div 8)]" "Suc m"] Cons.prems
        unfolding z by (simp del: upt_Suc)
    qed
  qed simp
  from this[of i "pl_bool_slots plan" tab 0] show ?thesis
    using assms position_Some[OF assms(1)] by (simp add: set_bool_offsets_def)
qed

lemma fixed_offsets_loop_Cons:
  assumes "fixed_offsets_loop s plan (fi # fis) pos tab = Ok (tab', vs)"
  obtains (word) "in_bool_word plan fi" "pl_first_bool plan = Some fi"
      "fixed_offsets_loop s plan fis (advance_past_bool_word pos plan)
         (set_bool_offsets plan (align_to pos (bool_word_bytes plan)) tab) = Ok (tab', vs)"
  | (skip) "in_bool_word plan fi" "pl_first_bool plan \<noteq> Some fi"
      "fixed_offsets_loop s plan fis pos tab = Ok (tab', vs)"
  | (var) "\<not> in_bool_word plan fi" "is_var_sigil (s_sigils s ! fi)" "tab' = tab" "vs = Some pos"
  | (cell) pos' where "\<not> in_bool_word plan fi" "\<not> is_var_sigil (s_sigils s ! fi)"
      "advance_dense_past_cell_fixed pos fi s plan = Ok pos'"
      "fixed_offsets_loop s plan fis pos' (tab[fi := Some (cell_start s plan fi pos)]) = Ok (tab', vs)"
proof (cases "in_bool_word plan fi")
  case True
  then show thesis using assms that(1,2)
    by (auto simp: Let_def advance_past_bool_word_def split: if_splits)
next
  case False
  with assms have "fi < length (s_sigils s)" by (auto simp: idx_def split: if_splits)
  with False assms show thesis using that(3,4)
    by (auto simp: idx_ok Let_def cell_start_def split: if_splits elim!: rbind_OkE)
qed

text \<open>The table keeps what it holds for a slot that the rest of the loop does not reach.\<close>

lemma fixed_offsets_loop_keeps:
  assumes "fixed_offsets_loop s plan fis pos tab = Ok (tab', vs)"
    and "if in_bool_word plan slot then pl_first_bool plan = Some f \<and> f \<notin> set fis
         else slot \<notin> set fis \<or> is_var_sigil (s_sigils s ! slot)"
  shows "tab' ! slot = tab ! slot"
  using assms
proof (induction fis arbitrary: pos tab)
  case (Cons fi fis)
  from Cons.prems(1) show ?case
  proof (cases rule: fixed_offsets_loop_Cons)
    case word
    then have "slot \<notin> set (pl_bool_slots plan)"
      using Cons.prems(2) by (auto simp: in_bool_word_def split: if_splits)
    then show ?thesis using Cons.IH[OF word(3)] Cons.prems(2) by (auto simp: set_bool_offsets_other split: if_splits)
  next
    case skip
    then show ?thesis using Cons.IH[OF skip(3)] Cons.prems(2) by (auto split: if_splits)
  next
    case (cell pos')
    then have "fi \<noteq> slot" using Cons.prems(2) by (auto split: if_splits)
    then show ?thesis using Cons.IH[OF cell(4)] Cons.prems(2) by (auto split: if_splits)
  qed simp
qed simp

lemma length_fixed_offsets_loop:
  "fixed_offsets_loop s plan fis pos tab = Ok (tab', vs) \<Longrightarrow> length tab' = length tab"
proof (induction fis arbitrary: pos tab)
  case (Cons fi fis)
  from Cons.prems show ?case
    by (cases rule: fixed_offsets_loop_Cons) (auto dest: Cons.IH)
qed simp

lemma fixed_offsets_find:
  assumes "fixed_offsets_loop s plan fis (length body) tab = Ok (tab', vs)"
    and "encode_dense_loop cells s plan fis body = Ok out" and "fits (xs @ out @ ys)"
    and "plan_ok plan" and "cells_typed cells s plan (set fis)" and "distinct fis"
    and "slot \<in> set fis" and "slot < length tab" and "\<not> in_bool_word plan slot"
    and "\<not> is_var_sigil (s_sigils s ! slot)"
    and "fis = fx @ vr" and "\<forall>v \<in> set vr. is_var_sigil (s_sigils s ! v)"
    and "\<forall>v \<in> set fx. \<not> is_var_sigil (s_sigils s ! v)"
  shows "\<exists>off. tab' ! slot = Some off
           \<and> cell_reads (xs @ out @ ys) (length xs + off) s plan slot (the (cell_of cells slot))
           \<and> length xs + off \<le> length (xs @ out @ ys)"
  using assms(1,2,5-8,11-13)
proof (induction fis arbitrary: body tab fx)
  case (Cons fi fis)
  have "fi \<in> set fx" using Cons.prems(5,7,8,9) assms(10) by (cases fx) auto
  then obtain fx' where fx: "fx = fi # fx'" "fis = fx' @ vr" using Cons.prems(7) by (cases fx) auto
  have nv: "\<not> is_var_sigil (s_sigils s ! fi)" using fx Cons.prems(9) by simp
  have typed': "cells_typed cells s plan (set fis)" using Cons.prems(3) by (simp add: cells_typed_insert)
  note IH = Cons.IH[OF _ _ typed' _ _ _ fx(2) Cons.prems(8)]
  have "fits out" using assms(3) by simp
  from Cons.prems(2) this show ?case
  proof (cases rule: encode_dense_loop_Cons)
    case (word b)
    have len: "length b = advance_past_bool_word (length body) plan"
      by (rule advance_bool_word[OF word(3) in_bool_word_step[OF assms(4) word(1)] word(5)])
    from Cons.prems(1) word(1,2) len have loop: "fixed_offsets_loop s plan fis (length b)
         (set_bool_offsets plan (align_to (length body) (bool_word_bytes plan)) tab) = Ok (tab', vs)"
      by (cases rule: fixed_offsets_loop_Cons) auto
    show ?thesis using Cons.prems(4-6) word(1) fx assms(9) Cons.prems(9) by (intro IH[OF loop word(4)]) auto
  next
    case skip
    with Cons.prems(1) have "fixed_offsets_loop s plan fis (length body) tab = Ok (tab', vs)"
      by (cases rule: fixed_offsets_loop_Cons) auto
    then show ?thesis using Cons.prems(4-6) skip(1) fx assms(9) Cons.prems(9) by (intro IH[OF _ skip(3)]) auto
  next
    case (cell c b)
    then have typed: "typed_cell s plan fi c" using Cons.prems(3) by (auto simp: cells_typed_insert)
    from cell(6) obtain p where out: "out = b @ p" by auto
    note pl = append_cell_placed[OF cell(3) typed cell(5)]
    from Cons.prems(1) cell(1) nv advance_fixed[OF cell(3) typed cell(5) nv cell(1)]
    have loop: "fixed_offsets_loop s plan fis (length b) (tab[fi := Some (cell_start s plan fi (length body))]) = Ok (tab', vs)"
      by (cases rule: fixed_offsets_loop_Cons) auto
    show ?thesis
    proof (cases "fi = slot")
      case True
      have "tab' ! slot = tab[fi := Some (cell_start s plan fi (length body))] ! slot"
        using fixed_offsets_loop_keeps[OF loop, of slot 0] Cons.prems(4) assms(9) True by auto
      then show ?thesis
        using placed_reads[OF pl, of xs "p @ ys"] placed_start_le[OF pl] assms(3) cell(2) Cons.prems(6)
        by (simp add: True out)
    next
      case False
      then show ?thesis using Cons.prems(4-6) fx Cons.prems(9) by (intro IH[OF loop cell(4)]) auto
    qed
  qed
qed simp


lemma fixed_offsets_find_bool:
  assumes "fixed_offsets_loop s plan fis (length body) tab = Ok (tab', vs)"
    and "encode_dense_loop cells s plan fis body = Ok out" and "fits (xs @ out @ ys)"
    and "plan_ok plan" and "cells_typed cells s plan (set fis)" and "distinct fis" and "slot < length tab"
    and "fis = fx @ vr" and "\<forall>v \<in> set vr. is_var_sigil (s_sigils s ! v)"
    and "\<forall>v \<in> set fx. \<not> is_var_sigil (s_sigils s ! v)"
    and "pl_packed_bools plan" and "pl_first_bool plan = Some f" and "f \<in> set (pl_bool_slots plan)"
    and "f \<in> set fx" and "position slot (pl_bool_slots plan) = Some i" and "distinct (pl_bool_slots plan)"
  shows "\<exists>off x. tab' ! slot = Some off \<and> get_at (xs @ out @ ys) (length xs + off) = Some x
           \<and> (and (drop_bit (i mod 8) x) 1 = 1) = (cell_of cells slot = Some (CBool True))"
  using assms(1,2,5-10,14)
proof (induction fis arbitrary: body tab fx)
  case (Cons fi fis)
  have slot: "slot \<in> set (pl_bool_slots plan)" "in_bool_word plan slot"
    using position_Some[OF assms(15)] assms(11) by (auto simp: in_bool_word_def)
  from Cons.prems(9) obtain x where "x \<in> set fx" by auto
  then obtain fx' where fx: "fx = fi # fx'" "fis = fx' @ vr" using Cons.prems(6) by (cases fx) auto
  have nv: "\<not> is_var_sigil (s_sigils s ! fi)" using fx Cons.prems(8) by simp
  have typed': "cells_typed cells s plan (set fis)" using Cons.prems(3) by (simp add: cells_typed_insert)
  note IH = Cons.IH[OF _ _ typed' _ _ fx(2) Cons.prems(7)]
  have "fits out" using assms(3) by simp
  from Cons.prems(2) this show ?case
  proof (cases rule: encode_dense_loop_Cons)
    case (word b)
    have step: "cell_step (bool_word_bytes plan)" by (rule in_bool_word_step[OF assms(4) word(1)])
    let ?base = "align_to (length body) (bool_word_bytes plan)"
    from word(6) obtain p where out: "out = b @ p" by auto
    from Cons.prems(1) word(1,2) have loop: "fixed_offsets_loop s plan fis
        (advance_past_bool_word (length body) plan) (set_bool_offsets plan ?base tab) = Ok (tab', vs)"
      by (cases rule: fixed_offsets_loop_Cons) auto
    have "tab' ! slot = set_bool_offsets plan ?base tab ! slot"
      using fixed_offsets_loop_keeps[OF loop, of slot f] assms(12) word(2) Cons.prems(4) slot by auto
    also have "\<dots> = Some (?base + i div 8)"
      by (rule set_bool_offsets_slot[OF assms(15,16) Cons.prems(5)])
    finally show ?thesis
      using emit_bool_word_bit[OF word(3) step word(5) assms(11,15), of xs "p @ ys"] by (auto simp: out)
  next
    case skip
    with Cons.prems(1) have loop: "fixed_offsets_loop s plan fis (length body) tab = Ok (tab', vs)"
      by (cases rule: fixed_offsets_loop_Cons) auto
    show ?thesis using Cons.prems(4,5,8,9) skip(2) fx assms(12) by (intro IH[OF loop skip(3)]) auto
  next
    case (cell c b)
    then have typed: "typed_cell s plan fi c" using Cons.prems(3) by (auto simp: cells_typed_insert)
    from Cons.prems(1) cell(1) nv advance_fixed[OF cell(3) typed cell(5) nv cell(1)]
    have loop: "fixed_offsets_loop s plan fis (length b) (tab[fi := Some (cell_start s plan fi (length body))]) = Ok (tab', vs)"
      by (cases rule: fixed_offsets_loop_Cons) auto
    have "fi \<noteq> f" using cell(1) assms(11,13) by (auto simp: in_bool_word_def)
    then show ?thesis using Cons.prems(4,5,8,9) fx by (intro IH[OF loop cell(4)]) auto
  qed
qed (use assms(8,14) in auto)

text \<open>The tail of variable cells, walked from the precomputed start.\<close>

lemma walk_var_tail_skips:
  "\<forall>fi \<in> set fx. fi < length (s_sigils s) \<and> \<not> is_var_sigil (s_sigils s ! fi) \<Longrightarrow>
     walk_var_tail data base pos slot s plan (fx @ vr) = walk_var_tail data base pos slot s plan vr"
  by (induction fx) (auto simp: idx_ok)

lemma walk_var_tail_find:
  assumes "encode_dense_loop cells s plan vr body = Ok out" and "fits (xs @ out @ ys)"
    and "cells_typed cells s plan (set vr)" and "slot \<in> set vr"
    and "\<forall>v \<in> set vr. v < length (s_sigils s) \<and> is_var_sigil (s_sigils s ! v) \<and> \<not> in_bool_word plan v"
    and "\<not> is_promoted s slot"
  shows "\<exists>off. walk_var_tail (xs @ out @ ys) (length xs) (length body) slot s plan vr = Ok (Some off)
           \<and> cell_reads (xs @ out @ ys) off s plan slot (the (cell_of cells slot))"
  using assms(1,3-5)
proof (induction vr arbitrary: body)
  case (Cons fi vr)
  have "fits out" using assms(2) by simp
  from Cons.prems(1) this show ?case
  proof (cases rule: encode_dense_loop_Cons)
    case (cell c b)
    then have typed: "typed_cell s plan fi c" using Cons.prems(2) by (auto simp: cells_typed_insert)
    note pl = append_cell_placed[OF cell(3) typed cell(5)]
    from cell(6) obtain p where out: "out = b @ p" by auto
    show ?thesis
    proof (cases "fi = slot")
      case True
      then have "cell_start s plan fi (length body) = length body"
        using Cons.prems(4) assms(6) by (auto simp: cell_start_def cell_sigils)
      then show ?thesis
        using placed_reads[OF pl, of xs "p @ ys"] placed_start_le[OF pl] assms(2) cell(2) Cons.prems(4)
        by (simp add: True[symmetric] out idx_ok lims)
    next
      case False
      then show ?thesis
        using Cons.IH[OF cell(4)] Cons.prems(2-4) False cell(1)
          advance_walk[OF cell(3) typed cell(1), of xs "p @ ys"] assms(2)
        by (auto simp: cells_typed_insert idx_ok out)
    qed
  qed (use Cons.prems(4) in auto)
qed simp

lemma fixed_offsets_var_start:
  assumes "fixed_offsets_loop s plan fis (length body) tab = Ok (tab', vs)"
    and "encode_dense_loop cells s plan fis body = Ok out" and "fits out"
    and "plan_ok plan" and "cells_typed cells s plan (set fis)" and "fis = fx @ vr"
    and "\<forall>v \<in> set vr. is_var_sigil (s_sigils s ! v) \<and> \<not> in_bool_word plan v" and "vr \<noteq> []"
    and "\<forall>v \<in> set fx. \<not> is_var_sigil (s_sigils s ! v)"
  shows "\<exists>body'. vs = Some (length body') \<and> encode_dense_loop cells s plan vr body' = Ok out"
  using assms(1,2,5,6,9)
proof (induction fis arbitrary: body tab fx)
  case (Cons fi fis)
  show ?case
  proof (cases fx)
    case Nil
    then have "fi \<in> set vr" "vr = fi # fis" using Cons.prems(4) by (cases vr, auto)
    with Cons.prems(1) assms(7) have "vs = Some (length body)" by (cases rule: fixed_offsets_loop_Cons) auto
    then show ?thesis using Cons.prems(2) \<open>vr = fi # fis\<close> by auto
  next
    case (Cons x fx')
    with Cons.prems(4) have fx: "fx = fi # fx'" "fis = fx' @ vr" by auto
    have nv: "\<not> is_var_sigil (s_sigils s ! fi)" using fx Cons.prems(5) by simp
    have typed': "cells_typed cells s plan (set fis)" using Cons.prems(3) by (simp add: cells_typed_insert)
    note IH = Cons.IH[OF _ _ typed' fx(2)]
    from Cons.prems(2) assms(3) show ?thesis
    proof (cases rule: encode_dense_loop_Cons)
      case (word b)
      have "length b = advance_past_bool_word (length body) plan"
        by (rule advance_bool_word[OF word(3) in_bool_word_step[OF assms(4) word(1)] word(5)])
      from Cons.prems(1) word(1,2) this have loop: "fixed_offsets_loop s plan fis (length b)
          (set_bool_offsets plan (align_to (length body) (bool_word_bytes plan)) tab) = Ok (tab', vs)"
        by (cases rule: fixed_offsets_loop_Cons) auto
      show ?thesis using Cons.prems(5) fx by (intro IH[OF loop word(4)]) auto
    next
      case skip
      with Cons.prems(1) have loop: "fixed_offsets_loop s plan fis (length body) tab = Ok (tab', vs)"
        by (cases rule: fixed_offsets_loop_Cons) auto
      show ?thesis using Cons.prems(5) fx by (intro IH[OF loop skip(3)]) auto
    next
      case (cell c b)
      then have typed: "typed_cell s plan fi c" using Cons.prems(3) by (auto simp: cells_typed_insert)
      from Cons.prems(1) cell(1) nv advance_fixed[OF cell(3) typed cell(5) nv cell(1)]
      have loop: "fixed_offsets_loop s plan fis (length b) (tab[fi := Some (cell_start s plan fi (length body))]) = Ok (tab', vs)"
        by (cases rule: fixed_offsets_loop_Cons) auto
      show ?thesis using Cons.prems(5) fx by (intro IH[OF loop cell(4)]) auto
    qed
  qed
qed (use assms(6,8) in auto)

end
