(* ===== verification/Writer_Records.thy ===== *)
theory Writer_Records
  imports Writer Record_Frames
begin

text \<open>
  Records of a plain writer are read back: the mask, the offset table and the values that
  \<open>begin_object\<close>, the typed writes and \<open>end_object\<close> leave in the buffer (\<^verbatim>\<open>rust/src/writer.rs\<close>).
\<close>

section \<open>The mask\<close>

definition set_mask_bit :: "usize \<Rightarrow> u8 list \<Rightarrow> u8 list" where
  "set_mask_bit i bs = bs[i div 7 := or (bs ! (i div 7)) (push_bit (i mod 7) 1)]"

lemma length_set_mask_bit [simp]: "length (set_mask_bit i bs) = length bs"
  by (simp add: set_mask_bit_def)

lemma bit_set_mask_bit:
  "j < length bs \<Longrightarrow> bit (set_mask_bit i bs ! j) k \<longleftrightarrow> bit (bs ! j) k \<or> j = i div 7 \<and> k = i mod 7"
proof -
  assume j: "j < length bs"
  have "bit (push_bit (i mod 7) (1 :: u8)) k \<longleftrightarrow> k = i mod 7"
    using mod_less_divisor[of 7 i] by (auto simp: bit_pow)
  with j show ?thesis by (cases "j = i div 7") (simp_all add: set_mask_bit_def bit_or_iff del: push_bit_of_1)
qed

lemma bit_fold_mask:
  "j < length bs \<Longrightarrow>
     bit (fold set_mask_bit is bs ! j) k \<longleftrightarrow> bit (bs ! j) k \<or> (\<exists>i \<in> set is. j = i div 7 \<and> k = i mod 7)"
  by (induction "is" arbitrary: bs) (auto simp: bit_set_mask_bit)

lemma length_fold_mask [simp]: "length (fold set_mask_bit is bs) = length bs"
  by (induction "is" arbitrary: bs) auto

lemma bitmask_loop_nth:
  "j < (length bits + 6) div 7 \<Longrightarrow>
     (k < 7 \<longrightarrow> bit (bitmask_loop bits ! j) k = present_at bits (7 * j + k))
   \<and> bit (bitmask_loop bits ! j) 7 = (7 * (j + 1) < length bits)"
proof (induction bits arbitrary: j rule: bitmask_loop.induct)
  case (1 bits)
  have ne: "bits \<noteq> []" using 1(2) by auto
  from bitmask_loop_Cons[OF ne] obtain b where b: "bitmask_loop bits = b # bitmask_loop (drop 7 bits)"
    "\<And>k. k < 7 \<Longrightarrow> bit b k = present_at bits k" "bit b 7 = (drop 7 bits \<noteq> [])" by metis
  have n: "(length bits + 6) div 7 = 1 + (length (drop 7 bits) + 6) div 7"
    using length_bitmask_loop[of bits] length_bitmask_loop[of "drop 7 bits"] by (simp add: b(1))
  show ?case
  proof (cases j)
    case 0
    then show ?thesis using b by auto
  next
    case (Suc i)
    have "i < (length (drop 7 bits) + 6) div 7" using 1(2) n Suc by simp
    from 1(1)[OF ne refl refl this] show ?thesis
      using present_at_drop[of 7 "7 + (7 * i + k)" bits] by (auto simp: Suc b(1) add.assoc)
  qed
qed

lemma mask_of_slots:
  assumes "0 < n" and "\<forall>i \<in> set is. i < n"
  shows "fold set_mask_bit is (empty_mask (max ((n + 6) div 7) 1)) = build_bitmask_bytes (map (\<lambda>i. i \<in> set is) [0..<n])"
proof -
  define K where "K = (n + 6) div 7"
  have K: "1 \<le> K" using assms(1) by (simp add: K_def)
  have em: "length (empty_mask K) = K" "j < K \<Longrightarrow> bit (empty_mask K ! j) k \<longleftrightarrow> k = 7 \<and> j < K - 1" for j k
    using K by (auto simp: empty_mask_def nth_append bit_0x80 simp del: bit_numeral_word_iff)
  let ?bits = "map (\<lambda>i. i \<in> set is) [0..<n]"
  have "fold set_mask_bit is (empty_mask K) = bitmask_loop ?bits"
  proof (rule nth_equalityI)
    show "length (fold set_mask_bit is (empty_mask K)) = length (bitmask_loop ?bits)"
      using em(1) by (simp add: length_bitmask_loop) (simp add: K_def)
    fix j assume "j < length (fold set_mask_bit is (empty_mask K))"
    then have j1: "j < K" using em(1) by simp
    then have j: "j < K" "j < (length ?bits + 6) div 7" by (simp_all add: K_def)
    note nth = bitmask_loop_nth[OF j(2)]
    show "fold set_mask_bit is (empty_mask K) ! j = bitmask_loop ?bits ! j"
    proof (rule bit_word_eqI)
      fix k assume "k < LENGTH(8)"
      then have "k < 8" by simp
      have set: "bit (fold set_mask_bit is (empty_mask K) ! j) k
          \<longleftrightarrow> k = 7 \<and> j < K - 1 \<or> (\<exists>i \<in> set is. j = i div 7 \<and> k = i mod 7)"
        using bit_fold_mask[of j "empty_mask K" "is" k] em j(1) by simp
      show "bit (fold set_mask_bit is (empty_mask K) ! j) k = bit (bitmask_loop ?bits ! j) k"
      proof (cases "k = 7")
        case True
        have "i mod 7 \<noteq> 7" for i :: nat using mod_less_divisor[of 7 i] by auto
        moreover have "j < K - 1 \<longleftrightarrow> 7 * (j + 1) < n" using j(1) by (auto simp: K_def)
        ultimately show ?thesis using nth set True by auto
      next
        case False
        then have k: "k < 7" using \<open>k < 8\<close> by simp
        have "(\<exists>i \<in> set is. j = i div 7 \<and> k = i mod 7) \<longleftrightarrow> 7 * j + k \<in> set is"
        proof
          assume "\<exists>i \<in> set is. j = i div 7 \<and> k = i mod 7"
          then show "7 * j + k \<in> set is" by auto
        next
          assume "7 * j + k \<in> set is"
          then show "\<exists>i \<in> set is. j = i div 7 \<and> k = i mod 7"
            using k by (intro bexI[of _ "7 * j + k"]) auto
        qed
        then show ?thesis using nth[THEN conjunct1] k set False assms(2) by (auto simp: present_at_def)
      qed
    qed
  qed
  moreover have "?bits \<noteq> []" using assms(1) by simp
  ultimately show ?thesis using K by (simp add: build_bitmask_bytes_def K_def max_def)
qed


section \<open>Writing fields\<close>

text \<open>The typed writes as one operation on values, and the bytes each value takes.\<close>

datatype wr_value =
    WInt i64 | WFloat f64 | WBool bool | WTime i64 | WNull | WStr rstring | WBytes "u8 list"
  | WInts "i64 list" | WFloats "f64 list"

fun write_value :: "u16 \<Rightarrow> wr_value \<Rightarrow> nxs_writer \<Rightarrow> nxs_writer res" where
  "write_value slot (WInt v) = write_i64 slot v"
| "write_value slot (WFloat v) = write_f64 slot v"
| "write_value slot (WBool v) = write_bool slot v"
| "write_value slot (WTime v) = write_time slot v"
| "write_value slot WNull = write_null slot"
| "write_value slot (WStr v) = write_str slot v"
| "write_value slot (WBytes v) = write_bytes slot v"
| "write_value slot (WInts v) = write_list_i64 slot v"
| "write_value slot (WFloats v) = write_list_f64 slot v"

fun value_bytes :: "wr_value \<Rightarrow> u8 list" where
  "value_bytes (WInt v) = u64_le v"
| "value_bytes (WFloat v) = u64_le v"
| "value_bytes (WBool v) = (if v then 1 else 0) # replicate 7 0"
| "value_bytes (WTime v) = u64_le v"
| "value_bytes WNull = replicate 8 0"
| "value_bytes (WStr v) = prefixed_bytes v"
| "value_bytes (WBytes v) = prefixed_bytes v"
| "value_bytes (WInts v) = list64_bytes SIGIL_INT v"
| "value_bytes (WFloats v) = list64_bytes SIGIL_FLOAT v"

definition write_values :: "(u16 \<times> wr_value) list \<Rightarrow> nxs_writer \<Rightarrow> nxs_writer res" where
  "write_values fs = rfold (\<lambda>(slot, v). write_value slot v) fs"

definition write_record :: "(u16 \<times> wr_value) list \<Rightarrow> nxs_writer \<Rightarrow> nxs_writer res" where
  "write_record fs w = rbind (write_values fs (begin_object w)) end_object"

lemma pad_to_8: "8 dvd n + (8 - n mod 8) mod (8 :: nat)"
  using round_up[of 8 n] by (metis dvd_minus_mod zero_less_numeral)

lemma prefixed_bytes_dvd: "8 dvd length (prefixed_bytes bs)"
  using pad_to_8[of "4 + length bs"] by (simp add: prefixed_bytes_def add.assoc)

lemma value_bytes_dvd: "8 dvd length (value_bytes v)"
  by (cases v) (auto simp: prefixed_bytes_dvd list64_bytes_def u64c.length_array)

text \<open>
  The part of a writer's state that the layout of an object depends on.  The sigils and the statistics
  that a write also updates are left out.
\<close>

definition plain_step :: "nxs_writer \<Rightarrow> nxs_writer \<Rightarrow> bool" where
  "plain_step w w' \<longleftrightarrow> w_schema w' = w_schema w \<and> w_compact w' = w_compact w
     \<and> w_record_offsets w' = w_record_offsets w \<and> w_pending w' = w_pending w
     \<and> length (w_slot_sigils w') = length (w_slot_sigils w)"

lemma noted [simp]:
  "w_buf (writer_mark_sigil slot g w) = w_buf w" "w_frames (writer_mark_sigil slot g w) = w_frames w"
  "w_compact (writer_mark_sigil slot g w) = w_compact w"
  "w_buf (note_int slot v w) = w_buf w" "w_frames (note_int slot v w) = w_frames w"
  "w_compact (note_int slot v w) = w_compact w"
  "w_buf (note_str slot t w) = w_buf w" "w_frames (note_str slot t w) = w_frames w"
  "w_compact (note_str slot t w) = w_compact w"
  by (simp_all add: writer_mark_sigil_def note_int_def note_str_def Let_def)

lemma plain_step_noted:
  "plain_step w0 w \<Longrightarrow> plain_step w0 (writer_mark_sigil slot g w)"
  "plain_step w0 w \<Longrightarrow> plain_step w0 (note_int slot v w)"
  "plain_step w0 w \<Longrightarrow> plain_step w0 (note_str slot t w)"
  by (simp_all add: plain_step_def writer_mark_sigil_def note_int_def note_str_def Let_def)

definition frame_marked :: "usize \<Rightarrow> u16 \<Rightarrow> frame \<Rightarrow> frame" where
  "frame_marked len slot fr =
     fr\<lparr>f_bitmask := set_mask_bit (unat slot) (f_bitmask fr),
       f_needs_sort := f_needs_sort fr \<or> int (unat slot) < f_last_slot fr, f_last_slot := int (unat slot),
       f_offset_table := f_offset_table fr @ [word_of_nat (len - f_start fr)],
       f_slot_offsets := f_slot_offsets fr @ [(slot, word_of_nat len)]\<rparr>"

lemma write_plain_eq:
  assumes "w_frames w = fr # frs" and "unat slot div 7 < length (f_bitmask fr)"
  shows "write_plain slot bs w
       = Ok (w\<lparr>w_frames := frame_marked (length (w_buf w)) slot fr # frs, w_buf := w_buf w @ bs\<rparr>)"
  using assms by (simp add: write_plain_def mark_slot_def idx_ok Let_def frame_marked_def set_mask_bit_def)

lemma write_value_plain:
  assumes "w_compact w = None" and "w_frames w = fr # frs" and "unat slot div 7 < length (f_bitmask fr)"
  shows "\<exists>w'. write_value slot v w = Ok w' \<and> plain_step w w' \<and> w_buf w' = w_buf w @ value_bytes v
           \<and> w_frames w' = frame_marked (length (w_buf w)) slot fr # frs"
proof -
  have "\<exists>u. write_value slot v w = write_plain slot (value_bytes v) u \<and> plain_step w u \<and> w_buf u = w_buf w
      \<and> w_frames u = w_frames w"
  proof -
    have "plain_step w w" by (simp add: plain_step_def)
    note steps = plain_step_noted[OF this] plain_step_noted(2,3)[OF plain_step_noted(1)[OF this]]
    show ?thesis
      by (cases v) (auto simp: write_i64_def write_f64_def write_bool_def write_time_def write_null_def
          write_str_def write_bytes_def write_list_i64_def write_list_f64_def write_cell_def assms(1) intro: steps)
  qed
  then show ?thesis using assms(2,3) by (auto simp: write_plain_eq plain_step_def)
qed

primrec starts :: "nat \<Rightarrow> (u16 \<times> wr_value) list \<Rightarrow> nat list" where
  "starts p [] = []"
| "starts p (f # fs) = p # starts (p + length (value_bytes (snd f))) fs"

primrec mark_all :: "nat \<Rightarrow> (u16 \<times> wr_value) list \<Rightarrow> frame \<Rightarrow> frame" where
  "mark_all p [] fr = fr"
| "mark_all p (f # fs) fr = mark_all (p + length (value_bytes (snd f))) fs (frame_marked p (fst f) fr)"

abbreviation all_bytes :: "(u16 \<times> wr_value) list \<Rightarrow> u8 list" where
  "all_bytes fs \<equiv> concat (map (\<lambda>f. value_bytes (snd f)) fs)"

abbreviation slots_of :: "(u16 \<times> wr_value) list \<Rightarrow> nat list" where
  "slots_of fs \<equiv> map (\<lambda>f. unat (fst f)) fs"

lemma plain_step_trans: "plain_step a b \<Longrightarrow> plain_step b c \<Longrightarrow> plain_step a c"
  by (simp add: plain_step_def)

lemma write_values_plain:
  assumes "w_compact w = None" and "w_frames w = fr # frs"
    and "\<forall>i \<in> set (slots_of fs). i div 7 < length (f_bitmask fr)"
  shows "\<exists>w'. write_values fs w = Ok w' \<and> plain_step w w' \<and> w_buf w' = w_buf w @ all_bytes fs
           \<and> w_frames w' = mark_all (length (w_buf w)) fs fr # frs"
  using assms
proof (induction fs arbitrary: w fr)
  case Nil
  then show ?case by (simp add: write_values_def plain_step_def)
next
  case (Cons f fs)
  from Cons.prems write_value_plain[OF Cons.prems(1,2), of "fst f" "snd f"] obtain u where u:
    "write_value (fst f) (snd f) w = Ok u" "plain_step w u" "w_buf u = w_buf w @ value_bytes (snd f)"
    "w_frames u = frame_marked (length (w_buf w)) (fst f) fr # frs" by auto
  have "w_compact u = None" using u(2) Cons.prems(1) by (simp add: plain_step_def)
  from Cons.IH[OF this u(4)] Cons.prems(3) obtain w' where w':
    "write_values fs u = Ok w'" "plain_step u w'" "w_buf w' = w_buf u @ all_bytes fs"
    "w_frames w' = mark_all (length (w_buf u)) fs (frame_marked (length (w_buf w)) (fst f) fr) # frs"
    by (auto simp: frame_marked_def)
  then show ?case using u plain_step_trans[OF u(2) w'(2)]
    by (cases f) (auto simp: write_values_def)
qed

lemma mark_all_fields:
  "f_start (mark_all p fs fr) = f_start fr"
  "f_bitmask (mark_all p fs fr) = fold set_mask_bit (slots_of fs) (f_bitmask fr)"
  "f_offset_table (mark_all p fs fr)
     = f_offset_table fr @ map (\<lambda>q. word_of_nat (q - f_start fr)) (starts p fs)"
  "f_slot_offsets (mark_all p fs fr) = f_slot_offsets fr @ zip (map fst fs) (map word_of_nat (starts p fs))"
  by (induction fs arbitrary: p fr) (simp_all add: frame_marked_def)

lemma unat_le_uint: "unat a \<le> unat b \<longleftrightarrow> uint a \<le> uint (b :: 'a::len word)"
  by (simp only: uint_nat of_nat_le_iff)

lemma mark_all_sorted:
  "\<not> f_needs_sort (mark_all p fs fr) \<Longrightarrow>
     \<not> f_needs_sort fr \<and> sorted (slots_of fs) \<and> (fs \<noteq> [] \<longrightarrow> f_last_slot fr \<le> int (unat (fst (hd fs))))"
proof (induction fs arbitrary: p fr)
  case (Cons f fs)
  have "\<not> f_needs_sort (frame_marked p (fst f) fr)" and s: "sorted (slots_of fs)"
    and l: "fs \<noteq> [] \<longrightarrow> unat (fst f) \<le> unat (fst (hd fs))"
    using Cons.IH[of "p + length (value_bytes (snd f))" "frame_marked p (fst f) fr"] Cons.prems
    by (simp_all add: frame_marked_def unat_le_uint)
  moreover have "sorted (slots_of (f # fs))" using s l by (cases fs) auto
  ultimately show ?case by (simp add: frame_marked_def)
qed simp

lemma length_starts [simp]: "length (starts p fs) = length fs"
  by (induction fs arbitrary: p) auto

lemma starts_shift: "starts (a + p) fs = map ((+) a) (starts p fs)"
  by (induction fs arbitrary: p) (auto simp: add.assoc)

lemma starts_le: "q \<in> set (starts p fs) \<Longrightarrow> p \<le> q \<and> q \<le> p + length (all_bytes fs)"
  by (induction fs arbitrary: p) fastforce+

lemma map_zip: "map (\<lambda>p. (f (fst p), g (snd p))) (zip xs ys) = zip (map f xs) (map g ys)"
  by (induction xs arbitrary: ys) (auto simp: zip_Cons1 split: list.splits)

text \<open>A list of pairs with increasing keys, by its keys.\<close>

lemma sorted_pairs_eq:
  assumes "sorted (map fst ps)" and "distinct (map fst ps)" and "\<forall>p \<in> set ps. fst p < (n :: nat)"
  shows "ps = map (\<lambda>k. (k, the (map_of ps k))) (filter (\<lambda>k. k \<in> fst ` set ps) [0..<n])"
proof -
  have "map fst ps = filter (\<lambda>k. k \<in> fst ` set ps) [0..<n]"
    by (rule sorted_distinct_set_unique) (use assms in \<open>auto simp: sorted_filter[of id, simplified]\<close>)
  moreover have "map (\<lambda>k. (k, the (map_of ps k))) (map fst ps) = ps"
    using assms(2) by (auto simp: comp_def intro!: map_idI)
  ultimately show ?thesis by simp
qed

definition slot_table :: "nat \<Rightarrow> nat \<Rightarrow> (u16 \<times> wr_value) list \<Rightarrow> u16 list" where
  "slot_table n hl fs = map (\<lambda>k. word_of_nat (the (map_of (zip (slots_of fs) (starts hl fs)) k)))
     (filter (\<lambda>k. k \<in> set (slots_of fs)) [0..<n])"

lemma slot_table_alt:
  "slot_table n hl fs = map word_of_nat (map (\<lambda>k. the (map_of (zip (slots_of fs) (starts hl fs)) k))
     (filter (\<lambda>k. k \<in> set (slots_of fs)) [0..<n]))"
  by (simp add: slot_table_def comp_def)

lemma table_entries_eq:
  assumes "\<forall>k \<in> set (slots_of fs). k < n" and "distinct (map fst fs)"
    and "f_start fr + hl + length (all_bytes fs) < 2 ^ 32"
    and "fr = mark_all (f_start fr0 + hl) fs fr0" and "f_offset_table fr0 = []" and "f_slot_offsets fr0 = []"
  shows "table_entries fr = slot_table n hl fs"
proof -
  let ?ps = "zip (slots_of fs) (starts hl fs)"
  have st: "f_start fr = f_start fr0" using assms(4) mark_all_fields(1) by simp
  have d: "distinct (slots_of fs)"
    using assms(2) by (auto simp: distinct_map inj_on_def word_unat_eq_iff)
  have keys: "fst ` set ?ps = set (slots_of fs)"
    by (metis length_map length_starts map_fst_zip set_map)
  have kn: "\<forall>p \<in> set ?ps. fst p < n" using assms(1) unfolding keys[symmetric] by auto
  have mp: "map fst ?ps = slots_of fs" by simp
  show ?thesis
  proof (cases "f_needs_sort fr")
    case False
    then have "sorted (slots_of fs)" using mark_all_sorted assms(4) by auto
    then have "?ps = map (\<lambda>k. (k, the (map_of ?ps k))) (filter (\<lambda>k. k \<in> fst ` set ?ps) [0..<n])"
      using d kn by (intro sorted_pairs_eq) (simp_all only: mp)
    then have "map snd ?ps = map (\<lambda>k. the (map_of ?ps k)) (filter (\<lambda>k. k \<in> set (slots_of fs)) [0..<n])"
      unfolding keys by (metis (no_types, lifting) map_map comp_apply snd_conv map_eq_conv)
    then have eq: "starts hl fs = map (\<lambda>k. the (map_of ?ps k)) (filter (\<lambda>k. k \<in> set (slots_of fs)) [0..<n])" by simp
    have "table_entries fr = map word_of_nat (starts hl fs)"
      using False assms(4,5) st by (simp add: table_entries_def mark_all_fields starts_shift comp_def)
    then show ?thesis by (simp only: slot_table_alt eq[symmetric])
  next
    case True
    let ?qs = "zip (map fst fs) (map (word_of_nat :: nat \<Rightarrow> u32) (starts (f_start fr0 + hl) fs))"
    let ?sort = "sort_by (\<lambda>a b. fst a < fst b) ?qs"
    let ?rel = "\<lambda>p :: u16 \<times> u32. (unat (fst p), unat (snd p) - f_start fr0)"
    have qs: "map ?rel ?qs = ?ps"
    proof -
      have "map (\<lambda>q. unat (word_of_nat q :: u32) - f_start fr0) (starts (f_start fr0 + hl) fs)
          = map (\<lambda>q. q) (starts hl fs)"
        unfolding starts_shift map_map
      proof (rule map_cong[OF refl])
        fix q assume "q \<in> set (starts hl fs)"
        then have "f_start fr0 + q < 2 ^ 32" using starts_le[of q hl fs] assms(3) st by simp
        then show "((\<lambda>q. unat (word_of_nat q :: u32) - f_start fr0) \<circ> (+) (f_start fr0)) q = q"
          by (simp add: unat_of_nat del: of_nat_add)
      qed
      moreover have "map ?rel ?qs = zip (map unat (map fst fs))
          (map (\<lambda>q. unat q - f_start fr0) (map (word_of_nat :: nat \<Rightarrow> u32) (starts (f_start fr0 + hl) fs)))"
        by (rule map_zip)
      ultimately show ?thesis by (simp add: comp_def)
    qed
    have ms: "mset ?sort = mset ?qs" by (rule mset_sort_by)
    have srt: "sorted_wrt (\<lambda>a b. fst a \<le> fst b) ?sort" by (rule sorted_sort_by) auto
    have "set (map ?rel ?sort) = set (map ?rel ?qs)" using mset_eq_setD[OF ms] by (simp only: set_map)
    then have set_eq: "set (map ?rel ?sort) = set ?ps" by (simp only: qs)
    have "mset (map fst (map ?rel ?sort)) = mset (map fst (map ?rel ?qs))" by (simp only: mset_map ms)
    then have meq: "mset (map fst (map ?rel ?sort)) = mset (map fst ?ps)" by (simp only: qs)
    have "distinct (map fst ?ps)" using d by (simp only: mp)
    then have dist: "distinct (map fst (map ?rel ?sort))" by (rule iffD2[OF mset_eq_imp_distinct_iff[OF meq]])
    have mo: "map_of (map ?rel ?sort) = map_of ?ps"
      using map_of_inject_set[OF dist, of ?ps] d set_eq by simp
    have so: "sorted (map fst (map ?rel ?sort))"
      using srt by (simp add: sorted_wrt_map comp_def word_le_nat_alt)
    have "\<forall>p \<in> set (map ?rel ?sort). fst p < n" unfolding set_eq by (rule kn)
    from sorted_pairs_eq[OF so dist this]
    have "map ?rel ?sort = map (\<lambda>k. (k, the (map_of ?ps k))) (filter (\<lambda>k. k \<in> set (slots_of fs)) [0..<n])"
      by (simp only: mo set_eq keys)
    from arg_cong[OF this, of "map snd"]
    have snds: "map (\<lambda>p. unat (snd p) - f_start fr0) ?sort
        = map (\<lambda>k. the (map_of ?ps k)) (filter (\<lambda>k. k \<in> set (slots_of fs)) [0..<n])"
      by (simp only: map_map comp_def snd_conv)
    have "word_of_int (uint (snd p) - int (f_start fr0)) = (word_of_nat (unat (snd p) - f_start fr0) :: u16)"
      if "p \<in> set ?sort" for p
    proof -
      have "snd p \<in> set (map (word_of_nat :: nat \<Rightarrow> u32) (starts (f_start fr0 + hl) fs))"
        using that mset_eq_setD[OF ms] by (metis prod.collapse set_zip_rightD)
      then obtain q where "q \<in> set (starts (f_start fr0 + hl) fs)" "snd p = word_of_nat q" by auto
      then have "f_start fr0 \<le> unat (snd p)"
        using starts_le[of q] assms(3) st by (fastforce simp: unat_of_nat)
      then have "uint (snd p) - int (f_start fr0) = int (unat (snd p) - f_start fr0)" by (simp add: of_nat_diff)
      then show ?thesis by simp
    qed
    then have "table_entries fr = map word_of_nat (map (\<lambda>p. unat (snd p) - f_start fr0) ?sort)"
      using True assms(4,6) st by (simp add: table_entries_def mark_all_fields comp_def case_prod_unfold)
    then show ?thesis by (simp only: snds slot_table_alt)
  qed
qed


section \<open>Closing an object\<close>

lemma patch_here: "length b = length b' \<Longrightarrow> p = length a \<Longrightarrow> patch p b' (a @ b @ c) = Ok (a @ b' @ c)"
  by (simp add: patch_def)

lemma patch_table_here:
  "length b = length offs * 2 \<Longrightarrow> p = length a \<Longrightarrow> patch_table p offs (a @ b @ c) = Ok (a @ concat (map u16_le offs) @ c)"
proof (induction offs arbitrary: a b p)
  case (Cons off offs)
  have b: "b = take 2 b @ drop 2 b" and l: "length (take 2 b) = 2" using Cons.prems by simp_all
  have "patch p (u16_le off) (a @ take 2 b @ drop 2 b @ c) = Ok (a @ u16_le off @ drop 2 b @ c)"
    by (rule patch_here) (use l Cons.prems in simp_all)
  then have "patch p (u16_le off) (a @ b @ c) = Ok ((a @ u16_le off) @ drop 2 b @ c)"
    using b by (metis append_assoc)
  moreover have "patch_table (p + 2) offs ((a @ u16_le off) @ drop 2 b @ c)
      = Ok ((a @ u16_le off) @ concat (map u16_le offs) @ c)"
    by (rule Cons.IH) (use Cons.prems in simp_all)
  ultimately show ?case by simp
qed simp

text \<open>The bytes of a finished object over \<open>n\<close> keys; \<open>head_len\<close> is where its values begin.\<close>

definition head_len :: "nat \<Rightarrow> nat" where
  "head_len n = align8 (8 + max ((n + 6) div 7) 1 + n * 2)"

definition writer_object :: "nat \<Rightarrow> (u16 \<times> wr_value) list \<Rightarrow> u8 list" where
  "writer_object n fs =
     (let m = build_bitmask_bytes (map (\<lambda>i. i \<in> set (slots_of fs)) [0..<n]) in
      u32_le MAGIC_OBJ @ u32_le (word_of_nat (head_len n + length (all_bytes fs))) @ m
        @ concat (map u16_le (slot_table n (head_len n) fs))
        @ replicate (head_len n - (8 + length m + length fs * 2)) 0 @ all_bytes fs)"

lemma length_slot_table:
  assumes "\<forall>k \<in> set (slots_of fs). k < n" and "distinct (map fst fs)"
  shows "length (slot_table n hl fs) = length fs"
proof -
  have d: "distinct (slots_of fs)"
    using assms(2) by (auto simp: distinct_map inj_on_def word_unat_eq_iff)
  have "set (filter (\<lambda>k. k \<in> set (slots_of fs)) [0..<n]) = set (slots_of fs)" using assms(1) by auto
  then have "length (filter (\<lambda>k. k \<in> set (slots_of fs)) [0..<n]) = length (slots_of fs)"
    using d by (metis distinct_card distinct_filter distinct_upt)
  then show ?thesis by (simp add: slot_table_def)
qed

lemma write_record_object:
  assumes "w_compact w = None" and "w_schema w = new_schema keys" and "keys \<noteq> []"
    and "\<forall>k \<in> set (slots_of fs). k < length keys" and "distinct (map fst fs)"
    and "length (w_buf w) + head_len (length keys) + length (all_bytes fs) < 2 ^ 32"
  shows "\<exists>w'. write_record fs w = Ok w' \<and> w_buf w' = w_buf w @ writer_object (length keys) fs
     \<and> w_frames w' = w_frames w \<and> w_schema w' = w_schema w \<and> w_compact w' = None \<and> w_pending w' = w_pending w
     \<and> length (w_slot_sigils w') = length (w_slot_sigils w)
     \<and> w_record_offsets w' = w_record_offsets w @ (if w_frames w = [] then [word_of_nat (length (w_buf w))] else [])"
proof -
  let ?n = "length keys" and ?start = "length (w_buf w)"
  define K where "K = max ((?n + 6) div 7) 1"
  define pad where "pad = head_len ?n - (8 + K + ?n * 2)"
  let ?bits = "empty_mask K"
  let ?head = "u32_le MAGIC_OBJ @ u32_le 0 @ ?bits @ replicate (?n * 2) 0"
  have bl: "length ?bits = K" by (simp add: empty_mask_def K_def)
  have K: "max ((?n + 6) div 7) (Suc 0) = K" by (simp add: K_def)
  have hn: "head_len ?n = align8 (8 + K + ?n * 2)" by (simp add: head_len_def K)
  have hl: "head_len ?n = 8 + K + ?n * 2 + pad" using align8_ge[of "8 + K + ?n * 2"] by (simp add: pad_def hn)
  have hp: "pad8 ?head = ?head @ replicate pad 0" by (simp add: pad8_def pad_def hn bl add.assoc)
  let ?fr = "frame_at ?start ?bits"
  obtain u where u: "begin_object w = u" "w_compact u = None" "w_buf u = w_buf w @ ?head @ replicate pad 0"
    "w_frames u = ?fr # w_frames w" "w_schema u = w_schema w" "w_pending u = w_pending w"
    "w_slot_sigils u = w_slot_sigils w"
    "w_record_offsets u = w_record_offsets w @ (if w_frames w = [] then [word_of_nat ?start] else [])"
    using assms(1,2) hp by (simp add: begin_object_def new_schema_def Let_def K)
  have "\<forall>i \<in> set (slots_of fs). i div 7 < length (f_bitmask ?fr)"
  proof
    fix i assume "i \<in> set (slots_of fs)"
    then have "i < ?n" using assms(4) by blast
    then have "(i + 7) div 7 \<le> (?n + 6) div 7" by (intro div_le_mono) simp
    then have "i div 7 < (?n + 6) div 7" by simp
    moreover have "length (f_bitmask ?fr) = K" using bl by (simp add: frame_at_def)
    ultimately show "i div 7 < length (f_bitmask ?fr)" by (simp add: K_def)
  qed
  from write_values_plain[OF u(2,4) this] obtain v where v: "write_values fs u = Ok v" "plain_step u v"
    "w_buf v = w_buf u @ all_bytes fs" "w_frames v = mark_all (length (w_buf u)) fs ?fr # w_frames w" by auto
  let ?fr' = "mark_all (length (w_buf u)) fs ?fr"
  have lu: "length (w_buf u) = ?start + head_len ?n" using u(3) bl hl by simp
  have start: "f_start ?fr' = ?start" by (simp add: mark_all_fields frame_at_def)
  define m where "m = build_bitmask_bytes (map (\<lambda>i. i \<in> set (slots_of fs)) [0..<?n])"
  have mask: "f_bitmask ?fr' = m"
    using mask_of_slots[of ?n "slots_of fs"] assms(3,4) by (simp add: mark_all_fields frame_at_def K_def m_def)
  then have ml: "length m = K" using mark_all_fields(2)[of "length (w_buf u)" fs ?fr] bl by (simp add: frame_at_def)
  define tab where "tab = slot_table ?n (head_len ?n) fs"
  have tl: "length tab = length fs" unfolding tab_def by (rule length_slot_table[OF assms(4,5)])
  have tab: "table_entries ?fr' = tab" unfolding tab_def
    by (rule table_entries_eq[OF assms(4,5), of _ _ "frame_at ?start ?bits"])
      (use assms(6) start in \<open>simp_all add: lu frame_at_def\<close>)
  have used: "length (f_offset_table ?fr') = length fs" by (simp add: mark_all_fields frame_at_def)
  have le: "length fs \<le> ?n"
  proof -
    have "length (filter (\<lambda>k. k \<in> set (slots_of fs)) [0..<?n]) \<le> ?n"
      using length_filter_le[of _ "[0..<?n]"] by simp
    then show ?thesis using tl by (simp add: tab_def slot_table_def)
  qed
  let ?rest = "replicate pad 0 @ all_bytes fs"
  have buf: "w_buf v = (w_buf w @ u32_le MAGIC_OBJ) @ u32_le 0 @ (?bits @ replicate (?n * 2) 0 @ ?rest)"
    using v(3) u(3) by simp
  have total: "length (w_buf v) - ?start = head_len ?n + length (all_bytes fs)" using v(3) lu by simp
  let ?len = "u32_le (word_of_nat (head_len ?n + length (all_bytes fs)))"
  have p1: "patch (?start + 4) ?len (w_buf v)
      = Ok ((w_buf w @ u32_le MAGIC_OBJ) @ ?len @ (?bits @ replicate (?n * 2) 0 @ ?rest))"
    unfolding buf by (rule patch_here) simp_all
  have p2: "patch (?start + 8) m ((w_buf w @ u32_le MAGIC_OBJ) @ ?len @ (?bits @ replicate (?n * 2) 0 @ ?rest))
      = Ok ((w_buf w @ u32_le MAGIC_OBJ @ ?len) @ m @ (replicate (?n * 2) 0 @ ?rest))"
    using patch_here[of ?bits m "?start + 8" "w_buf w @ u32_le MAGIC_OBJ @ ?len"] bl ml by simp
  have z: "replicate (?n * 2) (0::u8) = replicate (length fs * 2) 0 @ replicate (?n * 2 - length fs * 2) 0"
    using le by (simp add: replicate_add[symmetric])
  have p3: "patch_table (?start + 8 + length m) tab ((w_buf w @ u32_le MAGIC_OBJ @ ?len) @ m @ (replicate (?n * 2) 0 @ ?rest))
      = Ok ((w_buf w @ u32_le MAGIC_OBJ @ ?len @ m) @ concat (map u16_le tab) @ (replicate (?n * 2 - length fs * 2) 0 @ ?rest))"
    using patch_table_here[of "replicate (length fs * 2) 0" tab "?start + 8 + length m" "w_buf w @ u32_le MAGIC_OBJ @ ?len @ m"]
      tl unfolding z by simp
  let ?final = "(w_buf w @ u32_le MAGIC_OBJ @ ?len @ m @ concat (map u16_le tab)) @ replicate (?n * 2 - length fs * 2) 0 @ ?rest"
  have p4: "(if length fs * 2 < ?n * 2 then patch (?start + 8 + length m + length fs * 2) (replicate (?n * 2 - length fs * 2) 0)
        ((w_buf w @ u32_le MAGIC_OBJ @ ?len @ m) @ concat (map u16_le tab) @ (replicate (?n * 2 - length fs * 2) 0 @ ?rest))
      else Ok ((w_buf w @ u32_le MAGIC_OBJ @ ?len @ m) @ concat (map u16_le tab) @ (replicate (?n * 2 - length fs * 2) 0 @ ?rest)))
      = Ok ?final"
    using patch_here[of "replicate (?n * 2 - length fs * 2) 0" "replicate (?n * 2 - length fs * 2) 0"
        "?start + 8 + length m + length fs * 2" "w_buf w @ u32_le MAGIC_OBJ @ ?len @ m @ concat (map u16_le tab)" ?rest]
      tl by (simp add: u16c.length_array)
  have eo: "end_object v = rbind (patch (?start + 4) ?len (w_buf v)) (\<lambda>buf. rbind (patch (?start + 8) m buf) (\<lambda>buf.
      rbind (patch_table (?start + 8 + length m) tab buf) (\<lambda>buf.
      rbind (if length fs * 2 < ?n * 2 then patch (?start + 8 + length m + length fs * 2)
               (replicate (?n * 2 - length fs * 2) 0) buf else Ok buf) (\<lambda>buf.
      Ok (v\<lparr>w_frames := w_frames w, w_buf := buf\<rparr>)))))"
    using v(2,4) u(2,5) assms(2)
    by (simp add: end_object_def plain_step_def start mask tab used total Let_def new_schema_def)
  have "end_object v = Ok (v\<lparr>w_frames := w_frames w, w_buf := ?final\<rparr>)"
    by (simp only: eo p1 p2 p3 p4 rbind.simps)
  moreover have "?final = w_buf w @ writer_object ?n fs"
  proof -
    have "replicate (?n * 2 - length fs * 2) (0::u8) @ replicate pad 0
        = replicate (head_len ?n - (8 + length m + length fs * 2)) 0"
      using hl le ml by (simp add: replicate_add[symmetric])
    then show ?thesis unfolding writer_object_def Let_def m_def[symmetric] tab_def[symmetric] by simp
  qed
  ultimately show ?thesis using u v(1,2) by (auto simp: write_record_def plain_step_def)
qed

section \<open>Reading a record\<close>

lemma filter_upt_nth:
  assumes "k < n" and "P k"
  shows "filter P [0..<n] ! length (filter P [0..<k]) = k"
proof -
  have "[0..<n] = [0..<k] @ k # [Suc k..<n]"
    using assms(1) by (metis less_imp_add_positive upt_add_eq_append upt_conv_Cons zero_le)
  with assms(2) show ?thesis by (simp add: nth_append)
qed

lemma starts_nth: "i < length fs \<Longrightarrow> starts p fs ! i = p + length (all_bytes (take i fs))"
proof (induction fs arbitrary: p i)
  case (Cons f fs)
  then show ?case by (cases i) (auto simp: add.assoc)
qed simp

lemma value_start:
  assumes "distinct (map fst fs)" and "map_of fs slot = Some v"
  obtains a b where "map_of (zip (slots_of fs) (starts p fs)) (unat slot) = Some (p + length a)"
    "all_bytes fs = a @ value_bytes v @ b"
proof -
  from assms(2) have "(slot, v) \<in> set fs" by (rule map_of_SomeD)
  then obtain i where i: "i < length fs" "fs ! i = (slot, v)" by (auto simp: in_set_conv_nth)
  have d: "distinct (slots_of fs)"
    using assms(1) by (auto simp: distinct_map inj_on_def word_unat_eq_iff)
  have "map_of (zip (slots_of fs) (starts p fs)) (slots_of fs ! i) = Some (starts p fs ! i)"
    using i(1) d by (intro map_of_zip_nth) simp_all
  then have "map_of (zip (slots_of fs) (starts p fs)) (unat slot) = Some (p + length (all_bytes (take i fs)))"
    using i by (simp add: starts_nth)
  moreover have "all_bytes fs = all_bytes (take i fs) @ value_bytes v @ all_bytes (drop (Suc i) fs)"
    using id_take_nth_drop[OF i(1)] i(2) by (metis (no_types, lifting) concat.simps(2) concat_append list.simps(9) map_append snd_conv)
  ultimately show thesis by (rule that)
qed

abbreviation present_bits :: "nat \<Rightarrow> (u16 \<times> wr_value) list \<Rightarrow> bool list" where
  "present_bits n fs \<equiv> map (\<lambda>i. i \<in> set (slots_of fs)) [0..<n]"

lemma rank_present_bits: "k < n \<Longrightarrow> rank (present_bits n fs) k = length (filter (\<lambda>k. k \<in> set (slots_of fs)) [0..<k])"
  by (simp add: rank_def take_map filter_map comp_def take_upt)

lemma count_present_bits: "length (filter id (present_bits n fs)) = length (slot_table n hl fs)"
  by (simp add: slot_table_def filter_map comp_def)

text \<open>The entry of the offset table for a slot that was written.\<close>

lemma slot_entry:
  assumes "\<forall>k \<in> set (slots_of fs). k < n" and "distinct (map fst fs)" and "map_of fs slot = Some v"
  obtains a b where "all_bytes fs = a @ value_bytes v @ b"
    "slot_table n hl fs ! rank (present_bits n fs) (unat slot) = word_of_nat (hl + length a)"
    "rank (present_bits n fs) (unat slot) < length (slot_table n hl fs)"
    "unat slot \<in> set (slots_of fs)"
proof -
  from assms(3) have "slot \<in> fst ` set fs" by (metis domI dom_map_of_conv_image_fst)
  then have mem: "unat slot \<in> set (slots_of fs)" by auto
  then have lt: "unat slot < n" using assms(1) by blast
  obtain a b where ab: "map_of (zip (slots_of fs) (starts hl fs)) (unat slot) = Some (hl + length a)"
    "all_bytes fs = a @ value_bytes v @ b" using value_start[OF assms(2,3)] by blast
  have nth: "filter (\<lambda>k. k \<in> set (slots_of fs)) [0..<n] ! length (filter (\<lambda>k. k \<in> set (slots_of fs)) [0..<unat slot])
      = unat slot"
    by (rule filter_upt_nth[of _ _ "\<lambda>k. k \<in> set (slots_of fs)"]) (fact lt, fact mem)
  have less: "rank (present_bits n fs) (unat slot) < length (slot_table n hl fs)"
    using rank_less[of "present_bits n fs" "unat slot"] lt mem count_present_bits[where n = n and fs = fs and hl = hl]
    by (simp add: present_at_def)
  then have "slot_table n hl fs ! rank (present_bits n fs) (unat slot) = word_of_nat (hl + length a)"
    using nth ab(1) unfolding slot_table_def rank_present_bits[OF lt] by (subst nth_map) simp_all
  with that ab(2) less mem show thesis by blast
qed

lemma length_mask: "0 < n \<Longrightarrow> length (build_bitmask_bytes (present_bits n fs)) = max ((n + 6) div 7) 1"
proof -
  assume n: "0 < n"
  then have "build_bitmask_bytes (present_bits n fs) = bitmask_loop (present_bits n fs)"
    by (simp add: build_bitmask_bytes_def)
  moreover have "1 \<le> (n + 6) div 7" using n by simp
  ultimately show ?thesis by (simp add: length_bitmask_loop max_def)
qed

text \<open>The parts of an object: its eight header bytes, the mask, the table, the filling and the values.\<close>

lemma writer_object_parts:
  assumes "0 < n" and "\<forall>k \<in> set (slots_of fs). k < n" and "distinct (map fst fs)"
  obtains fill where "writer_object n fs
      = (u32_le MAGIC_OBJ @ u32_le (word_of_nat (head_len n + length (all_bytes fs))))
        @ build_bitmask_bytes (present_bits n fs) @ concat (map u16_le (slot_table n (head_len n) fs)) @ fill @ all_bytes fs"
    "8 + length (build_bitmask_bytes (present_bits n fs)) + length (slot_table n (head_len n) fs) * 2 + length fill
      = head_len n"
proof -
  let ?m = "build_bitmask_bytes (present_bits n fs)"
  let ?fill = "replicate (head_len n - (8 + length ?m + length fs * 2)) (0 :: u8)"
  have tl: "length (slot_table n (head_len n) fs) = length fs" by (rule length_slot_table[OF assms(2,3)])
  have "length (filter (\<lambda>k. k \<in> set (slots_of fs)) [0..<n]) \<le> n"
    using length_filter_le[of _ "[0..<n]"] by simp
  then have "length fs \<le> n" using tl by (simp add: slot_table_def)
  then have "8 + length ?m + length fs * 2 \<le> head_len n"
    using align8_ge[of "8 + max ((n + 6) div 7) 1 + n * 2"] unfolding head_len_def length_mask[OF assms(1)] by linarith
  then have len: "8 + length ?m + length (slot_table n (head_len n) fs) * 2 + length ?fill = head_len n" by (simp add: tl)
  show thesis by (rule that[OF _ len]) (simp only: writer_object_def Let_def append_assoc)
qed

lemma length_writer_object:
  assumes "0 < n" and "\<forall>k \<in> set (slots_of fs). k < n" and "distinct (map fst fs)"
  shows "length (writer_object n fs) = head_len n + length (all_bytes fs)"
  by (rule writer_object_parts[OF assms]) (simp add: u16c.length_array)

lemma writer_object_reads:
  assumes "0 < n" and "\<forall>k \<in> set (slots_of fs). k < n" and "distinct (map fst fs)"
    and "head_len n + length (all_bytes fs) \<le> 65535" and "fits (pre @ writer_object n fs @ post)"
  shows "case map_of fs slot of
      None \<Rightarrow> resolve_slot_v12 (pre @ writer_object n fs @ post) (length pre) (unat slot) = None
    | Some v \<Rightarrow> \<exists>off. resolve_slot_v12 (pre @ writer_object n fs @ post) (length pre) (unat slot) = Some off
        \<and> seg (pre @ writer_object n fs @ post) off (off + length (value_bytes v)) = value_bytes v"
proof -
  let ?m = "build_bitmask_bytes (present_bits n fs)" and ?tab = "slot_table n (head_len n) fs"
  let ?h = "u32_le MAGIC_OBJ @ u32_le (word_of_nat (head_len n + length (all_bytes fs)))"
  let ?data = "pre @ writer_object n fs @ post"
  obtain fill where obj: "writer_object n fs = ?h @ ?m @ concat (map u16_le ?tab) @ fill @ all_bytes fs"
    "8 + length ?m + length ?tab * 2 + length fill = head_len n"
    by (rule writer_object_parts[OF assms(1-3)])
  have res: "resolve_slot_v12 ?data (length pre) (unat slot)
      = (if unat slot < n \<and> unat slot \<in> set (slots_of fs)
         then Some (length pre + unat (?tab ! rank (present_bits n fs) (unat slot))) else None)"
    using resolve_slot_v12_at[of ?h ?tab "present_bits n fs" pre "fill @ all_bytes fs @ post" "unat slot"]
      count_present_bits[where n = n and fs = fs and hl = "head_len n"] assms(5) by (auto simp: obj(1) rank_def)
  show ?thesis
  proof (cases "map_of fs slot")
    case None
    then have "slot \<notin> fst ` set fs" by (simp add: map_of_eq_None_iff)
    then have "unat slot \<notin> set (slots_of fs)" by (auto simp: word_unat_eq_iff[symmetric] image_iff)
    then show ?thesis using None res by simp
  next
    case (Some v)
    obtain a b where ab: "all_bytes fs = a @ value_bytes v @ b"
      "?tab ! rank (present_bits n fs) (unat slot) = word_of_nat (head_len n + length a)"
      "unat slot \<in> set (slots_of fs)" using slot_entry[OF assms(2,3) Some] by blast
    have "unat (word_of_nat (head_len n + length a) :: u16) = head_len n + length a"
      by (rule unat_u16) (use assms(4) ab(1) in simp)
    then have off: "resolve_slot_v12 ?data (length pre) (unat slot) = Some (length pre + (head_len n + length a))"
      using res ab(2,3) assms(2) by auto
    let ?x = "pre @ ?h @ ?m @ concat (map u16_le ?tab) @ fill @ a"
    have lx: "length ?x = length pre + (head_len n + length a)" using obj(2) by (simp add: u16c.length_array)
    have data: "?data = ?x @ value_bytes v @ b @ post" unfolding obj(1) ab(1) by simp
    have "seg ?data (length ?x) (length ?x + length (value_bytes v)) = value_bytes v"
      by (rule seg_at[OF data refl refl])
    then show ?thesis using Some off unfolding lx by auto
  qed
qed

text \<open>
  C22: A written record is read back.  A plain writer takes any fields with distinct slots of its schema, in any
  order, without a panic; it appends one object to its buffer, and in whatever data that object stands,
  the v1.2 slot reader finds the bytes of each value at its slot and nothing at the slots that were
  not written, as long as the object has at most 65535 bytes.
\<close>

theorem written_record_roundtrip:
  assumes "w_compact w = None" and "w_schema w = new_schema keys" and "keys \<noteq> []"
    and "\<forall>f \<in> set fs. unat (fst f) < length keys" and "distinct (map fst fs)"
    and "head_len (length keys) + length (all_bytes fs) \<le> 65535"
    and "length (w_buf w) + 65535 < 2 ^ 32"
  shows "\<exists>w' obj. write_record fs w = Ok w' \<and> w_buf w' = w_buf w @ obj \<and> w_frames w' = w_frames w \<and>
     (\<forall>pre post slot. length (pre @ obj @ post) < 2 ^ 63 \<longrightarrow>
        (case map_of fs slot of
           None \<Rightarrow> resolve_slot_v12 (pre @ obj @ post) (length pre) (unat slot) = None
         | Some v \<Rightarrow> \<exists>off. resolve_slot_v12 (pre @ obj @ post) (length pre) (unat slot) = Some off
             \<and> seg (pre @ obj @ post) off (off + length (value_bytes v)) = value_bytes v))"
proof -
  have slots: "\<forall>k \<in> set (slots_of fs). k < length keys" and n: "0 < length keys" using assms(3,4) by auto
  have "length (w_buf w) + head_len (length keys) + length (all_bytes fs) < 2 ^ 32" using assms(6,7) by linarith
  from write_record_object[OF assms(1-3) slots assms(5) this] obtain w' where
    w': "write_record fs w = Ok w'" "w_buf w' = w_buf w @ writer_object (length keys) fs" "w_frames w' = w_frames w"
    by blast
  show ?thesis
  proof (intro exI[of _ w'] exI[of _ "writer_object (length keys) fs"] conjI allI impI)
    fix pre post slot assume "length (pre @ writer_object (length keys) fs @ post) < 2 ^ 63"
    then have "fits (pre @ writer_object (length keys) fs @ post)" by (simp add: lims)
    from writer_object_reads[OF n slots assms(5,6) this, of slot]
    show "case map_of fs slot of
        None \<Rightarrow> resolve_slot_v12 (pre @ writer_object (length keys) fs @ post) (length pre) (unat slot) = None
      | Some v \<Rightarrow> \<exists>off. resolve_slot_v12 (pre @ writer_object (length keys) fs @ post) (length pre) (unat slot) = Some off
          \<and> seg (pre @ writer_object (length keys) fs @ post) off (off + length (value_bytes v)) = value_bytes v"
      .
  qed (use w' in auto)
qed


theorem written_record_roundtrip_witness:
  "\<exists>w' obj. write_record [(2, WStr [104, 105]), (0, WInt 7)] (new_writer (new_schema [[97], [98], [99]])) = Ok w'
     \<and> w_buf w' = obj \<and> resolve_slot_v12 (obj @ [1]) 0 1 = None"
proof -
  let ?fs = "[(2, WStr [104, 105]), (0, WInt 7)] :: (u16 \<times> wr_value) list"
  let ?w = "new_writer (new_schema [[97], [98], [99]])"
  have b: "length (w_buf ?w) = 0" "w_compact ?w = None" "w_schema ?w = new_schema [[97], [98], [99]]" by code_simp+
  have h: "head_len 3 + length (all_bytes ?fs) = 32" by code_simp
  have o: "length (w_buf ?w @ writer_object 3 ?fs) = 32" by code_simp
  from written_record_roundtrip[of ?w "[[97], [98], [99]]" ?fs] obtain w' obj where
    w: "write_record ?fs ?w = Ok w'" "w_buf w' = w_buf ?w @ obj"
    "\<forall>pre post slot. length (pre @ obj @ post) < 2 ^ 63 \<longrightarrow>
        (case map_of ?fs slot of
           None \<Rightarrow> resolve_slot_v12 (pre @ obj @ post) (length pre) (unat slot) = None
         | Some v \<Rightarrow> \<exists>off. resolve_slot_v12 (pre @ obj @ post) (length pre) (unat slot) = Some off
             \<and> seg (pre @ obj @ post) off (off + length (value_bytes v)) = value_bytes v)"
    using b h by (auto simp: numeral_3_eq_3)
  have e: "write_record ?fs ?w = Ok (case write_record ?fs ?w of Ok x \<Rightarrow> x)" using w(1) by simp
  have "length (w_buf (case write_record ?fs ?w of Ok x \<Rightarrow> x)) = 32" by code_simp
  then have "length obj = 32" using w(1,2) b(1) by simp
  then have "resolve_slot_v12 ([] @ obj @ [1]) (length ([] :: u8 list)) (unat (1 :: u16)) = None"
    using w(3)[rule_format, of "[]" "[1]" 1] by simp
  then show ?thesis using w(1,2) b(1) by simp
qed

section \<open>Writes that break a record\<close>

lemma slot_twice:
  "map_res (\<lambda>w. (w_buf w, resolve_slot_v12 (w_buf w) 0 1))
     (write_record [(0, WInt 5), (0, WInt 6), (1, WInt 7)] (new_writer (new_schema [[97], [98], [99]])))
   = Ok ([79, 88, 89, 78, 40, 0, 0, 0, 3, 16, 0, 24, 0, 32, 0, 0, 5, 0, 0, 0, 0, 0, 0, 0,
          6, 0, 0, 0, 0, 0, 0, 0, 7, 0, 0, 0, 0, 0, 0, 0], Some 24)"
  by code_simp

lemma table_over_values:
  "map_res w_buf (write_record (replicate 4 (0, WInt 5)) (new_writer (new_schema [[97]])))
   = Ok [79, 88, 89, 78, 48, 0, 0, 0, 1, 16, 0, 24, 0, 32, 0, 40, 0, 0, 0, 0, 0, 0, 0, 0,
         5, 0, 0, 0, 0, 0, 0, 0, 5, 0, 0, 0, 0, 0, 0, 0, 5, 0, 0, 0, 0, 0, 0, 0]"
  by code_simp

lemma compact_null_panics:
  assumes "w_compact w \<noteq> None"
  shows "write_null slot (begin_object w) = Panic" and "write_bytes slot bs (begin_object w) = Panic"
    and "write_list_i64 slot vs (begin_object w) = Panic" and "write_list_f64 slot fs (begin_object w) = Panic"
  using assms
  by (auto simp: write_null_def write_bytes_def write_list_i64_def write_list_f64_def write_plain_def mark_slot_def
      begin_object_def frame_at_def idx_def Let_def)

lemma offset_cut:
  assumes "length bs = 65524"
  shows "\<exists>w. write_record [(0, WBytes bs), (1, WInt 7)] (new_writer (new_schema [k0, k1])) = Ok w
     \<and> length (w_buf w) = 65552 \<and> seg (w_buf w) 9 13 = [16, 0, 8, 0]"
proof -
  let ?fs = "[(0, WBytes bs), (1, WInt 7)] :: (u16 \<times> wr_value) list" and ?w = "new_writer (new_schema [k0, k1])"
  have w: "w_compact ?w = None" "w_schema ?w = new_schema [k0, k1]" "w_buf ?w = []"
    by (simp_all add: new_writer_def writer_with_compact_def Let_def)
  have h: "head_len 2 = 16" by code_simp
  have l: "length (all_bytes ?fs) = 65536" using assms by (simp add: prefixed_bytes_def)
  have slots: "\<forall>k \<in> set (slots_of ?fs). k < 2" and d: "distinct (map fst ?fs)" by simp_all
  have t: "slot_table 2 16 ?fs = [16, 8]"
    using assms by (simp add: slot_table_def prefixed_bytes_def upt_rec[of 0] upt_rec[of "Suc 0"])
  obtain w' where w': "write_record ?fs ?w = Ok w'" "w_buf w' = writer_object 2 ?fs"
  proof -
    have n: "length [k0, k1] = 2" by simp
    have "\<exists>w'. write_record ?fs ?w = Ok w' \<and> w_buf w' = w_buf ?w @ writer_object 2 ?fs"
      using write_record_object[of ?w "[k0, k1]" ?fs] unfolding n using w(1,2) slots d l by (simp add: w(3) h) blast
    then show thesis using that w(3) by auto
  qed
  have m: "length (build_bitmask_bytes (present_bits 2 ?fs)) = 1" by (subst length_mask) simp_all
  obtain fill where o: "writer_object 2 ?fs = (u32_le MAGIC_OBJ @ u32_le (word_of_nat (head_len 2 + length (all_bytes ?fs))))
      @ build_bitmask_bytes (present_bits 2 ?fs) @ concat (map u16_le (slot_table 2 (head_len 2) ?fs)) @ fill @ all_bytes ?fs"
    by (rule writer_object_parts[OF _ slots d]) simp_all
  have sg: "seg (w_buf w') 9 13 = concat (map u16_le [16, 8])"
    unfolding w'(2) o h t by (rule seg_at[of _ "(u32_le MAGIC_OBJ @ u32_le (word_of_nat (16 + length (all_bytes ?fs))))
      @ build_bitmask_bytes (present_bits 2 ?fs)" _ "fill @ all_bytes ?fs"])
      (simp_all only: append_assoc length_append m u16c.length_array, simp_all)
  have tb: "concat (map u16_le [16, 8]) = [16, 0, 8, 0]" by code_simp
  have ln: "length (w_buf w') = 65552" unfolding w'(2) length_writer_object[OF _ slots d, simplified] using l by (simp add: h)
  show ?thesis by (rule exI[of _ w'], intro conjI w'(1) ln trans[OF sg tb])
qed

text \<open>
  C35: Four ways to break a record.  A slot that is written twice takes two entries of the offset table but one bit
  of the mask, so the next slot reads the second value; four values for one key overwrite the first
  value with their offsets; in a compact writer a null, binary or list field always panics, since the
  frame of such a writer has no mask; and an offset above 65535 is cut to 16 bits without an error.
\<close>

theorem writer_departures:
  "map_res (\<lambda>w. (w_buf w, resolve_slot_v12 (w_buf w) 0 1))
     (write_record [(0, WInt 5), (0, WInt 6), (1, WInt 7)] (new_writer (new_schema [[97], [98], [99]])))
     = Ok ([79, 88, 89, 78, 40, 0, 0, 0, 3, 16, 0, 24, 0, 32, 0, 0, 5, 0, 0, 0, 0, 0, 0, 0,
            6, 0, 0, 0, 0, 0, 0, 0, 7, 0, 0, 0, 0, 0, 0, 0], Some 24)
   \<and> map_res w_buf (write_record (replicate 4 (0, WInt 5)) (new_writer (new_schema [[97]])))
     = Ok [79, 88, 89, 78, 48, 0, 0, 0, 1, 16, 0, 24, 0, 32, 0, 40, 0, 0, 0, 0, 0, 0, 0, 0,
           5, 0, 0, 0, 0, 0, 0, 0, 5, 0, 0, 0, 0, 0, 0, 0, 5, 0, 0, 0, 0, 0, 0, 0]
   \<and> (let w = begin_object (writer_with_compact s (Some o1)) in
        write_null slot w = Panic \<and> write_bytes slot bs w = Panic
        \<and> write_list_i64 slot vs w = Panic \<and> write_list_f64 slot fs w = Panic)
   \<and> (\<exists>w. write_record [(0, WBytes (replicate 65524 b)), (1, WInt 7)] (new_writer (new_schema [k0, k1])) = Ok w
        \<and> length (w_buf w) = 65552 \<and> seg (w_buf w) 9 13 = [16, 0, 8, 0])"
proof -
  have "w_compact (writer_with_compact s (Some o1)) \<noteq> None" by (simp add: writer_with_compact_def Let_def)
  then show ?thesis
    unfolding Let_def
    by (intro conjI slot_twice table_over_values compact_null_panics offset_cut length_replicate)
qed

section \<open>Sealed files\<close>

text \<open>The length of a schema before its padding.\<close>

definition schema_len :: "rstring list \<Rightarrow> nat" where
  "schema_len keys = 2 + length keys + length (concat (map (\<lambda>k. k @ [0]) keys))"

lemma length_build_schema: "length (build_schema keys sigils) = align8 (schema_len keys)"
  by (simp add: build_schema_def schema_len_def)

lemma finish_plain:
  assumes "w_compact w = None" and "w_schema w = new_schema keys"
  shows "finish w = Ok (let sb = build_schema keys (w_slot_sigils w) in
     file_preamble VERSION FLAG_SCHEMA_EMBEDDED sb @ sb @ w_buf w
       @ build_tail_index_records (absolute sb (w_record_offsets w)) (word_of_nat (32 + length sb + length (w_buf w))))"
  using assms by (simp add: finish_def assemble_file_def Let_def new_schema_def)

lemma length_preamble [simp]: "length (file_preamble v f sb) = 32"
  by (simp add: file_preamble_def)

lemma preamble_tail: "seg (file_preamble v f sb) 16 24 = u64_le 0"
  unfolding file_preamble_def
  by (rule seg_at[of _ "u32_le MAGIC_FILE @ u16_le v @ u16_le f @ u64_le (murmur3_64 sb)" _ "u64_le 0"]) simp_all

lemma length_tail_index: "length (build_tail_index_records offs tp) = 16 + length offs * 10"
proof -
  have "length (concat (map (\<lambda>(i, off). u16_le (word_of_nat i) @ u64_le off) (zip [0..<length offs] offs))) = length offs * 10"
    by (simp add: length_concat comp_def case_prod_unfold sum_list_triv)
  then show ?thesis by (simp add: build_tail_index_records_def)
qed

lemma tail_index_end:
  obtains t0 where "build_tail_index_records offs tp = t0 @ u64_le tp @ u32_le MAGIC_FOOTER"
  by (rule that, simp only: build_tail_index_records_def append_assoc[symmetric])

end
