(* ===== verification/Writer_Compiler.thy ===== *)
theory Writer_Compiler
  imports Writer_Records Compile_Decode
begin

text \<open>
  The hot-path writer against the record compiler: \<^verbatim>\<open>rust/src/writer.rs\<close> and
  \<^verbatim>\<open>rust/src/compiler.rs\<close> give the same bytes for the same record.
\<close>

text \<open>
  A typed write and a value of the compiler that has the same encoding.  The eight zero bytes of a null are
  those of the integer zero.
\<close>

fun same_encoding :: "wr_value \<Rightarrow> nxs_value \<Rightarrow> bool" where
  "same_encoding (WInt a) v = (v = VInt a)"
| "same_encoding (WFloat a) v = (v = VFloat a)"
| "same_encoding (WBool a) v = (v = VBool a)"
| "same_encoding (WTime a) v = (v = VTime a)"
| "same_encoding WNull v = (v = VInt 0)"
| "same_encoding (WStr a) v = (v = VStr a)"
| "same_encoding (WBytes a) v = (v = VBinary a)"
| "same_encoding (WInts a) v = False"
| "same_encoding (WFloats a) v = False"

lemma prefixed_bytes_pad8: "prefixed_bytes bs = pad8 (u32_le (word_of_nat (length bs)) @ bs)"
proof -
  have "align8 n - n = (8 - n mod 8) mod 8" for n
  proof -
    define m where "m = (8 - n mod 8) mod 8"
    obtain a where a: "n + m = 8 * a" using pad_to_8[of n] unfolding m_def by (elim dvdE)
    obtain b where b: "align8 n = 8 * b" using align8_dvd[of n] by (elim dvdE)
    have "m < 8" by (simp add: m_def)
    then have "a = b" using a b align8_ge[of n] align8_lt[of n] by linarith
    then show ?thesis using a b by (simp add: m_def[symmetric])
  qed
  then show ?thesis by (simp add: prefixed_bytes_def pad8_def)
qed

lemma same_encoding_bytes: "same_encoding a v \<Longrightarrow> encode_value v = Ok (value_bytes a)"
proof -
  have "u64_le 0 = replicate 8 0" by code_simp
  then show "same_encoding a v \<Longrightarrow> encode_value v = Ok (value_bytes a)"
    by (cases a) (auto simp: encode_value.simps prefixed_bytes_pad8)
qed

lemma starts_value_starts: "starts p fs = value_starts p (map (\<lambda>f. value_bytes (snd f)) fs)"
  by (induction fs arbitrary: p) simp_all

lemma slot_table_sorted:
  assumes "sorted_wrt (<) (slots_of fs)" and "\<forall>k \<in> set (slots_of fs). k < n"
  shows "slot_table n hl fs = value_offsets hl (map (\<lambda>f. value_bytes (snd f)) fs)"
proof -
  let ?sl = "slots_of fs"
  have d: "distinct ?sl" using assms(1) by (simp add: strict_sorted_iff)
  have "sorted_wrt (<) (filter (\<lambda>k. k \<in> set ?sl) [0..<n])" by (intro sorted_wrt_filter) simp
  moreover have "set (filter (\<lambda>k. k \<in> set ?sl) [0..<n]) = set ?sl" using assms(2) by auto
  ultimately have f: "filter (\<lambda>k. k \<in> set ?sl) [0..<n] = ?sl" using assms(1) by (simp add: strict_sorted_equal)
  have "map (\<lambda>k. the (map_of (zip ?sl (starts hl fs)) k)) ?sl = starts hl fs"
  proof (rule nth_equalityI)
    fix i assume "i < length (map (\<lambda>k. the (map_of (zip ?sl (starts hl fs)) k)) ?sl)"
    then have i: "i < length ?sl" by simp
    have "map_of (zip ?sl (starts hl fs)) (?sl ! i) = Some (starts hl fs ! i)"
      by (rule map_of_zip_nth[OF _ d]) (use i in \<open>simp_all add: starts_value_starts\<close>)
    then show "map (\<lambda>k. the (map_of (zip ?sl (starts hl fs)) k)) ?sl ! i = starts hl fs ! i" using i by simp
  qed (simp add: starts_value_starts)
  then show ?thesis
    by (simp only: slot_table_alt f value_offsets_starts starts_value_starts)
qed

lemma writer_object_object_bytes:
  assumes "0 < n" and "sorted_wrt (<) (slots_of fs)" and "\<forall>k \<in> set (slots_of fs). k < n"
    and "align8 (8 + (n + 6) div 7 + n * 2) = align8 (8 + (n + 6) div 7 + length fs * 2)"
  shows "writer_object n fs = object_bytes (slots_of fs) n (map (\<lambda>f. value_bytes (snd f)) fs)"
proof -
  have m: "build_bitmask_bytes (present_bits n fs) = build_bitmask (slots_of fs) n"
    using assms(1) by (simp add: build_bitmask_bytes_def build_bitmask_def)
  have "1 \<le> (n + 6) div 7" using assms(1) by simp
  then have lm: "length (build_bitmask (slots_of fs) n) = (n + 6) div 7" and h: "head_len n = align8 (8 + (n + 6) div 7 + length fs * 2)"
    using assms(1) length_mask[OF assms(1), of fs] assms(4) unfolding m by (simp_all add: head_len_def max_def)
  show ?thesis
    unfolding writer_object_def object_bytes_def Let_def m lm h slot_table_sorted[OF assms(2,3)] length_map length_concat map_map comp_def ..
qed

text \<open>
  A typed write and the value of the compiler that means the same: a null is a null here, and the two typed
  lists are the lists of these elements.
\<close>

fun same_field :: "wr_value \<Rightarrow> nxs_value \<Rightarrow> bool" where
  "same_field (WInt a) v = (v = VInt a)"
| "same_field (WFloat a) v = (v = VFloat a)"
| "same_field (WBool a) v = (v = VBool a)"
| "same_field (WTime a) v = (v = VTime a)"
| "same_field WNull v = (v = VNull)"
| "same_field (WStr a) v = (v = VStr a)"
| "same_field (WBytes a) v = (v = VBinary a)"
| "same_field (WInts a) v = (v = VList (map VInt a))"
| "same_field (WFloats a) v = (v = VList (map VFloat a))"

text \<open>The values that the two encode differently: a null, and a list that is empty and so has no element to take a sigil from.\<close>

definition encoded_apart :: "wr_value \<Rightarrow> bool" where
  "encoded_apart a \<longleftrightarrow> a = WNull \<or> a = WInts [] \<or> a = WFloats []"

lemma encode_list64:
  assumes "\<And>x. value_sigil_byte (c x) = sigil" and "\<And>x. encode_value (c x) = Ok (u64_le x)"
  shows "encode_value (VList (map c (x # xs))) = Ok (list64_bytes sigil (x # xs))"
proof -
  define ys where "ys = x # xs"
  have r: "rmap (\<lambda>e. if value_sigil_byte e \<noteq> sigil then Err ListTypeMismatch else encode_value e) (map c ys)
      = Ok (map u64_le ys)"
    by (auto simp: rmap_Ok_iff list_all2_conv_all_nth assms)
  have h: "map c ys \<noteq> []" "value_sigil_byte (hd (map c ys)) = sigil" by (simp_all add: ys_def assms(1))
  have "encode_list (map c ys) = Ok (list_bytes sigil (map u64_le ys))"
    by (simp only: encode_list.simps[of "map c ys"] list.case_eq_if h r rbind.simps if_False)
  moreover have "sum_list (map length (map u64_le ys)) = length ys * 8" by (induction ys) simp_all
  moreover have "replicate 3 (0 :: u8) = [0, 0, 0]" by code_simp
  ultimately show ?thesis
    by (simp only: encode_value.simps[of "VList _"] nxs_value.case list_bytes_def list64_bytes_def length_map ys_def[symmetric])
qed

lemma same_field_bytes:
  assumes "same_field a v"
  shows "\<exists>b. encode_value v = Ok b \<and> (b = value_bytes a \<longleftrightarrow> \<not> encoded_apart a)
    \<and> length b \<le> length (value_bytes a) \<and> length (value_bytes a) \<le> length b + 8"
proof -
  have plain: ?thesis if "encode_value v = Ok (value_bytes a)" "\<not> encoded_apart a" using that by auto
  have empty: "empty_list_bytes \<noteq> list64_bytes SIGIL_INT []" "empty_list_bytes \<noteq> list64_bytes SIGIL_FLOAT []"
    "length empty_list_bytes = length (list64_bytes SIGIL_INT [])" "length empty_list_bytes = length (list64_bytes SIGIL_FLOAT [])"
    by code_simp+
  show ?thesis
  proof (cases "a = WNull \<or> a = WInts [] \<or> a = WFloats []")
    case True
    then show ?thesis using assms empty
      by (auto simp: encode_value.simps encode_list.simps encoded_apart_def)
  next
    case False
    then have "\<not> encoded_apart a" by (simp add: encoded_apart_def)
    moreover have "encode_value v = Ok (value_bytes a)"
    proof (cases a)
      case (WInts xs)
      then obtain y ys where "xs = y # ys" using False by (cases xs) auto
      then show ?thesis using assms WInts encode_list64[of VInt SIGIL_INT y ys]
        by (simp add: value_sigil_byte_def encode_value.simps)
    next
      case (WFloats xs)
      then obtain y ys where "xs = y # ys" using False by (cases xs) auto
      then show ?thesis using assms WFloats encode_list64[of VFloat SIGIL_FLOAT y ys]
        by (simp add: value_sigil_byte_def encode_value.simps)
    qed (use assms False same_encoding_bytes[of a v] in auto)
    ultimately show ?thesis by (rule plain[rotated])
  qed
qed

lemma concat_slack:
  "list_all2 (\<lambda>b c. length b \<le> length c \<and> length c \<le> length b + k) bs cs \<Longrightarrow>
   length (concat cs) \<le> length (concat bs) + k * length bs"
  by (induction rule: list_all2_induct) auto

lemma length_object_bytes': "length (object_bytes slots n bs) =
    align8 (8 + length (build_bitmask slots n) + length slots * 2) - (8 + length (build_bitmask slots n) + length slots * 2)
      + 8 + length (build_bitmask slots n) + 2 * length bs + length (concat bs)"
proof -
  have "length (concat (map u16_le (value_offsets c bs))) = 2 * length bs" for c
    by (simp only: u16c.length_array value_offsets_starts length_map length_value_starts)
  moreover define h where "h = 8 + length (build_bitmask slots n) + length slots * 2"
  moreover define a where "a = align8 h"
  moreover have "h \<le> a" unfolding a_def by (rule align8_ge)
  ultimately show ?thesis
    unfolding object_bytes_def Let_def h_def[symmetric] a_def[symmetric] by (simp del: length_concat)
qed

lemma object_bytes_eq_iff:
  assumes "list_all2 (\<lambda>b c. length b \<le> length c) bs cs"
  shows "object_bytes slots n bs = object_bytes slots n cs \<longleftrightarrow> bs = cs"
proof
  assume eq: "object_bytes slots n bs = object_bytes slots n cs"
  have len: "length bs = length cs" using assms by (rule list_all2_lengthD)
  have "length (concat bs) = length (concat cs)" using arg_cong[OF eq, of length] len by (simp add: length_object_bytes')
  moreover have "map length bs = map length cs \<or> sum_list (map length bs) < sum_list (map length cs)"
    using assms
  proof (induction rule: list_all2_induct)
    case (Cons b bs c cs)
    then show ?case by (cases "length b = length c") auto
  qed simp
  ultimately have same: "map length bs = map length cs" by (simp add: length_concat)
  have starts: "value_starts k bs = value_starts k cs" for k
    using len same by (induction bs cs arbitrary: k rule: list_induct2) simp_all
  have "concat bs = concat cs"
    using eq same starts by (simp add: object_bytes_def Let_def value_offsets_starts len)
  moreover have "\<forall>(x, y) \<in> set (zip bs cs). length x = length y"
    using same len by (auto simp: list_eq_iff_nth_eq set_zip)
  ultimately show "bs = cs" using len by (intro concat_injective) auto
qed simp

text \<open>
  C23: Writer and compiler agree exactly on the values that both encode alike.  For the same fields in slot
  order, the writer appends the object that the compiler emits for them if and only if none of the fields is a
  null or an empty list: a null has eight zero bytes in the writer and none in the compiler, an empty list
  the sigil of its type in the writer and zero in the compiler.  Both are to reserve a head of the same length, as they do when
  every key of the schema is written.
\<close>

theorem writer_equals_compiler:
  assumes "w_compact w = None" and "w_schema w = new_schema keys" and "keys \<noteq> []"
    and "sorted_wrt (<) (map (\<lambda>f. unat (fst f)) fs)" and "\<forall>f \<in> set fs. unat (fst f) < length keys"
    and "list_all2 same_field (map snd fs) vs" and "rmap encode_value vs = Ok bufs"
    and "align8 (8 + (length keys + 6) div 7 + length keys * 2) = align8 (8 + (length keys + 6) div 7 + length fs * 2)"
    and "length (w_buf w) + length (object_bytes (map (\<lambda>f. unat (fst f)) fs) (length keys) bufs) + 8 * length fs < 2 ^ 32"
  shows "\<exists>w'. write_record fs w = Ok w'
     \<and> (w_buf w' = w_buf w @ object_bytes (map (\<lambda>f. unat (fst f)) fs) (length keys) bufs
        \<longleftrightarrow> (\<forall>f \<in> set fs. snd f \<noteq> WNull \<and> snd f \<noteq> WInts [] \<and> snd f \<noteq> WFloats []))"
proof -
  let ?cs = "map (\<lambda>f. value_bytes (snd f)) fs"
  have n: "0 < length keys" using assms(3) by simp
  have slots: "\<forall>k \<in> set (slots_of fs). k < length keys" using assms(5) by auto
  have d: "distinct (map fst fs)"
    using assms(4) by (auto simp: strict_sorted_iff distinct_map inj_on_def)
  have len: "length bufs = length fs" "length vs = length fs"
    using assms(6,7) by (auto simp: rmap_Ok_iff dest!: list_all2_lengthD)
  have each: "(bufs ! i = value_bytes (snd (fs ! i)) \<longleftrightarrow> \<not> encoded_apart (snd (fs ! i)))
      \<and> length (bufs ! i) \<le> length (value_bytes (snd (fs ! i))) \<and> length (value_bytes (snd (fs ! i))) \<le> length (bufs ! i) + 8"
    if "i < length fs" for i
  proof -
    have "same_field (snd (fs ! i)) (vs ! i)" "encode_value (vs ! i) = Ok (bufs ! i)"
      using assms(6,7) that by (auto simp: rmap_Ok_iff list_all2_conv_all_nth)
    then show ?thesis using same_field_bytes by fastforce
  qed
  have o: "object_bytes (slots_of fs) (length keys) ?cs = writer_object (length keys) fs"
    using writer_object_object_bytes[OF n assms(4) slots assms(8)] by simp
  have le: "list_all2 (\<lambda>b c. length b \<le> length c \<and> length c \<le> length b + 8) bufs ?cs"
    using each len(1) by (auto simp: list_all2_conv_all_nth)
  then have "length (concat ?cs) \<le> length (concat bufs) + 8 * length bufs" by (rule concat_slack)
  then have "length (writer_object (length keys) fs)
      \<le> length (object_bytes (slots_of fs) (length keys) bufs) + 8 * length fs"
    unfolding o[symmetric] length_object_bytes' using len(1) by simp
  then have "length (w_buf w) + head_len (length keys) + length (all_bytes fs) < 2 ^ 32"
    using assms(9) unfolding length_writer_object[OF n slots d] by simp
  from write_record_object[OF assms(1-3) slots d this] obtain w' where
    w': "write_record fs w = Ok w'" "w_buf w' = w_buf w @ object_bytes (slots_of fs) (length keys) ?cs"
    unfolding o by blast
  have "w_buf w' = w_buf w @ object_bytes (slots_of fs) (length keys) bufs \<longleftrightarrow> bufs = ?cs"
    unfolding w'(2) using object_bytes_eq_iff[OF list_all2_mono[OF le], of "slots_of fs" "length keys"] by auto
  also have "\<dots> \<longleftrightarrow> (\<forall>f \<in> set fs. \<not> encoded_apart (snd f))"
    using each len(1) by (auto simp: list_eq_iff_nth_eq all_set_conv_all_nth)
  finally show ?thesis using w'(1) by (auto simp: encoded_apart_def)
qed

theorem writer_equals_compiler_witness:
  "\<exists>w'. write_record [(0, WInts [7]), (1, WStr [104, 105])] (new_writer (new_schema [[97], [98]])) = Ok w'
     \<and> w_buf w' = object_bytes [0, 1] 2 [list64_bytes SIGIL_INT [7], prefixed_bytes [104, 105]]"
proof -
  let ?fs = "[(0, WInts [7]), (1, WStr [104, 105])] :: (u16 \<times> wr_value) list" and ?w = "new_writer (new_schema [[97], [98]])"
  have w: "w_compact ?w = None" "w_schema ?w = new_schema [[97], [98]]" "w_buf ?w = []"
    by (simp_all add: new_writer_def writer_with_compact_def Let_def)
  have "length (object_bytes [0, 1] 2 [list64_bytes SIGIL_INT [7], prefixed_bytes [104, 105]]) = 48" by code_simp
  moreover have "length [[97], [98 :: u8]] = 2" by simp
  moreover have "rmap encode_value [VList (map VInt [7]), VStr [104, 105]] = Ok [list64_bytes SIGIL_INT [7], prefixed_bytes [104, 105]]"
    using encode_list64[of VInt SIGIL_INT 7 "[]"] by (simp add: encode_value.simps prefixed_bytes_pad8 value_sigil_byte_def)
  moreover have "map (\<lambda>f. unat (fst f)) ?fs = [0, 1]" by simp
  ultimately show ?thesis
    using writer_equals_compiler[OF w(1,2), of ?fs "[VList (map VInt [7]), VStr [104, 105]]" "[list64_bytes SIGIL_INT [7], prefixed_bytes [104, 105]]"]
    by (simp only: w(3), simp)
qed

end
