(* ===== verification/Wal.thy ===== *)
theory Wal
  imports Writer_Records Decoder
begin

text \<open>
  The write-ahead log of spans: \<^verbatim>\<open>rust/src/wal.rs\<close>.

  \<open>span_wal\<close> is the state of \<open>SpanWal\<close> together with the file behind it.  A span is written as the data
  sector of a one-record file of \<open>NxsWriter\<close>; \<open>wal_recover\<close> rebuilds the index from the file, and
  \<open>wal_seal\<close> replays it into a sealed file.
\<close>

section \<open>Spans\<close>

type_synonym u128 = "128 word"

definition MAGIC_WAL :: u32 where "MAGIC_WAL = 0x5753584E"
definition WAL_VERSION :: u16 where "WAL_VERSION = 0x0100"
definition WAL_FLAG_SCHEMA_EMBEDDED :: u16 where "WAL_FLAG_SCHEMA_EMBEDDED = 0x0001"
definition MAX_RECORD_BYTES :: nat where "MAX_RECORD_BYTES = 10 * 1024 * 1024"

record wal_entry =
  we_trace_id :: u128
  we_span_id :: u64
  we_offset :: nat

record span_fields =
  sp_trace_hi :: i64
  sp_trace_lo :: i64
  sp_span_id :: i64
  sp_parent :: "i64 option"
  sp_name :: rstring
  sp_service :: rstring
  sp_start :: i64
  sp_duration :: i64
  sp_status :: i64
  sp_payload :: "u8 list option"

definition span_keys :: "rstring list" where
  "span_keys = map bstr [''trace_id_hi'', ''trace_id_lo'', ''span_id'', ''parent_span_id'', ''name'', ''service'',
     ''start_time_ns'', ''duration_ns'', ''status_code'', ''payload'']"

definition span_sigils :: "u8 list" where
  "span_sigils = bstr ''====\"\"@==<''"

definition span_schema :: wr_schema where
  "span_schema = new_schema span_keys"

text \<open>\<open>((hi as u64 as u128) << 64) | (lo as u64 as u128)\<close>\<close>

definition trace_id_of :: "u64 \<Rightarrow> u64 \<Rightarrow> u128" where
  "trace_id_of hi lo = or (push_bit 64 (ucast hi)) (ucast lo)"

text \<open>The calls that \<open>append\<close> and \<open>seal\<close> make for one span, in their order.\<close>

definition span_values :: "span_fields \<Rightarrow> (u16 \<times> wr_value) list" where
  "span_values sp =
     [(0, WInt (sp_trace_hi sp)), (1, WInt (sp_trace_lo sp)), (2, WInt (sp_span_id sp)),
      (3, case sp_parent sp of Some p \<Rightarrow> WInt p | None \<Rightarrow> WNull),
      (4, WStr (sp_name sp)), (5, WStr (sp_service sp)), (6, WTime (sp_start sp)),
      (7, WInt (sp_duration sp)), (8, WInt (sp_status sp))]
     @ (case sp_payload sp of Some b \<Rightarrow> [(9, WBytes b)] | None \<Rightarrow> [])"

section \<open>The log\<close>

text \<open>
  \<open>wl_disk\<close> is the file, \<open>wl_buf\<close> what the \<open>BufWriter\<close> in front of it still holds.  File positions are
  natural numbers; operations of the file system succeed, and only reads past the end fail.
\<close>

record span_wal =
  wl_disk :: "u8 list"
  wl_buf :: "u8 list"
  wl_index :: "wal_entry list"
  wl_count :: nat
  wl_data_start :: nat
  wl_offset :: nat

definition wal_schema_bytes :: "u8 list" where
  "wal_schema_bytes =
     pad8 (u16_le (word_of_nat (length span_keys)) @ replicate (length span_keys) SIGIL_STR
       @ concat (map (\<lambda>k. k @ [0]) span_keys))"

definition wal_header :: "u8 list" where
  "wal_header =
     u32_le MAGIC_WAL @ u16_le WAL_VERSION @ u16_le WAL_FLAG_SCHEMA_EMBEDDED
       @ u32_le (word_of_nat (length wal_schema_bytes)) @ wal_schema_bytes"

definition wal_open :: "u8 list option \<Rightarrow> span_wal" where
  "wal_open file =
     (let start = 8 + 4 + length wal_schema_bytes in
      \<lparr>wl_disk = (case file of None \<Rightarrow> wal_header | Some bs \<Rightarrow> bs), wl_buf = [], wl_index = [], wl_count = 0,
       wl_data_start = start, wl_offset = (if file = None then start else 0)\<rparr>)"

text \<open>\<open>BufWriter::write_all\<close> with the standard capacity.\<close>

definition BUF_CAPACITY :: nat where "BUF_CAPACITY = 8192"

definition buf_write :: "u8 list \<Rightarrow> span_wal \<Rightarrow> span_wal" where
  "buf_write bs wl =
     (if length bs < BUF_CAPACITY - length (wl_buf wl) then wl\<lparr>wl_buf := wl_buf wl @ bs\<rparr>
      else
        let wl = (if BUF_CAPACITY - length (wl_buf wl) < length bs
                  then wl\<lparr>wl_disk := wl_disk wl @ wl_buf wl, wl_buf := []\<rparr> else wl) in
        if BUF_CAPACITY \<le> length bs then wl\<lparr>wl_disk := wl_disk wl @ bs\<rparr>
        else wl\<lparr>wl_buf := wl_buf wl @ bs\<rparr>)"

definition wal_flush :: "span_wal \<Rightarrow> span_wal" where
  "wal_flush wl = wl\<lparr>wl_disk := wl_disk wl @ wl_buf wl, wl_buf := []\<rparr>"

section \<open>Appending\<close>

primrec skip_names :: "nat \<Rightarrow> u8 list \<Rightarrow> usize \<Rightarrow> usize" where
  "skip_names 0 data pos = pos"
| "skip_names (Suc n) data pos = skip_names n data (cstr_end data pos + 1)"

definition extract_data_sector :: "u8 list \<Rightarrow> u8 list res" where
  "extract_data_sector nxb =
     (if length nxb < 32 then Err OutOfBounds
      else rbind (rd_u64 nxb 16) (\<lambda>tp.
      rbind (if unat tp = 0 then
               if length nxb < 44 then Err OutOfBounds
               else rbind (rd_u64 nxb (length nxb - 12)) (\<lambda>tp. Ok (unat tp))
             else Ok (unat tp)) (\<lambda>tail_ptr.
      if length nxb < tail_ptr then Err OutOfBounds
      else if length nxb < 32 + 2 then Err OutOfBounds
      else rbind (rd_u16 nxb 32) (\<lambda>key_count.
        let pos = align8 (skip_names (unat key_count) nxb (34 + unat key_count)) in
        if tail_ptr < pos then Err OutOfBounds else slice nxb pos tail_ptr))))"

definition encode_span :: "span_fields \<Rightarrow> u8 list res" where
  "encode_span sp =
     rbind (write_record (span_values sp) (new_writer span_schema)) (\<lambda>w.
     rbind (finish w) extract_data_sector)"

definition wal_append :: "span_fields \<Rightarrow> span_wal \<Rightarrow> (span_wal \<times> nat) res" where
  "wal_append sp wl =
     rbind (encode_span sp) (\<lambda>data_sector.
     let wl' = buf_write data_sector wl in
     Ok (wl'\<lparr>wl_offset := wl_offset wl + length data_sector,
             wl_index := wl_index wl @ [\<lparr>we_trace_id = trace_id_of (sp_trace_hi sp) (sp_trace_lo sp),
                                        we_span_id = sp_span_id sp, we_offset = wl_offset wl\<rparr>],
             wl_count := wl_count wl + 1\<rparr>, wl_offset wl))"

section \<open>Recovery\<close>

text \<open>The first loop over the mask: at most seventeen bytes of it, all within the object.\<close>

function mask_within :: "u8 list \<Rightarrow> usize \<Rightarrow> nat \<Rightarrow> bool" where
  "mask_within obj pos n =
     (if length obj \<le> pos then False
      else if and (obj ! pos) 0x80 = 0 then True
      else if 16 < n + 1 then False
      else mask_within obj (pos + 1) (n + 1))"
  by pat_completeness auto

termination mask_within
  by (relation "measure (\<lambda>(obj, pos, n). length obj - pos)") auto

function read_present :: "u8 list \<Rightarrow> usize \<Rightarrow> bool list \<Rightarrow> bool list \<times> usize" where
  "read_present obj bp present =
     (if length obj \<le> bp then (present, bp)
      else
        let b = obj ! bp; present' = present @ map (\<lambda>k. and (drop_bit k b) 1 = 1) [0..<7] in
        if and b 0x80 = 0 then (present', bp + 1) else read_present obj (bp + 1) present')"
  by pat_completeness auto

termination read_present
  by (relation "measure (\<lambda>(obj, bp, present). length obj - bp)") auto

declare mask_within.simps [simp del] read_present.simps [simp del]

primrec number_slots :: "bool list \<Rightarrow> nat \<Rightarrow> nat option list" where
  "number_slots [] i = []"
| "number_slots (p # ps) i = (if p then Some i # number_slots ps (i + 1) else None # number_slots ps i)"

definition read_slot_i64 :: "u8 list \<Rightarrow> usize \<Rightarrow> nat option list \<Rightarrow> nat \<Rightarrow> i64 option" where
  "read_slot_i64 obj ot_start slot_to_ot slot =
     Option.bind (Option.bind (get_at slot_to_ot slot) id) (\<lambda>i.
     if length obj < ot_start + i * 2 + 2 then None
     else Option.bind (get_u16 obj (ot_start + i * 2)) (\<lambda>rel.
          if length obj < unat rel + 8 then None else get_u64 obj (unat rel)))"

definition extract_trace_span_id :: "u8 list \<Rightarrow> (u128 \<times> u64) option" where
  "extract_trace_span_id obj =
     (if \<not> mask_within obj 8 0 then None
      else let (present, ot_start) = read_present obj 8 [] in
        if length obj < ot_start + length (filter id present) * 2 then None
        else let rd = read_slot_i64 obj ot_start (number_slots present 0) in
          Option.bind (rd 0) (\<lambda>hi. Option.bind (rd 1) (\<lambda>lo. Option.bind (rd 2) (\<lambda>span_id.
          Some (trace_id_of hi lo, span_id)))))"

text \<open>The scan over the records of the file from \<open>pos\<close> on.\<close>

function scan_records :: "u8 list \<Rightarrow> nat \<Rightarrow> wal_entry list \<Rightarrow> nat \<Rightarrow> wal_entry list \<times> nat" where
  "scan_records file pos index n =
     (if length file < pos + 8 then (index, n)
      else if u32_of_le (seg file pos (pos + 4)) \<noteq> MAGIC_OBJ then (index, n)
      else let len = unat (u32_of_le (seg file (pos + 4) (pos + 8))) in
        if len < 8 \<or> MAX_RECORD_BYTES < len \<or> length file < pos + len then (index, n)
        else scan_records file (pos + len)
          (case extract_trace_span_id (seg file pos (pos + len)) of
             None \<Rightarrow> index
           | Some (t, i) \<Rightarrow> index @ [\<lparr>we_trace_id = t, we_span_id = i, we_offset = pos\<rparr>])
          (n + 1))"
  by pat_completeness auto

termination scan_records
  by (relation "measure (\<lambda>(file, pos, index, n). length file - pos)") auto

declare scan_records.simps [simp del]

definition eof_error :: nxs_error where
  "eof_error = IoError ''failed to fill whole buffer''"

definition wal_recover :: "span_wal \<Rightarrow> span_wal res" where
  "wal_recover wl =
     (let file = wl_disk wl in
      if length file < 8 then Err eof_error
      else if u32_of_le (seg file 0 4) \<noteq> MAGIC_WAL then Err BadMagic
      else if length file < 12 then Err eof_error
      else let schema_len = unat (u32_of_le (seg file 8 12));
               (index, n) = scan_records file (12 + schema_len) [] 0 in
        Ok (wl\<lparr>wl_index := index, wl_count := n, wl_offset := length file\<rparr>))"

section \<open>Sealing\<close>

primrec find_map :: "('a \<Rightarrow> 'b option) \<Rightarrow> 'a list \<Rightarrow> 'b option" where
  "find_map f [] = None"
| "find_map f (x # xs) = (case f x of Some y \<Rightarrow> Some y | None \<Rightarrow> find_map f xs)"

definition field_i64 :: "(rstring \<times> decoded_value) list \<Rightarrow> string \<Rightarrow> i64 option" where
  "field_i64 fs name = find_map (\<lambda>(k, v). if k = bstr name then
     (case v of DInt i \<Rightarrow> Some i | DTime i \<Rightarrow> Some i | _ \<Rightarrow> None) else None) fs"

definition field_str :: "(rstring \<times> decoded_value) list \<Rightarrow> string \<Rightarrow> rstring" where
  "field_str fs name = (case find_map (\<lambda>(k, v). if k = bstr name then
     (case v of DStr t \<Rightarrow> Some t | _ \<Rightarrow> None) else None) fs of Some t \<Rightarrow> t | None \<Rightarrow> [])"

definition field_bytes :: "(rstring \<times> decoded_value) list \<Rightarrow> string \<Rightarrow> u8 list option" where
  "field_bytes fs name = find_map (\<lambda>(k, v). if k = bstr name then
     (case v of DBinary b \<Rightarrow> Some b | _ \<Rightarrow> None) else None) fs"

definition field_null :: "(rstring \<times> decoded_value) list \<Rightarrow> string \<Rightarrow> bool" where
  "field_null fs name = list_ex (\<lambda>(k, v). k = bstr name \<and> v = DNull) fs"

definition decode_span_object :: "u8 list \<Rightarrow> span_fields option res" where
  "decode_span_object obj =
     (case decode_record_at obj 0 span_keys span_sigils of
        Panic \<Rightarrow> Panic
      | Err _ \<Rightarrow> Ok None
      | Ok fs \<Rightarrow> Ok (
          Option.bind (field_i64 fs ''trace_id_hi'') (\<lambda>hi.
          Option.bind (field_i64 fs ''trace_id_lo'') (\<lambda>lo.
          Option.bind (field_i64 fs ''span_id'') (\<lambda>i.
          let or0 = (\<lambda>x. case x of Some v \<Rightarrow> v | None \<Rightarrow> 0) in
          Some \<lparr>sp_trace_hi = hi, sp_trace_lo = lo, sp_span_id = i,
                sp_parent = (if field_null fs ''parent_span_id'' then None
                             else case field_i64 fs ''parent_span_id'' of
                                    Some v \<Rightarrow> if v \<noteq> 0 then Some v else None | None \<Rightarrow> None),
                sp_name = field_str fs ''name'', sp_service = field_str fs ''service'',
                sp_start = or0 (field_i64 fs ''start_time_ns''), sp_duration = or0 (field_i64 fs ''duration_ns''),
                sp_status = or0 (field_i64 fs ''status_code''), sp_payload = field_bytes fs ''payload''\<rparr>)))))"

text \<open>Seek to an entry and read its object.\<close>

definition read_entry :: "u8 list \<Rightarrow> nat \<Rightarrow> u8 list res" where
  "read_entry file off =
     (if length file < off + 8 then Err eof_error
      else let len = unat (u32_of_le (seg file (off + 4) (off + 8))) in
        if len < 8 then Panic
        else if length file < off + len then Err eof_error
        else Ok (seg file off (off + len)))"

fun replay :: "u8 list \<Rightarrow> wal_entry list \<Rightarrow> nxs_writer \<Rightarrow> nxs_writer res" where
  "replay file [] w = Ok w"
| "replay file (e # es) w =
     rbind (read_entry file (we_offset e)) (\<lambda>obj.
     rbind (decode_span_object obj) (\<lambda>sp.
     case sp of None \<Rightarrow> replay file es w
              | Some sp \<Rightarrow> rbind (write_record (span_values sp) w) (replay file es)))"

definition wal_seal :: "span_wal \<Rightarrow> (span_wal \<times> u8 list \<times> nat) res" where
  "wal_seal wl =
     (let wl = wal_flush wl in
      rbind (replay (wl_disk wl) (wl_index wl) (new_writer span_schema)) (\<lambda>w.
      rbind (finish w) (\<lambda>nxb. Ok (wl, nxb, wl_count wl))))"

end
