(* ===== verification/Wal_Recovery.thy ===== *)
theory Wal_Recovery
  imports Wal Compile_Decode
begin

text \<open>
  Crash recovery of the write-ahead log (\<^verbatim>\<open>rust/src/wal.rs\<close>): what \<open>append\<close> writes, the scan of
  \<open>recover\<close> finds again.
\<close>

section \<open>The data sector of a sealed file\<close>

lemma skip_names_at:
  assumes "\<forall>k \<in> set ks. nul_free k" and "pos = length pre"
  shows "skip_names (length ks) (pre @ concat (map (\<lambda>k. k @ [0]) ks) @ post) pos
     = pos + length (concat (map (\<lambda>k. k @ [0]) ks))"
  using assms
proof (induction ks arbitrary: pre pos)
  case (Cons k ks)
  have "cstr_end (pre @ concat (map (\<lambda>k. k @ [0]) (k # ks)) @ post) pos = pos + length k"
    using cstr_end_at[of k pre "concat (map (\<lambda>k. k @ [0]) ks) @ post"] Cons.prems by simp
  moreover have "skip_names (length ks) ((pre @ k @ [0]) @ concat (map (\<lambda>k. k @ [0]) ks) @ post) (pos + length k + 1)
      = pos + length k + 1 + length (concat (map (\<lambda>k. k @ [0]) ks))"
    by (rule Cons.IH) (use Cons.prems in simp_all)
  ultimately show ?case by simp
qed simp

lemma build_schema_parts:
  obtains sg fill where "build_schema keys sigils =
      u16_le (word_of_nat (length keys)) @ sg @ concat (map (\<lambda>k. k @ [0]) keys) @ fill" "length sg = length keys"
proof -
  let ?sg = "map (\<lambda>i. let s = get_or_zero sigils i in if s = 0 then SIGIL_STR else s) [0..<length keys]"
  have "\<exists>fill. build_schema keys sigils
      = u16_le (word_of_nat (length keys)) @ ?sg @ concat (map (\<lambda>k. k @ [0]) keys) @ fill"
    by (simp only: build_schema_def pad8_def append_assoc) blast
  then show thesis by (elim exE) (rule that, assumption, simp)
qed

lemma extract_data_sector_seg:
  assumes "44 \<le> length f" and "rd_u64 f 16 = Ok 0" and "rd_u64 f (length f - 12) = Ok tp" and "unat tp \<le> length f"
    and "rd_u16 f 32 = Ok kc" and "align8 (skip_names (unat kc) f (34 + unat kc)) = p" and "p \<le> unat tp"
  shows "extract_data_sector f = Ok (seg f p (unat tp))"
  using assms by (simp add: extract_data_sector_def Let_def)

lemma extract_data_sector_at:
  assumes "\<forall>k \<in> set keys. nul_free k" and "length keys < 65536"
    and "length pre = 32" and "seg pre 16 24 = u64_le 0"
    and "tail = t0 @ u64_le tp @ u32_le m" and "unat tp = 32 + length (build_schema keys sigils) + length data"
    and "fits (pre @ build_schema keys sigils @ data @ tail)"
  shows "extract_data_sector (pre @ build_schema keys sigils @ data @ tail) = Ok data"
proof -
  let ?f = "pre @ build_schema keys sigils @ data @ tail"
  obtain sg fill where sb: "build_schema keys sigils =
      u16_le (word_of_nat (length keys)) @ sg @ concat (map (\<lambda>k. k @ [0]) keys) @ fill" and sg: "length sg = length keys"
    by (rule build_schema_parts)
  have pos: "32 + length (build_schema keys sigils) \<le> length ?f" using assms(3) by simp
  have z: "rd_u64 ?f 16 = Ok 0"
    using assms(3,4,7) by (simp add: rd_Ok seg_append_left)
  have tl: "rd_u64 ?f (length ?f - 12) = Ok tp"
    by (rule u64c.rd_at[OF assms(7), of "pre @ build_schema keys sigils @ data @ t0" _ "u32_le m"]) (simp_all add: assms(5))
  have kc: "rd_u16 ?f 32 = Ok (word_of_nat (length keys))"
    by (rule u16c.rd_at[OF assms(7), of pre]) (simp_all add: sb assms(3))
  have n: "unat (word_of_nat (length keys) :: u16) = length keys" using assms(2) by (simp add: unat_of_nat)
  have "skip_names (length keys) ((pre @ u16_le (word_of_nat (length keys)) @ sg) @ concat (map (\<lambda>k. k @ [0]) keys)
        @ (fill @ data @ tail)) (34 + length keys)
      = 34 + length keys + length (concat (map (\<lambda>k. k @ [0]) keys))"
    by (rule skip_names_at[OF assms(1)]) (simp add: assms(3) sg)
  then have sk: "skip_names (length keys) ?f (34 + length keys) = 32 + schema_len keys"
    by (simp add: sb schema_len_def)
  have al: "align8 (32 + schema_len keys) = 32 + length (build_schema keys sigils)"
    unfolding length_build_schema align8_def by presburger
  have ps: "align8 (skip_names (unat (word_of_nat (length keys) :: u16)) ?f (34 + unat (word_of_nat (length keys) :: u16)))
      = 32 + length (build_schema keys sigils)"
    by (simp only: n sk al)
  have "extract_data_sector ?f = Ok (seg ?f (32 + length (build_schema keys sigils)) (unat tp))"
    by (rule extract_data_sector_seg[OF _ z tl _ kc ps]) (use assms(3,5,6) in simp_all)
  also have "seg ?f (32 + length (build_schema keys sigils)) (unat tp) = data"
    by (rule seg_at[of _ "pre @ build_schema keys sigils" _ tail]) (simp_all add: assms(3,6))
  finally show ?thesis .
qed

lemma data_sector_of_finish:
  assumes "w_compact w = None" and "w_schema w = new_schema keys"
    and "\<forall>k \<in> set keys. nul_free k" and "length keys < 65536"
    and "48 + align8 (schema_len keys) + length (w_buf w) + length (w_record_offsets w) * 10 < 2 ^ 63"
  shows "rbind (finish w) extract_data_sector = Ok (w_buf w)"
proof -
  let ?sb = "build_schema keys (w_slot_sigils w)"
  let ?tp = "word_of_nat (32 + length ?sb + length (w_buf w)) :: u64"
  have "unat ?tp = 32 + length ?sb + length (w_buf w)"
    using assms(5) by (subst unat_of_nat_u64) (simp_all add: length_build_schema lims)
  moreover have "fits (file_preamble VERSION FLAG_SCHEMA_EMBEDDED ?sb @ ?sb @ w_buf w
      @ build_tail_index_records (absolute ?sb (w_record_offsets w)) ?tp)"
    using assms(5) by (simp add: length_tail_index length_build_schema absolute_def lims)
  moreover obtain t0 where "build_tail_index_records (absolute ?sb (w_record_offsets w)) ?tp
      = t0 @ u64_le ?tp @ u32_le MAGIC_FOOTER" by (rule tail_index_end)
  ultimately show ?thesis
    unfolding finish_plain[OF assms(1,2)] Let_def rbind.simps
    by (intro extract_data_sector_at[OF assms(3,4)] preamble_tail length_preamble)
qed

section \<open>The object of a span\<close>

abbreviation span_bytes :: "span_fields \<Rightarrow> u8 list" where
  "span_bytes sp \<equiv> all_bytes (span_values sp)"

definition span_object :: "span_fields \<Rightarrow> u8 list" where
  "span_object sp = writer_object 10 (span_values sp)"

lemma slots_span: "slots_of (span_values sp) = [0..<9] @ (if sp_payload sp = None then [] else [9])"
  by (simp add: span_values_def upt_rec split: option.splits)

lemma span_slots_ok:
  "\<forall>k \<in> set (slots_of (span_values sp)). k < 10" "distinct (map fst (span_values sp))"
  by (simp_all only: slots_span) (auto simp: span_values_def split: option.splits)

lemma span_mask:
  "build_bitmask_bytes (present_bits 10 (span_values sp)) = [255, if sp_payload sp = None then 3 else 7]"
  unfolding slots_span by (cases "sp_payload sp = None"; simp only: if_True if_False refl; code_simp)

lemma head_len_span: "head_len 10 = 32"
  by code_simp

lemma span_bytes_front:
  obtains rest where "span_bytes sp = u64_le (sp_trace_hi sp) @ u64_le (sp_trace_lo sp) @ u64_le (sp_span_id sp) @ rest"
  by (rule that) (simp only: span_values_def append_assoc append_Cons list.map concat.simps
      value_bytes.simps snd_conv append_Nil)

lemma span_slots_filter: "filter (\<lambda>k. k \<in> set (slots_of (span_values sp))) [0..<10] = slots_of (span_values sp)"
  unfolding slots_span by (cases "sp_payload sp = None"; simp only: if_True if_False refl; code_simp)

lemma span_table:
  obtains tl where "slot_table 10 32 (span_values sp) = 32 # 40 # 48 # tl"
    "length tl = (if sp_payload sp = None then 6 else 7)"
proof -
  let ?t = "slot_table 10 32 (span_values sp)"
  have t: "?t = map (\<lambda>k. word_of_nat (the (map_of (zip (slots_of (span_values sp)) (starts 32 (span_values sp))) k)))
      (slots_of (span_values sp))"
    by (simp only: slot_table_def span_slots_filter)
  then have len: "length ?t = 9 + (if sp_payload sp = None then 0 else 1)" unfolding slots_span by simp
  have "?t ! 0 = 32" "?t ! 1 = 40" "?t ! 2 = 48"
    unfolding t by (simp_all add: span_values_def)
  moreover have "?t = ?t ! 0 # ?t ! 1 # ?t ! 2 # drop 3 ?t"
    using len by (simp add: Cons_nth_drop_Suc numeral_3_eq_3 numeral_2_eq_2)
  ultimately show thesis using that[of "drop 3 ?t"] len by simp
qed

lemma span_object_parts:
  obtains m tl fill rest where "span_object sp = (u32_le MAGIC_OBJ @ u32_le (word_of_nat (32 + length (span_bytes sp))))
      @ [255, m] @ concat (map u16_le (32 # 40 # 48 # tl)) @ fill
      @ u64_le (sp_trace_hi sp) @ u64_le (sp_trace_lo sp) @ u64_le (sp_span_id sp) @ rest"
    "16 + length tl * 2 + length fill = 32" "m = 3 \<and> length tl = 6 \<or> m = 7 \<and> length tl = 7"
proof -
  obtain fill where o: "writer_object 10 (span_values sp) = (u32_le MAGIC_OBJ @ u32_le (word_of_nat (head_len 10 + length (span_bytes sp))))
      @ build_bitmask_bytes (present_bits 10 (span_values sp)) @ concat (map u16_le (slot_table 10 (head_len 10) (span_values sp)))
      @ fill @ span_bytes sp"
    "8 + length (build_bitmask_bytes (present_bits 10 (span_values sp)))
      + length (slot_table 10 (head_len 10) (span_values sp)) * 2 + length fill = head_len 10"
    by (rule writer_object_parts[OF _ span_slots_ok]) simp_all
  obtain rest where r: "span_bytes sp = u64_le (sp_trace_hi sp) @ u64_le (sp_trace_lo sp) @ u64_le (sp_span_id sp) @ rest"
    by (rule span_bytes_front)
  obtain tl where t: "slot_table 10 32 (span_values sp) = 32 # 40 # 48 # tl"
    "length tl = (if sp_payload sp = None then 6 else 7)" by (rule span_table)
  show thesis
  proof (rule that)
    show "span_object sp = (u32_le MAGIC_OBJ @ u32_le (word_of_nat (32 + length (span_bytes sp))))
      @ [255, if sp_payload sp = None then 3 else 7] @ concat (map u16_le (32 # 40 # 48 # tl)) @ fill
      @ u64_le (sp_trace_hi sp) @ u64_le (sp_trace_lo sp) @ u64_le (sp_span_id sp) @ rest"
      by (simp only: span_object_def o(1) span_mask head_len_span t(1) r[symmetric])
    show "16 + length tl * 2 + length fill = 32"
      using o(2) unfolding span_mask head_len_span t(1) by simp
  qed (use t(2) in simp)
qed

lemma length_span_object: "length (span_object sp) = 32 + length (span_bytes sp)"
  using length_writer_object[OF _ span_slots_ok, of sp] by (simp add: span_object_def head_len_span)

lemma u16_at:
  assumes "fits d" and "d = xs @ u16_le v @ ys" and "p = length xs"
  shows "get_u16 d p = Some v"
proof -
  have "seg d p (p + 2) = u16_le v" by (rule seg_at[OF assms(2,3)]) simp
  then show ?thesis using assms by (simp add: get_uint_Some)
qed

lemma u64_at:
  assumes "fits d" and "d = xs @ u64_le v @ ys" and "p = length xs"
  shows "get_u64 d p = Some v"
proof -
  have "seg d p (p + 8) = u64_le v" by (rule seg_at[OF assms(2,3)]) simp
  then show ?thesis using assms by (simp add: get_uint_Some)
qed

text \<open>The identity of a span is found in its object, whatever its strings and its payload.\<close>

lemma extract_span_id:
  assumes "fits (span_object sp)"
  shows "extract_trace_span_id (span_object sp) = Some (trace_id_of (sp_trace_hi sp) (sp_trace_lo sp), sp_span_id sp)"
proof -
  obtain m tl fill rest where o: "span_object sp = (u32_le MAGIC_OBJ @ u32_le (word_of_nat (32 + length (span_bytes sp))))
      @ [255, m] @ concat (map u16_le (32 # 40 # 48 # tl)) @ fill
      @ u64_le (sp_trace_hi sp) @ u64_le (sp_trace_lo sp) @ u64_le (sp_span_id sp) @ rest"
    and l: "16 + length tl * 2 + length fill = 32" and m: "m = 3 \<and> length tl = 6 \<or> m = 7 \<and> length tl = 7"
    by (rule span_object_parts)
  define h where "h = u32_le MAGIC_OBJ @ u32_le (word_of_nat (32 + length (span_bytes sp)))"
  define d where "d = span_object sp"
  define hd where "hd = h @ [255, m] @ concat (map u16_le (32 # 40 # 48 # tl)) @ fill"
  have lh: "length h = 8" and lhd: "length hd = 32" using l by (simp_all add: h_def hd_def u16c.length_array)
  have d1: "d = h @ [255, m] @ concat (map u16_le (32 # 40 # 48 # tl)) @ fill
      @ u64_le (sp_trace_hi sp) @ u64_le (sp_trace_lo sp) @ u64_le (sp_span_id sp) @ rest"
    unfolding d_def o h_def ..
  then have d2: "d = hd @ u64_le (sp_trace_hi sp) @ u64_le (sp_trace_lo sp) @ u64_le (sp_span_id sp) @ rest"
    by (simp add: hd_def)
  have fits: "fits d" using assms by (simp add: d_def)
  have b: "d ! 8 = 255" "d ! 9 = m" unfolding d1 using lh by (simp_all add: nth_append)
  have ld: "length d = 56 + length rest" unfolding d2 using lhd by simp
  have off: "get_u16 d 10 = Some 32" "get_u16 d 12 = Some 40" "get_u16 d 14 = Some 48"
    by (rule u16_at[OF fits, of "h @ [255, m]"], simp add: d1, simp add: lh,
        rule u16_at[OF fits, of "h @ [255, m] @ u16_le 32"], simp add: d1, simp add: lh,
        rule u16_at[OF fits, of "h @ [255, m] @ u16_le 32 @ u16_le 40"], simp add: d1, simp add: lh)
  have val: "get_u64 d 32 = Some (sp_trace_hi sp)" "get_u64 d 40 = Some (sp_trace_lo sp)" "get_u64 d 48 = Some (sp_span_id sp)"
    by (rule u64_at[OF fits, of hd], simp add: d2, simp add: lhd,
        rule u64_at[OF fits, of "hd @ u64_le (sp_trace_hi sp)"], simp add: d2, simp add: lhd,
        rule u64_at[OF fits, of "hd @ u64_le (sp_trace_hi sp) @ u64_le (sp_trace_lo sp)"], simp add: d2, simp add: lhd)
  have hi: "and m 0x80 = 0" "and (255 :: u8) 0x80 \<noteq> 0" using m by auto
  have w: "mask_within d 8 0"
    using ld b hi by (simp add: mask_within.simps)
  define bits where "bits = map (\<lambda>k. and (drop_bit k (255 :: u8)) 1 = 1) [0..<7] @ map (\<lambda>k. and (drop_bit k m) 1 = 1) [0..<7]"
  have r: "read_present d 8 [] = (bits, 10)"
    using ld b hi by (simp add: read_present.simps bits_def)
  have n: "length (filter id bits) * 2 \<le> 20" "take 3 (number_slots bits 0) = [Some 0, Some 1, Some 2]"
  proof -
    have "length (filter id bits) * 2 \<le> 20 \<and> take 3 (number_slots bits 0) = [Some 0, Some 1, Some 2]"
      if "m = 3" unfolding bits_def that by code_simp
    moreover have "length (filter id bits) * 2 \<le> 20 \<and> take 3 (number_slots bits 0) = [Some 0, Some 1, Some 2]"
      if "m = 7" unfolding bits_def that by code_simp
    ultimately show "length (filter id bits) * 2 \<le> 20" "take 3 (number_slots bits 0) = [Some 0, Some 1, Some 2]"
      using m by blast+
  qed
  then obtain ns where ns: "number_slots bits 0 = Some 0 # Some 1 # Some 2 # ns"
    by (metis append_Cons append_Nil append_take_drop_id)
  show ?thesis
    unfolding d_def[symmetric] extract_trace_span_id_def r
    using w n(1) ld off val by (simp add: ns read_slot_i64_def get_at_def Let_def)
qed

text \<open>What \<open>append\<close> writes for a span.\<close>

lemma encode_span_object:
  assumes "32 + length (span_bytes sp) < 2 ^ 32"
  shows "encode_span sp = Ok (span_object sp)"
proof -
  let ?w = "new_writer span_schema"
  have w: "w_compact ?w = None" "w_schema ?w = new_schema span_keys" "w_buf ?w = []" "w_frames ?w = []" "w_record_offsets ?w = []"
    by (simp_all add: new_writer_def writer_with_compact_def Let_def span_schema_def)
  have k: "length span_keys = 10" "span_keys \<noteq> []" "align8 (schema_len span_keys) = 120" "list_all nul_free span_keys"
    by code_simp+
  have "length (w_buf ?w) + head_len (length span_keys) + length (span_bytes sp) < 2 ^ 32"
    using assms by (simp add: w(3) k(1) head_len_span)
  from write_record_object[OF w(1,2) k(2) _ span_slots_ok(2) this] span_slots_ok(1)
  obtain w' where w': "write_record (span_values sp) ?w = Ok w'" "w_buf w' = span_object sp" "w_schema w' = new_schema span_keys"
    "w_compact w' = None" "w_record_offsets w' = [0]"
    by (auto simp: k(1) w span_object_def)
  have "rbind (finish w') extract_data_sector = Ok (w_buf w')"
    using assms k(4) by (intro data_sector_of_finish[OF w'(4,3)])
      (simp_all add: list_all_iff k(1) k(3) w'(2,5) length_span_object)
  then show ?thesis by (simp add: encode_span_def w'(1,2))
qed

section \<open>The scan\<close>

text \<open>The index over spans whose objects lie one behind the other from \<open>p\<close> on.\<close>

definition span_entry :: "nat \<Rightarrow> span_fields \<Rightarrow> wal_entry" where
  "span_entry p sp = \<lparr>we_trace_id = trace_id_of (sp_trace_hi sp) (sp_trace_lo sp), we_span_id = sp_span_id sp, we_offset = p\<rparr>"

primrec span_index :: "nat \<Rightarrow> span_fields list \<Rightarrow> wal_entry list" where
  "span_index p [] = []"
| "span_index p (sp # sps) = span_entry p sp # span_index (p + length (span_object sp)) sps"

abbreviation objects :: "span_fields list \<Rightarrow> u8 list" where
  "objects sps \<equiv> concat (map span_object sps)"

text \<open>The spans that the scan accepts: the guard against runaway lengths.\<close>

definition span_ok :: "span_fields \<Rightarrow> bool" where
  "span_ok sp \<longleftrightarrow> 32 + length (span_bytes sp) \<le> MAX_RECORD_BYTES"

lemma span_index_append:
  "span_index p (sps @ sqs) = span_index p sps @ span_index (p + length (objects sps)) sqs"
  by (induction sps arbitrary: p) (simp_all add: add.assoc)

lemma span_index_take: "span_index p (take k sps) = take k (span_index p sps)"
  by (induction sps arbitrary: p k) (simp_all add: take_Cons split: nat.splits)

text \<open>Where the first \<open>k\<close> records end.\<close>

definition record_end :: "nat \<Rightarrow> span_fields list \<Rightarrow> nat \<Rightarrow> nat" where
  "record_end p sps k = p + length (objects (take k sps))"

lemma span_index_nth: "i < length sps \<Longrightarrow> we_offset (span_index p sps ! i) = record_end p sps i"
  by (induction sps arbitrary: p i) (auto simp: record_end_def span_entry_def nth_Cons take_Cons split: nat.splits)

lemma record_end_mono: "i \<le> j \<Longrightarrow> record_end p sps i \<le> record_end p sps j"
proof (induction sps arbitrary: p i j)
  case (Cons sp sps)
  then show ?case by (cases i; cases j) (simp_all add: record_end_def)
qed (simp add: record_end_def)

lemma record_end_torn:
  assumes "k = length sps \<and> torn = [] \<or> k < length sps \<and> length torn < length (span_object (sps ! k))"
    and "k \<le> length sps" and "i < length sps"
  shows "(record_end p sps (i + 1) \<le> record_end p sps k + length torn) = (i < k)"
proof (cases "i < k")
  case True
  then show ?thesis using record_end_mono[of "i + 1" k p sps] by simp
next
  case False
  then have "k < length sps" "length torn < length (span_object (sps ! k))" using assms by auto
  then have "record_end p sps k + length torn < record_end p sps (k + 1)"
    by (simp add: record_end_def take_Suc_conv_app_nth)
  also have "\<dots> \<le> record_end p sps (i + 1)" using False by (intro record_end_mono) simp
  finally show ?thesis using False by simp
qed

lemma length_span_index [simp]: "length (span_index p sps) = length sps"
  by (induction sps arbitrary: p) simp_all

lemma object_head:
  obtains rest where "span_object sp = u32_le MAGIC_OBJ @ u32_le (word_of_nat (length (span_object sp))) @ rest"
proof (rule span_object_parts[of sp])
  fix m tl fill rest
  assume "span_object sp = (u32_le MAGIC_OBJ @ u32_le (word_of_nat (32 + length (span_bytes sp))))
      @ [255, m] @ concat (map u16_le (32 # 40 # 48 # tl)) @ fill
      @ u64_le (sp_trace_hi sp) @ u64_le (sp_trace_lo sp) @ u64_le (sp_span_id sp) @ rest"
  then show thesis unfolding length_span_object[symmetric] append_assoc by (rule that)
qed

lemma span_ok_bounds:
  assumes "span_ok sp"
  shows "8 \<le> length (span_object sp)" "length (span_object sp) \<le> MAX_RECORD_BYTES"
    "unat (word_of_nat (length (span_object sp)) :: u32) = length (span_object sp)" "fits (span_object sp)"
proof -
  have l: "length (span_object sp) \<le> 10 * 1024 * 1024" "8 \<le> length (span_object sp)"
    using assms by (simp_all add: span_ok_def length_span_object MAX_RECORD_BYTES_def)
  then show "8 \<le> length (span_object sp)" "length (span_object sp) \<le> MAX_RECORD_BYTES" "fits (span_object sp)"
    by (simp_all add: MAX_RECORD_BYTES_def lims)
  show "unat (word_of_nat (length (span_object sp)) :: u32) = length (span_object sp)"
    using l by (simp add: unat_of_nat)
qed

text \<open>The head of a record at \<open>pos\<close>, when enough of it is in the file.\<close>

lemma scan_head:
  assumes "file = pre @ take k (span_object sp) @ post" and "8 \<le> k" and "span_ok sp"
  shows "u32_of_le (seg file (length pre) (length pre + 4)) = MAGIC_OBJ"
    and "unat (u32_of_le (seg file (length pre + 4) (length pre + 8))) = length (span_object sp)"
proof -
  obtain rest where o: "span_object sp = u32_le MAGIC_OBJ @ u32_le (word_of_nat (length (span_object sp))) @ rest"
    by (rule object_head)
  have t: "take k (span_object sp) = u32_le MAGIC_OBJ @ u32_le (word_of_nat (length (span_object sp))) @ take (k - 8) rest"
    by (subst o) (use assms(2) in simp)
  have f: "file = pre @ u32_le MAGIC_OBJ @ u32_le (word_of_nat (length (span_object sp))) @ take (k - 8) rest @ post"
    using assms(1) t by simp
  have "seg file (length pre) (length pre + 4) = u32_le MAGIC_OBJ"
    by (rule seg_at[OF f]) simp_all
  then show "u32_of_le (seg file (length pre) (length pre + 4)) = MAGIC_OBJ" by simp
  have "seg file (length pre + 4) (length pre + 8) = u32_le (word_of_nat (length (span_object sp)))"
    by (rule seg_at[of _ "pre @ u32_le MAGIC_OBJ" _ "take (k - 8) rest @ post"]) (simp_all add: f)
  then show "unat (u32_of_le (seg file (length pre + 4) (length pre + 8))) = length (span_object sp)"
    using span_ok_bounds(3)[OF assms(3)] by simp
qed

lemma scan_one:
  assumes "span_ok sp" and "file = pre @ span_object sp @ post" and "p = length pre"
  shows "scan_records file p ix n
     = scan_records file (p + length (span_object sp)) (ix @ [span_entry p sp]) (n + 1)"
proof -
  note b = span_ok_bounds[OF assms(1)]
  have f: "file = pre @ take (length (span_object sp)) (span_object sp) @ post" by (simp add: assms(2))
  note h = scan_head[OF f b(1) assms(1), folded assms(3)]
  have sg: "seg file p (p + length (span_object sp)) = span_object sp"
    by (rule seg_at[OF assms(2)]) (simp_all add: assms(3))
  have le: "p + length (span_object sp) \<le> length file" by (simp add: assms(2,3))
  show ?thesis
    by (subst scan_records.simps)
      (use b h le in \<open>simp add: Let_def sg extract_span_id span_entry_def del: scan_records.simps\<close>)
qed

lemma scan_all:
  assumes "\<forall>sp \<in> set sps. span_ok sp" and "p = length pre"
  shows "scan_records (pre @ objects sps @ post) p ix n
     = scan_records (pre @ objects sps @ post) (p + length (objects sps)) (ix @ span_index p sps) (n + length sps)"
  using assms
proof (induction sps arbitrary: pre p ix n)
  case (Cons sp sps)
  let ?f = "pre @ span_object sp @ (objects sps @ post)"
  have "scan_records ?f p ix n = scan_records ?f (p + length (span_object sp)) (ix @ [span_entry p sp]) (n + 1)"
    by (rule scan_one) (use Cons.prems in simp_all)
  also have "\<dots> = scan_records ((pre @ span_object sp) @ objects sps @ post) (p + length (span_object sp)) (ix @ [span_entry p sp]) (n + 1)"
    by simp
  also have "\<dots> = scan_records ((pre @ span_object sp) @ objects sps @ post)
      (p + length (span_object sp) + length (objects sps))
      ((ix @ [span_entry p sp]) @ span_index (p + length (span_object sp)) sps) (n + 1 + length sps)"
    by (rule Cons.IH) (use Cons.prems in simp_all)
  finally show ?case by (simp add: add.assoc)
qed simp

text \<open>A torn record, a proper prefix of an object, ends the scan.\<close>

lemma scan_torn:
  assumes "span_ok sp" and "k < length (span_object sp)" and "p = length pre"
  shows "scan_records (pre @ take k (span_object sp)) p ix n = (ix, n)"
proof (cases "8 \<le> k")
  case True
  have f: "pre @ take k (span_object sp) = pre @ take k (span_object sp) @ []" by simp
  note h = scan_head[OF f True assms(1), folded assms(3)]
  show ?thesis
    using span_ok_bounds(2)[OF assms(1)] assms(2,3) h True
    by (subst scan_records.simps) (simp add: Let_def)
next
  case False
  then show ?thesis using assms by (subst scan_records.simps) simp
qed

lemma scan_end: "length file < p + 8 \<Longrightarrow> scan_records file p ix n = (ix, n)"
  by (subst scan_records.simps) simp

section \<open>Recovery\<close>

lemma length_wal_schema: "length wal_schema_bytes = 120" and data_start: "wl_data_start (wal_open file) = 132"
proof -
  show "length wal_schema_bytes = 120" by code_simp
  then show "wl_data_start (wal_open file) = 132" by (simp add: wal_open_def Let_def)
qed

lemma length_wal_header [simp]: "length wal_header = 132"
  by (simp add: wal_header_def length_wal_schema)

lemma header_fields:
  "u32_of_le (seg (wal_header @ rest) 0 4) = MAGIC_WAL" "unat (u32_of_le (seg (wal_header @ rest) 8 12)) = 120"
proof -
  have "seg (wal_header @ rest) 0 4 = u32_le MAGIC_WAL"
    unfolding wal_header_def by (rule seg_at[of _ "[]" _ "u16_le WAL_VERSION @ u16_le WAL_FLAG_SCHEMA_EMBEDDED
        @ u32_le (word_of_nat (length wal_schema_bytes)) @ wal_schema_bytes @ rest"]) simp_all
  then show "u32_of_le (seg (wal_header @ rest) 0 4) = MAGIC_WAL" by simp
  have "seg (wal_header @ rest) 8 12 = u32_le (word_of_nat (length wal_schema_bytes))"
    unfolding wal_header_def by (rule seg_at[of _ "u32_le MAGIC_WAL @ u16_le WAL_VERSION @ u16_le WAL_FLAG_SCHEMA_EMBEDDED"
        _ "wal_schema_bytes @ rest"]) simp_all
  then show "unat (u32_of_le (seg (wal_header @ rest) 8 12)) = 120" by (simp add: length_wal_schema)
qed

text \<open>Recovery of a log whose records are followed by what ends the scan.\<close>

lemma recover_scan:
  assumes "wl_disk wl = wal_header @ objects sps @ torn" and "\<forall>sp \<in> set sps. span_ok sp"
    and "scan_records (wl_disk wl) (132 + length (objects sps)) (span_index 132 sps) (length sps)
      = (span_index 132 sps, length sps)"
  shows "wal_recover wl = Ok (wl\<lparr>wl_index := span_index 132 sps, wl_count := length sps, wl_offset := length (wl_disk wl)\<rparr>)"
proof -
  have "scan_records (wl_disk wl) 132 [] 0 = (span_index 132 sps, length sps)"
    using scan_all[OF assms(2), of 132 wal_header torn "[]" 0] assms(3) by (simp add: assms(1))
  moreover have "12 \<le> length (wl_disk wl)" by (simp add: assms(1))
  ultimately show ?thesis using header_fields[of "objects sps @ torn"]
    by (simp add: wal_recover_def Let_def assms(1))
qed

lemma cut_objects:
  "j \<le> length (objects sps) \<Longrightarrow> \<exists>k \<le> length sps. \<exists>torn. take j (objects sps) = objects (take k sps) @ torn
     \<and> (k = length sps \<and> torn = []
        \<or> k < length sps \<and> (\<exists>m < length (span_object (sps ! k)). torn = take m (span_object (sps ! k))))"
proof (induction sps arbitrary: j)
  case (Cons sp sps)
  show ?case
  proof (cases "j < length (span_object sp)")
    case True
    then show ?thesis by (intro exI[of _ 0]) auto
  next
    case False
    with Cons.prems have "j - length (span_object sp) \<le> length (objects sps)" by simp
    from Cons.IH[OF this] obtain k torn where k: "k \<le> length sps"
      "take (j - length (span_object sp)) (objects sps) = objects (take k sps) @ torn"
      "k = length sps \<and> torn = [] \<or> k < length sps \<and> (\<exists>m < length (span_object (sps ! k)). torn = take m (span_object (sps ! k)))"
      by blast
    then show ?thesis using False by (intro exI[of _ "Suc k"]) auto
  qed
qed simp

lemma recover_cut:
  assumes "\<forall>sp \<in> set sps. span_ok sp" and "132 \<le> j" and "j \<le> length (wal_header @ objects sps)"
  obtains k torn where "k \<le> length sps" "take j (wal_header @ objects sps) = wal_header @ objects (take k sps) @ torn"
    "k = length sps \<and> torn = [] \<or> k < length sps \<and> length torn < length (span_object (sps ! k))"
    "wal_recover (wal_open (Some (take j (wal_header @ objects sps)))) =
       Ok ((wal_open (Some (take j (wal_header @ objects sps))))
             \<lparr>wl_index := span_index 132 (take k sps), wl_count := k, wl_offset := j\<rparr>)"
proof -
  let ?file = "take j (wal_header @ objects sps)"
  have "j - 132 \<le> length (objects sps)" using assms(3) by simp
  from cut_objects[OF this] obtain k torn where k: "k \<le> length sps"
    "take (j - 132) (objects sps) = objects (take k sps) @ torn"
    "k = length sps \<and> torn = [] \<or> k < length sps \<and> (\<exists>m < length (span_object (sps ! k)). torn = take m (span_object (sps ! k)))"
    by blast
  have f: "?file = wal_header @ objects (take k sps) @ torn" using assms(2) k(2) by simp
  have d: "wl_disk (wal_open (Some ?file)) = ?file" by (simp add: wal_open_def Let_def)
  have "scan_records (wal_header @ objects (take k sps) @ torn) (132 + length (objects (take k sps))) ix n = (ix, n)" for ix n
    using k(3)
  proof
    assume "k = length sps \<and> torn = []"
    then show ?thesis by (intro scan_end) simp
  next
    assume "k < length sps \<and> (\<exists>m < length (span_object (sps ! k)). torn = take m (span_object (sps ! k)))"
    then obtain m where m: "k < length sps" "m < length (span_object (sps ! k))" "torn = take m (span_object (sps ! k))" by blast
    then show ?thesis
      using scan_torn[of "sps ! k" m _ "wal_header @ objects (take k sps)"] assms(1) by simp
  qed
  moreover have "\<forall>sp \<in> set (take k sps). span_ok sp" using assms(1) by (meson in_set_takeD)
  ultimately have "wal_recover (wal_open (Some ?file)) = Ok ((wal_open (Some ?file))
      \<lparr>wl_index := span_index 132 (take k sps), wl_count := length (take k sps), wl_offset := length ?file\<rparr>)"
    using recover_scan[of "wal_open (Some ?file)" "take k sps" torn] unfolding d unfolding f by blast
  then have "wal_recover (wal_open (Some ?file)) = Ok ((wal_open (Some ?file))
      \<lparr>wl_index := span_index 132 (take k sps), wl_count := k, wl_offset := j\<rparr>)"
    using k(1) assms(3) by (simp add: min_absorb2)
  moreover have "k = length sps \<and> torn = [] \<or> k < length sps \<and> length torn < length (span_object (sps ! k))"
    using k(3) by auto
  ultimately show thesis using that k(1) f by blast
qed

section \<open>The log as a state machine\<close>

text \<open>
  What clients do with a log: append a span, flush, or crash, which loses the buffered bytes; the file
  is then opened and recovered.
\<close>

datatype wal_op = Append span_fields | Flush | Crash

inductive wal_step :: "span_wal \<Rightarrow> wal_op \<Rightarrow> span_wal \<Rightarrow> bool" where
  step_append: "wal_append sp wl = Ok (wl', off) \<Longrightarrow> wal_step wl (Append sp) wl'"
| step_flush: "wal_step wl Flush (wal_flush wl)"
| step_crash: "wal_recover (wal_open (Some (wl_disk wl))) = Ok wl' \<Longrightarrow> wal_step wl Crash wl'"

inductive_cases wal_step_append: "wal_step wl (Append sp) wl'"
inductive_cases wal_step_flush: "wal_step wl Flush wl'"
inductive_cases wal_step_crash: "wal_step wl Crash wl'"

lemmas wal_step_cases = wal_step_append wal_step_flush wal_step_crash

definition op_ok :: "wal_op \<Rightarrow> bool" where
  "op_ok p \<longleftrightarrow> (case p of Append sp \<Rightarrow> span_ok sp | _ \<Rightarrow> True)"

inductive wal_run :: "span_wal \<Rightarrow> wal_op list \<Rightarrow> span_wal \<Rightarrow> bool" where
  run_nil: "wal_run wl [] wl"
| run_step: "wal_run wl ops wl' \<Longrightarrow> wal_step wl' p wl'' \<Longrightarrow> wal_run wl (ops @ [p]) wl''"

text \<open>
  The abstract log: the spans that are safe in the file, and those that are still buffered.  Appending
  may move some of the oldest buffered spans to the file, a crash forgets the buffered ones.
\<close>

record span_log =
  sl_durable :: "span_fields list"
  sl_buffered :: "span_fields list"

inductive log_step :: "span_log \<Rightarrow> wal_op \<Rightarrow> span_log \<Rightarrow> bool" where
  log_append: "ps @ [sp] = ms @ ps' \<Longrightarrow>
     log_step \<lparr>sl_durable = ds, sl_buffered = ps\<rparr> (Append sp) \<lparr>sl_durable = ds @ ms, sl_buffered = ps'\<rparr>"
| log_flush: "log_step \<lparr>sl_durable = ds, sl_buffered = ps\<rparr> Flush \<lparr>sl_durable = ds @ ps, sl_buffered = []\<rparr>"
| log_crash: "log_step \<lparr>sl_durable = ds, sl_buffered = ps\<rparr> Crash \<lparr>sl_durable = ds, sl_buffered = []\<rparr>"

text \<open>The state of the program that stands for an abstract log.\<close>

definition wal_holds :: "span_log \<Rightarrow> span_wal \<Rightarrow> bool" where
  "wal_holds l wl \<longleftrightarrow>
     (\<forall>sp \<in> set (sl_durable l @ sl_buffered l). span_ok sp)
   \<and> wl_disk wl = wal_header @ objects (sl_durable l) \<and> wl_buf wl = objects (sl_buffered l)
   \<and> wl_index wl = span_index 132 (sl_durable l @ sl_buffered l)
   \<and> wl_count wl = length (sl_durable l @ sl_buffered l)
   \<and> wl_offset wl = length (wl_disk wl @ wl_buf wl)"

lemma wal_holds_open: "wal_holds \<lparr>sl_durable = [], sl_buffered = []\<rparr> (wal_open None)"
  by (simp add: wal_holds_def wal_open_def Let_def length_wal_schema)

text \<open>A buffered write moves whole spans only.\<close>

lemma buf_write_moves:
  assumes "wl_buf wl = objects ps"
  obtains ms ps' where "ps @ [sp] = ms @ ps'"
    "buf_write (span_object sp) wl = wl\<lparr>wl_disk := wl_disk wl @ objects ms, wl_buf := objects ps'\<rparr>"
proof -
  let ?o = "span_object sp" and ?room = "BUF_CAPACITY - length (wl_buf wl)"
  consider "length ?o < ?room" | "\<not> length ?o < ?room" "?room < length ?o" "BUF_CAPACITY \<le> length ?o"
    | "\<not> length ?o < ?room" "?room < length ?o" "length ?o < BUF_CAPACITY"
    | "length ?o = ?room" "BUF_CAPACITY \<le> length ?o" | "length ?o = ?room" "length ?o < BUF_CAPACITY"
    by linarith
  then show thesis
  proof cases
    case 1
    then show thesis using assms by (intro that[of "[]" "ps @ [sp]"]) (simp_all add: buf_write_def)
  next
    case 2
    then show thesis using assms by (intro that[of "ps @ [sp]" "[]"]) (simp_all add: buf_write_def Let_def)
  next
    case 3
    then show thesis using assms by (intro that[of ps "[sp]"]) (simp_all add: buf_write_def Let_def)
  next
    case 4
    have "0 < BUF_CAPACITY" by (simp add: BUF_CAPACITY_def)
    with 4 have "wl_buf wl = []" by (cases "wl_buf wl") auto
    then show thesis using 4 assms by (intro that[of "ps @ [sp]" "[]"]) (simp_all add: buf_write_def Let_def)
  next
    case 5
    then show thesis using assms by (intro that[of "[]" "ps @ [sp]"]) (simp_all add: buf_write_def Let_def)
  qed
qed

lemma append_holds:
  assumes "wal_holds \<lparr>sl_durable = ds, sl_buffered = ps\<rparr> wl" and "span_ok sp"
  obtains wl' ms ps' where "wal_append sp wl = Ok (wl', wl_offset wl)" "ps @ [sp] = ms @ ps'"
    "wal_holds \<lparr>sl_durable = ds @ ms, sl_buffered = ps'\<rparr> wl'"
proof -
  have e: "encode_span sp = Ok (span_object sp)"
    using assms(2) by (intro encode_span_object) (simp add: span_ok_def MAX_RECORD_BYTES_def)
  obtain ms ps' where m: "ps @ [sp] = ms @ ps'"
    "buf_write (span_object sp) wl = wl\<lparr>wl_disk := wl_disk wl @ objects ms, wl_buf := objects ps'\<rparr>"
    by (rule buf_write_moves[of wl ps]) (use assms(1) in \<open>auto simp: wal_holds_def\<close>)
  let ?wl' = "wl\<lparr>wl_disk := wl_disk wl @ objects ms, wl_buf := objects ps', wl_offset := wl_offset wl + length (span_object sp),
      wl_index := wl_index wl @ [span_entry (wl_offset wl) sp], wl_count := wl_count wl + 1\<rparr>"
  have a: "wal_append sp wl = Ok (?wl', wl_offset wl)"
    by (simp add: wal_append_def e m(2) Let_def span_entry_def)
  have sets: "set ms \<union> set ps' = set ps \<union> {sp}" using arg_cong[OF m(1), of set] by simp
  have lens: "length (objects ms) + length (objects ps') = length (objects ps) + length (span_object sp)"
    using arg_cong[OF m(1), of "\<lambda>x. length (objects x)"] by simp
  have "wal_holds \<lparr>sl_durable = ds @ ms, sl_buffered = ps'\<rparr> ?wl'"
    unfolding wal_holds_def span_log.simps append_assoc m(1)[symmetric]
    using assms lens sets by (auto simp: wal_holds_def span_index_append add.assoc)
  with a m(1) show thesis by (rule that)
qed

lemma crash_holds:
  assumes "wal_holds \<lparr>sl_durable = ds, sl_buffered = ps\<rparr> wl"
  obtains wl' where "wal_recover (wal_open (Some (wl_disk wl))) = Ok wl'" "wal_holds \<lparr>sl_durable = ds, sl_buffered = []\<rparr> wl'"
proof -
  let ?w = "wal_open (Some (wl_disk wl))"
  have d: "wl_disk ?w = wal_header @ objects ds @ []" and b: "wl_buf ?w = []"
    using assms by (simp_all add: wal_open_def wal_holds_def Let_def)
  have ok: "\<forall>sp \<in> set ds. span_ok sp" using assms by (simp add: wal_holds_def)
  have "wal_recover ?w = Ok (?w\<lparr>wl_index := span_index 132 ds, wl_count := length ds, wl_offset := length (wl_disk ?w)\<rparr>)"
    by (rule recover_scan[OF d ok]) (simp add: scan_end d)
  moreover have "wal_holds \<lparr>sl_durable = ds, sl_buffered = []\<rparr>
      (?w\<lparr>wl_index := span_index 132 ds, wl_count := length ds, wl_offset := length (wl_disk ?w)\<rparr>)"
    using ok by (simp add: wal_holds_def d b)
  ultimately show thesis by (rule that)
qed

lemma flush_holds:
  "wal_holds \<lparr>sl_durable = ds, sl_buffered = ps\<rparr> wl \<Longrightarrow> wal_holds \<lparr>sl_durable = ds @ ps, sl_buffered = []\<rparr> (wal_flush wl)"
  by (simp add: wal_holds_def wal_flush_def)

lemma step_holds:
  assumes "wal_holds l wl" and "wal_step wl p wl'" and "op_ok p"
  shows "\<exists>l'. log_step l p l' \<and> wal_holds l' wl'"
proof -
  obtain ds ps where l: "l = \<lparr>sl_durable = ds, sl_buffered = ps\<rparr>" by (cases l) blast
  from assms(2) show ?thesis
  proof cases
    case (step_append sp off)
    then have "span_ok sp" using assms(3) by (simp add: op_ok_def)
    from append_holds[OF assms(1)[unfolded l] this] step_append show ?thesis
      unfolding l by (metis log_append res.inject(1) prod.inject)
  next
    case step_flush
    then show ?thesis using flush_holds assms(1) log_flush unfolding l by blast
  next
    case step_crash
    with crash_holds[OF assms(1)[unfolded l]] show ?thesis
      unfolding l by (metis log_crash res.inject(1))
  qed
qed

inductive log_run :: "span_log \<Rightarrow> wal_op list \<Rightarrow> span_log \<Rightarrow> bool" where
  log_nil: "log_run l [] l"
| log_cons: "log_run l ops l' \<Longrightarrow> log_step l' p l'' \<Longrightarrow> log_run l (ops @ [p]) l''"

abbreviation empty_log :: span_log where
  "empty_log \<equiv> \<lparr>sl_durable = [], sl_buffered = []\<rparr>"

lemma run_holds:
  assumes "wal_run wl ops wl'" and "wal_holds l wl" and "list_all op_ok ops"
  shows "\<exists>l'. log_run l ops l' \<and> wal_holds l' wl'"
  using assms
proof (induction rule: wal_run.induct)
  case (run_nil wl)
  then show ?case using log_nil by blast
next
  case (run_step wl ops wl' p wl'')
  then obtain l' where "log_run l ops l'" "wal_holds l' wl'" by auto
  with step_holds[of l' wl' p wl''] run_step show ?case by (auto intro: log_cons)
qed

text \<open>Every operation returns: no append is refused, and every crash is recovered from.\<close>

lemma step_progress:
  assumes "wal_holds l wl" and "op_ok p"
  shows "\<exists>wl'. wal_step wl p wl'"
proof -
  obtain ds ps where l: "l = \<lparr>sl_durable = ds, sl_buffered = ps\<rparr>" by (cases l) blast
  show ?thesis
  proof (cases p)
    case (Append sp)
    then have "span_ok sp" using assms(2) by (simp add: op_ok_def)
    from append_holds[OF assms(1)[unfolded l] this] show ?thesis unfolding Append by (blast intro: step_append)
  next
    case Crash
    then show ?thesis using crash_holds[OF assms(1)[unfolded l]] by (auto intro: step_crash)
  qed (use step_flush in blast)
qed

lemma run_progress: "list_all op_ok ops \<Longrightarrow> \<exists>wl. wal_run (wal_open None) ops wl"
proof (induction ops rule: rev_induct)
  case (snoc p ops)
  then obtain wl where "wal_run (wal_open None) ops wl" by auto
  moreover obtain l where "wal_holds l wl"
    using run_holds[OF \<open>wal_run (wal_open None) ops wl\<close> wal_holds_open] snoc.prems by auto
  ultimately show ?case using step_progress[of l wl p] snoc.prems by (auto intro: run_step)
qed (use run_nil in blast)

section \<open>What the log promises\<close>

text \<open>
  C6: The log refines the abstract log.  Whatever appends, flushes and crashes a log has gone through since it
  was created, the abstract log has gone through them too, and the file, the buffer, the index, the
  record count and the current offset of the program are those of the abstract log: after a crash just
  the durable spans are left, each with its identity and its offset in the index.
\<close>

theorem wal_refines_log:
  assumes "wal_run (wal_open None) ops wl" and "list_all op_ok ops"
  shows "\<exists>l. log_run empty_log ops l \<and> wal_holds l wl"
  by (rule run_holds[OF assms(1) wal_holds_open assms(2)])

definition sample_span :: span_fields where
  "sample_span = \<lparr>sp_trace_hi = 1, sp_trace_lo = 2, sp_span_id = 3, sp_parent = None, sp_name = [97], sp_service = [98],
     sp_start = 4, sp_duration = 5, sp_status = 0, sp_payload = Some [123, 125]\<rparr>"

lemma sample_ok: "list_all op_ok [Append sample_span, Flush, Append sample_span, Crash]"
  by code_simp

theorem wal_refines_log_witness:
  "\<exists>wl l. wal_run (wal_open None) [Append sample_span, Flush, Append sample_span, Crash] wl
     \<and> log_run empty_log [Append sample_span, Flush, Append sample_span, Crash] l \<and> wal_holds l wl"
  using run_progress[OF sample_ok] wal_refines_log[OF _ sample_ok] by blast

text \<open>
  C29: No operation gets stuck.  From any state a log can get into, an append of a span within the size limit, a flush
  and the recovery from a crash all return.
\<close>

theorem wal_progress:
  assumes "wal_run (wal_open None) ops wl" and "list_all op_ok ops" and "op_ok p"
  shows "\<exists>wl'. wal_step wl p wl'"
  using run_holds[OF assms(1) wal_holds_open assms(2)] step_progress assms(3) by blast

theorem wal_progress_witness:
  "\<exists>wl wl'. wal_run (wal_open None) [] wl \<and> wal_step wl (Append sample_span) wl'"
proof -
  have "op_ok (Append sample_span)" using sample_ok by simp
  from wal_progress[OF run_nil _ this] show ?thesis by (auto intro: run_nil)
qed

text \<open>
  C20: Recovery after a torn write.  When the file of a log is cut at any byte behind its header, opening and
  recovering it gives exactly the entries of the index before the crash whose records are complete:
  all of the first ones, with their identities and offsets, and none whose record was cut.
\<close>

theorem recovery_after_crash:
  assumes "wal_run (wal_open None) ops wl" and "list_all op_ok ops"
    and "132 \<le> j" and "j \<le> length (wl_disk wl @ wl_buf wl)"
  shows "\<exists>k wl'. wal_recover (wal_open (Some (take j (wl_disk wl @ wl_buf wl)))) = Ok wl'
     \<and> wl_index wl' = take k (wl_index wl) \<and> wl_count wl' = k \<and> k \<le> length (wl_index wl)
     \<and> (\<forall>i < length (wl_index wl). i < k \<longleftrightarrow>
          (if i + 1 < length (wl_index wl) then we_offset (wl_index wl ! (i + 1)) else length (wl_disk wl @ wl_buf wl)) \<le> j)"
proof -
  obtain l where h: "wal_holds l wl" using run_holds[OF assms(1) wal_holds_open assms(2)] by blast
  define sps where "sps = sl_durable l @ sl_buffered l"
  have f: "wl_disk wl @ wl_buf wl = wal_header @ objects sps" and ix: "wl_index wl = span_index 132 sps"
    and ok: "\<forall>sp \<in> set sps. span_ok sp"
    using h by (simp_all add: wal_holds_def sps_def)
  obtain k torn where k: "k \<le> length sps" "take j (wal_header @ objects sps) = wal_header @ objects (take k sps) @ torn"
    "k = length sps \<and> torn = [] \<or> k < length sps \<and> length torn < length (span_object (sps ! k))"
    "wal_recover (wal_open (Some (take j (wal_header @ objects sps)))) =
       Ok ((wal_open (Some (take j (wal_header @ objects sps))))
             \<lparr>wl_index := span_index 132 (take k sps), wl_count := k, wl_offset := j\<rparr>)"
    by (rule recover_cut[OF ok assms(3) assms(4)[unfolded f]])
  have j: "j = record_end 132 sps k + length torn"
    using arg_cong[OF k(2), of length] assms(4)[unfolded f] by (simp add: min_absorb2 record_end_def)
  have "(record_end 132 sps (i + 1) \<le> j) = (i < k)" if "i < length sps" for i
    using record_end_torn[OF k(3,1) that, of 132] unfolding j .
  moreover have "(if i + 1 < length sps then we_offset (span_index 132 sps ! (i + 1)) else length (wal_header @ objects sps))
      = record_end 132 sps (i + 1)" if "i < length sps" for i
    using that by (auto simp: span_index_nth record_end_def)
  ultimately show ?thesis
    unfolding f ix using k(1,4) span_index_take[of 132 k sps] by (intro exI[of _ k] exI) auto
qed

theorem recovery_after_crash_witness:
  "\<exists>wl wl'. wal_run (wal_open None) [Append sample_span] wl
     \<and> wal_recover (wal_open (Some (take 132 (wl_disk wl @ wl_buf wl)))) = Ok wl'"
proof -
  have ok: "list_all op_ok [Append sample_span]" using sample_ok by simp
  obtain wl where r: "wal_run (wal_open None) [Append sample_span] wl" using run_progress[OF ok] by blast
  obtain l where "wal_holds l wl" using run_holds[OF r wal_holds_open ok] by blast
  then have "132 \<le> length (wl_disk wl @ wl_buf wl)" by (simp add: wal_holds_def)
  from recovery_after_crash[OF r ok _ this] r show ?thesis by blast
qed

section \<open>Where recovery loses spans\<close>

text \<open>A record that the scan stops at: one over the size limit, or one behind a torn byte.\<close>

lemma scan_oversized:
  assumes "MAX_RECORD_BYTES < length (span_object sp)" and "length (span_object sp) < 2 ^ 32" and "p = length pre"
  shows "scan_records (pre @ span_object sp @ post) p ix n = (ix, n)"
proof -
  obtain rest where o: "span_object sp = u32_le MAGIC_OBJ @ u32_le (word_of_nat (length (span_object sp))) @ rest"
    by (rule object_head)
  let ?f = "pre @ span_object sp @ post"
  have "seg ?f (p + 4) (p + 8) = u32_le (word_of_nat (length (span_object sp)))"
    by (rule seg_at[of _ "pre @ u32_le MAGIC_OBJ" _ "rest @ post"]) (subst o, simp_all add: assms(3))
  moreover have "unat (word_of_nat (length (span_object sp)) :: u32) = length (span_object sp)"
    using assms(2) by (simp add: unat_of_nat)
  ultimately show ?thesis using assms(1) by (subst scan_records.simps) (simp add: Let_def)
qed

lemma scan_torn_byte:
  assumes "p = length pre"
  shows "scan_records (pre @ [0x4F] @ span_object sp @ post) p ix n = (ix, n)"
proof -
  obtain rest where o: "span_object sp = u32_le MAGIC_OBJ @ u32_le (word_of_nat (length (span_object sp))) @ rest"
    by (rule object_head)
  let ?f = "pre @ [0x4F] @ span_object sp @ post"
  have m: "u32_le MAGIC_OBJ = [0x4F, 0x58, 0x59, 0x4E]" by code_simp
  have "seg ?f p (p + 4) = [0x4F, 0x4F, 0x58, 0x59]"
    by (rule seg_at[of _ pre _ "[0x4E] @ u32_le (word_of_nat (length (span_object sp))) @ rest @ post"])
      (subst o, simp_all add: m assms)
  moreover have "u32_of_le [0x4F, 0x4F, 0x58, 0x59] \<noteq> MAGIC_OBJ" by code_simp
  ultimately show ?thesis by (subst scan_records.simps) (simp add: Let_def)
qed

lemma append_any:
  assumes "32 + length (span_bytes sp) < 2 ^ 32" and "wl_buf wl = []"
  obtains wl' where "wal_append sp wl = Ok (wl', wl_offset wl)" "wl_disk (wal_flush wl') = wl_disk wl @ span_object sp"
    "wl_index wl' = wl_index wl @ [span_entry (wl_offset wl) sp]"
proof -
  obtain ms ps' where m: "[] @ [sp] = ms @ ps'"
    "buf_write (span_object sp) wl = wl\<lparr>wl_disk := wl_disk wl @ objects ms, wl_buf := objects ps'\<rparr>"
    by (rule buf_write_moves[of wl "[]" sp]) (simp add: assms(2))
  have "objects ms @ objects ps' = span_object sp" using arg_cong[OF m(1), of objects] by simp
  then show thesis
    using that[of "wl\<lparr>wl_disk := wl_disk wl @ objects ms, wl_buf := objects ps',
        wl_offset := wl_offset wl + length (span_object sp),
        wl_index := wl_index wl @ [span_entry (wl_offset wl) sp], wl_count := wl_count wl + 1\<rparr>"]
    by (simp add: wal_append_def encode_span_object[OF assms(1)] m(2) wal_flush_def span_entry_def Let_def)
qed

lemma recover_stops:
  assumes "\<forall>sp \<in> set sps. span_ok sp"
    and "\<And>ix n. scan_records (wal_header @ objects sps @ post) (132 + length (objects sps)) ix n = (ix, n)"
  shows "map_res wl_index (wal_recover (wal_open (Some (wal_header @ objects sps @ post)))) = Ok (span_index 132 sps)"
  using recover_scan[of "wal_open (Some (wal_header @ objects sps @ post))" sps post] assms
  by (simp add: wal_open_def Let_def)

lemma torn_tail_loses:
  assumes "\<forall>sp \<in> set sps. span_ok sp" and "span_ok sp"
  shows "\<exists>wl wl' off. wal_recover (wal_open (Some (wal_header @ objects sps @ [0x4F]))) = Ok wl
       \<and> wal_append sp wl = Ok (wl', off) \<and> wl_index wl' = span_index 132 sps @ [span_entry off sp]
       \<and> map_res wl_index (wal_recover (wal_open (Some (wl_disk (wal_flush wl'))))) = Ok (span_index 132 sps)"
proof -
  have sp: "32 + length (span_bytes sp) < 2 ^ 32" using assms(2) by (simp add: span_ok_def MAX_RECORD_BYTES_def)
  let ?f = "wal_header @ objects sps @ [0x4F]"
  define wl where "wl = (wal_open (Some ?f))\<lparr>wl_index := span_index 132 sps, wl_count := length sps, wl_offset := length ?f\<rparr>"
  have w: "wl_disk wl = ?f" "wl_buf wl = []" "wl_index wl = span_index 132 sps" by (simp_all add: wl_def wal_open_def Let_def)
  have r: "wal_recover (wal_open (Some ?f)) = Ok wl"
    using recover_scan[of "wal_open (Some ?f)" sps "[0x4F]"] assms(1) by (simp add: wl_def wal_open_def Let_def scan_end)
  obtain wl' where a: "wal_append sp wl = Ok (wl', wl_offset wl)" "wl_disk (wal_flush wl') = wl_disk wl @ span_object sp"
    "wl_index wl' = wl_index wl @ [span_entry (wl_offset wl) sp]"
    by (rule append_any[OF sp w(2)])
  have d: "wl_disk (wal_flush wl') = wal_header @ objects sps @ ([0x4F] @ span_object sp)"
    using a(2) w(1) by simp
  have "map_res wl_index (wal_recover (wal_open (Some (wl_disk (wal_flush wl'))))) = Ok (span_index 132 sps)"
    unfolding d by (rule recover_stops[OF assms(1)])
      (use scan_torn_byte[of _ "wal_header @ objects sps" sp "[]"] in simp)
  with r a w(3) show ?thesis by auto
qed

lemma oversized_loses:
  assumes "MAX_RECORD_BYTES < 32 + length (span_bytes big)" and "32 + length (span_bytes big) < 2 ^ 32"
  shows "\<exists>wl'. wal_append big (wal_open None) = Ok (wl', 132) \<and> wl_index wl' = [span_entry 132 big]
       \<and> map_res wl_index (wal_recover (wal_open (Some (wl_disk (wal_flush wl'))))) = Ok []"
proof -
  obtain wl' where a: "wal_append big (wal_open None) = Ok (wl', wl_offset (wal_open None))"
    "wl_disk (wal_flush wl') = wl_disk (wal_open None) @ span_object big"
    "wl_index wl' = wl_index (wal_open None) @ [span_entry (wl_offset (wal_open None)) big]"
    by (rule append_any[OF assms(2), of "wal_open None"]) (simp_all add: wal_open_def Let_def)
  have o: "wl_offset (wal_open None) = 132" "wl_index (wal_open None) = []" "wl_disk (wal_open None) = wal_header"
    by (simp_all add: wal_open_def Let_def length_wal_schema)
  have "map_res wl_index (wal_recover (wal_open (Some (wl_disk (wal_flush wl'))))) = Ok []"
    using recover_stops[of "[]" "span_object big"] scan_oversized[of big 132 wal_header "[]"] assms
    by (simp add: a(2) o(3) length_span_object)
  with a show ?thesis by (auto simp: o)
qed

lemma headerless_loses:
  assumes "span_ok sp"
  shows "\<exists>wl'. wal_append sp (wal_open (Some [])) = Ok (wl', 0)
       \<and> wal_recover (wal_open (Some (wl_disk (wal_flush wl')))) = Err BadMagic"
proof -
  have sp: "32 + length (span_bytes sp) < 2 ^ 32" using assms by (simp add: span_ok_def MAX_RECORD_BYTES_def)
  obtain wl' where a: "wal_append sp (wal_open (Some [])) = Ok (wl', wl_offset (wal_open (Some [])))"
    "wl_disk (wal_flush wl') = wl_disk (wal_open (Some [])) @ span_object sp"
    by (rule append_any[OF sp, of "wal_open (Some [])"]) (simp_all add: wal_open_def Let_def)
  have d: "wl_disk (wal_flush wl') = span_object sp" "wl_offset (wal_open (Some [])) = 0"
    using a(2) by (simp_all add: wal_open_def Let_def)
  obtain rest where o: "span_object sp = u32_le MAGIC_OBJ @ u32_le (word_of_nat (length (span_object sp))) @ rest"
    by (rule object_head)
  have "seg (span_object sp) 0 4 = u32_le MAGIC_OBJ"
    by (rule seg_at[of _ "[]" _ "u32_le (word_of_nat (length (span_object sp))) @ rest"]) (subst o, simp_all)
  moreover have "MAGIC_OBJ \<noteq> MAGIC_WAL" by code_simp
  ultimately have "wal_recover (wal_open (Some (span_object sp))) = Err BadMagic"
    by (simp add: wal_recover_def wal_open_def Let_def length_span_object)
  with a d show ?thesis by auto
qed

text \<open>
  C36: Three ways to lose appended spans.  A span appended after the recovery of a log with a torn tail is put behind
  the torn bytes, and no later recovery finds it; \<open>append\<close> takes a span over ten megabytes, and recovery
  stops at it; and an existing empty file gets no header, so that after an append it is refused.
\<close>

theorem wal_departures:
  assumes "\<forall>sp \<in> set sps. span_ok sp" and "span_ok sp"
    and "MAX_RECORD_BYTES < 32 + length (span_bytes big)" and "32 + length (span_bytes big) < 2 ^ 32"
  shows "(\<exists>wl wl' off. wal_recover (wal_open (Some (wal_header @ objects sps @ [0x4F]))) = Ok wl
       \<and> wal_append sp wl = Ok (wl', off) \<and> wl_index wl' = span_index 132 sps @ [span_entry off sp]
       \<and> map_res wl_index (wal_recover (wal_open (Some (wl_disk (wal_flush wl'))))) = Ok (span_index 132 sps))
   \<and> (\<exists>wl'. wal_append big (wal_open None) = Ok (wl', 132) \<and> wl_index wl' = [span_entry 132 big]
       \<and> map_res wl_index (wal_recover (wal_open (Some (wl_disk (wal_flush wl'))))) = Ok [])
   \<and> (\<exists>wl'. wal_append sp (wal_open (Some [])) = Ok (wl', 0)
       \<and> wal_recover (wal_open (Some (wl_disk (wal_flush wl')))) = Err BadMagic)"
  using torn_tail_loses[OF assms(1,2)] oversized_loses[OF assms(3,4)] headerless_loses[OF assms(2)] by blast

theorem wal_departures_witness:
  "\<exists>wl'. wal_append sample_span (wal_open (Some [])) = Ok (wl', 0)
     \<and> wal_recover (wal_open (Some (wl_disk (wal_flush wl')))) = Err BadMagic"
proof -
  let ?big = "sample_span\<lparr>sp_name := replicate 11000000 97\<rparr>"
  have s: "span_ok sample_span" using sample_ok by (simp add: op_ok_def)
  have "length (span_bytes ?big) = 11000080"
    by (simp add: span_values_def sample_span_def prefixed_bytes_def)
  then have "MAX_RECORD_BYTES < 32 + length (span_bytes ?big)" "32 + length (span_bytes ?big) < 2 ^ 32"
    by (simp_all add: MAX_RECORD_BYTES_def)
  from wal_departures[OF _ s this, of "[]"] show ?thesis by simp
qed

end
