(* ===== verification/Wal_Seal.thy ===== *)
theory Wal_Seal
  imports Wal_Recovery Writer_Compiler
begin

text \<open>
  Sealing the write-ahead log (\<^verbatim>\<open>rust/src/wal.rs\<close>, \<open>seal\<close>): every indexed record is decoded and
  written again into one file.
\<close>

section \<open>A span as the decoder sees it\<close>

definition norm_span :: "span_fields \<Rightarrow> span_fields" where
  "norm_span sp = sp\<lparr>sp_parent := (if sp_parent sp = Some 0 then None else sp_parent sp)\<rparr>"

definition span_slots :: "span_fields \<Rightarrow> nat list" where
  "span_slots sp = [0..<9] @ (if sp_payload sp = None then [] else [9])"

definition span_vals :: "span_fields \<Rightarrow> nxs_value list" where
  "span_vals sp =
     [VInt (sp_trace_hi sp), VInt (sp_trace_lo sp), VInt (sp_span_id sp),
      VInt (case sp_parent sp of Some p \<Rightarrow> p | None \<Rightarrow> 0),
      VStr (sp_name sp), VStr (sp_service sp), VTime (sp_start sp), VInt (sp_duration sp), VInt (sp_status sp)]
     @ (case sp_payload sp of Some b \<Rightarrow> [VBinary b] | None \<Rightarrow> [])"

lemma span_vals_same: "list_all2 same_encoding (map snd (span_values sp)) (span_vals sp)"
  by (simp add: span_values_def span_vals_def split: option.splits)

lemma span_vals_bytes: "rmap encode_value (span_vals sp) = Ok (map (\<lambda>f. value_bytes (snd f)) (span_values sp))"
  using span_vals_same[of sp] same_encoding_bytes by (auto simp: rmap_Ok_iff list_all2_conv_all_nth)

lemma span_object_bytes:
  "span_object sp = object_bytes (span_slots sp) 10 (map (\<lambda>f. value_bytes (snd f)) (span_values sp))"
proof -
  have l: "length (span_values sp) = (if sp_payload sp = None then 9 else 10)"
    by (simp add: span_values_def split: option.splits)
  have s: "slots_of (span_values sp) = span_slots sp" by (simp only: slots_span span_slots_def)
  have "align8 (8 + (10 + 6) div 7 + 10 * 2) = align8 (8 + (10 + 6) div 7 + length (span_values sp) * 2)"
    by (simp add: l align8_def)
  moreover have "sorted_wrt (<) (slots_of (span_values sp))"
    unfolding slots_span by (cases "sp_payload sp = None"; simp only: if_True if_False refl; code_simp)
  ultimately show ?thesis
    using writer_object_object_bytes[of 10 "span_values sp"] span_slots_ok(1)[of sp]
    unfolding span_object_def s by simp
qed

text \<open>
  The spans that survive sealing: offsets fit sixteen bits, the strings are strings, and no value begins
  with the magic number of an object or a list.
\<close>

definition seal_ok :: "span_fields \<Rightarrow> bool" where
  "seal_ok sp \<longleftrightarrow> length (span_object sp) < 65536 \<and> valid_utf8 (sp_name sp) \<and> valid_utf8 (sp_service sp)
     \<and> (\<forall>f \<in> set (span_values sp). magic_free (value_bytes (snd f)))"

lemma prefixed_le: "length bs \<le> length (prefixed_bytes bs)"
  by (simp add: prefixed_bytes_def)

lemma span_decodable:
  assumes "seal_ok sp" and "v \<in> set (span_vals sp)"
  shows "decodable v"
proof -
  have "length (value_bytes (snd f)) \<le> length (span_bytes sp)" if "f \<in> set (span_values sp)" for f
    using that by (auto simp: length_concat intro!: member_le_sum_list)
  then have le: "length (value_bytes (snd f)) < 65536" if "f \<in> set (span_values sp)" for f
    using that assms(1) by (fastforce simp: seal_ok_def length_span_object)
  have n: "length (sp_name sp) < 65536" using le[of "(4, WStr (sp_name sp))"] prefixed_le[of "sp_name sp"]
    by (simp add: span_values_def)
  have m: "length (sp_service sp) < 65536" using le[of "(5, WStr (sp_service sp))"] prefixed_le[of "sp_service sp"]
    by (simp add: span_values_def)
  have p: "length b < 4294967296" if "Some b = sp_payload sp" for b
    using le[of "(9, WBytes b)"] prefixed_le[of b] that[symmetric] by (simp add: span_values_def)
  show ?thesis
    using assms n m p by (auto simp: span_vals_def decodable_def seal_ok_def split: option.splits)
qed

lemma span_sigil:
  assumes "k < length (span_slots sp)"
  shows "get_or_zero span_sigils (span_slots sp ! k) = value_sigil_byte (span_vals sp ! k)"
proof -
  have "map (get_or_zero span_sigils) (span_slots sp) = map value_sigil_byte (span_vals sp)"
  proof (cases "sp_payload sp")
    case None
    have "map (get_or_zero span_sigils) [0..<9] = [SIGIL_INT, SIGIL_INT, SIGIL_INT, SIGIL_INT, SIGIL_STR, SIGIL_STR,
        SIGIL_TIME, SIGIL_INT, SIGIL_INT]" by code_simp
    then show ?thesis using None by (simp add: span_slots_def span_vals_def value_sigil_byte_def)
  next
    case (Some b)
    have "map (get_or_zero span_sigils) [0..<9] = [SIGIL_INT, SIGIL_INT, SIGIL_INT, SIGIL_INT, SIGIL_STR, SIGIL_STR,
        SIGIL_TIME, SIGIL_INT, SIGIL_INT]" "get_or_zero span_sigils 9 = SIGIL_BINARY" by code_simp+
    then show ?thesis using Some by (simp add: span_slots_def span_vals_def value_sigil_byte_def)
  qed
  moreover have "length (span_slots sp) = length (span_vals sp)"
    by (simp add: span_slots_def span_vals_def split: option.splits)
  ultimately show ?thesis using assms by (metis nth_map)
qed

lemma span_keys_named: "k \<in> set (span_slots sp) \<Longrightarrow> key_name span_keys k = span_keys ! k"
proof -
  have "length span_keys = 10" by code_simp
  moreover assume "k \<in> set (span_slots sp)"
  then have "k < 10" by (auto simp: span_slots_def split: if_splits)
  ultimately show ?thesis by (simp add: key_name_def)
qed

lemma decode_span:
  assumes "seal_ok sp"
  shows "decode_record_at (span_object sp) 0 span_keys span_sigils
    = Ok (map (\<lambda>(i, v). (span_keys ! i, decoded v)) (zip (span_slots sp) (span_vals sp)))"
proof -
  let ?bufs = "map (\<lambda>f. value_bytes (snd f)) (span_values sp)"
  have sl: "sorted_wrt (<) (span_slots sp)" "\<And>i. i \<in> set (span_slots sp) \<Longrightarrow> i < 10"
    by (auto simp: span_slots_def sorted_wrt_append split: if_splits)
  have lv: "length (span_vals sp) = length (span_slots sp)"
    by (simp add: span_slots_def span_vals_def split: option.splits)
  have small: "length (object_bytes (span_slots sp) 10 ?bufs) < 65536"
    using assms by (simp add: seal_ok_def span_object_bytes)
  have "decode_object (span_object sp) (length ([] :: u8 list)) span_keys span_sigils
      = Ok (map (\<lambda>(i, v). (key_name span_keys i, decoded v)) (zip (span_slots sp) (span_vals sp)))"
    by (rule object_roundtrip[OF sl(1) sl(2) _ _ lv span_vals_bytes _ _ span_sigil small])
      (use assms span_decodable small in \<open>auto simp: seal_ok_def span_object_bytes lims\<close>)
  moreover have "map (\<lambda>(i, v). (key_name span_keys i, decoded v)) (zip (span_slots sp) (span_vals sp))
      = map (\<lambda>(i, v). (span_keys ! i, decoded v)) (zip (span_slots sp) (span_vals sp))"
    by (rule map_cong[OF refl]) (auto simp: span_keys_named dest: set_zip_leftD)
  ultimately show ?thesis by (simp add: decode_record_at_def)
qed

section \<open>The fields of a decoded span\<close>

lemma find_map_key:
  assumes "distinct ks" and "i < length vs" and "length vs \<le> length ks" and "ks ! i = key"
  shows "find_map (\<lambda>(k, v). if k = key then g v else None) (zip ks vs) = g (vs ! i)"
  using assms
proof (induction vs arbitrary: ks i)
  case (Cons v vs)
  then obtain k ks' where ks: "ks = k # ks'" by (cases ks) auto
  show ?case
  proof (cases i)
    case 0
    have "find_map (\<lambda>(k, v). if k = key then g v else None) (zip ks' vs) = None"
      if "key \<notin> set ks'" for vs using that
      by (induction ks' arbitrary: vs) (auto simp: zip_Cons1 split: list.splits)
    then show ?thesis using 0 Cons.prems ks by (auto split: option.splits)
  next
    case (Suc j)
    then have "key \<in> set ks'" using Cons.prems ks nth_mem[of j ks'] by simp
    then have "k \<noteq> key" using Cons.prems(1) ks by auto
    then show ?thesis using Suc Cons.IH[of ks' j] Cons.prems ks by simp
  qed
qed simp

lemma find_map_absent:
  "key \<notin> set (take (length vs) ks) \<Longrightarrow> find_map (\<lambda>(k, v). if k = key then g v else None) (zip ks vs) = None"
  by (induction vs arbitrary: ks) (auto simp: zip_Cons1 take_Cons zip_Cons split: list.splits)

lemma span_pairs:
  "map (\<lambda>(i, v). (span_keys ! i, decoded v)) (zip (span_slots sp) (span_vals sp)) = zip span_keys (map decoded (span_vals sp))"
proof -
  have k: "length span_keys = 10" by code_simp
  have lv: "length (span_vals sp) = length (span_slots sp)" "length (span_slots sp) \<le> 10"
    by (simp_all add: span_slots_def span_vals_def split: option.splits)
  have "span_slots sp ! i = i" if "i < length (span_slots sp)" for i
    using that by (auto simp: span_slots_def nth_append split: if_splits)
  then show ?thesis using k lv by (intro nth_equalityI) auto
qed

text \<open>A lookup by name is a lookup by slot.\<close>

lemma span_field:
  assumes "i < length (span_vals sp)" and "span_keys ! i = bstr name"
  shows "find_map (\<lambda>(k, v). if k = bstr name then g v else None) (zip span_keys (map decoded (span_vals sp)))
     = g (decoded (span_vals sp ! i))"
proof -
  have "distinct span_keys" "length span_keys = 10" by code_simp+
  moreover have "length (span_vals sp) \<le> 10" by (simp add: span_vals_def split: option.splits)
  ultimately show ?thesis using find_map_key[of span_keys i "map decoded (span_vals sp)" "bstr name" g] assms by simp
qed

lemma span_i64:
  assumes "span_keys ! i = bstr name" and "i < 9" and "span_vals sp ! i = VInt n \<or> span_vals sp ! i = VTime n"
  shows "field_i64 (zip span_keys (map decoded (span_vals sp))) name = Some n"
proof -
  have "i < length (span_vals sp)" using assms(2) by (simp add: span_vals_def)
  then show ?thesis
    unfolding field_i64_def by (subst span_field[OF _ assms(1)]) (use assms(3) in auto)
qed

lemma span_str:
  assumes "span_keys ! i = bstr name" and "i < 9" and "span_vals sp ! i = VStr t"
  shows "field_str (zip span_keys (map decoded (span_vals sp))) name = t"
proof -
  have "i < length (span_vals sp)" using assms(2) by (simp add: span_vals_def)
  then show ?thesis
    unfolding field_str_def by (subst span_field[OF _ assms(1)]) (use assms(3) in auto)
qed

lemma span_no_null: "\<not> field_null (zip span_keys (map decoded (span_vals sp))) name"
  by (auto simp: field_null_def list_ex_iff span_vals_def split: option.splits dest!: set_zip_rightD)

lemma decode_span_object_ok:
  assumes "seal_ok sp"
  shows "decode_span_object (span_object sp) = Ok (Some (norm_span sp))"
proof -
  have k: "span_keys ! 0 = bstr ''trace_id_hi''" "span_keys ! 1 = bstr ''trace_id_lo''" "span_keys ! 2 = bstr ''span_id''"
    "span_keys ! 3 = bstr ''parent_span_id''" "span_keys ! 4 = bstr ''name''" "span_keys ! 5 = bstr ''service''"
    "span_keys ! 6 = bstr ''start_time_ns''" "span_keys ! 7 = bstr ''duration_ns''" "span_keys ! 8 = bstr ''status_code''"
    "span_keys ! 9 = bstr ''payload''" "bstr ''payload'' \<notin> set (take 9 span_keys)"
    by code_simp+
  let ?fs = "zip span_keys (map decoded (span_vals sp))"
  have v: "span_vals sp ! 0 = VInt (sp_trace_hi sp)" "span_vals sp ! 1 = VInt (sp_trace_lo sp)"
    "span_vals sp ! 2 = VInt (sp_span_id sp)" "span_vals sp ! 3 = VInt (case sp_parent sp of Some p \<Rightarrow> p | None \<Rightarrow> 0)"
    "span_vals sp ! 4 = VStr (sp_name sp)" "span_vals sp ! 5 = VStr (sp_service sp)"
    "span_vals sp ! 6 = VTime (sp_start sp)" "span_vals sp ! 7 = VInt (sp_duration sp)" "span_vals sp ! 8 = VInt (sp_status sp)"
    by (simp_all add: span_vals_def)
  have ints: "field_i64 ?fs ''trace_id_hi'' = Some (sp_trace_hi sp)" "field_i64 ?fs ''trace_id_lo'' = Some (sp_trace_lo sp)"
    "field_i64 ?fs ''span_id'' = Some (sp_span_id sp)"
    "field_i64 ?fs ''parent_span_id'' = Some (case sp_parent sp of Some p \<Rightarrow> p | None \<Rightarrow> 0)"
    "field_i64 ?fs ''start_time_ns'' = Some (sp_start sp)" "field_i64 ?fs ''duration_ns'' = Some (sp_duration sp)"
    "field_i64 ?fs ''status_code'' = Some (sp_status sp)"
    using span_i64[OF k(1), of sp "sp_trace_hi sp"] span_i64[OF k(2), of sp "sp_trace_lo sp"]
      span_i64[OF k(3), of sp "sp_span_id sp"] span_i64[OF k(4), of sp "case sp_parent sp of Some p \<Rightarrow> p | None \<Rightarrow> 0"]
      span_i64[OF k(7), of sp "sp_start sp"] span_i64[OF k(8), of sp "sp_duration sp"] span_i64[OF k(9), of sp "sp_status sp"]
    by (simp_all add: v v(2)[simplified])
  have strs: "field_str ?fs ''name'' = sp_name sp" "field_str ?fs ''service'' = sp_service sp"
    using span_str[OF k(5), of sp "sp_name sp"] span_str[OF k(6), of sp "sp_service sp"] by (simp_all add: v v(2)[simplified])
  have bs: "field_bytes ?fs ''payload'' = sp_payload sp"
  proof (cases "sp_payload sp")
    case None
    then have "length (span_vals sp) = 9" by (simp add: span_vals_def)
    then show ?thesis using None k(11) unfolding field_bytes_def by (subst find_map_absent) simp_all
  next
    case (Some b)
    then have "9 < length (span_vals sp)" "span_vals sp ! 9 = VBinary b" by (simp_all add: span_vals_def)
    then show ?thesis using Some unfolding field_bytes_def by (subst span_field[OF _ k(10)]) simp_all
  qed
  show ?thesis
    by (simp add: decode_span_object_def decode_span[OF assms] span_pairs ints strs bs span_no_null norm_span_def)
      (cases "sp_parent sp"; simp)
qed

section \<open>Replay\<close>

lemma norm_span_object: "span_object (norm_span sp) = span_object sp"
proof -
  have "u64_le 0 = replicate 8 0" by code_simp
  then have "map (\<lambda>f. value_bytes (snd f)) (span_values (norm_span sp)) = map (\<lambda>f. value_bytes (snd f)) (span_values sp)"
    by (auto simp: span_values_def norm_span_def split: option.splits)
  moreover have "span_slots (norm_span sp) = span_slots sp" by (simp add: span_slots_def norm_span_def)
  ultimately show ?thesis by (simp only: span_object_bytes)
qed

text \<open>A writer between two records of spans.\<close>

definition span_writer :: "nxs_writer \<Rightarrow> bool" where
  "span_writer w \<longleftrightarrow> w_compact w = None \<and> w_schema w = new_schema span_keys \<and> w_frames w = []"

lemma span_writer_new: "span_writer (new_writer span_schema)" "w_buf (new_writer span_schema) = []"
  "w_record_offsets (new_writer span_schema) = []"
  by (simp_all add: span_writer_def new_writer_def writer_with_compact_def span_schema_def Let_def)

lemma write_span:
  assumes "span_writer w" and "length (w_buf w) + length (span_object sp) < 2 ^ 32"
  obtains w' where "write_record (span_values sp) w = Ok w'" "span_writer w'" "w_buf w' = w_buf w @ span_object sp"
    "length (w_record_offsets w') = length (w_record_offsets w) + 1"
proof -
  have k: "length span_keys = 10" "span_keys \<noteq> []" by code_simp+
  have w: "w_compact w = None" "w_schema w = new_schema span_keys" "w_frames w = []"
    using assms(1) by (simp_all add: span_writer_def)
  have "length (w_buf w) + head_len (length span_keys) + length (span_bytes sp) < 2 ^ 32"
    using assms(2) by (simp add: k(1) head_len_span length_span_object)
  from write_record_object[OF w(1,2) k(2) _ span_slots_ok(2) this] span_slots_ok(1) that show thesis
    by (auto simp: k(1) w span_writer_def span_object_def)
qed

lemma read_entry_at:
  assumes "span_ok sp" and "file = pre @ span_object sp @ post" and "p = length pre"
  shows "read_entry file p = Ok (span_object sp)"
proof -
  note b = span_ok_bounds[OF assms(1)]
  have f: "file = pre @ take (length (span_object sp)) (span_object sp) @ post" by (simp add: assms(2))
  note h = scan_head(2)[OF f b(1) assms(1), folded assms(3)]
  have "seg file p (p + length (span_object sp)) = span_object sp"
    by (rule seg_at[OF assms(2)]) (simp_all add: assms(3))
  moreover have "p + length (span_object sp) \<le> length file" by (simp add: assms(2,3))
  ultimately show ?thesis using b(1) h by (simp add: read_entry_def Let_def)
qed

lemma seal_ok_span_ok: "seal_ok sp \<Longrightarrow> span_ok sp"
  by (simp add: seal_ok_def span_ok_def length_span_object MAX_RECORD_BYTES_def)

lemma replay_spans:
  assumes "\<forall>sp \<in> set sps. seal_ok sp" and "file = pre @ objects sps @ post" and "p = length pre"
    and "span_writer w" and "length (w_buf w) + length (objects sps) < 2 ^ 32"
  shows "\<exists>w'. replay file (span_index p sps) w = Ok w' \<and> span_writer w' \<and> w_buf w' = w_buf w @ objects sps
     \<and> length (w_record_offsets w') = length (w_record_offsets w) + length sps"
  using assms
proof (induction sps arbitrary: pre p w)
  case (Cons sp sps)
  have sp: "seal_ok sp" using Cons.prems(1) by simp
  have r: "read_entry file p = Ok (span_object sp)"
    by (rule read_entry_at[OF seal_ok_span_ok[OF sp]]) (use Cons.prems in simp_all)
  obtain v where v: "write_record (span_values (norm_span sp)) w = Ok v" "span_writer v" "w_buf v = w_buf w @ span_object sp"
    "length (w_record_offsets v) = length (w_record_offsets w) + 1"
    by (rule write_span[OF Cons.prems(4), of "norm_span sp"]) (use Cons.prems(5) in \<open>simp_all add: norm_span_object\<close>)
  have "\<exists>w'. replay file (span_index (p + length (span_object sp)) sps) v = Ok w' \<and> span_writer w'
      \<and> w_buf w' = w_buf v @ objects sps \<and> length (w_record_offsets w') = length (w_record_offsets v) + length sps"
    by (rule Cons.IH[of "pre @ span_object sp"]) (use Cons.prems v in simp_all)
  then show ?case
    by (auto simp: span_entry_def r decode_span_object_ok[OF sp] v(1,3,4))
qed simp

text \<open>
  C21: Sealing keeps every span.  For a log in any reachable state whose spans are within the limits of the format,
  sealing succeeds, counts every span, and the data sector of the sealed file is byte for byte what
  the log holds behind its header.
\<close>

theorem seal_keeps_spans:
  assumes "wal_holds l wl" and "\<forall>sp \<in> set (sl_durable l @ sl_buffered l). seal_ok sp"
    and "length (wl_disk wl @ wl_buf wl) < 2 ^ 32"
  shows "\<exists>nxb. wal_seal wl = Ok (wal_flush wl, nxb, length (wl_index wl))
     \<and> extract_data_sector nxb = Ok (drop 132 (wl_disk wl @ wl_buf wl))"
proof -
  define sps where "sps = sl_durable l @ sl_buffered l"
  have ok: "\<forall>sp \<in> set sps. seal_ok sp" using assms(2) by (simp add: sps_def)
  have f: "wl_disk (wal_flush wl) = wal_header @ objects sps @ []" "wl_disk wl @ wl_buf wl = wal_header @ objects sps"
    "wl_index (wal_flush wl) = span_index 132 sps" "wl_count (wal_flush wl) = length (wl_index wl)"
    using assms(1) by (simp_all add: wal_holds_def wal_flush_def sps_def)
  have lt: "132 + length (objects sps) < 2 ^ 32" using assms(3) unfolding f(2) by simp
  obtain w where w: "replay (wl_disk (wal_flush wl)) (span_index 132 sps) (new_writer span_schema) = Ok w"
    "span_writer w" "w_buf w = objects sps" "length (w_record_offsets w) = length sps"
    using replay_spans[OF ok f(1), of 132 "new_writer span_schema"] lt by (auto simp: span_writer_new)
  have "length sps \<le> length (objects sps)"
  proof (induction sps)
    case (Cons sp sps)
    then show ?case using length_span_object[of sp] by simp
  qed simp
  moreover have k: "align8 (schema_len span_keys) = 120" "list_all nul_free span_keys" "length span_keys = 10" by code_simp+
  ultimately have "rbind (finish w) extract_data_sector = Ok (w_buf w)"
    using w(2-4) lt by (intro data_sector_of_finish[of w span_keys]) (simp_all add: span_writer_def list_all_iff)
  then obtain nxb where "finish w = Ok nxb" "extract_data_sector nxb = Ok (objects sps)"
    using w(3) by (cases "finish w") simp_all
  then show ?thesis
    by (simp add: wal_seal_def Let_def f(3,4) w(1) f(2))
qed

lemma one_span_log:
  assumes "span_ok sp"
  obtains wl l where "wal_append sp (wal_open None) = Ok (wl, 132)" "wal_holds l wl" "sl_durable l @ sl_buffered l = [sp]"
proof -
  obtain wl ms ps' where a: "wal_append sp (wal_open None) = Ok (wl, wl_offset (wal_open None))" "[] @ [sp] = ms @ ps'"
    "wal_holds \<lparr>sl_durable = [] @ ms, sl_buffered = ps'\<rparr> wl"
    by (rule append_holds[OF wal_holds_open assms])
  moreover have "wl_offset (wal_open None) = 132" by (simp add: wal_open_def Let_def length_wal_schema)
  ultimately show thesis by (intro that[of wl "\<lparr>sl_durable = [] @ ms, sl_buffered = ps'\<rparr>"]) simp_all
qed

lemma sample_seal_ok: "seal_ok sample_span"
  by code_simp

theorem seal_keeps_spans_witness:
  "\<exists>wl nxb. wal_append sample_span (wal_open None) = Ok (wl, 132) \<and> wal_seal wl = Ok (wal_flush wl, nxb, length (wl_index wl))
     \<and> extract_data_sector nxb = Ok (drop 132 (wl_disk wl @ wl_buf wl))"
proof -
  obtain wl l where l: "wal_append sample_span (wal_open None) = Ok (wl, 132)" "wal_holds l wl"
    "sl_durable l @ sl_buffered l = [sample_span]"
    by (rule one_span_log[OF seal_ok_span_ok[OF sample_seal_ok]])
  have "wl_disk wl @ wl_buf wl = wal_header @ objects (sl_durable l @ sl_buffered l)" using l(2) by (simp add: wal_holds_def)
  then have "length (wl_disk wl @ wl_buf wl) < 2 ^ 32"
    using sample_seal_ok unfolding l(3) by (simp add: seal_ok_def)
  moreover have "\<forall>sp \<in> set (sl_durable l @ sl_buffered l). seal_ok sp" using sample_seal_ok unfolding l(3) by simp
  ultimately show ?thesis using seal_keeps_spans[OF l(2)] l(1) by blast
qed

text \<open>
  C39: Sealing can lose a span without a sign.  A span whose identifier has the magic number of an object in its low
  half is appended, indexed and counted, but the decoder takes the identifier for a nested object,
  the span is skipped, and the sealed file has no record although the report counts one.
\<close>

theorem seal_drops_span:
  "\<exists>wl nxb. wal_append (sample_span\<lparr>sp_span_id := 0x4E59584F\<rparr>) (wal_open None) = Ok (wl, 132)
     \<and> length (wl_index wl) = 1 \<and> wal_seal wl = Ok (wal_flush wl, nxb, 1) \<and> extract_data_sector nxb = Ok []"
proof -
  let ?sp = "sample_span\<lparr>sp_span_id := 0x4E59584F\<rparr>"
  have sp: "span_ok ?sp" by code_simp
  obtain wl l where l: "wal_append ?sp (wal_open None) = Ok (wl, 132)" "wal_holds l wl" "sl_durable l @ sl_buffered l = [?sp]"
    by (rule one_span_log[OF sp])
  have f: "wl_disk (wal_flush wl) = wal_header @ span_object ?sp @ []" "wl_index (wal_flush wl) = [span_entry 132 ?sp]"
    "wl_count (wal_flush wl) = 1" "length (wl_index wl) = 1"
  proof -
    have "objects (sl_durable l) @ objects (sl_buffered l) = span_object ?sp"
      using arg_cong[OF l(3), of objects] by simp
    then show "wl_disk (wal_flush wl) = wal_header @ span_object ?sp @ []" "wl_index (wal_flush wl) = [span_entry 132 ?sp]"
      "wl_count (wal_flush wl) = 1" "length (wl_index wl) = 1"
      using l(2) unfolding wal_holds_def l(3) by (simp_all add: wal_flush_def)
  qed
  have r: "read_entry (wl_disk (wal_flush wl)) 132 = Ok (span_object ?sp)"
    by (rule read_entry_at[OF sp f(1)]) simp
  have d: "decode_span_object (span_object ?sp) = Ok None" by code_simp
  have "replay (wl_disk (wal_flush wl)) (wl_index (wal_flush wl)) (new_writer span_schema) = Ok (new_writer span_schema)"
    by (simp add: f(2) span_entry_def r d)
  moreover have "rbind (finish (new_writer span_schema)) extract_data_sector = Ok (w_buf (new_writer span_schema))"
  proof -
    have k: "align8 (schema_len span_keys) = 120" "list_all nul_free span_keys" "length span_keys = 10" by code_simp+
    then show ?thesis using span_writer_new
      by (intro data_sector_of_finish[of _ span_keys]) (simp_all add: span_writer_def list_all_iff)
  qed
  then obtain nxb where "finish (new_writer span_schema) = Ok nxb" "extract_data_sector nxb = Ok []"
    using span_writer_new(2) by (cases "finish (new_writer span_schema)") simp_all
  ultimately show ?thesis using l(1) f(3,4) by (simp add: wal_seal_def Let_def)
qed

end
