(* ===== verification/Columns.thy ===== *)
theory Columns
  imports Parser Compact_Record
begin

text \<open>
  Columns of the columnar and PAX layouts: the column half of \<^verbatim>\<open>rust/src/layout.rs\<close>.

  A column is a presence bitmap, rounded up to whole 64-bit words, followed either by eight bytes a
  record or, for strings and binaries, by one more 32-bit offset than there are records and the
  bytes they delimit.  The second part of the theory proves that every cell is read back from its
  column.
\<close>

section \<open>Cells\<close>

datatype cell =
    Absent
  | CellNull
  | CellI64 i64
  | CellF64 f64
  | CellBool bool
  | CellTime i64
  | CellStr rstring
  | CellBinary "u8 list"

definition cell_from_value :: "nxs_value \<Rightarrow> cell res" where
  "cell_from_value v =
     (case v of
        VInt n \<Rightarrow> Ok (CellI64 n) | VFloat f \<Rightarrow> Ok (CellF64 f) | VBool b \<Rightarrow> Ok (CellBool b)
      | VTime ns \<Rightarrow> Ok (CellTime ns) | VNull \<Rightarrow> Ok CellNull | VStr s \<Rightarrow> Ok (CellStr s)
      | VBinary b \<Rightarrow> Ok (CellBinary b) | VKeyword _ \<Rightarrow> Err UnsupportedFieldType
      | _ \<Rightarrow> Err (ParseError ''nested values not supported in columnar/PAX records''))"

definition cell_sigil :: "cell \<Rightarrow> u8" where
  "cell_sigil c =
     (case c of
        CellI64 _ \<Rightarrow> SIGIL_INT | CellF64 _ \<Rightarrow> SIGIL_FLOAT | CellBool _ \<Rightarrow> SIGIL_BOOL | CellTime _ \<Rightarrow> SIGIL_TIME
      | CellStr _ \<Rightarrow> SIGIL_STR | CellBinary _ \<Rightarrow> SIGIL_BINARY | CellNull \<Rightarrow> SIGIL_NULL | Absent \<Rightarrow> 0)"

definition cell_populated :: "cell \<Rightarrow> bool" where
  "cell_populated c \<longleftrightarrow> c \<noteq> Absent"

section \<open>Writing a column\<close>

definition null_bitmap_bytes :: "usize \<Rightarrow> usize" where
  "null_bitmap_bytes n = (wadd n 7 div 8 + 7) div 8 * 8"

text \<open>\<open>b[i / 8] |= 1 << (i % 8)\<close>\<close>

definition set_bitmap_bit :: "usize \<Rightarrow> u8 list \<Rightarrow> u8 list" where
  "set_bitmap_bit i b = b[i div 8 := or (b ! (i div 8)) (push_bit (i mod 8) 1)]"

definition encode_null_bitmap :: "usize \<Rightarrow> (usize \<Rightarrow> bool) \<Rightarrow> u8 list" where
  "encode_null_bitmap n present =
     fold (\<lambda>i b. if present i then set_bitmap_bit i b else b) [0..<n] (replicate (null_bitmap_bytes n) 0)"

text \<open>A buffer of eight bytes a record; records without a value keep their zeros.\<close>

definition write_fixed_buffer :: "usize \<Rightarrow> cell list \<Rightarrow> (cell \<Rightarrow> u8 list) \<Rightarrow> u8 list" where
  "write_fixed_buffer n cells enc =
     concat (map (\<lambda>c. if cell_populated c then enc c else replicate 8 0) (take n cells))
       @ replicate ((n - length cells) * 8) 0"

text \<open>The loop over the cells of a variable-length column: the offsets and the values so far.\<close>

definition var_payload :: "cell \<Rightarrow> u8 list" where
  "var_payload c = (case c of CellStr s \<Rightarrow> s | CellBinary b \<Rightarrow> b | _ \<Rightarrow> [])"

fun var_column_loop :: "cell list \<Rightarrow> u32 list \<Rightarrow> u8 list \<Rightarrow> (u32 list \<times> u8 list) res" where
  "var_column_loop [] offsets vals = Ok (offsets, vals)"
| "var_column_loop (c # cs) offsets vals =
     (if \<not> cell_populated c then var_column_loop cs (offsets @ [last offsets]) vals
      else
        let vals' = vals @ var_payload c in
        if 0xFFFFFFFF < length vals' then Err Overflow
        else var_column_loop cs (offsets @ [word_of_nat (length vals')]) vals')"

definition encode_var_column :: "usize \<Rightarrow> cell list \<Rightarrow> u8 list res" where
  "encode_var_column n col =
     (let bitmap = encode_null_bitmap n (\<lambda>i. cell_populated (col ! i)) in
      rbind (var_column_loop (take n col) [0] []) (\<lambda>(offsets, vals).
      Ok (bitmap @ concat (map u32_le offsets) @ vals)))"

text \<open>The closures of \<open>encode_field_column\<close>: a value of another type is written as zeros.\<close>

definition fixed_cell_bytes :: "u8 \<Rightarrow> cell \<Rightarrow> u8 list" where
  "fixed_cell_bytes sigil c =
     (if sigil = SIGIL_FLOAT then (case c of CellF64 v \<Rightarrow> u64_le v | _ \<Rightarrow> replicate 8 0)
      else if sigil = SIGIL_BOOL then (case c of CellBool v \<Rightarrow> (if v then 1 else 0) # replicate 7 0 | _ \<Rightarrow> replicate 8 0)
      else if sigil = SIGIL_TIME then (case c of CellTime v \<Rightarrow> u64_le v | _ \<Rightarrow> replicate 8 0)
      else (case c of CellI64 v \<Rightarrow> u64_le v | _ \<Rightarrow> replicate 8 0))"

definition encode_field_column :: "usize \<Rightarrow> cell list \<Rightarrow> u8 \<Rightarrow> u8 list res" where
  "encode_field_column n col sigil =
     (if is_var_sigil sigil then encode_var_column n col
      else if sigil = SIGIL_KEYWORD then Err UnsupportedFieldType
      else Ok (encode_null_bitmap n (\<lambda>i. cell_populated (col ! i)) @ write_fixed_buffer n col (fixed_cell_bytes sigil)))"

section \<open>Reading a column\<close>

definition column_sector_len :: "u8 list \<Rightarrow> usize \<Rightarrow> u8 \<Rightarrow> usize res" where
  "column_sector_len sector n sigil =
     (let bm_len = null_bitmap_bytes n; oob = (\<lambda>x. ok_or x OutOfBounds) in
      if length sector < bm_len then Err OutOfBounds
      else if is_var_sigil sigil then
        rbind (oob (Option.bind (checked_add n 1) (\<lambda>m. checked_mul m 4))) (\<lambda>off_bytes.
        rbind (oob (checked_add bm_len off_bytes)) (\<lambda>need.
        if length sector < need then Err OutOfBounds
        else
          rbind (oob (checked_mul n 4)) (\<lambda>n4.
          rbind (oob (checked_add bm_len n4)) (\<lambda>end_off.
          rbind (rd_u32 sector end_off) (\<lambda>l.
          oob (Option.bind (checked_add bm_len off_bytes) (\<lambda>x. checked_add x (unat l))))))))
      else rbind (oob (checked_mul n 8)) (\<lambda>cells. oob (checked_add bm_len cells)))"

definition col_var_parts :: "u8 list \<Rightarrow> usize \<Rightarrow> (u8 list \<times> u8 list \<times> u8 list) res" where
  "col_var_parts sector n =
     (let bm_len = null_bitmap_bytes n in
      rbind (ok_or (Option.bind (checked_add n 1) (\<lambda>m. checked_mul m 4)) OutOfBounds) (\<lambda>off_bytes.
      if length sector < saturating_add bm_len off_bytes then Err OutOfBounds
      else Ok (take bm_len sector, seg sector bm_len (bm_len + off_bytes), drop (bm_len + off_bytes) sector)))"

definition var_bounds :: "u8 list \<Rightarrow> u8 list \<Rightarrow> usize \<Rightarrow> (usize \<times> usize) option" where
  "var_bounds offsets vals i =
     Option.bind (Option.bind (checked_add i 2) (\<lambda>m. checked_mul m 4)) (\<lambda>need.
     if length offsets < need then None
     else Option.bind (get_u32 offsets (i * 4)) (\<lambda>s.
          Option.bind (get_u32 offsets (i * 4 + 4)) (\<lambda>e.
          if unat e < unat s \<or> length vals < unat e then None else Some (unat s, unat e))))"

definition var_binary_at :: "u8 list \<Rightarrow> u8 list \<Rightarrow> usize \<Rightarrow> u8 list option" where
  "var_binary_at offsets vals i = map_option (\<lambda>(s, e). seg vals s e) (var_bounds offsets vals i)"

definition var_str_at :: "u8 list \<Rightarrow> u8 list \<Rightarrow> usize \<Rightarrow> rstring option" where
  "var_str_at offsets vals i = Option.bind (var_bounds offsets vals i) (\<lambda>(s, e). str_from_utf8 (seg vals s e))"

text \<open>\<open>(bm[rec / 8] >> (rec % 8)) & 1 == 1\<close>\<close>

definition col_bit :: "u8 list \<Rightarrow> usize \<Rightarrow> bool res" where
  "col_bit bm i = rbind (idx bm (i div 8)) (\<lambda>b. Ok (and (drop_bit (i mod 8) b) 1 = 1))"

section \<open>The bitmap\<close>

lemma null_bitmap_bytes_small:
  assumes "n < ISIZE_LIM"
  shows "(n + 7) div 8 \<le> null_bitmap_bytes n" "null_bitmap_bytes n < (n + 7) div 8 + 8" "8 dvd null_bitmap_bytes n"
proof -
  have "wadd n 7 = n + 7" using assms by (simp add: lims)
  then have e: "null_bitmap_bytes n = ((n + 7) div 8 + 7) div 8 * 8" by (simp add: null_bitmap_bytes_def)
  show "(n + 7) div 8 \<le> null_bitmap_bytes n" "null_bitmap_bytes n < (n + 7) div 8 + 8"
    using align8_ge[of "(n + 7) div 8"] align8_lt[of "(n + 7) div 8"] unfolding e align8_def .
  show "8 dvd null_bitmap_bytes n" by (simp add: null_bitmap_bytes_def)
qed

lemma length_set_bitmap_bit [simp]: "length (set_bitmap_bit i b) = length b"
  by (simp add: set_bitmap_bit_def)

lemma length_bitmap_fold [simp]:
  "length (fold (\<lambda>i b. if present i then set_bitmap_bit i b else b) js b) = length b"
  by (induction js arbitrary: b) simp_all

lemma length_null_bitmap [simp]: "length (encode_null_bitmap n present) = null_bitmap_bytes n"
  by (simp add: encode_null_bitmap_def)

lemma bit_set_bitmap_bit:
  "j < length b \<Longrightarrow> bit (set_bitmap_bit i b ! j) k \<longleftrightarrow> bit (b ! j) k \<or> j = i div 8 \<and> k = i mod 8"
proof -
  assume j: "j < length b"
  have "i mod 8 < 8" by simp
  then have "bit (push_bit (i mod 8) (1 :: u8)) k \<longleftrightarrow> k = i mod 8"
    by (auto simp: bit_pow)
  with j show ?thesis by (cases "j = i div 8") (simp_all add: set_bitmap_bit_def bit_or_iff del: push_bit_of_1)
qed

lemma bit_bitmap_fold:
  "j < length b \<Longrightarrow> bit (fold (\<lambda>i b. if present i then set_bitmap_bit i b else b) js b ! j) k
     \<longleftrightarrow> bit (b ! j) k \<or> (\<exists>i \<in> set js. present i \<and> j = i div 8 \<and> k = i mod 8)"
  by (induction js arbitrary: b) (auto simp: bit_set_bitmap_bit)

lemma col_bit_bitmap:
  assumes "i < n" and "n < ISIZE_LIM"
  shows "col_bit (encode_null_bitmap n present @ rest) i = Ok (present i)"
proof -
  let ?bm = "encode_null_bitmap n present"
  have le: "i div 8 < null_bitmap_bytes n"
  proof -
    have "(i + 8) div 8 \<le> (n + 7) div 8" using assms(1) by (intro div_le_mono) simp
    then have "i div 8 < (n + 7) div 8" by simp
    then show ?thesis using null_bitmap_bytes_small(1)[OF assms(2)] by linarith
  qed
  have len: "i div 8 < length (replicate (null_bitmap_bytes n) (0 :: u8))" using le by simp
  have zero: "\<not> bit (replicate (null_bitmap_bytes n) (0 :: u8) ! (i div 8)) (i mod 8)"
    by (simp only: nth_replicate[OF le] bit_0_eq bot_apply) simp
  have "bit (?bm ! (i div 8)) (i mod 8) \<longleftrightarrow> (\<exists>j \<in> set [0..<n]. present j \<and> i div 8 = j div 8 \<and> i mod 8 = j mod 8)"
    unfolding encode_null_bitmap_def bit_bitmap_fold[OF len] using zero by blast
  also have "\<dots> \<longleftrightarrow> present i"
  proof
    assume "\<exists>j \<in> set [0..<n]. present j \<and> i div 8 = j div 8 \<and> i mod 8 = j mod 8"
    then obtain j where j: "present j" "i div 8 = j div 8" "i mod 8 = j mod 8" by blast
    have "i = j" using div_mult_mod_eq[of i 8] div_mult_mod_eq[of j 8] unfolding j(2,3) by (rule trans[OF sym])
    then show "present i" using j(1) by (simp only:)
  next
    assume "present i"
    then show "\<exists>j \<in> set [0..<n]. present j \<and> i div 8 = j div 8 \<and> i mod 8 = j mod 8"
      using assms(1) by (intro bexI[of _ i] conjI refl) (simp_all only: set_upt atLeastLessThan_iff, simp)
  qed
  finally show ?thesis
    using le by (simp add: col_bit_def nth_append read_bit)
qed

section \<open>Fixed-width columns\<close>

definition cell_slot :: "u8 \<Rightarrow> cell \<Rightarrow> u8 list" where
  "cell_slot sigil c = (if cell_populated c then fixed_cell_bytes sigil c else replicate 8 0)"

lemma length_cell_slot [simp]: "length (cell_slot sigil c) = 8"
  by (simp add: cell_slot_def fixed_cell_bytes_def split: cell.splits)

lemma length_cell_slots [simp]: "length (concat (map (cell_slot sigil) cs)) = length cs * 8"
  by (induction cs) simp_all

lemma encode_fixed_column:
  assumes "\<not> is_var_sigil sigil" and "sigil \<noteq> SIGIL_KEYWORD" and "length col = n"
  shows "encode_field_column n col sigil
     = Ok (encode_null_bitmap n (\<lambda>i. cell_populated (col ! i)) @ concat (map (cell_slot sigil) col))"
proof -
  have "(\<lambda>c. if cell_populated c then fixed_cell_bytes sigil c else replicate 8 0) = cell_slot sigil"
    by (simp add: fun_eq_iff cell_slot_def)
  then show ?thesis using assms by (simp add: encode_field_column_def write_fixed_buffer_def)
qed

lemma cell_slot_at:
  assumes "i < length col"
  shows "seg (concat (map (cell_slot sigil) col)) (i * 8) (i * 8 + 8) = cell_slot sigil (col ! i)"
proof -
  have "concat (map (cell_slot sigil) col)
      = concat (map (cell_slot sigil) (take i col)) @ cell_slot sigil (col ! i) @ concat (map (cell_slot sigil) (drop (Suc i) col))"
    by (subst id_take_nth_drop[OF assms]) simp
  then show ?thesis by (rule seg_at) (use assms in simp_all)
qed

section \<open>Variable-length columns\<close>

definition var_end :: "cell list \<Rightarrow> nat \<Rightarrow> nat" where
  "var_end cs k = length (concat (map var_payload (take k cs)))"

lemma var_end_mono: "j \<le> k \<Longrightarrow> var_end cs j \<le> var_end cs k"
proof -
  assume "j \<le> k"
  then have "take k cs = take j cs @ take (k - j) (drop j cs)" by (metis le_add_diff_inverse take_add)
  then show ?thesis by (simp add: var_end_def)
qed

lemma var_end_le: "var_end cs k \<le> length (concat (map var_payload cs))"
  using var_end_mono[of k "max k (length cs)" cs] by (simp add: var_end_def)

lemma var_column_loop_Ok:
  assumes "offs \<noteq> []" and "last offs = word_of_nat (length vals)"
    and "length vals + length (concat (map var_payload cs)) \<le> 0xFFFFFFFF"
  shows "var_column_loop cs offs vals
     = Ok (offs @ map (\<lambda>k. word_of_nat (length vals + var_end cs (Suc k))) [0..<length cs], vals @ concat (map var_payload cs))"
  using assms
proof (induction cs arbitrary: offs vals)
  case (Cons c cs)
  let ?vals = "vals @ var_payload c"
  have "var_column_loop (c # cs) offs vals = var_column_loop cs (offs @ [word_of_nat (length ?vals)]) ?vals"
  proof (cases "cell_populated c")
    case True
    then show ?thesis using Cons.prems(3) by (simp add: Let_def)
  next
    case False
    then have "var_payload c = []" by (simp add: cell_populated_def var_payload_def)
    then show ?thesis using False Cons.prems(2) by simp
  qed
  also have "\<dots> = Ok ((offs @ [word_of_nat (length ?vals)])
      @ map (\<lambda>k. word_of_nat (length ?vals + var_end cs (Suc k))) [0..<length cs], ?vals @ concat (map var_payload cs))"
    by (rule Cons.IH) (use Cons.prems in simp_all)
  also have "[0..<length (c # cs)] = 0 # map Suc [0..<length cs]"
    by (simp add: upt_conv_Cons map_Suc_upt del: upt_Suc)
  then have "(offs @ [word_of_nat (length ?vals)]) @ map (\<lambda>k. word_of_nat (length ?vals + var_end cs (Suc k))) [0..<length cs]
      = offs @ map (\<lambda>k. word_of_nat (length vals + var_end (c # cs) (Suc k))) [0..<length (c # cs)]"
    by (simp add: var_end_def comp_def add.assoc)
  finally show ?case by simp
qed simp

definition var_offsets :: "cell list \<Rightarrow> u8 list" where
  "var_offsets col = concat (map u32_le (map (\<lambda>k. word_of_nat (var_end col k)) [0..<Suc (length col)]))"

abbreviation var_values :: "cell list \<Rightarrow> u8 list" where
  "var_values col \<equiv> concat (map var_payload col)"

lemma encode_var_column_Ok:
  assumes "length col = n" and "length (var_values col) \<le> 0xFFFFFFFF"
  shows "encode_var_column n col
     = Ok (encode_null_bitmap n (\<lambda>i. cell_populated (col ! i)) @ var_offsets col @ var_values col)"
proof -
  have "var_column_loop col [0] []
      = Ok ([0] @ map (\<lambda>k. word_of_nat (var_end col (Suc k))) [0..<length col], var_values col)"
    using var_column_loop_Ok[of "[0]" "[]" col] assms(2) by simp
  moreover have "[0] @ map (\<lambda>k. word_of_nat (var_end col (Suc k)) :: u32) [0..<length col]
      = map (\<lambda>k. word_of_nat (var_end col k)) [0..<Suc (length col)]"
  proof -
    have "[0..<Suc (length col)] = 0 # map Suc [0..<length col]"
      by (simp add: upt_conv_Cons map_Suc_upt del: upt_Suc)
    then show ?thesis by (simp add: var_end_def comp_def)
  qed
  ultimately show ?thesis using assms(1) by (simp add: encode_var_column_def var_offsets_def Let_def del: upt_Suc)
qed

lemma length_var_offsets [simp]: "length (var_offsets col) = (length col + 1) * 4"
  by (simp only: var_offsets_def u32c.length_array length_map length_upt) simp

lemma var_bounds_at:
  assumes "i < length col" and "length (var_values col) \<le> 0xFFFFFFFF" and "length col < 2 ^ 60"
  shows "var_bounds (var_offsets col) (var_values col) i = Some (var_end col i, var_end col (Suc i))"
proof -
  let ?offs = "map (\<lambda>k. word_of_nat (var_end col k) :: u32) [0..<Suc (length col)]"
  have fits: "fits ([] @ var_offsets col @ [])" using assms(3) by (simp add: lims)
  have rd: "get_u32 (var_offsets col) (k * 4) = Some (word_of_nat (var_end col k))" if "k \<le> length col" for k
  proof -
    have "rd_u32 ([] @ concat (map u32_le ?offs) @ []) (k * 4) = Ok (?offs ! k)"
      by (rule u32c.rd_array) (use that fits[unfolded var_offsets_def] in \<open>simp_all del: upt_Suc\<close>)
    then have "rd_u32 (var_offsets col) (k * 4) = Ok (word_of_nat (var_end col k))"
      using that by (simp add: var_offsets_def del: upt_Suc)
    moreover have "k * 4 + 4 \<le> length (var_offsets col)" using that by simp
    ultimately show ?thesis using that fits by (simp add: rd_Ok get_uint_Some del: upt_Suc)
  qed
  have un: "unat (word_of_nat (var_end col k) :: u32) = var_end col k" for k
    using var_end_le[of col k] assms(2) by (simp add: unat_of_nat)
  have "var_end col i \<le> var_end col (Suc i)" by (rule var_end_mono) simp
  moreover have "checked_add i 2 = Some (i + 2)" "checked_mul (i + 2) 4 = Some ((i + 2) * 4)"
    using assms(1,3) by (simp_all add: lims)
  moreover have "get_u32 (var_offsets col) (i * 4 + 4) = Some (word_of_nat (var_end col (Suc i)))"
    using rd[of "Suc i"] assms(1) by (simp add: add.commute)
  ultimately show ?thesis
    using rd[of i] assms(1) var_end_le[of col "Suc i"] by (simp add: var_bounds_def un del: upt_Suc)
qed

lemma var_value_at:
  assumes "i < length col"
  shows "seg (var_values col) (var_end col i) (var_end col (Suc i)) = var_payload (col ! i)"
proof -
  have "var_values col = concat (map var_payload (take i col)) @ var_payload (col ! i) @ concat (map var_payload (drop (Suc i) col))"
    by (subst id_take_nth_drop[OF assms]) simp
  then show ?thesis
    by (rule seg_at) (use assms in \<open>simp_all add: var_end_def take_Suc_conv_app_nth\<close>)
qed

section \<open>Column sectors\<close>

text \<open>The sector of a column in a buffer that goes on behind it: its length and its parts.\<close>

lemma fixed_sector_len:
  assumes "\<not> is_var_sigil sigil" and "length bm = null_bitmap_bytes n" and "n < 2 ^ 59"
  shows "column_sector_len (bm @ rest) n sigil = Ok (null_bitmap_bytes n + n * 8)"
proof -
  have "null_bitmap_bytes n < 2 ^ 59 + 15" using null_bitmap_bytes_small(2)[of n] assms(3) by (simp add: lims)
  then show ?thesis using assms by (simp add: column_sector_len_def Let_def lims)
qed

lemma var_sector_len:
  assumes "is_var_sigil sigil" and "length bm = null_bitmap_bytes (length col)"
    and "length (var_values col) \<le> 0xFFFFFFFF" and "fits (bm @ var_offsets col @ rest)" and "length col < 2 ^ 59"
  shows "column_sector_len (bm @ var_offsets col @ rest) (length col) sigil
     = Ok (null_bitmap_bytes (length col) + (length col + 1) * 4 + length (var_values col))"
proof -
  let ?n = "length col" and ?s = "bm @ var_offsets col @ rest"
  let ?offs = "map (\<lambda>k. word_of_nat (var_end col k) :: u32) [0..<Suc ?n]"
  have nb: "null_bitmap_bytes ?n < 2 ^ 59 + 15" using null_bitmap_bytes_small(2)[of ?n] assms(5) by (simp add: lims)
  have "rd_u32 (bm @ concat (map u32_le ?offs) @ rest) (null_bitmap_bytes ?n + ?n * 4) = Ok (?offs ! ?n)"
    by (rule u32c.rd_array) (use assms(2,4)[unfolded var_offsets_def] in \<open>simp_all del: upt_Suc\<close>)
  then have l: "rd_u32 ?s (null_bitmap_bytes ?n + ?n * 4) = Ok (word_of_nat (var_end col ?n))"
    by (simp add: var_offsets_def del: upt_Suc)
  have e: "var_end col ?n = length (var_values col)" by (simp add: var_end_def)
  have un: "unat (word_of_nat (length (var_values col)) :: u32) = length (var_values col)"
    using assms(3) by (simp add: unat_of_nat)
  show ?thesis
    using assms(1,2,3,5) nb l by (simp add: column_sector_len_def Let_def lims e un add.assoc del: upt_Suc)
qed

lemma col_var_parts_at:
  assumes "length bm = null_bitmap_bytes (length col)" and "length col < 2 ^ 59"
  shows "col_var_parts (bm @ var_offsets col @ var_values col) (length col) = Ok (bm, var_offsets col, var_values col)"
proof -
  let ?n = "length col"
  have nb: "null_bitmap_bytes ?n < 2 ^ 59 + 15" using null_bitmap_bytes_small(2)[of ?n] assms(2) by (simp add: lims)
  have "seg (bm @ var_offsets col @ var_values col) (null_bitmap_bytes ?n) (null_bitmap_bytes ?n + (?n + 1) * 4) = var_offsets col"
    by (rule seg_at[OF refl]) (use assms(1) in \<open>simp_all del: upt_Suc\<close>)
  then show ?thesis
    using assms nb by (simp add: col_var_parts_def Let_def saturating_add_def lims min_def del: upt_Suc)
qed

end
