(* ===== verification/Layouts.thy ===== *)
theory Layouts
  imports Columns Compiler Writer Decoder Lexer
begin

text \<open>
  Layout selection and the columnar, PAX and row emitters: \<^verbatim>\<open>rust/src/layout.rs\<close>, with the pragmas and
  the entry points of \<^verbatim>\<open>rust/src/lib.rs\<close>.
\<close>

section \<open>Options and pragmas\<close>

datatype layout = LRow | LColumnar | LPax

record compile_options =
  co_layout :: layout
  co_page_size :: u32
  co_compact :: "compact_options option"
  co_legacy_v12 :: bool

definition default_compile_options :: compile_options where
  "default_compile_options = \<lparr>co_layout = LRow, co_page_size = 0, co_compact = None, co_legacy_v12 = False\<rparr>"

definition COMPILE_DEFAULT_COMPACT :: bool where "COMPILE_DEFAULT_COMPACT = True"

definition resolve_compact_encoding :: "bool \<Rightarrow> compact_options option" where
  "resolve_compact_encoding legacy_v12 =
     (if legacy_v12 \<or> \<not> COMPILE_DEFAULT_COMPACT then None else Some compact_all)"

definition row_compact_opts :: "compile_options \<Rightarrow> compact_options option" where
  "row_compact_opts opts =
     (if co_legacy_v12 opts then None
      else case co_compact opts of Some c \<Rightarrow> Some c | None \<Rightarrow> resolve_compact_encoding False)"

definition layout_parse_name :: "rstring \<Rightarrow> layout option" where
  "layout_parse_name s =
     (if s = bstr ''row'' then Some LRow else if s = bstr ''columnar'' then Some LColumnar
      else if s = bstr ''pax'' then Some LPax else None)"

definition layout_flag :: "layout \<Rightarrow> u16" where
  "layout_flag l = (case l of LRow \<Rightarrow> 0 | LColumnar \<Rightarrow> FLAG_COLUMNAR | LPax \<Rightarrow> FLAG_PAX)"

definition validate_flags :: "compile_options \<Rightarrow> bool \<Rightarrow> unit res" where
  "validate_flags opts tail_ptr_zero =
     (if co_layout opts = LColumnar \<and> tail_ptr_zero then Err IncompatibleFlags else Ok ())"

text \<open>\<open>str::parse::<u32>\<close>: an optional plus sign, at least one digit, and a value in range.\<close>

definition parse_u32 :: "rstring \<Rightarrow> u32 option" where
  "parse_u32 s =
     (case nonempty_val dec_digit 10 (if s \<noteq> [] \<and> hd s = 0x2B then tl s else s) of
        None \<Rightarrow> None
      | Some v \<Rightarrow> if v < 2 ^ 32 then Some (word_of_nat v) else None)"

definition apply_pragma :: "compile_options \<Rightarrow> rstring \<Rightarrow> rstring \<Rightarrow> compile_options res" where
  "apply_pragma opts name v =
     (if name = bstr ''layout'' then
        rbind (ok_or (layout_parse_name v) (ParseError ''unknown layout: {value}''))
          (\<lambda>l. Ok (opts\<lparr>co_layout := l\<rparr>))
      else if name = bstr ''page-size'' then
        rbind (ok_or (parse_u32 v) (ParseError ''bad page-size: {value}''))
          (\<lambda>n. if n = 0 then Err (ParseError ''page-size must be > 0'') else Ok (opts\<lparr>co_page_size := n\<rparr>))
      else Err (ParseError ''unknown pragma: {other}''))"

definition layout_validate_flags :: "u16 \<Rightarrow> unit res" where
  "layout_validate_flags flags =
     (let col = has_flag flags FLAG_COLUMNAR; pax = has_flag flags FLAG_PAX in
      if col \<and> pax then Err InvalidFlags
      else if (col \<or> pax) \<and> \<not> has_flag flags FLAG_SCHEMA_EMBEDDED
        then Err (ParseError ''columnar/PAX requires FLAG_SCHEMA_EMBEDDED'')
      else if has_flag flags FLAG_V13_COMPACT_MASK \<and> (col \<or> pax) then Err IncompatibleFlags
      else validate_reader_flags flags True)"

section \<open>Records\<close>

text \<open>\<open>Vec::resize\<close>\<close>

definition resize_cells :: "usize \<Rightarrow> cell list \<Rightarrow> cell list" where
  "resize_cells n cs = take n cs @ replicate (n - length cs) Absent"

text \<open>One field of a record: the keys seen so far, their index, and the cells of the record.\<close>

definition place_cell ::
  "field \<Rightarrow> rstring list \<times> (rstring \<rightharpoonup> usize) \<times> cell list
     \<Rightarrow> (rstring list \<times> (rstring \<rightharpoonup> usize) \<times> cell list) res"
where
  "place_cell f st =
     (case st of (key_order, key_index, cells) \<Rightarrow>
      rbind (cell_from_value (fvalue f)) (\<lambda>cell.
      let (i, key_order, key_index, cells) =
            (case key_index (fkey f) of
               Some i \<Rightarrow> (i, key_order, key_index, cells)
             | None \<Rightarrow> (length key_order, key_order @ [fkey f], key_index(fkey f \<mapsto> length key_order),
                        resize_cells (length key_order) cells));
          cells = (if length cells \<le> i then resize_cells (i + 1) cells else cells) in
      Ok (key_order, key_index, cells[i := cell])))"

fun collect_records ::
  "field list \<Rightarrow> rstring list \<Rightarrow> (rstring \<rightharpoonup> usize) \<Rightarrow> cell list list \<Rightarrow> (rstring list \<times> cell list list) res"
where
  "collect_records [] key_order key_index rows = Ok (key_order, rows)"
| "collect_records (f # fs) key_order key_index rows =
     (case fvalue f of
        VObject inner \<Rightarrow>
          rbind (rfold place_cell inner (key_order, key_index, [])) (\<lambda>(key_order, key_index, cells).
          collect_records fs key_order key_index (rows @ [cells]))
      | _ \<Rightarrow> Err (ParseError ''columnar/PAX compile expects top-level `name { ... }` record blocks''))"

definition records_from_fields :: "field list \<Rightarrow> (rstring list \<times> cell list list) res" where
  "records_from_fields fs =
     rbind (collect_records fs [] Map.empty []) (\<lambda>(key_order, rows).
     if rows = [] then Err (ParseError ''no records to compile'')
     else Ok (key_order, map (resize_cells (length key_order)) rows))"

section \<open>Emitters\<close>

definition cell_at :: "cell list \<Rightarrow> usize \<Rightarrow> cell" where
  "cell_at row i = (case get_at row i of Some c \<Rightarrow> c | None \<Rightarrow> Absent)"

definition column_sigil :: "cell list list \<Rightarrow> usize \<Rightarrow> u8" where
  "column_sigil rows i =
     (case filter (\<lambda>c. c \<noteq> Absent) (map (\<lambda>row. cell_at row i) rows) of
        c # _ \<Rightarrow> cell_sigil c | [] \<Rightarrow> SIGIL_INT)"

definition sigils_for_keys :: "rstring list \<Rightarrow> cell list list \<Rightarrow> u8 list" where
  "sigils_for_keys keys rows = map (column_sigil rows) [0..<length keys]"

definition encode_columns :: "cell list list \<Rightarrow> u8 list \<Rightarrow> u8 list list res" where
  "encode_columns rows sigils =
     rmap (\<lambda>(i, sigil). encode_field_column (length rows) (map (\<lambda>row. cell_at row i) rows) sigil)
       (zip [0..<length sigils] sigils)"

text \<open>The tail entries of a columnar file: the field, where its sector starts and how long it is.\<close>

fun column_entries :: "nat \<Rightarrow> usize \<Rightarrow> u8 list list \<Rightarrow> (u16 \<times> u64 \<times> u64) list" where
  "column_entries i start [] = []"
| "column_entries i start (b # bs) =
     (word_of_nat i, word_of_nat start, word_of_nat (length b)) # column_entries (i + 1) (start + length b) bs"

definition layout_preamble :: "u16 \<Rightarrow> u8 list \<Rightarrow> usize \<Rightarrow> u8 list" where
  "layout_preamble flag schema_bytes tail =
     u32_le MAGIC_FILE @ u16_le VERSION @ u16_le (or FLAG_SCHEMA_EMBEDDED flag)
       @ u64_le (murmur3_64 schema_bytes) @ u64_le (word_of_nat tail) @ u64_le 0"

definition column_entry_bytes :: "u16 \<times> u64 \<times> u64 \<Rightarrow> u8 list" where
  "column_entry_bytes e = (case e of (i, off, len) \<Rightarrow> u16_le i @ u16_le 0 @ u64_le off @ u64_le len)"

definition finish_columnar :: "rstring list \<Rightarrow> cell list list \<Rightarrow> u8 list res" where
  "finish_columnar keys rows =
     (let sigils = sigils_for_keys keys rows; sb = build_schema keys sigils; start = 32 + length sb in
      rbind (encode_columns rows sigils) (\<lambda>bufs.
      let data = concat bufs; tail = start + length data in
      Ok (layout_preamble FLAG_COLUMNAR sb tail @ sb @ data
          @ concat (map column_entry_bytes (column_entries 0 start bufs))
          @ u64_le (word_of_nat tail) @ u64_le (word_of_nat (length rows)) @ u32_le MAGIC_FOOTER)))"

definition encode_page ::
  "u32 \<Rightarrow> u64 \<Rightarrow> u32 \<Rightarrow> usize \<Rightarrow> u8 list \<Rightarrow> cell list list \<Rightarrow> u8 list res"
where
  "encode_page page_index record_start record_count field_count sigils rows =
     rbind (rmap (\<lambda>i. encode_field_column (length rows) (map (\<lambda>row. cell_at row i) rows)
              (case get_at sigils i of Some s \<Rightarrow> s | None \<Rightarrow> SIGIL_INT)) [0..<field_count]) (\<lambda>cols.
     let body = concat cols; page_len = 24 + length body + 4 in
     Ok (pad8 (u32_le MAGIC_PAGE @ u32_le page_index @ u64_le record_start @ u32_le record_count
               @ u16_le (word_of_nat field_count) @ u16_le 0 @ body @ u32_le (word_of_nat page_len))))"

type_synonym pax_entry = "u32 \<times> u64 \<times> u32 \<times> u64 \<times> u32"

text \<open>
  The page loop of \<open>finish_pax\<close>.  The rows left are counted in 32 bits, so the loop may take an empty
  page and stay where it is; not returning is the value \<open>None\<close>.
\<close>

partial_function (option) pax_pages ::
  "u32 \<Rightarrow> usize \<Rightarrow> u8 list \<Rightarrow> cell list list \<Rightarrow> usize \<Rightarrow> u32 \<Rightarrow> u64 \<Rightarrow> usize \<Rightarrow> u8 list \<Rightarrow> pax_entry list
     \<Rightarrow> (u8 list \<times> pax_entry list) res option"
where
  "pax_pages page_size kc sigils rows start page_idx rec_start i data pages =
     (if length rows \<le> i then Some (Ok (data, pages))
      else
        let count = min (word_of_nat (length rows - i)) page_size in
        case encode_page page_idx rec_start count kc sigils (seg rows i (i + unat count)) of
          Err e \<Rightarrow> Some (Err e)
        | Panic \<Rightarrow> Some Panic
        | Ok page \<Rightarrow>
            pax_pages page_size kc sigils rows start (page_idx + 1) (rec_start + ucast count) (i + unat count)
              (data @ page)
              (pages @ [(page_idx, rec_start, count, word_of_nat (start + length data), word_of_nat (length page))]))"

definition pax_entry_bytes :: "pax_entry \<Rightarrow> u8 list" where
  "pax_entry_bytes e =
     (case e of (i, rstart, rc, off, len) \<Rightarrow> u32_le i @ u64_le rstart @ u32_le rc @ u64_le off @ u32_le len)"

definition finish_pax :: "rstring list \<Rightarrow> cell list list \<Rightarrow> u32 \<Rightarrow> u8 list res option" where
  "finish_pax keys rows page_size =
     (if page_size = 0 then Some (Err (ParseError ''page_size must be > 0''))
      else let sigils = sigils_for_keys keys rows; sb = build_schema keys sigils; start = 32 + length sb in
        map_option (\<lambda>r. rbind r (\<lambda>(data, pages).
          let tail = start + length data in
          Ok (layout_preamble FLAG_PAX sb tail @ sb @ data @ concat (map pax_entry_bytes pages)
              @ u64_le (word_of_nat tail) @ u64_le (word_of_nat (length rows))
              @ u32_le (word_of_nat (length pages)) @ u32_le page_size @ u32_le MAGIC_FOOTER)))
          (pax_pages page_size (length keys) sigils rows start 0 0 0 [] []))"

fun write_cells :: "usize \<Rightarrow> cell list \<Rightarrow> nxs_writer \<Rightarrow> nxs_writer res" where
  "write_cells i [] w = Ok w"
| "write_cells i (c # cs) w =
     rbind (let slot = word_of_nat i in
       case c of
         Absent \<Rightarrow> Ok w | CellNull \<Rightarrow> write_null slot w | CellI64 v \<Rightarrow> write_i64 slot v w
       | CellF64 v \<Rightarrow> write_f64 slot v w | CellBool v \<Rightarrow> write_bool slot v w | CellTime v \<Rightarrow> write_time slot v w
       | CellStr v \<Rightarrow> write_str slot v w | CellBinary _ \<Rightarrow> Err UnsupportedFieldType) (write_cells (i + 1) cs)"

definition finish_row :: "rstring list \<Rightarrow> cell list list \<Rightarrow> compact_options option \<Rightarrow> u8 list res" where
  "finish_row keys rows compact =
     rbind (rfold (\<lambda>row w. rbind (write_cells 0 row (begin_object w)) end_object) rows
              (writer_with_compact (new_schema keys) compact)) finish"

text \<open>The errors of \<open>records_from_fields\<close> after which a row file is compiled as one v1.2 object.\<close>

definition not_compact :: "nxs_error \<Rightarrow> bool" where
  "not_compact e = (case e of ParseError _ \<Rightarrow> True | UnsupportedFieldType \<Rightarrow> True | _ \<Rightarrow> False)"

definition compile_fields :: "field list \<Rightarrow> compile_options \<Rightarrow> u8 list res option" where
  "compile_fields fs opts =
     (case co_layout opts of
        LRow \<Rightarrow>
          Some (case row_compact_opts opts of
             Some compact \<Rightarrow>
               (case records_from_fields fs of
                  Ok (keys, rows) \<Rightarrow> finish_row keys rows (Some compact)
                | Err e \<Rightarrow> if not_compact e then compile fs new_compiler else Err e
                | Panic \<Rightarrow> Panic)
           | None \<Rightarrow> compile fs new_compiler)
      | _ \<Rightarrow>
          (case records_from_fields fs of
             Err e \<Rightarrow> Some (Err e)
           | Panic \<Rightarrow> Some Panic
           | Ok (keys, rows) \<Rightarrow>
               if co_layout opts = LColumnar then Some (finish_columnar keys rows)
               else finish_pax keys rows (if co_page_size opts = 0 then 4096 else co_page_size opts)))"

section \<open>From row objects back to cells\<close>

definition read_cell_at :: "u8 list \<Rightarrow> usize \<Rightarrow> u8 \<Rightarrow> cell res" where
  "read_cell_at buf off sigil =
     (let bytes = (if length buf < off + 4 then Err OutOfBounds
                   else rbind (rd_u32 buf off) (\<lambda>l.
                        if length buf < off + 4 + unat l then Err OutOfBounds
                        else slice buf (off + 4) (off + 4 + unat l))) in
      if sigil = SIGIL_INT then rbind (rd_u64 buf off) (\<lambda>v. Ok (CellI64 v))
      else if sigil = SIGIL_FLOAT then rbind (rd_u64 buf off) (\<lambda>v. Ok (CellF64 v))
      else if sigil = SIGIL_BOOL then rbind (idx buf off) (\<lambda>b. Ok (CellBool (b \<noteq> 0)))
      else if sigil = SIGIL_TIME then rbind (rd_u64 buf off) (\<lambda>v. Ok (CellTime v))
      else if sigil = SIGIL_NULL then Ok CellNull
      else if sigil = SIGIL_STR then
        rbind bytes (\<lambda>bs. rbind (ok_or (str_from_utf8 bs) (ParseError ''invalid UTF-8 in string field'')) (\<lambda>s. Ok (CellStr s)))
      else if sigil = SIGIL_BINARY then rbind bytes (\<lambda>bs. Ok (CellBinary bs))
      else if sigil = SIGIL_KEYWORD then Err UnsupportedFieldType
      else Err OutOfBounds)"

text \<open>The mask of an object, for as many slots as the schema has.\<close>

function row_mask :: "u8 list \<Rightarrow> usize \<Rightarrow> usize \<Rightarrow> bool list \<Rightarrow> (bool list \<times> usize) res" where
  "row_mask buf p width present =
     (if width \<le> length present then Ok (present, p)
      else if length buf \<le> p then Err OutOfBounds
      else
        let b = buf ! p;
            present' = present @ map (\<lambda>k. and (drop_bit k (and b 0x7F)) 1 \<noteq> 0) [0..<min 7 (width - length present)] in
        if and b 0x80 = 0 then Ok (present' @ replicate (width - length present') False, p + 1)
        else row_mask buf (p + 1) width present')"
  by pat_completeness auto

termination row_mask
  by (relation "measure (\<lambda>(buf, p, width, present). length buf - p)") auto

declare row_mask.simps [simp del]

fun row_cells :: "u8 list \<Rightarrow> usize \<Rightarrow> u8 list \<Rightarrow> usize \<Rightarrow> nat \<Rightarrow> u16 \<Rightarrow> bool list \<Rightarrow> cell list res" where
  "row_cells buf obj_off sigils table s rank [] = Ok []"
| "row_cells buf obj_off sigils table s rank (p # ps) =
     (if \<not> p then rbind (row_cells buf obj_off sigils table (s + 1) rank ps) (\<lambda>cs. Ok (Absent # cs))
      else
        let ot = table + unat rank * 2 in
        if length buf < ot + 2 then Err OutOfBounds
        else
          rbind (rd_u16 buf ot) (\<lambda>rel.
          rbind (read_cell_at buf (obj_off + unat rel) (case get_at sigils s of Some g \<Rightarrow> g | None \<Rightarrow> SIGIL_INT)) (\<lambda>c.
          rbind (row_cells buf obj_off sigils table (s + 1) (rank + 1) ps) (\<lambda>cs. Ok (c # cs)))))"

definition decode_row_object :: "u8 list \<Rightarrow> usize \<Rightarrow> usize \<Rightarrow> u8 list \<Rightarrow> cell list res" where
  "decode_row_object buf obj_off width sigils =
     (if length buf < obj_off + 8 then Err OutOfBounds
      else rbind (rd_u32 buf obj_off) (\<lambda>magic.
        if magic \<noteq> MAGIC_OBJ then Err BadMagic
        else rbind (row_mask buf (obj_off + 8) width []) (\<lambda>(present, table).
             row_cells buf obj_off sigils table 0 0 present)))"

definition columnar_from_writer :: "nxs_writer \<Rightarrow> u8 list res" where
  "columnar_from_writer w =
     (let keys = ws_keys (w_schema w) in
      rbind (rmap (\<lambda>rel. decode_row_object (w_buf w) (unat rel) (length keys) (w_slot_sigils w)) (w_record_offsets w))
        (finish_columnar keys))"

section \<open>Source files\<close>

definition show_i64 :: "i64 \<Rightarrow> rstring" where
  "show_i64 n = (if sint n < 0 then bstr ''-'' @ show_nat (nat (- sint n)) else show_nat (nat (sint n)))"

fun file_pragmas :: "token list \<Rightarrow> compile_options \<Rightarrow> (compile_options \<times> token list) res" where
  "file_pragmas (TMacro m # ts) opts =
     (case strip_prefix (bstr ''@'') m of
        None \<Rightarrow> Ok (opts, TMacro m # ts)
      | Some name \<Rightarrow>
          (case ts of
             TIdent s # ts' \<Rightarrow> rbind (apply_pragma opts name s) (file_pragmas ts')
           | TInt n # ts' \<Rightarrow> rbind (apply_pragma opts name (show_i64 n)) (file_pragmas ts')
           | _ \<Rightarrow> Err (ParseError ''pragma {name} requires a value'')))"
| "file_pragmas ts opts = Ok (opts, ts)"

definition merge_options :: "compile_options \<Rightarrow> compile_options \<Rightarrow> compile_options" where
  "merge_options opts file_opts =
     (let m = (if co_layout file_opts \<noteq> LRow then opts\<lparr>co_layout := co_layout file_opts\<rparr> else opts);
          m = (if co_page_size file_opts \<noteq> 0 then m\<lparr>co_page_size := co_page_size file_opts\<rparr> else m) in
      if co_page_size m = 0 \<and> co_layout m = LPax then m\<lparr>co_page_size := 4096\<rparr> else m)"

definition parse_file_with_pragmas :: "token list \<Rightarrow> (field list \<times> compile_options) res" where
  "parse_file_with_pragmas tokens =
     rbind (file_pragmas tokens default_compile_options) (\<lambda>(opts, ts).
     rbind (parse_file ts) (\<lambda>fs. Ok (fs, opts)))"

definition compile_source_with_opts ::
  "unicode \<Rightarrow> uchar list \<Rightarrow> compile_options \<Rightarrow> u8 list res option"
where
  "compile_source_with_opts u source opts =
     (case rbind (tokenize u source) parse_file_with_pragmas of
        Err e \<Rightarrow> Some (Err e)
      | Panic \<Rightarrow> Some Panic
      | Ok (fs, file_opts) \<Rightarrow> compile_fields fs (merge_options opts file_opts))"

definition compile_source :: "unicode \<Rightarrow> uchar list \<Rightarrow> u8 list res option" where
  "compile_source u source = compile_source_with_opts u source default_compile_options"

end
