(* ===== verification/Query.thy ===== *)
theory Query
  imports Layouts
begin

text \<open>
  The query reader: \<^verbatim>\<open>rust/src/query.rs\<close> and the scalar reductions of \<^verbatim>\<open>rust/src/col_reduce.rs\<close>.

  A reader is opened on a buffer and then answers lookups in one of three layouts.  A record is
  identified by the byte offset of its object in the row layout and by its index in the other two.
  Getters return \<open>Ok None\<close> where the source returns \<open>None\<close>; \<open>Panic\<close> is a slice or an index out of
  range.  The prefetch hooks touch pages of the buffer and change no answer, so they are left out.
\<close>

section \<open>Optional results\<close>

text \<open>The \<open>?\<close> of a function that returns an \<open>Option\<close>, and \<open>.ok()\<close> on a result.\<close>

definition obind :: "'a option res \<Rightarrow> ('a \<Rightarrow> 'b option res) \<Rightarrow> 'b option res" where
  "obind x f = rbind x (\<lambda>v. case v of None \<Rightarrow> Ok None | Some a \<Rightarrow> f a)"

definition res_ok :: "'a res \<Rightarrow> 'a option res" where
  "res_ok x = (case x of Ok a \<Rightarrow> Ok (Some a) | Err _ \<Rightarrow> Ok None | Panic \<Rightarrow> Panic)"

lemma obind_simps [simp]:
  "obind (Ok None) f = Ok None" "obind (Ok (Some a)) f = f a" "obind (Err e) f = Err e" "obind Panic f = Panic"
  by (simp_all add: obind_def)

lemma res_ok_simps [simp]: "res_ok (Ok a) = Ok (Some a)" "res_ok (Err e) = Ok None" "res_ok Panic = Panic"
  by (simp_all add: res_ok_def)

lemma obind_eq_Panic [res_simps]: "obind x f = Panic \<longleftrightarrow> x = Panic \<or> (\<exists>a. x = Ok (Some a) \<and> f a = Panic)"
  by (cases x) (auto simp: obind_def split: option.splits)

section \<open>The reader\<close>

datatype data_layout = Row | Columnar | Pax

record reader =
  r_data :: "u8 list"
  r_flags :: u16
  r_keys :: "rstring list"
  r_key_sigils :: "u8 list"
  r_ext_schema :: "ext_schema option"
  r_cell_plan :: "row_plan option"
  r_key_index :: "rstring \<rightharpoonup> usize"
  r_record_count :: usize
  r_tail_start :: usize
  r_delta_tail :: "delta_layout option"
  r_layout :: data_layout
  r_col_buf_off :: "u64 list"
  r_col_buf_len :: "u64 list"

definition parse_schema :: "u8 list \<Rightarrow> usize \<Rightarrow> (rstring list \<times> u8 list \<times> usize) res" where
  "parse_schema data offset =
     (if length data < offset + 2 then Err OutOfBounds
      else rbind (rd_u16 data offset) (\<lambda>kc.
        let key_count = unat kc; p = offset + 2 in
        if length data < p + key_count then Err OutOfBounds
        else rbind (slice data p (p + key_count)) (\<lambda>sigils.
             rbind (read_many (read_cstr (ParseError ''invalid utf-8 key'')) key_count data (p + key_count)) (\<lambda>(keys, p).
             Ok (keys, sigils, if p mod 8 \<noteq> 0 then p + (8 - p mod 8) else p)))))"

text \<open>A map collected from an enumeration: of equal names the last one counts.\<close>

definition index_keys :: "rstring list \<Rightarrow> rstring \<rightharpoonup> usize" where
  "index_keys keys = map_of (rev (zip keys [0..<length keys]))"

text \<open>One entry of the columnar tail index.\<close>

definition read_col_entry ::
  "u8 list \<Rightarrow> usize \<Rightarrow> usize \<Rightarrow> usize \<Rightarrow> u64 list \<times> u64 list \<Rightarrow> (u64 list \<times> u64 list) res"
where
  "read_col_entry data tail_ptr kc i st =
     (case st of (offs, lens) \<Rightarrow>
      let e = tail_ptr + i * 20 in
      rbind (rd_u16 data e) (\<lambda>fid.
      if kc \<le> unat fid then Err OutOfBounds
      else rbind (rd_u64 data (e + 4)) (\<lambda>off. rbind (rd_u64 data (e + 12)) (\<lambda>len.
           Ok (offs[unat fid := off], lens[unat fid := len])))))"

type_synonym reader_tail = "data_layout \<times> usize \<times> usize \<times> u64 list \<times> u64 list \<times> delta_layout option"

definition columnar_tail :: "u8 list \<Rightarrow> u16 \<Rightarrow> usize \<Rightarrow> reader_tail res" where
  "columnar_tail data flags kc =
     (let fo = length data - footer_size flags in
      rbind (rd_u64 data fo) (\<lambda>tp. rbind (rd_u64 data (fo + 8)) (\<lambda>rc.
      let tail_ptr = unat tp in
      rbind (ok_or (checked_mul kc 20) OutOfBounds) (\<lambda>n.
      rbind (ok_or (checked_add tail_ptr n) OutOfBounds) (\<lambda>tail_end.
      if fo \<le> tail_ptr \<or> fo < tail_end then Err OutOfBounds
      else rbind (rfold (read_col_entry data tail_ptr kc) [0..<kc] (replicate kc 0, replicate kc 0)) (\<lambda>(offs, lens).
           Ok (Columnar, unat rc, tail_ptr, offs, lens, None)))))))"

definition pax_tail :: "u8 list \<Rightarrow> u16 \<Rightarrow> reader_tail res" where
  "pax_tail data flags =
     (let fo = length data - footer_size flags in
      rbind (rd_u64 data fo) (\<lambda>tp. rbind (rd_u64 data (fo + 8)) (\<lambda>rc.
      Ok (Pax, unat rc, unat tp, [], [], None))))"

definition row_tail :: "u8 list \<Rightarrow> u16 \<Rightarrow> u64 \<Rightarrow> reader_tail res" where
  "row_tail data flags preamble_tail =
     rbind (if preamble_tail = 0 then
              if length data < 44 then Err OutOfBounds else rd_u64 data (length data - 12)
            else Ok preamble_tail) (\<lambda>tp.
     let tail_ptr = unat tp in
     if length data - 4 < tail_ptr then Err OutOfBounds
     else if has_flag flags FLAG_DELTA_TAIL then
       rbind (parse_delta_tail_layout data tail_ptr) (\<lambda>l. Ok (Row, dl_record_count l, tail_ptr, [], [], Some l))
     else rbind (rd_u32 data tail_ptr) (\<lambda>rc. Ok (Row, unat rc, tail_ptr + 4, [], [], None)))"

definition reader_tail :: "u8 list \<Rightarrow> u16 \<Rightarrow> usize \<Rightarrow> u64 \<Rightarrow> reader_tail res" where
  "reader_tail data flags kc preamble_tail =
     (if has_flag flags FLAG_COLUMNAR then columnar_tail data flags kc
      else if has_flag flags FLAG_PAX then pax_tail data flags
      else row_tail data flags preamble_tail)"

definition reader_schema ::
  "u8 list \<Rightarrow> u16 \<Rightarrow> (rstring list \<times> u8 list \<times> ext_schema option \<times> row_plan option) res"
where
  "reader_schema data flags =
     (if \<not> has_flag flags FLAG_SCHEMA_EMBEDDED then Ok ([], [], None, None)
      else if has_flag flags FLAG_V13_COMPACT_MASK then
        rbind (parse_extended_schema data 32 flags) (\<lambda>(ext, _).
        rbind (new_row_plan ext flags) (\<lambda>plan. Ok (s_keys ext, s_sigils ext, Some ext, Some plan)))
      else rbind (parse_schema data 32) (\<lambda>(keys, sigils, _). Ok (keys, sigils, None, None)))"

definition reader_new :: "u8 list \<Rightarrow> reader res" where
  "reader_new data =
     (if length data < 32 then Err OutOfBounds
      else rbind (rd_u32 data 0) (\<lambda>magic.
      if magic \<noteq> MAGIC_FILE then Err BadMagic
      else rbind (rd_u32 data (length data - 4)) (\<lambda>footer_magic.
      if footer_magic \<noteq> MAGIC_FOOTER then Err BadMagic
      else rbind (rd_u16 data 6) (\<lambda>flags.
           rbind (layout_validate_flags flags) (\<lambda>_.
           rbind (rd_u64 data 16) (\<lambda>preamble_tail.
           rbind (reader_schema data flags) (\<lambda>(keys, sigils, ext, plan).
           rbind (reader_tail data flags (length keys) preamble_tail)
             (\<lambda>(layout, record_count, tail_start, offs, lens, delta).
           Ok \<lparr>r_data = data, r_flags = flags, r_keys = keys, r_key_sigils = sigils, r_ext_schema = ext,
               r_cell_plan = plan, r_key_index = index_keys keys, r_record_count = record_count,
               r_tail_start = tail_start, r_delta_tail = delta, r_layout = layout,
               r_col_buf_off = offs, r_col_buf_len = lens\<rparr>))))))))"

definition reader_slot :: "reader \<Rightarrow> rstring \<Rightarrow> usize option" where
  "reader_slot r key = r_key_index r key"

section \<open>Columns of the columnar layout\<close>

definition col_sector :: "reader \<Rightarrow> usize \<Rightarrow> (u8 list \<times> usize) res" where
  "col_sector r slot =
     rbind (ok_or (get_at (r_col_buf_off r) slot) OutOfBounds) (\<lambda>off.
     rbind (ok_or (get_at (r_col_buf_len r) slot) OutOfBounds) (\<lambda>len.
     rbind (ok_or (checked_add (unat off) (unat len)) OutOfBounds) (\<lambda>e.
     if length (r_data r) < e then Err OutOfBounds
     else rbind (slice (r_data r) (unat off) e) (\<lambda>sector. Ok (sector, unat len)))))"

definition col_field_var_parts :: "reader \<Rightarrow> usize \<Rightarrow> (u8 list \<times> u8 list \<times> u8 list) res" where
  "col_field_var_parts r slot = rbind (col_sector r slot) (\<lambda>(sector, _). col_var_parts sector (r_record_count r))"

definition col_field_parts :: "reader \<Rightarrow> usize \<Rightarrow> (u8 list \<times> u8 list) res" where
  "col_field_parts r slot =
     (if (case get_at (r_key_sigils r) slot of Some s \<Rightarrow> is_var_sigil s | None \<Rightarrow> False) then Err UnsupportedFieldType
      else rbind (col_sector r slot) (\<lambda>(sector, len).
        let bm_len = null_bitmap_bytes (r_record_count r);
            vals_len = min (r_record_count r * 8) (USIZE_LIM - 1) in
        rbind (ok_or (checked_add bm_len vals_len) OutOfBounds) (\<lambda>vals_end.
        if len < vals_end then Err OutOfBounds
        else rbind (slice sector 0 bm_len) (\<lambda>bm. rbind (slice sector bm_len vals_end) (\<lambda>vals. Ok (bm, vals))))))"

text \<open>A value of a column: the bit of the record, then the bytes at its place.\<close>

definition read_flag :: "u8 list \<Rightarrow> usize \<Rightarrow> bool option" where
  "read_flag data p = map_option (\<lambda>b. b \<noteq> 0) (get_at data p)"

definition fixed_value :: "(u8 list \<Rightarrow> usize \<Rightarrow> 'a option) \<Rightarrow> (u8 list \<times> u8 list) res \<Rightarrow> usize \<Rightarrow> 'a option res" where
  "fixed_value rd parts i =
     obind (res_ok parts) (\<lambda>(bm, vals). rbind (col_bit bm i) (\<lambda>b. Ok (if b then rd vals (i * 8) else None)))"

definition str_value :: "(u8 list \<times> u8 list \<times> u8 list) res \<Rightarrow> usize \<Rightarrow> rstring option res" where
  "str_value parts i =
     obind (res_ok parts) (\<lambda>(bm, offsets, vals).
     rbind (col_bit bm i) (\<lambda>b. Ok (if b then var_str_at offsets vals i else None)))"

section \<open>Pages of the PAX layout\<close>

definition PAX_TAIL_ENTRY_BYTES :: usize where "PAX_TAIL_ENTRY_BYTES = 28"

definition page_entry :: "reader \<Rightarrow> usize \<Rightarrow> usize option" where
  "page_entry r page_idx = Option.bind (checked_mul page_idx PAX_TAIL_ENTRY_BYTES) (checked_add (r_tail_start r))"

definition page_count :: "reader \<Rightarrow> usize res" where
  "page_count r =
     (if r_layout r \<noteq> Pax \<or> length (r_data r) - 4 < r_tail_start r then Ok 0
      else rbind (rd_u32 (r_data r) (length (r_data r) - footer_size FLAG_PAX + 16)) (\<lambda>n. Ok (unat n)))"

definition pax_page_rec_start :: "reader \<Rightarrow> usize \<Rightarrow> u64 option" where
  "pax_page_rec_start r page_idx =
     Option.bind (page_entry r page_idx) (\<lambda>e.
     Option.bind (checked_add e 4) (\<lambda>s. Option.bind (checked_add e 12) (\<lambda>t.
     map_option u64_of_le (get_range (r_data r) s t))))"

definition pax_page_rec_count :: "reader \<Rightarrow> usize \<Rightarrow> u32 option" where
  "pax_page_rec_count r page_idx =
     Option.bind (page_entry r page_idx) (\<lambda>e.
     Option.bind (checked_add e 12) (\<lambda>s. Option.bind (checked_add e 16) (\<lambda>t.
     map_option u32_of_le (get_range (r_data r) s t))))"

definition sigil_or_int :: "reader \<Rightarrow> usize \<Rightarrow> u8" where
  "sigil_or_int r slot = (case get_at (r_key_sigils r) slot of Some s \<Rightarrow> s | None \<Rightarrow> SIGIL_INT)"

text \<open>The length of the column of field \<open>fi\<close> that starts at \<open>body\<close>.\<close>

definition sector_at :: "reader \<Rightarrow> usize \<Rightarrow> usize \<Rightarrow> usize \<Rightarrow> usize res" where
  "sector_at r rc fi body =
     (if length (r_data r) < body then Err OutOfBounds
      else rbind (slice (r_data r) body (length (r_data r))) (\<lambda>s. column_sector_len s rc (sigil_or_int r fi)))"

definition skip_column :: "reader \<Rightarrow> usize \<Rightarrow> usize \<Rightarrow> usize \<Rightarrow> usize res" where
  "skip_column r rc fi body = rbind (sector_at r rc fi body) (\<lambda>slen. ok_or (checked_add body slen) OutOfBounds)"

definition pax_column_sector :: "reader \<Rightarrow> usize \<Rightarrow> usize \<Rightarrow> u8 list res" where
  "pax_column_sector r page_idx slot =
     (let data = r_data r in
      rbind (ok_or (page_entry r page_idx) OutOfBounds) (\<lambda>e.
      rbind (ok_or (checked_add e 16) OutOfBounds) (\<lambda>s. rbind (ok_or (checked_add e 24) OutOfBounds) (\<lambda>t.
      rbind (ok_or (map_option u64_of_le (get_range data s t)) OutOfBounds) (\<lambda>po.
      let poff = unat po in
      if length data - 24 < poff then Err OutOfBounds
      else rbind (rd_u32 data poff) (\<lambda>magic.
      if magic \<noteq> MAGIC_PAGE then Err InvalidPageMagic
      else rbind (rd_u32 data (poff + 16)) (\<lambda>rc. rbind (rd_u16 data (poff + 20)) (\<lambda>field_count.
      if unat field_count \<le> slot then Err OutOfBounds
      else rbind (ok_or (checked_add poff 24) OutOfBounds) (\<lambda>body.
           rbind (rfold (skip_column r (unat rc)) [0..<slot] body) (\<lambda>body.
           rbind (sector_at r (unat rc) slot body) (\<lambda>slen.
           if length data - slen < body then Err OutOfBounds else slice data body (body + slen))))))))))))"

definition pax_page_field_parts :: "reader \<Rightarrow> usize \<Rightarrow> usize \<Rightarrow> (u8 list \<times> u8 list) res" where
  "pax_page_field_parts r page_idx slot =
     rbind (pax_column_sector r page_idx slot) (\<lambda>sector.
     rbind (ok_or (pax_page_rec_count r page_idx) OutOfBounds) (\<lambda>rc.
     let bm_len = null_bitmap_bytes (unat rc); vals_end = bm_len + unat rc * 8 in
     if length sector < bm_len then Err OutOfBounds
     else if length sector < vals_end then Err OutOfBounds
     else rbind (slice sector 0 bm_len) (\<lambda>bm. rbind (slice sector bm_len vals_end) (\<lambda>vals. Ok (bm, vals)))))"

definition pax_page_field_var_parts :: "reader \<Rightarrow> usize \<Rightarrow> usize \<Rightarrow> (u8 list \<times> u8 list \<times> u8 list) res" where
  "pax_page_field_var_parts r page_idx slot =
     rbind (pax_column_sector r page_idx slot) (\<lambda>sector.
     rbind (ok_or (pax_page_rec_count r page_idx) OutOfBounds) (\<lambda>rc. col_var_parts sector (unat rc)))"

text \<open>
  The binary search for the page of a record.  \<open>lo\<close> is an \<open>i32\<close> that starts at 0 and only becomes
  \<open>mid + 1\<close>, so it is kept as the natural number it is; the sum of the bounds wraps, and a negative
  middle becomes an index that no page has.
\<close>

definition page_mid :: "nat \<Rightarrow> 32 word \<Rightarrow> usize" where
  "page_mid lo hi = nat ((sint (word_of_nat lo + hi) sdiv 2) mod 2 ^ 64)"

lemma sdiv_2_nat: "int n sdiv 2 = int (n div 2)" "- int n sdiv 2 = - int (n div 2)"
  by (simp_all add: signed_divide_int_def zdiv_int sgn_if)

lemma page_mid_bounds:
  assumes "int lo \<le> sint hi" and "page_mid lo hi < 2 ^ 63"
  shows "page_mid lo hi = (lo + nat (sint hi)) div 2"
    and "lo \<le> page_mid lo hi" and "int (page_mid lo hi) \<le> sint hi"
proof -
  define h where "h = nat (sint hi)"
  have hi: "sint hi = int h" using assms(1) by (simp add: h_def)
  have h: "h < 2 ^ 31" using sint_lt[of hi] hi by simp
  have lo: "lo \<le> h" using assms(1) hi by simp
  have "hi = word_of_int (int h)" using hi by (metis of_int_sint scast_id)
  then have "word_of_nat lo + hi = (word_of_int (int (lo + h)) :: 32 word)" by simp
  then have sum: "sint (word_of_nat lo + hi) = (int (lo + h) + 2 ^ 31) mod 2 ^ 32 - 2 ^ 31"
    by (simp only: int_word_sint) simp
  show "page_mid lo hi = (lo + nat (sint hi)) div 2"
  proof (cases "lo + h < 2 ^ 31")
    case True
    then have "sint (word_of_nat lo + hi) = int (lo + h)" unfolding sum by simp
    then show ?thesis using True by (simp only: page_mid_def h_def[symmetric] sdiv_2_nat) simp
  next
    case False
    define k where "k = 2 ^ 32 - (lo + h)"
    have k: "1 < k" "k \<le> 2 ^ 31" "lo + h + k = 2 ^ 32" using False lo h by (simp_all add: k_def)
    define x where "x = int (lo + h) - 2 ^ 31"
    have "0 \<le> x" "x < 2 ^ 32" using False lo h by (simp_all add: x_def)
    then have "(x + 2 ^ 32) mod 2 ^ 32 = x" by simp
    moreover have "int (lo + h) + 2 ^ 31 = x + 2 ^ 32" by (simp add: x_def)
    ultimately have "(int (lo + h) + 2 ^ 31) mod 2 ^ 32 = int (lo + h) - 2 ^ 31" unfolding x_def by (simp only:)
    then have "sint (word_of_nat lo + hi) = - int k" unfolding sum using k(3) by simp
    moreover have "nat (- int (k div 2) mod 2 ^ 64) = 2 ^ 64 - k div 2"
    proof -
      have "- int (k div 2) mod 2 ^ 64 = 2 ^ 64 - int (k div 2)"
        using mod_add_self2[of "- int (k div 2)" "2 ^ 64"] mod_pos_pos_trivial[of "2 ^ 64 - int (k div 2)" "2 ^ 64"] k(1,2)
        by simp
      then show ?thesis by (simp add: nat_diff_distrib')
    qed
    ultimately have "page_mid lo hi = 2 ^ 64 - k div 2" by (simp only: page_mid_def sdiv_2_nat)
    then have False using assms(2) k(2) by simp
    then show ?thesis ..
  qed
  then show "lo \<le> page_mid lo hi" "int (page_mid lo hi) \<le> sint hi"
    using lo hi unfolding h_def[symmetric] by auto
qed

lemma page_known: "pax_page_rec_start r p = Some v \<Longrightarrow> p < 2 ^ 63"
  by (auto simp: pax_page_rec_start_def page_entry_def PAX_TAIL_ENTRY_BYTES_def checked_mul_def lims bind_eq_Some_conv
      split: if_splits)

function locate_loop :: "reader \<Rightarrow> usize \<Rightarrow> nat \<Rightarrow> 32 word \<Rightarrow> (usize \<times> usize) option" where
  "locate_loop r i lo hi =
     (if sint hi < int lo then None
      else let mid = page_mid lo hi in
        case pax_page_rec_start r mid of None \<Rightarrow> None | Some start \<Rightarrow>
        (case pax_page_rec_count r mid of None \<Rightarrow> None | Some count \<Rightarrow>
           if i < unat start then locate_loop r i lo (word_of_nat mid - 1)
           else if wadd (unat start) (unat count) \<le> i then locate_loop r i (mid + 1) hi
           else Some (mid, i - unat start)))"
  by pat_completeness auto

lemma sint_pred: "int m \<le> sint (hi :: 32 word) \<Longrightarrow> sint (word_of_nat m - 1 :: 32 word) = int m - 1"
proof -
  assume "int m \<le> sint hi"
  then have m: "m < 2 ^ 31" using sint_lt[of hi] by simp
  have "(word_of_nat m - 1 :: 32 word) = word_of_int (int m - 1)" by simp
  then have "sint (word_of_nat m - 1 :: 32 word) = (int m - 1 + 2 ^ 31) mod 2 ^ 32 - 2 ^ 31"
    by (simp only: int_word_sint) simp
  then show ?thesis using m by simp
qed

termination locate_loop
proof (relation "measure (\<lambda>(r, i, lo, hi). nat (sint hi + 1 - int lo))", goal_cases)
  case (2 r i lo hi mid start count)
  then have "\<not> sint hi < int lo" "mid < 2 ^ 63" by (auto dest: page_known)
  then show ?case using page_mid_bounds[of lo hi] sint_pred[of mid hi] 2(2) by simp
next
  case (3 r i lo hi mid start count)
  then have "\<not> sint hi < int lo" "mid < 2 ^ 63" by (auto dest: page_known)
  then show ?case using page_mid_bounds[of lo hi] 3(2) by simp
qed simp

declare locate_loop.simps [simp del]

definition pax_locate_record :: "reader \<Rightarrow> usize \<Rightarrow> (usize \<times> usize) option res" where
  "pax_locate_record r i =
     rbind (page_count r) (\<lambda>n. Ok (locate_loop r i 0 (word_of_nat (n - 1))))"

text \<open>The common part of \<open>pax_get_f64\<close>, \<open>pax_get_i64\<close> and \<open>pax_get_bool\<close>.\<close>

definition pax_get_fixed :: "(u8 list \<Rightarrow> usize \<Rightarrow> 'a option) \<Rightarrow> reader \<Rightarrow> usize \<Rightarrow> usize \<Rightarrow> 'a option res" where
  "pax_get_fixed rd r i slot =
     obind (pax_locate_record r i) (\<lambda>(pi, local).
     obind (Ok (get_at (r_key_sigils r) slot)) (\<lambda>sig.
     if is_var_sigil sig then Ok None else fixed_value rd (pax_page_field_parts r pi slot) local))"

definition pax_get_str :: "reader \<Rightarrow> usize \<Rightarrow> usize \<Rightarrow> rstring option res" where
  "pax_get_str r i slot =
     obind (pax_locate_record r i) (\<lambda>(pi, local).
     if get_at (r_key_sigils r) slot \<noteq> Some SIGIL_STR then Ok None
     else str_value (pax_page_field_var_parts r pi slot) local)"

section \<open>Records\<close>

text \<open>\<open>resolve_slot\<close>: the steps of the mask with the checked additions of the source.\<close>

fun scan_bits :: "u8 \<Rightarrow> nat list \<Rightarrow> usize \<Rightarrow> usize \<times> usize \<times> bool \<Rightarrow> (usize \<times> usize \<times> bool) option" where
  "scan_bits b [] slot st = Some st"
| "scan_bits b (k # ks) slot (cur, table_idx, found) =
     (let set_bit = (and (drop_bit k (and b 0x7F)) 1 = 1) in
      if cur = slot \<and> \<not> set_bit then None
      else Option.bind (if cur < slot \<and> set_bit then checked_add table_idx 1 else Some table_idx) (\<lambda>table_idx.
           Option.bind (checked_add cur 1) (\<lambda>cur'.
           scan_bits b ks slot (cur', table_idx, cur = slot \<or> found))))"

function scan_slot :: "u8 list \<Rightarrow> usize \<Rightarrow> usize \<Rightarrow> usize \<times> usize \<times> bool \<Rightarrow> (u8 \<times> usize \<times> usize) option" where
  "scan_slot data p slot st =
     (case get_at data p of None \<Rightarrow> None | Some b \<Rightarrow>
      (case checked_add p 1 of None \<Rightarrow> None | Some p' \<Rightarrow>
       (case scan_bits b [0..<7] slot st of None \<Rightarrow> None | Some (cur, table_idx, found) \<Rightarrow>
          if found \<and> and b 0x80 = 0 then Some (b, p', table_idx)
          else if slot < cur \<and> found then Some (b, p', table_idx)
          else if and b 0x80 = 0 then None
          else scan_slot data p' slot (cur, table_idx, found))))"
  by pat_completeness auto

termination scan_slot
  by (relation "measure (\<lambda>(data, p, slot, st). length data - p)")
    (auto simp: get_at_def checked_add_def split: if_splits)

function skip_mask :: "u8 list \<Rightarrow> u8 \<Rightarrow> usize \<Rightarrow> usize option" where
  "skip_mask data b p =
     (if and b 0x80 = 0 then Some p
      else case get_at data p of None \<Rightarrow> None | Some b' \<Rightarrow>
           (case checked_add p 1 of None \<Rightarrow> None | Some p' \<Rightarrow> skip_mask data b' p'))"
  by pat_completeness auto

termination skip_mask
  by (relation "measure (\<lambda>(data, b, p). length data - p)")
    (auto simp: get_at_def checked_add_def split: if_splits)

declare scan_slot.simps [simp del] skip_mask.simps [simp del]

definition resolve_slot :: "u8 list \<Rightarrow> usize \<Rightarrow> usize \<Rightarrow> usize option" where
  "resolve_slot data obj_offset slot =
     Option.bind (checked_add obj_offset 8) (\<lambda>p0.
     Option.bind (scan_slot data p0 slot (0, 0, False)) (\<lambda>(b, p, table_idx).
     Option.bind (skip_mask data b p) (\<lambda>p.
     Option.bind (checked_mul table_idx 2) (\<lambda>table_off.
     Option.bind (checked_add p table_off) (\<lambda>table_start.
     Option.bind (checked_add table_start 2) (\<lambda>table_end.
     Option.bind (get_range data table_start table_end) (\<lambda>bs.
     checked_add obj_offset (unat (u16_of_le bs)))))))))"

definition row_record_offset :: "reader \<Rightarrow> usize \<Rightarrow> usize option res" where
  "row_record_offset r i =
     (case r_delta_tail r of
        Some dt \<Rightarrow> res_ok (delta_record_offset (r_data r) dt i)
      | None \<Rightarrow> Ok (classic_record_offset (r_data r) (r_tail_start r) i))"

text \<open>What identifies record \<open>i\<close>: \<open>Reader::record\<close> after its bound check, and \<open>Records::next\<close>.\<close>

definition record_offset :: "reader \<Rightarrow> usize \<Rightarrow> usize option res" where
  "record_offset r i = (if r_layout r = Row then row_record_offset r i else Ok (Some i))"

definition reader_record :: "reader \<Rightarrow> usize \<Rightarrow> usize option res" where
  "reader_record r i = (if r_record_count r \<le> i then Ok None else record_offset r i)"

definition record_resolve :: "reader \<Rightarrow> usize \<Rightarrow> usize \<Rightarrow> usize option res" where
  "record_resolve r off slot =
     (case (r_ext_schema r, r_cell_plan r) of
        (Some ext, Some plan) \<Rightarrow>
          resolve_field_offset (r_data r) off slot ext plan (has_flag (r_flags r) FLAG_DENSE_FRAMES)
      | _ \<Rightarrow> Ok (resolve_slot (r_data r) off slot))"

text \<open>The columnar arms of \<open>get_i64\<close>, \<open>get_f64\<close> and \<open>get_bool\<close>.\<close>

definition col_get_fixed :: "(u8 list \<Rightarrow> usize \<Rightarrow> 'a option) \<Rightarrow> reader \<Rightarrow> usize \<Rightarrow> usize \<Rightarrow> 'a option res" where
  "col_get_fixed rd r i slot =
     obind (Ok (get_at (r_key_sigils r) slot)) (\<lambda>sig.
     if is_var_sigil sig then Ok None else fixed_value rd (col_field_parts r slot) i)"

definition get_i64 :: "reader \<Rightarrow> usize \<Rightarrow> rstring \<Rightarrow> i64 option res" where
  "get_i64 r off key =
     obind (Ok (reader_slot r key)) (\<lambda>slot.
     case r_layout r of
       Columnar \<Rightarrow> col_get_fixed get_u64 r off slot
     | Pax \<Rightarrow> pax_get_fixed get_u64 r off slot
     | Row \<Rightarrow> obind (record_resolve r off slot) (\<lambda>p.
         case r_ext_schema r of
           Some ext \<Rightarrow> res_ok (decode_int_cell (r_data r) p (cell_width ext slot))
         | None \<Rightarrow> Ok (get_u64 (r_data r) p)))"

definition get_f64 :: "reader \<Rightarrow> usize \<Rightarrow> rstring \<Rightarrow> f64 option res" where
  "get_f64 r off key =
     obind (Ok (reader_slot r key)) (\<lambda>slot.
     case r_layout r of
       Columnar \<Rightarrow> col_get_fixed get_u64 r off slot
     | Pax \<Rightarrow> pax_get_fixed get_u64 r off slot
     | Row \<Rightarrow> obind (record_resolve r off slot) (\<lambda>p.
         case r_ext_schema r of
           Some ext \<Rightarrow> res_ok (decode_f64_cell (r_data r) p (cell_width ext slot))
         | None \<Rightarrow> Ok (get_u64 (r_data r) p)))"

definition get_bool :: "reader \<Rightarrow> usize \<Rightarrow> rstring \<Rightarrow> bool option res" where
  "get_bool r off key =
     obind (Ok (reader_slot r key)) (\<lambda>slot.
     case r_layout r of
       Columnar \<Rightarrow> col_get_fixed read_flag r off slot
     | Pax \<Rightarrow> pax_get_fixed read_flag r off slot
     | Row \<Rightarrow>
         let by_offset = obind (record_resolve r off slot) (\<lambda>p. Ok (read_flag (r_data r) p)) in
         (case (r_ext_schema r, r_cell_plan r) of
            (Some ext, Some plan) \<Rightarrow>
              if pl_packed_bools plan \<and> slot \<in> set (pl_bool_slots plan)
              then read_packed_bool (r_data r) off slot ext plan else by_offset
          | _ \<Rightarrow> by_offset))"

text \<open>The bytes of a string behind its length, as UTF-8.\<close>

definition str_at :: "u8 list \<Rightarrow> usize \<Rightarrow> usize \<Rightarrow> rstring option" where
  "str_at data p len = Option.bind (get_range data p (wadd p len)) str_from_utf8"

definition prefixed_str :: "u8 list \<Rightarrow> usize \<Rightarrow> rstring option" where
  "prefixed_str data p = Option.bind (get_u32 data p) (\<lambda>len. str_at data (wadd p 4) (unat len))"

definition get_str :: "reader \<Rightarrow> usize \<Rightarrow> rstring \<Rightarrow> rstring option res" where
  "get_str r off key =
     obind (Ok (reader_slot r key)) (\<lambda>slot.
     case r_layout r of
       Columnar \<Rightarrow>
         if get_at (r_key_sigils r) slot \<noteq> Some SIGIL_STR then Ok None
         else str_value (col_field_var_parts r slot) off
     | Pax \<Rightarrow> pax_get_str r off slot
     | Row \<Rightarrow> obind (record_resolve r off slot) (\<lambda>p.
         case r_ext_schema r of
           Some ext \<Rightarrow>
             if is_promoted ext slot then
               Ok (Option.bind (get_u16 (r_data r) p) (\<lambda>n. get_at (s_pool ext) (unat n)))
             else let prefix = str_len_prefix ext slot in
               obind (res_ok (read_str_cell_len (r_data r) p prefix)) (\<lambda>len.
               Ok (str_at (r_data r) (wadd p prefix) len))
         | None \<Rightarrow> Ok (prefixed_str (r_data r) p)))"

definition get_keyword :: "reader \<Rightarrow> rstring \<Rightarrow> usize \<Rightarrow> rstring option res" where
  "get_keyword r key i =
     obind (Ok (reader_slot r key)) (\<lambda>slot.
     obind (Ok (r_ext_schema r)) (\<lambda>ext.
     obind (Ok (get_at (r_key_sigils r) slot)) (\<lambda>sig.
     if sig \<noteq> SIGIL_KEYWORD \<and> \<not> is_promoted ext slot then Ok None
     else obind (reader_record r i) (\<lambda>rec.
          obind (record_resolve r rec slot) (\<lambda>p.
          Ok (Option.bind (get_u16 (r_data r) p) (materialise_keyword ext slot)))))))"

text \<open>Paths of names: every name is looked up in the schema of the file.\<close>

fun split_on :: "u8 \<Rightarrow> rstring \<Rightarrow> rstring list" where
  "split_on c [] = [[]]"
| "split_on c (b # bs) =
     (if b = c then [] # split_on c bs else case split_on c bs of p # ps \<Rightarrow> (b # p) # ps | [] \<Rightarrow> [[b]])"

fun walk_parts :: "reader \<Rightarrow> usize \<Rightarrow> rstring list \<Rightarrow> usize option" where
  "walk_parts r obj [] = None"
| "walk_parts r obj (part # parts) =
     Option.bind (reader_slot r part) (\<lambda>slot.
     Option.bind (resolve_slot (r_data r) obj slot) (\<lambda>p.
     if parts = [] then Some p
     else Option.bind (get_u32 (r_data r) p) (\<lambda>magic.
          if magic \<noteq> MAGIC_OBJ then None else walk_parts r p parts)))"

definition walk_path :: "reader \<Rightarrow> usize \<Rightarrow> rstring \<Rightarrow> usize option" where
  "walk_path r off dot_path = walk_parts r off (split_on 0x2E dot_path)"

definition get_str_path :: "reader \<Rightarrow> usize \<Rightarrow> rstring \<Rightarrow> rstring option" where
  "get_str_path r off path = Option.bind (walk_path r off path) (prefixed_str (r_data r))"

definition get_i64_path :: "reader \<Rightarrow> usize \<Rightarrow> rstring \<Rightarrow> i64 option" where
  "get_i64_path r off path = Option.bind (walk_path r off path) (get_u64 (r_data r))"

definition get_f64_path :: "reader \<Rightarrow> usize \<Rightarrow> rstring \<Rightarrow> f64 option" where
  "get_f64_path r off path = Option.bind (walk_path r off path) (get_u64 (r_data r))"

definition get_bool_path :: "reader \<Rightarrow> usize \<Rightarrow> rstring \<Rightarrow> bool option" where
  "get_bool_path r off path = Option.bind (walk_path r off path) (read_flag (r_data r))"

end
