(* ===== verification/Filters.thy ===== *)
theory Filters
  imports Query
begin

text \<open>
  Predicates, the record iterator and column sums: the second half of \<^verbatim>\<open>rust/src/query.rs\<close> and
  \<^verbatim>\<open>rust/src/col_reduce.rs\<close>.
\<close>

section \<open>Predicates\<close>

definition f64_eq :: "f64 \<Rightarrow> f64 \<Rightarrow> bool" where
  "f64_eq a b \<longleftrightarrow> \<not> f64_is_nan a \<and> \<not> f64_is_nan b \<and> f64_units a = f64_units b"

datatype predicate =
    AlwaysTrue
  | EqBool rstring bool
  | EqStr rstring rstring
  | EqI64 rstring i64
  | EqF64 rstring f64
  | GtF64 rstring f64
  | GtI64 rstring i64
  | LtF64 rstring f64
  | LtI64 rstring i64
  | And predicate predicate
  | Or predicate predicate
  | Not predicate

definition holds_on :: "('a \<Rightarrow> bool) \<Rightarrow> 'a option \<Rightarrow> bool" where
  "holds_on t v = (case v of Some a \<Rightarrow> t a | None \<Rightarrow> False)"

lemma holds_on_simps [simp]: "holds_on t (Some a) = t a" "holds_on t None = False"
  by (simp_all add: holds_on_def)

text \<open>\<open>let Ok(..) = .. else { return false }\<close>\<close>

definition test_value :: "'a option res \<Rightarrow> ('a \<Rightarrow> bool) \<Rightarrow> bool res" where
  "test_value v t = rbind v (\<lambda>x. Ok (holds_on t x))"

text \<open>The test of a fixed-width field, the shape of seven of the implementations.\<close>

definition test_fixed ::
  "(u8 list \<Rightarrow> usize \<Rightarrow> 'a option) \<Rightarrow> reader \<Rightarrow> usize \<Rightarrow> rstring \<Rightarrow> ('a \<Rightarrow> bool) \<Rightarrow> bool res"
where
  "test_fixed rd r off key t =
     (case reader_slot r key of
        None \<Rightarrow> Ok False
      | Some slot \<Rightarrow>
          (case r_layout r of
             Columnar \<Rightarrow>
               if is_var_sigil (get_or_zero (r_key_sigils r) slot) then Ok False
               else test_value (fixed_value rd (col_field_parts r slot) off) t
           | Pax \<Rightarrow> test_value (pax_get_fixed rd r off slot) t
           | Row \<Rightarrow> Ok (holds_on t (Option.bind (resolve_slot (r_data r) off slot) (rd (r_data r))))))"

definition test_str :: "reader \<Rightarrow> usize \<Rightarrow> rstring \<Rightarrow> rstring \<Rightarrow> bool res" where
  "test_str r off key s =
     (case reader_slot r key of
        None \<Rightarrow> Ok False
      | Some slot \<Rightarrow>
          (case r_layout r of
             Columnar \<Rightarrow> test_value (str_value (col_field_var_parts r slot) off) (\<lambda>v. v = s)
           | Pax \<Rightarrow> test_value (pax_get_str r off slot) (\<lambda>v. v = s)
           | Row \<Rightarrow> Ok (holds_on (\<lambda>v. v = s)
               (Option.bind (resolve_slot (r_data r) off slot) (prefixed_str (r_data r))))))"

definition eq_bool_test :: "reader \<Rightarrow> usize \<Rightarrow> rstring \<Rightarrow> bool \<Rightarrow> bool res" where
  "eq_bool_test r off k v = test_fixed read_flag r off k (\<lambda>x. x = v)"

definition eq_i64_test :: "reader \<Rightarrow> usize \<Rightarrow> rstring \<Rightarrow> i64 \<Rightarrow> bool res" where
  "eq_i64_test r off k v = test_fixed get_u64 r off k (\<lambda>x. x = v)"

definition eq_f64_test :: "reader \<Rightarrow> usize \<Rightarrow> rstring \<Rightarrow> f64 \<Rightarrow> bool res" where
  "eq_f64_test r off k v = test_fixed get_u64 r off k (\<lambda>x. f64_eq x v)"

definition gt_f64_test :: "reader \<Rightarrow> usize \<Rightarrow> rstring \<Rightarrow> f64 \<Rightarrow> bool res" where
  "gt_f64_test r off k v = test_fixed get_u64 r off k (\<lambda>x. f64_lt v x)"

definition gt_i64_test :: "reader \<Rightarrow> usize \<Rightarrow> rstring \<Rightarrow> i64 \<Rightarrow> bool res" where
  "gt_i64_test r off k v = test_fixed get_u64 r off k (\<lambda>x. sint v < sint x)"

definition lt_f64_test :: "reader \<Rightarrow> usize \<Rightarrow> rstring \<Rightarrow> f64 \<Rightarrow> bool res" where
  "lt_f64_test r off k v = test_fixed get_u64 r off k (\<lambda>x. f64_lt x v)"

definition lt_i64_test :: "reader \<Rightarrow> usize \<Rightarrow> rstring \<Rightarrow> i64 \<Rightarrow> bool res" where
  "lt_i64_test r off k v = test_fixed get_u64 r off k (\<lambda>x. sint x < sint v)"

lemmas field_test_defs = eq_bool_test_def eq_i64_test_def eq_f64_test_def gt_f64_test_def gt_i64_test_def lt_f64_test_def lt_i64_test_def

primrec pred_test :: "reader \<Rightarrow> usize \<Rightarrow> predicate \<Rightarrow> bool res" where
  "pred_test r off AlwaysTrue = Ok True"
| "pred_test r off (EqBool k v) = eq_bool_test r off k v"
| "pred_test r off (EqStr k v) = test_str r off k v"
| "pred_test r off (EqI64 k v) = eq_i64_test r off k v"
| "pred_test r off (EqF64 k v) = eq_f64_test r off k v"
| "pred_test r off (GtF64 k v) = gt_f64_test r off k v"
| "pred_test r off (GtI64 k v) = gt_i64_test r off k v"
| "pred_test r off (LtF64 k v) = lt_f64_test r off k v"
| "pred_test r off (LtI64 k v) = lt_i64_test r off k v"
| "pred_test r off (And p q) = rbind (pred_test r off p) (\<lambda>a. if a then pred_test r off q else Ok False)"
| "pred_test r off (Or p q) = rbind (pred_test r off p) (\<lambda>a. if a then Ok True else pred_test r off q)"
| "pred_test r off (Not p) = rbind (pred_test r off p) (\<lambda>a. Ok (\<not> a))"

section \<open>Iterating over records\<close>

text \<open>\<open>Records::next\<close>: the record found, if any, and the index the iterator is left at.\<close>

function records_next :: "reader \<Rightarrow> predicate \<Rightarrow> usize \<Rightarrow> (usize option \<times> usize) res" where
  "records_next r p i =
     (if r_record_count r \<le> i then Ok (None, i)
      else case record_offset r i of
        Ok None \<Rightarrow> Ok (None, i + 1)
      | Ok (Some off) \<Rightarrow>
          (case pred_test r off p of
             Ok True \<Rightarrow> Ok (Some off, i + 1)
           | Ok False \<Rightarrow> records_next r p (i + 1)
           | Err e \<Rightarrow> Err e
           | Panic \<Rightarrow> Panic)
      | Err e \<Rightarrow> Err e
      | Panic \<Rightarrow> Panic)"
  by pat_completeness auto

termination records_next
  by (relation "measure (\<lambda>(r, p, i). r_record_count r - i)") auto

declare records_next.simps [simp del]

lemma records_next_advances:
  "records_next r p i = Ok (Some off, j) \<Longrightarrow> i < j \<and> j \<le> r_record_count r"
proof (induction r p i rule: records_next.induct)
  case (1 r p i)
  show ?case using 1(2) 1(1)
    by (subst (asm) records_next.simps) (auto split: if_splits res.splits option.splits bool.splits dest: Suc_lessD)
qed

text \<open>The records an iterator yields until it returns \<open>None\<close>.\<close>

function records_from :: "reader \<Rightarrow> predicate \<Rightarrow> usize \<Rightarrow> usize list res" where
  "records_from r p i =
     (case records_next r p i of
        Ok (None, _) \<Rightarrow> Ok []
      | Ok (Some off, j) \<Rightarrow> rbind (records_from r p j) (\<lambda>offs. Ok (off # offs))
      | Err e \<Rightarrow> Err e
      | Panic \<Rightarrow> Panic)"
  by pat_completeness auto

termination records_from
  by (relation "measure (\<lambda>(r, p, i). r_record_count r - i)") (auto dest: records_next_advances)

declare records_from.simps [simp del]

definition where_pred :: "reader \<Rightarrow> predicate \<Rightarrow> usize list res" where
  "where_pred r p = records_from r p 0"

definition reader_all :: "reader \<Rightarrow> usize list res" where
  "reader_all r = where_pred r AlwaysTrue"

section \<open>Column sums\<close>

text \<open>
  A dense column is added in the order of its records, or in four vectors of four numbers with AVX2 and of two
  with NEON, as far as whole blocks go.  Which of the three runs is found out on the processor, so it is
  an argument.  A vector operation works on its lanes one by one; \<open>iter().sum()\<close> may start from the negative
  zero, which gives the same because no lane is one.
\<close>

datatype target = Portable | Avx2 | Neon

definition null_bitmap_dense :: "u8 list \<Rightarrow> usize \<Rightarrow> bool" where
  "null_bitmap_dense bm n =
     (n = 0 \<or>
      (if length bm < (n + 7) div 8 then False
       else if \<exists>b \<in> set (take (n div 8) bm). b \<noteq> 0xFF then False
       else if n mod 8 = 0 then True
       else let m = push_bit (n mod 8) 1 - 1 in and (bm ! (n div 8)) m = m))"

definition add_value :: "u8 list \<Rightarrow> usize \<Rightarrow> f64 \<Rightarrow> f64" where
  "add_value vals i acc = (case get_u64 vals (i * 8) of Some v \<Rightarrow> f64_add acc v | None \<Rightarrow> acc)"

definition sum_f64_sparse :: "u8 list \<Rightarrow> u8 list \<Rightarrow> usize \<Rightarrow> f64 res" where
  "sum_f64_sparse vals bm n =
     rfold (\<lambda>i acc. rbind (col_bit bm i) (\<lambda>b. Ok (if b then add_value vals i acc else acc))) [0..<n] 0"

definition sum_f64_scalar :: "u8 list \<Rightarrow> usize \<Rightarrow> f64" where
  "sum_f64_scalar vals n = fold (add_value vals) [0..<n] 0"

definition load_f64 :: "u8 list \<Rightarrow> usize \<Rightarrow> f64" where
  "load_f64 vals i = u64_of_le (seg vals (i * 8) (i * 8 + 8))"

definition load_lanes :: "nat \<Rightarrow> u8 list \<Rightarrow> usize \<Rightarrow> f64 list" where
  "load_lanes w vals i = map (\<lambda>j. load_f64 vals (i + j)) [0..<w]"

definition add_lanes :: "f64 list \<Rightarrow> f64 list \<Rightarrow> f64 list" where
  "add_lanes a b = map2 f64_add a b"

text \<open>The loop over whole blocks of four vectors of \<open>w\<close> lanes.\<close>

function vector_loop ::
  "nat \<Rightarrow> u8 list \<Rightarrow> usize \<Rightarrow> usize \<Rightarrow> f64 list \<times> f64 list \<times> f64 list \<times> f64 list \<Rightarrow> usize \<times> f64 list \<times> f64 list \<times> f64 list \<times> f64 list"
where
  "vector_loop w vals n i (a0, a1, a2, a3) =
     (if 0 < w \<and> i + 4 * w \<le> n
      then vector_loop w vals n (i + 4 * w)
             (add_lanes a0 (load_lanes w vals i), add_lanes a1 (load_lanes w vals (i + w)),
              add_lanes a2 (load_lanes w vals (i + 2 * w)), add_lanes a3 (load_lanes w vals (i + 3 * w)))
      else (i, a0, a1, a2, a3))"
  by pat_completeness auto

termination vector_loop
  by (relation "measure (\<lambda>(w, vals, n, i, a). n - i)") auto

declare vector_loop.simps [simp del]

definition hsum_pd256 :: "f64 list \<Rightarrow> f64" where
  "hsum_pd256 v = fold (\<lambda>x acc. f64_add acc x) v 0"

definition sum_f64_avx2 :: "u8 list \<Rightarrow> usize \<Rightarrow> f64" where
  "sum_f64_avx2 vals n =
     (let z = replicate 4 0; (i, a0, a1, a2, a3) = vector_loop 4 vals n 0 (z, z, z, z) in
      fold (\<lambda>i tail. f64_add tail (load_f64 vals i)) [i..<n]
        (hsum_pd256 (add_lanes (add_lanes a0 a1) (add_lanes a2 a3))))"

definition sum_f64_neon :: "u8 list \<Rightarrow> usize \<Rightarrow> f64" where
  "sum_f64_neon vals n =
     (let z = replicate 2 0; (i, a0, a1, a2, a3) = vector_loop 2 vals n 0 (z, z, z, z);
          v = add_lanes (add_lanes a0 a1) (add_lanes a2 a3) in
      fold (\<lambda>i tail. f64_add tail (load_f64 vals i)) [i..<n] (f64_add (v ! 0) (v ! 1)))"

definition sum_f64_dense_le :: "target \<Rightarrow> u8 list \<Rightarrow> usize \<Rightarrow> f64" where
  "sum_f64_dense_le cpu vals n =
     (case cpu of Avx2 \<Rightarrow> sum_f64_avx2 vals n | Neon \<Rightarrow> sum_f64_neon vals n | Portable \<Rightarrow> sum_f64_scalar vals n)"

definition sum_f64_column :: "target \<Rightarrow> u8 list \<Rightarrow> u8 list \<Rightarrow> usize \<Rightarrow> f64 res" where
  "sum_f64_column cpu vals bm n =
     (if n = 0 then Ok 0
      else if null_bitmap_dense bm n \<and> min (n * 8) (USIZE_LIM - 1) \<le> length vals then Ok (sum_f64_dense_le cpu vals n)
      else sum_f64_sparse vals bm n)"

definition add_some :: "f64 option \<Rightarrow> f64 \<Rightarrow> f64" where
  "add_some v acc = (case v of Some x \<Rightarrow> f64_add acc x | None \<Rightarrow> acc)"

definition row_sum_f64 :: "reader \<Rightarrow> rstring \<Rightarrow> f64 option res" where
  "row_sum_f64 r key =
     rbind (reader_all r) (\<lambda>recs.
     rbind (rfold (\<lambda>rec (acc, any). rbind (get_f64 r rec key) (\<lambda>v. Ok (add_some v acc, any \<or> v \<noteq> None))) recs (0, False))
       (\<lambda>(acc, any). Ok (if any then Some acc else None)))"

definition col_sum_f64 :: "target \<Rightarrow> reader \<Rightarrow> rstring \<Rightarrow> f64 option res" where
  "col_sum_f64 cpu r key =
     obind (Ok (reader_slot r key)) (\<lambda>slot.
     case r_layout r of
       Row \<Rightarrow> row_sum_f64 r key
     | Columnar \<Rightarrow> obind (res_ok (col_field_parts r slot)) (\<lambda>(bm, vals).
         rbind (sum_f64_column cpu vals bm (r_record_count r)) (\<lambda>s. Ok (Some s)))
     | Pax \<Rightarrow> rbind (rfold (\<lambda>i acc. rbind (pax_get_fixed get_u64 r i slot) (\<lambda>v. Ok (add_some v acc)))
                     [0..<r_record_count r] 0) (\<lambda>s. Ok (Some s)))"

definition col_buffer :: "reader \<Rightarrow> rstring \<Rightarrow> u8 list option res" where
  "col_buffer r key =
     (if r_layout r \<noteq> Columnar then Ok None
      else obind (Ok (reader_slot r key)) (\<lambda>slot.
        if is_var_sigil (get_or_zero (r_key_sigils r) slot) then Ok None
        else obind (res_ok (col_field_parts r slot)) (\<lambda>(_, vals). Ok (Some vals))))"

text \<open>The bitmap, the offsets and the values of a variable-length column.\<close>

definition col_var_buffer :: "reader \<Rightarrow> rstring \<Rightarrow> (u8 list \<times> u8 list \<times> u8 list) res" where
  "col_var_buffer r key =
     (if r_layout r \<noteq> Columnar then Err UnsupportedFieldType
      else rbind (ok_or (reader_slot r key) OutOfBounds) (\<lambda>slot.
        if \<not> is_var_sigil (get_or_zero (r_key_sigils r) slot) then Err UnsupportedFieldType
        else col_field_var_parts r slot))"

end
