(* ===== verification/Record_Roundtrip.thy ===== *)
theory Record_Roundtrip
  imports Record_Frames
begin

text \<open>
  Whole v1.3 records: what \<open>encode_compact_record\<close> writes is found by \<open>resolve_field_offset\<close> and
  \<open>read_packed_bool\<close> (\<^verbatim>\<open>rust/src/compact.rs\<close>), and the cases in which it is not.
\<close>

section \<open>The plan of a schema\<close>

lemma has_flag_preamble [simp]:
  "has_flag (preamble_flags o1) FLAG_DENSE_FRAMES = dense_frames o1"
  "has_flag (preamble_flags o1) FLAG_PACKED_BOOLS = packed_bools o1"
  "has_flag (preamble_flags o1) FLAG_NARROW_CELLS = narrow_cells o1"
  "has_flag (preamble_flags o1) FLAG_DENSE_WIRE_REORDER = dense_wire_reorder o1"
  by (cases "dense_frames o1"; cases "packed_bools o1"; cases "narrow_cells o1"; cases "delta_tail o1";
      cases "dense_wire_reorder o1"; simp add: preamble_flags_def Let_def FLAG_DENSE_FRAMES_def
        FLAG_PACKED_BOOLS_def FLAG_NARROW_CELLS_def FLAG_DELTA_TAIL_def FLAG_DENSE_WIRE_REORDER_def)+

text \<open>The precomputed offsets play no part in the placement itself.\<close>

lemma plan_update_offsets:
  fixes p :: row_plan and a :: "usize option list option" and b :: "usize option"
  defines "q \<equiv> p\<lparr>pl_fixed_offsets := a, pl_var_start := b\<rparr>"
  shows "in_bool_word q = in_bool_word p" and "bool_word_bytes q = bool_word_bytes p"
    and "plan_width s q = plan_width s p" and "width_arm q = width_arm p"
    and "advance_past_bool_word pos q = advance_past_bool_word pos p"
    and "dense_cell_align_width fi s q = dense_cell_align_width fi s p"
    and "reordered_slots s q = reordered_slots s p"
    and "advance_dense_past_cell_fixed pos fi s q = advance_dense_past_cell_fixed pos fi s p"
    and "set_bool_offsets q base tab = set_bool_offsets p base tab"
proof -
  show iw: "in_bool_word q = in_bool_word p" and bw: "bool_word_bytes q = bool_word_bytes p"
    and pw: "plan_width s q = plan_width s p" for s
    by (auto simp: q_def in_bool_word_def bool_word_bytes_def plan_width_def fun_eq_iff)
  show d: "width_arm q = width_arm p" by (auto simp: q_def width_arm_def fun_eq_iff)
  show e: "advance_past_bool_word pos q = advance_past_bool_word pos p" for pos
    by (simp add: advance_past_bool_word_def bw)
  show f: "dense_cell_align_width fi s q = dense_cell_align_width fi s p" for fi s
    unfolding dense_cell_align_width_def iw bw pw by (cases "idx (s_sigils s) fi") (simp_all add: q_def)
  have "pl_first_bool q = pl_first_bool p" by (simp add: q_def)
  then show "reordered_slots s q = reordered_slots s p"
    by (simp only: reordered_slots_def iw bw f)
  show "advance_dense_past_cell_fixed pos fi s q = advance_dense_past_cell_fixed pos fi s p"
    unfolding advance_dense_past_cell_fixed_def iw pw d e by (rule refl)
  show "set_bool_offsets q base tab = set_bool_offsets p base tab" by (simp add: set_bool_offsets_def q_def)
qed

lemma fixed_offsets_loop_update:
  "fixed_offsets_loop s (p\<lparr>pl_fixed_offsets := a, pl_var_start := b\<rparr>) fis pos tab = fixed_offsets_loop s p fis pos tab"
proof (induction fis arbitrary: pos tab)
  case (Cons fi fis)
  show ?case unfolding fixed_offsets_loop.simps plan_update_offsets Cons.IH by simp
qed simp

lemma new_row_plan_fields:
  assumes "new_row_plan s flags = Ok plan"
  shows "pl_bool_slots plan = bool_slots_of s"
    and "bool_slots_of s \<noteq> [] \<Longrightarrow> pl_first_bool plan = Some (hd (bool_slots_of s))"
    and "pl_packed_bools plan = has_flag flags FLAG_PACKED_BOOLS"
    and "pl_narrow plan = has_flag flags FLAG_NARROW_CELLS"
    and "pl_wire_reorder plan = has_flag flags FLAG_DENSE_WIRE_REORDER"
  using assms
  by (auto simp: new_row_plan_def Let_def split: if_splits list.splits prod.splits elim!: rbind_OkE)

lemma new_row_plan_offsets:
  assumes "new_row_plan s flags = Ok plan" and "has_flag flags FLAG_DENSE_FRAMES"
  shows "if has_flag flags FLAG_DENSE_WIRE_REORDER
    then \<exists>order tab. dense_wire_order plan s = Ok order \<and> pl_fixed_offsets plan = Some tab
       \<and> fixed_offsets_loop s plan order 0 (replicate (length (s_keys s)) None) = Ok (tab, pl_var_start plan)
    else pl_fixed_offsets plan = None"
proof (cases "has_flag flags FLAG_DENSE_WIRE_REORDER")
  case True
  let ?base = "\<lparr>pl_bool_slots = bool_slots_of s,
     pl_first_bool = (case bool_slots_of s of [] \<Rightarrow> None | b # _ \<Rightarrow> Some b),
     pl_packed_bools = has_flag flags FLAG_PACKED_BOOLS, pl_narrow = has_flag flags FLAG_NARROW_CELLS,
     pl_dense_allowed = has_flag flags FLAG_DENSE_FRAMES, pl_wire_reorder = has_flag flags FLAG_DENSE_WIRE_REORDER,
     pl_fixed_offsets = None, pl_var_start = None\<rparr>"
  from assms True obtain order tab vs where o: "dense_wire_order ?base s = Ok order"
    "fixed_offsets_loop s ?base order 0 (replicate (length (s_keys s)) None) = Ok (tab, vs)"
    "plan = ?base\<lparr>pl_fixed_offsets := Some tab, pl_var_start := vs\<rparr>"
    by (auto simp: new_row_plan_def Let_def precompute_dense_fixed_offsets_def elim!: rbind_OkE)
  have "dense_wire_order plan s = Ok order"
    using o(1) unfolding o(3) dense_wire_order_def plan_update_offsets(7) by simp
  moreover have "fixed_offsets_loop s plan order 0 (replicate (length (s_keys s)) None) = Ok (tab, pl_var_start plan)"
    using o(2) unfolding o(3) fixed_offsets_loop_update by simp
  ultimately show ?thesis using True by (simp add: o(3))
next
  case False
  with assms show ?thesis by (auto simp: new_row_plan_def Let_def)
qed


section \<open>Whole records\<close>

definition all_present :: "(u16 \<times> compact_cell) list \<Rightarrow> ext_schema \<Rightarrow> bool" where
  "all_present cells s \<longleftrightarrow> (\<forall>i < length (s_keys s). \<exists>c \<in> set cells. unat (fst c) = i)"

lemma encode_dense_record:
  assumes "encode_compact_record cells s opts = Ok rec" and "new_row_plan s (preamble_flags opts) = Ok plan"
    and "dense_frames opts" and "all_present cells s"
  obtains body order where "rec = frame_record (RECORD_HDR_DENSE # body)" "dense_wire_order plan s = Ok order"
    "encode_dense_loop cells s plan order [] = Ok body"
proof -
  have "list_all (\<lambda>p. p) (mark_present cells (length (s_keys s)))"
    using assms(4) by (force simp: all_present_def mark_present_def list_all_iff image_iff)
  with assms that show thesis
    by (auto simp: encode_compact_record_def encode_dense_body_def Let_def elim!: rbind_OkE)
qed

lemma length_frame_record [simp]: "length (frame_record r) = 8 + length r"
  by (simp add: frame_record_def)

lemma resolve_dense:
  assumes "fits (pre @ frame_record (RECORD_HDR_DENSE # body) @ post)"
  shows "resolve_field_offset (pre @ frame_record (RECORD_HDR_DENSE # body) @ post) (length pre) slot s plan True
       = (case dense_field_offset (pre @ frame_record (RECORD_HDR_DENSE # body) @ post) (length pre) slot s plan of
            Err _ \<Rightarrow> Ok None | r \<Rightarrow> r)"
proof -
  have "checked_add (length pre) 8 = Some (length pre + 8)" using assms by (simp add: checked_add_def lims)
  moreover have "get_at (pre @ frame_record (RECORD_HDR_DENSE # body) @ post) (length pre + 8) = Some RECORD_HDR_DENSE"
    by (simp add: get_at_def nth_append frame_record_def)
  ultimately show ?thesis by (simp add: resolve_field_offset_def RECORD_HDR_DENSE_def)
qed

text \<open>What the theorems below assume of a schema: one sigil for every key.\<close>

lemma wire_order_cases:
  assumes "new_row_plan s flags = Ok plan" and "length (s_sigils s) = length (s_keys s)"
    and "dense_wire_order plan s = Ok order"
  shows "distinct order" and "set order \<subseteq> {..<length (s_keys s)}"
    and "slot < length (s_keys s) \<Longrightarrow> \<not> in_bool_word plan slot \<Longrightarrow> slot \<in> set order"
    and "pl_wire_reorder plan \<Longrightarrow> order = fixed_order s plan @ var_order s"
    and "bool_slots_of s \<noteq> [] \<Longrightarrow> hd (bool_slots_of s) \<in> set order"
proof -
  note f = new_row_plan_fields[OF assms(1)]
  have ord: "order = (if pl_wire_reorder plan then fixed_order s plan @ var_order s else [0..<length (s_keys s)])"
    using assms(2,3) reordered_slots_eq[of s plan] by (simp add: dense_wire_order_def split: if_splits)
  have fx: "fi \<in> set (fixed_order s plan) \<longleftrightarrow> fi < length (s_keys s) \<and> own_fixed_cell s plan fi" for fi
    by (simp add: fixed_order_set)
  show "order = fixed_order s plan @ var_order s" if "pl_wire_reorder plan" using that by (simp add: ord)
  have var: "fi \<in> set (var_order s) \<longleftrightarrow> fi < length (s_keys s) \<and> is_var_sigil (s_sigils s ! fi)" for fi
    by (simp add: var_order_def)
  have "distinct (fixed_order s plan @ var_order s)"
    using distinct_fixed_order[of s plan] fx var by (auto simp: own_fixed_cell_def var_order_def)
  then show "distinct order" by (simp add: ord)
  have sets: "set order = (if pl_wire_reorder plan then {fi. fi < length (s_keys s) \<and> (own_fixed_cell s plan fi \<or> is_var_sigil (s_sigils s ! fi))} else {..<length (s_keys s)})"
    unfolding ord by (cases "pl_wire_reorder plan") (simp_all add: set_eq_iff fx var conj_disj_distribL)
  show "set order \<subseteq> {..<length (s_keys s)}" by (auto simp: sets)
  show "slot \<in> set order" if "slot < length (s_keys s)" "\<not> in_bool_word plan slot"
    using that by (simp add: sets own_fixed_cell_def)
  show "hd (bool_slots_of s) \<in> set order" if b: "bool_slots_of s \<noteq> []"
  proof -
    have "hd (bool_slots_of s) \<in> set (bool_slots_of s)" using b by simp
    then have "hd (bool_slots_of s) < length (s_keys s)" "s_sigils s ! hd (bool_slots_of s) = SIGIL_BOOL"
      using assms(2) by (auto simp: bool_slots_of_def)
    then show ?thesis using f(2)[OF b] by (simp add: sets own_fixed_cell_def cell_sigils)
  qed
qed

lemma bool_slot_not_var:
  "new_row_plan s flags = Ok plan \<Longrightarrow> in_bool_word plan fi \<Longrightarrow> \<not> is_var_sigil (s_sigils s ! fi)"
  using new_row_plan_fields(1)[of s flags plan] by (auto simp: in_bool_word_def bool_slots_of_def cell_sigils)

lemma dense_lookup:
  assumes "new_row_plan s (preamble_flags opts) = Ok plan" and "dense_frames opts"
    and "length (s_sigils s) = length (s_keys s)" and "dense_wire_order plan s = Ok order"
    and "encode_dense_loop cells s plan order [] = Ok body"
    and "plan_ok plan" and "cells_typed cells s plan {..<length (s_keys s)}"
    and "fits data" and data: "data = xs @ body @ ys" and base: "length xs = off0 + 9"
    and "slot < length (s_keys s)" and "\<not> in_bool_word plan slot"
    and "pl_wire_reorder plan \<Longrightarrow> \<not> is_promoted s slot"
  shows "\<exists>off. dense_field_offset data off0 slot s plan = Ok (Some off)
           \<and> cell_reads data off s plan slot (the (cell_of cells slot))"
proof -
  note ord = wire_order_cases[OF assms(1,3,4)]
  note fields = new_row_plan_fields[OF assms(1)]
  note offs = new_row_plan_offsets[OF assms(1)]
  have slot: "slot \<in> set order" using ord(3) assms(11,12) .
  have typed: "cells_typed cells s plan (set order)" using assms(7) ord(2) by (auto simp: cells_typed_def)
  have w: "wadd off0 9 = length xs" using assms(8) base by (simp add: data lims)
  have fitsd: "fits (xs @ body @ ys)" and fitsb: "fits body" using assms(8) by (simp_all add: data)
  show ?thesis
  proof (cases "pl_wire_reorder plan")
    case False
    have "\<exists>off. walk_cells data (length xs) 0 slot s plan order = Ok (Some off)
        \<and> cell_reads data off s plan slot (the (cell_of cells slot))"
      using dense_walk[OF assms(5) fitsd assms(6) typed slot assms(12)] by (simp add: data)
    moreover have "pl_fixed_offsets plan = None"
      using offs assms(2) False by (auto simp: fields(5) split: if_splits)
    ultimately show ?thesis by (simp add: dense_field_offset_def Let_def w assms(4))
  next
    case True
    from offs assms(2) True obtain tab where tab: "pl_fixed_offsets plan = Some tab"
      "fixed_offsets_loop s plan order 0 (replicate (length (s_keys s)) None) = Ok (tab, pl_var_start plan)"
      by (auto simp: fields(5) assms(4))
    note o = ord(4)[OF True]
    have vr: "\<forall>v \<in> set (var_order s). is_var_sigil (s_sigils s ! v)"
      and fx: "\<forall>v \<in> set (fixed_order s plan). \<not> is_var_sigil (s_sigils s ! v)"
      by (auto simp: var_order_def fixed_order_set own_fixed_cell_def)
    have vr': "\<forall>v \<in> set (var_order s). is_var_sigil (s_sigils s ! v) \<and> \<not> in_bool_word plan v"
      using vr bool_slot_not_var[OF assms(1)] by auto
    have len: "length tab = length (s_keys s)" using length_fixed_offsets_loop[OF tab(2)] by simp
    show ?thesis
    proof (cases "is_var_sigil (s_sigils s ! slot)")
      case False
      have "\<exists>off. tab ! slot = Some off \<and> cell_reads data (length xs + off) s plan slot (the (cell_of cells slot))
          \<and> length xs + off \<le> length data"
        using fixed_offsets_find[OF _ assms(5) fitsd assms(6) typed ord(1) slot _ assms(12) False o vr fx] tab(2)
          assms(11) by (simp add: data)
      then obtain off where off: "tab ! slot = Some off" "length xs + off \<le> length data"
        "cell_reads data (length xs + off) s plan slot (the (cell_of cells slot))" by auto
      moreover from off(2) assms(8) have "wadd (length xs) off = length xs + off" by (simp add: lims)
      ultimately show ?thesis
        using len assms(11) by (simp add: dense_field_offset_def Let_def w tab(1) get_at_def)
    next
      case var: True
      then have sv: "slot \<in> set (var_order s)" using assms(11) by (simp add: var_order_def)
      have none: "tab ! slot = None"
        using fixed_offsets_loop_keeps[OF tab(2), of slot] assms(11,12) var by simp
      from fixed_offsets_var_start[OF _ assms(5) fitsb assms(6) typed o vr' _ fx] tab(2) sv
      obtain body' where b: "pl_var_start plan = Some (length body')"
        "encode_dense_loop cells s plan (var_order s) body' = Ok body" by fastforce
      have "\<forall>v \<in> set (var_order s). v < length (s_sigils s) \<and> is_var_sigil (s_sigils s ! v) \<and> \<not> in_bool_word plan v"
        using vr' assms(3) by (auto simp: var_order_def)
      from walk_var_tail_find[OF b(2) fitsd _ sv this assms(13)[OF True]] typed
      obtain off where "walk_var_tail data (length xs) (length body') slot s plan (var_order s) = Ok (Some off)"
        "cell_reads data off s plan slot (the (cell_of cells slot))"
        by (auto simp: data o cells_typed_def)
      moreover have "walk_var_tail data (length xs) (length body') slot s plan order
          = walk_var_tail data (length xs) (length body') slot s plan (var_order s)"
        unfolding o using assms(3) by (intro walk_var_tail_skips) (auto simp: fixed_order_set own_fixed_cell_def)
      ultimately show ?thesis
        using len assms(11) none by (simp add: dense_field_offset_def Let_def w tab(1) get_at_def b(1) assms(4))
    qed
  qed
qed

text \<open>
  C4: A dense record is read back: in a record that holds a cell of the declared kind for every slot,
  \<open>resolve_field_offset\<close> gives for every slot outside the word of packed booleans an offset at which
  the decoder of its kind returns the value that was written, in schema order and in wire order.
  In wire order the slot must not be a promoted string (see the misread below), and a word of
  booleans must have one, two, four or eight bytes.
\<close>

theorem dense_record_roundtrip:
  assumes "encode_compact_record cells s opts = Ok rec" and "new_row_plan s (preamble_flags opts) = Ok plan"
    and "dense_frames opts" and "all_present cells s"
    and "length (s_sigils s) = length (s_keys s)" and "plan_ok plan"
    and "cells_typed cells s plan {..<length (s_keys s)}"
    and "slot < length (s_keys s)" and "\<not> in_bool_word plan slot"
    and "dense_wire_reorder opts \<longrightarrow> \<not> is_promoted s slot"
    and "fits (pre @ rec @ post)"
  shows "\<exists>off. resolve_field_offset (pre @ rec @ post) (length pre) slot s plan True = Ok (Some off)
           \<and> cell_reads (pre @ rec @ post) off s plan slot (the (cell_of cells slot))"
proof -
  from encode_dense_record[OF assms(1-4)] obtain body order where r:
    "rec = frame_record (RECORD_HDR_DENSE # body)" "dense_wire_order plan s = Ok order"
    "encode_dense_loop cells s plan order [] = Ok body" .
  let ?xs = "pre @ u32_le MAGIC_OBJ @ u32_le (word_of_nat (9 + length body)) @ [RECORD_HDR_DENSE]"
  have "pre @ rec @ post = ?xs @ body @ post" by (simp add: r(1) frame_record_def)
  from dense_lookup[OF assms(2,3,5) r(2,3) assms(6,7,11) this _ assms(8,9), of "length pre"]
  obtain off where "dense_field_offset (pre @ rec @ post) (length pre) slot s plan = Ok (Some off)"
    "cell_reads (pre @ rec @ post) off s plan slot (the (cell_of cells slot))"
    using assms(10) new_row_plan_fields(5)[OF assms(2)] by auto
  then show ?thesis using assms(11) unfolding r(1) by (simp add: resolve_dense)
qed

lemma bool_slots_of_set:
  "length (s_sigils s) = length (s_keys s) \<Longrightarrow>
     set (bool_slots_of s) = {fi. fi < length (s_keys s) \<and> s_sigils s ! fi = SIGIL_BOOL}"
  by (auto simp: bool_slots_of_def)

lemma dense_lookup_bool:
  assumes "new_row_plan s (preamble_flags opts) = Ok plan" and "dense_frames opts" and "packed_bools opts"
    and "length (s_sigils s) = length (s_keys s)" and "dense_wire_order plan s = Ok order"
    and "encode_dense_loop cells s plan order [] = Ok body"
    and "plan_ok plan" and "cells_typed cells s plan {..<length (s_keys s)}"
    and "fits data" and data: "data = xs @ body @ ys" and base: "length xs = off0 + 9"
    and "position slot (bool_slots_of s) = Some i"
  shows "\<exists>off x. dense_field_offset data off0 slot s plan = Ok (Some off) \<and> get_at data off = Some x
           \<and> (and (drop_bit (i mod 8) x) 1 = 1) = (cell_of cells slot = Some (CBool True))"
proof -
  note ord = wire_order_cases[OF assms(1,4,5)]
  note fields = new_row_plan_fields[OF assms(1)]
  note offs = new_row_plan_offsets[OF assms(1)]
  have pos: "position slot (pl_bool_slots plan) = Some i" using assms(12) by (simp add: fields(1))
  have slot: "slot \<in> set (bool_slots_of s)" using position_Some[OF assms(12)] by auto
  then have ne: "bool_slots_of s \<noteq> []" by auto
  let ?f = "hd (bool_slots_of s)"
  have f: "pl_first_bool plan = Some ?f" "?f \<in> set (pl_bool_slots plan)" "?f \<in> set order"
    using fields(1,2) ne ord(5) by simp_all
  have packed: "pl_packed_bools plan" using assms(3) by (simp add: fields(3))
  have typed: "cells_typed cells s plan (set order)" using assms(8) ord(2) by (auto simp: cells_typed_def)
  have w: "wadd off0 9 = length xs" using assms(9) base by (simp add: data lims)
  have fitsd: "fits (xs @ body @ ys)" using assms(9) by (simp add: data)
  show ?thesis
  proof (cases "pl_wire_reorder plan")
    case False
    have "\<exists>off x. walk_cells data (length xs) 0 slot s plan order = Ok (Some off) \<and> get_at data off = Some x
        \<and> (and (drop_bit (i mod 8) x) 1 = 1) = (cell_of cells slot = Some (CBool True))"
      using dense_walk_bool[OF assms(6) fitsd assms(7) typed packed f pos] by (simp add: data)
    moreover have "pl_fixed_offsets plan = None"
      using offs assms(2) False by (auto simp: fields(5) split: if_splits)
    ultimately show ?thesis by (simp add: dense_field_offset_def Let_def w assms(5))
  next
    case True
    from offs assms(2) True obtain tab where tab: "pl_fixed_offsets plan = Some tab"
      "fixed_offsets_loop s plan order 0 (replicate (length (s_keys s)) None) = Ok (tab, pl_var_start plan)"
      by (auto simp: fields(5) assms(5))
    note o = ord(4)[OF True]
    have vr: "\<forall>v \<in> set (var_order s). is_var_sigil (s_sigils s ! v)"
      and fx: "\<forall>v \<in> set (fixed_order s plan). \<not> is_var_sigil (s_sigils s ! v)"
      by (auto simp: var_order_def fixed_order_set own_fixed_cell_def)
    have len: "length tab = length (s_keys s)" using length_fixed_offsets_loop[OF tab(2)] by simp
    have sn: "slot < length (s_keys s)" using slot by (simp add: bool_slots_of_set[OF assms(4)])
    have "?f \<in> set (fixed_order s plan)"
      using ne bool_slots_of_set[OF assms(4)] list.set_sel(1)[OF ne] f(1)
      by (auto simp: fixed_order_set own_fixed_cell_def cell_sigils)
    moreover have "distinct (pl_bool_slots plan)" by (simp add: fields(1) bool_slots_of_def)
    ultimately have "\<exists>off x. tab ! slot = Some off \<and> get_at data (length xs + off) = Some x
        \<and> (and (drop_bit (i mod 8) x) 1 = 1) = (cell_of cells slot = Some (CBool True))"
      using fixed_offsets_find_bool[OF _ assms(6) fitsd assms(7) typed ord(1) _ o vr fx packed f(1,2) _ pos]
        tab(2) sn by (simp add: data)
    then obtain off x where off: "tab ! slot = Some off" "get_at data (length xs + off) = Some x"
        "(and (drop_bit (i mod 8) x) 1 = 1) = (cell_of cells slot = Some (CBool True))" by auto
    moreover from off(2) assms(9) have "wadd (length xs) off = length xs + off"
      by (simp add: lims get_at_def split: if_splits)
    ultimately show ?thesis
      using len sn by (simp add: dense_field_offset_def Let_def w tab(1) get_at_def)
  qed
qed

text \<open>
  A packed boolean of a dense record is read back: \<open>read_packed_bool\<close> is true exactly when the
  record holds \<open>true\<close> for the slot, in schema order and in wire order.
\<close>

lemma dense_bool_roundtrip:
  assumes "encode_compact_record cells s opts = Ok rec" and "new_row_plan s (preamble_flags opts) = Ok plan"
    and "dense_frames opts" and "packed_bools opts" and "all_present cells s"
    and "length (s_sigils s) = length (s_keys s)" and "plan_ok plan"
    and "cells_typed cells s plan {..<length (s_keys s)}"
    and "slot < length (s_keys s)" and "s_sigils s ! slot = SIGIL_BOOL"
    and "fits (pre @ rec @ post)"
  shows "read_packed_bool (pre @ rec @ post) (length pre) slot s plan
       = Ok (Some (cell_of cells slot = Some (CBool True)))"
proof -
  from encode_dense_record[OF assms(1-3,5)] obtain body order where r:
    "rec = frame_record (RECORD_HDR_DENSE # body)" "dense_wire_order plan s = Ok order"
    "encode_dense_loop cells s plan order [] = Ok body" .
  let ?xs = "pre @ u32_le MAGIC_OBJ @ u32_le (word_of_nat (9 + length body)) @ [RECORD_HDR_DENSE]"
  have data: "pre @ rec @ post = ?xs @ body @ post" by (simp add: r(1) frame_record_def)
  have "slot \<in> set (bool_slots_of s)" using assms(9,10) by (simp add: bool_slots_of_set[OF assms(6)])
  then obtain i where i: "position slot (bool_slots_of s) = Some i" by (blast dest: position_member)
  from dense_lookup_bool[OF assms(2-4,6) r(2,3) assms(7,8,11) data _ i, of "length pre"]
  obtain off x where "dense_field_offset (pre @ rec @ post) (length pre) slot s plan = Ok (Some off)"
    "get_at (pre @ rec @ post) off = Some x"
    "(and (drop_bit (i mod 8) x) 1 = 1) = (cell_of cells slot = Some (CBool True))" by auto
  then show ?thesis using assms(11) i new_row_plan_fields(1)[OF assms(2)]
    unfolding r(1) by (simp add: read_packed_bool_def resolve_dense)
qed

section \<open>Sparse records\<close>

lemma align_to_dvd: "cell_step m \<Longrightarrow> pos < ISIZE_LIM \<Longrightarrow> m dvd align_to pos m"
proof -
  assume a: "cell_step m" "pos < ISIZE_LIM"
  from a(1) obtain k where k: "m = 2 ^ k" "k \<le> 3" by (rule cell_stepE)
  have "m dvd pos + 2 ^ k - 1 - (pos + 2 ^ k - 1) mod m" by (rule dvd_minus_mod)
  then show ?thesis using align_to_pow2[OF a(2) k(2)] by (simp only: k(1))
qed

lemma align_to_fixed: "cell_step m \<Longrightarrow> pos < ISIZE_LIM \<Longrightarrow> m dvd pos \<Longrightarrow> align_to pos m = pos"
proof -
  assume a: "cell_step m" "pos < ISIZE_LIM" "m dvd pos"
  from a(1) obtain k where k: "m = 2 ^ k" "k \<le> 3" by (rule cell_stepE)
  show ?thesis using align_to_pow2[OF a(2) k(2)] round_up[of m pos] a(3) by (simp add: k(1) mod_0_imp_dvd dvd_imp_mod_0)
qed

lemma encode_sparse_step:
  assumes "sparse_cell_body_start (length body) fi s plan = Ok start"
    and "append_cell (body @ replicate (start - length body) 0) fi c s plan = Ok b"
    and "typed_cell s plan fi c" and "\<not> in_bool_word plan fi" and "fits b"
  shows "\<exists>p. b = body @ replicate (start - length body) 0 @ p \<and> length body \<le> start
           \<and> (\<forall>xs ys. fits (xs @ p @ ys) \<longrightarrow> cell_reads (xs @ p @ ys) (length xs) s plan fi c)"
proof -
  let ?body = "body @ replicate (start - length body) 0"
  have fb: "fits ?body" "fits body"
    using append_cell_grows[OF assms(2)] assms(5) by simp_all
  have steps: "cell_step 8" "cell_step 2" by (simp_all add: cell_step_def)
  have w: "cell_step (plan_width s plan fi)" if "\<exists>v. c = CI64 v \<or> c = CF64 v"
    using that assms(2) encode_int_cell_width encode_f64_cell_width steps(1)
    by (auto simp: append_cell_def plan_width_cell_w cell_w_def Let_def elim!: rbind_OkE)
  have le: "length body \<le> align_to (length body) m" if "cell_step m" for m
    by (rule pad_to_align(2)[OF that fb(2)])
  have "length body \<le> start \<and> cell_start s plan fi (length ?body) = length ?body"
  proof (cases c)
    case (CI64 v)
    then have "start = align_to (length body) (plan_width s plan fi)"
      using assms(1,3) by (auto simp: sparse_cell_body_start_def typed_cell_def idx_ok width_arm_def cell_sigils)
    then show ?thesis using CI64 assms(3) w le align_to_dvd fb align_to_fixed
      by (auto simp: cell_start_def typed_cell_def cell_sigils)
  next
    case (CF64 v)
    then have "start = align_to (length body) (plan_width s plan fi)"
      using assms(1,3) by (auto simp: sparse_cell_body_start_def typed_cell_def idx_ok width_arm_def cell_sigils)
    then show ?thesis using CF64 assms(3) w le align_to_dvd fb align_to_fixed
      by (auto simp: cell_start_def typed_cell_def cell_sigils)
  next
    case (CBool v)
    then have "start = align_to (length body) 8" "plan_width s plan fi = 8"
      using assms(1,3) by (auto simp: sparse_cell_body_start_def typed_cell_def idx_ok width_arm_def cell_sigils)
    then show ?thesis using CBool assms(3) steps le align_to_dvd fb align_to_fixed
      by (auto simp: cell_start_def typed_cell_def cell_sigils)
  next
    case (CTime v)
    then have "start = align_to (length body) 8" "plan_width s plan fi = 8"
      using assms(1,3) by (auto simp: sparse_cell_body_start_def typed_cell_def idx_ok width_arm_def cell_sigils)
    then show ?thesis using CTime assms(3) steps le align_to_dvd fb align_to_fixed
      by (auto simp: cell_start_def typed_cell_def cell_sigils)
  next
    case (CKeyword i)
    then have st: "start = (if is_promoted s fi then align_to (length body) 2 else align_to (length body) 8)"
      using assms(1,3) by (auto simp: sparse_cell_body_start_def typed_cell_def idx_ok width_arm_def cell_sigils)
    have "2 dvd start" using st steps align_to_dvd[OF _ fb(2)] dvd_trans[of 2 8 start] by (auto split: if_splits)
    then show ?thesis using CKeyword assms(3) steps le st fb align_to_fixed[of 2 start]
      by (auto simp: cell_start_def typed_cell_def cell_sigils)
  next
    case (CStr str)
    then have "start = (if is_promoted s fi then align_to (length body) 2 else length body)"
      using assms(1,3) by (auto simp: sparse_cell_body_start_def typed_cell_def idx_ok width_arm_def cell_sigils)
    then show ?thesis using CStr assms(3) steps le align_to_dvd fb align_to_fixed
      by (auto simp: cell_start_def typed_cell_def cell_sigils)
  qed (use assms(3) in \<open>simp add: typed_cell_def\<close>)
  moreover obtain p where "b = ?body @ replicate (cell_start s plan fi (length ?body) - length ?body) 0 @ p"
    "\<forall>xs ys. fits (xs @ p @ ys) \<longrightarrow> cell_reads (xs @ p @ ys) (length xs) s plan fi c"
    using append_cell_placed[OF assms(2,3) fb(1)] unfolding placed_def by auto
  ultimately show ?thesis by auto
qed


lemma encode_sparse_loop_Cons:
  assumes "encode_sparse_loop cells s present plan (fi # fis) body starts emitted = Ok (out, starts')"
    and "length present = length (s_keys s)" and "fi < length present"
  obtains (skip) "\<not> present ! fi \<or> in_bool_word plan fi"
      "encode_sparse_loop cells s present plan fis body starts emitted = Ok (out, starts')"
  | (word) b starts1 where "in_bool_word plan fi"
      "\<And>slot. slot \<noteq> fi \<Longrightarrow> \<not> in_bool_word plan slot \<Longrightarrow> starts1 slot = starts slot" "\<exists>p. b = body @ p"
      "encode_sparse_loop cells s present plan fis b starts1 True = Ok (out, starts')"
  | (cell) c start b where "present ! fi" "\<not> in_bool_word plan fi" "cell_of cells fi = Some c"
      "sparse_cell_body_start (length body) fi s plan = Ok start"
      "append_cell (body @ replicate (start - length body) 0) fi c s plan = Ok b"
      "encode_sparse_loop cells s present plan fis b (starts(fi \<mapsto> start)) emitted = Ok (out, starts')"
proof -
  have keep: "fold (\<lambda>(bi, bs) m. if present ! bs then m(bs \<mapsto> base + bi div 8) else m) zs m slot = m slot"
    if "slot \<notin> snd ` set zs" for zs m slot and base :: nat
    using that by (induction zs arbitrary: m) auto
  show thesis
  proof (cases "present ! fi \<and> in_bool_word plan fi \<and> \<not> emitted")
    case True
    let ?st = "fold (\<lambda>(bi, bs) m. if present ! bs then m(bs \<mapsto> length body + bi div 8) else m)
      (zip [0..<length (pl_bool_slots plan)] (pl_bool_slots plan)) (starts(fi \<mapsto> length body))"
    from True assms obtain b where b: "emit_bool_word body (bool_word cells plan (\<lambda>bs. present ! bs)) plan = Ok b"
      "encode_sparse_loop cells s present plan fis b ?st True = Ok (out, starts')"
      by (auto simp: idx_ok Let_def split: if_splits elim!: rbind_OkE)
    have "?st slot = starts slot" if "slot \<noteq> fi" "\<not> in_bool_word plan slot" for slot
    proof -
      have "slot \<notin> set (pl_bool_slots plan)" using True that by (simp add: in_bool_word_def)
      then have "slot \<notin> snd ` set (zip [0..<length (pl_bool_slots plan)] (pl_bool_slots plan))"
        by (auto dest: set_zip_rightD)
      from keep[OF this] that(1) show ?thesis by simp
    qed
    moreover have "\<exists>p. b = body @ p" using emit_bool_word_Ok(1)[OF b(1)] by (auto simp: pad_to_def)
    ultimately show thesis using word True b(2) by blast
  next
    case False
    then show thesis using assms skip cell
      by (auto simp: idx_ok Let_def split: if_splits option.splits elim!: rbind_OkE)
  qed
qed


lemma encode_sparse_loop_frame:
  assumes "encode_sparse_loop cells s present plan fis body starts emitted = Ok (out, starts')"
    and "length present = length (s_keys s)" and "set fis \<subseteq> {..<length present}"
  shows "(\<exists>p. out = body @ p) \<and> (slot \<notin> set fis \<longrightarrow> \<not> in_bool_word plan slot \<longrightarrow> starts' slot = starts slot)"
  using assms(1,3)
proof (induction fis arbitrary: body starts emitted)
  case (Cons fi fis)
  from Cons.prems(2) have fi: "fi < length present" "set fis \<subseteq> {..<length present}" by auto
  from Cons.prems(1) assms(2) fi(1) show ?case
  proof (cases rule: encode_sparse_loop_Cons)
    case skip
    then show ?thesis using Cons.IH[OF skip(2) fi(2)] by auto
  next
    case (word b starts1)
    then show ?thesis using Cons.IH[OF word(4) fi(2)] by auto
  next
    case (cell c start b)
    from append_cell_extends[OF cell(5)] obtain q where "b = body @ q" by auto
    then show ?thesis using Cons.IH[OF cell(6) fi(2)] by auto
  qed
qed simp

definition sparse_typed :: "(u16 \<times> compact_cell) list \<Rightarrow> ext_schema \<Rightarrow> row_plan \<Rightarrow> bool list \<Rightarrow> bool" where
  "sparse_typed cells s plan present \<longleftrightarrow>
     cells_typed cells s plan {fi. fi < length present \<and> present ! fi}"

lemma encode_sparse_loop_find:
  assumes "encode_sparse_loop cells s present plan fis body starts emitted = Ok (out, starts')"
    and "length present = length (s_keys s)" and "set fis \<subseteq> {..<length present}" and "distinct fis"
    and "slot \<in> set fis" and "present ! slot" and "\<not> in_bool_word plan slot"
    and "sparse_typed cells s plan present" and "fits (xs @ out @ ys)"
  shows "\<exists>off. starts' slot = Some off \<and> off \<le> length out
           \<and> cell_reads (xs @ out @ ys) (length xs + off) s plan slot (the (cell_of cells slot))"
  using assms(1,3-5)
proof (induction fis arbitrary: body starts emitted)
  case (Cons fi fis)
  from Cons.prems(2,3) have fi: "fi < length present" "set fis \<subseteq> {..<length present}" "distinct fis" "fi \<notin> set fis"
    by auto
  from Cons.prems(1) assms(2) fi(1) show ?case
  proof (cases rule: encode_sparse_loop_Cons)
    case skip
    then show ?thesis using Cons.IH[OF skip(2) fi(2,3)] Cons.prems(4) assms(6,7) by auto
  next
    case (word b starts1)
    then show ?thesis using Cons.IH[OF word(4) fi(2,3)] Cons.prems(4) assms(7) by auto
  next
    case (cell c start b)
    note frame = encode_sparse_loop_frame[OF cell(6) assms(2) fi(2), of slot]
    from frame obtain q where out: "out = b @ q" by auto
    show ?thesis
    proof (cases "fi = slot")
      case True
      have typed: "typed_cell s plan fi c"
        using assms(8) cell(1-3) fi(1) by (auto simp: sparse_typed_def cells_typed_def)
      have "fits b" using assms(9) out by simp
      from encode_sparse_step[OF cell(4,5) typed cell(2) this] obtain p where p:
        "b = body @ replicate (start - length body) 0 @ p" "length body \<le> start"
        "\<And>xs ys. fits (xs @ p @ ys) \<Longrightarrow> cell_reads (xs @ p @ ys) (length xs) s plan fi c" by auto
      let ?xs = "xs @ body @ replicate (start - length body) 0"
      have data: "xs @ out @ ys = ?xs @ p @ q @ ys" by (simp add: out p(1))
      have "cell_reads (?xs @ p @ q @ ys) (length ?xs) s plan fi c"
        using assms(9) unfolding data by (rule p(3))
      moreover have "starts' slot = Some start" using frame fi(4) True assms(7) by simp
      ultimately show ?thesis using p(2) cell(3) True unfolding data by (simp add: out p(1))
    next
      case False
      then show ?thesis using Cons.IH[OF cell(6) fi(2,3)] Cons.prems(4) by auto
    qed
  qed
qed simp

lemma offset_table_loop_keeps:
  "slot \<in> set fis \<Longrightarrow> slot \<notin> set (pl_bool_slots plan) \<Longrightarrow> slot \<in> set (offset_table_loop plan added fis)"
  by (induction fis arbitrary: added) auto

lemma table_slots_keeps:
  "slot < length present \<Longrightarrow> present ! slot \<Longrightarrow> \<not> in_bool_word plan slot \<Longrightarrow> slot \<in> set (table_slots present plan)"
  by (auto simp: sparse_offset_table_slots_def in_bool_word_def intro: offset_table_loop_keeps)

lemma length_mark_present [simp]: "length (mark_present cells n) = n"
  by (simp add: mark_present_def)

lemma encode_sparse_record:
  assumes "encode_compact_record cells s opts = Ok rec" and "new_row_plan s (preamble_flags opts) = Ok plan"
    and "dense_frames opts" and "\<not> all_present cells s"
  defines "present \<equiv> mark_present cells (length (s_keys s))"
  obtains body starts offs where
    "encode_sparse_loop cells s present plan [0..<length (s_keys s)] [] Map.empty False = Ok (body, starts)"
    "length offs = length (table_slots present plan)"
    "\<forall>i < length offs. \<exists>start. starts (table_slots present plan ! i) = Some start
       \<and> offs ! i = word_of_nat (align_to (9 + length (build_bitmask_bytes present) + length offs * 2) 8 + start)"
    "rec = frame_record (0 # build_bitmask_bytes present @ concat (map u16_le offs)
       @ replicate (align_to (9 + length (build_bitmask_bytes present) + length offs * 2) 8
                    - (9 + length (build_bitmask_bytes present) + length offs * 2)) 0 @ body)"
proof -
  have np: "\<not> list_all (\<lambda>p. p) present"
    using assms(4) by (force simp: all_present_def present_def mark_present_def list_all_iff image_iff)
  let ?ot = "table_slots present plan" and ?m = "length (build_bitmask_bytes present)"
  let ?ds = "align_to (9 + ?m + length ?ot * 2) 8"
  from assms(1-3) np obtain body starts offs where e:
    "encode_sparse_loop cells s present plan [0..<length (s_keys s)] [] Map.empty False = Ok (body, starts)"
    "rmap (\<lambda>fi. rbind (ok_or (starts fi) (ParseError ''missing sparse body offset for field {fi}''))
        (\<lambda>start. Ok (word_of_nat (?ds + start) :: u16))) ?ot = Ok offs"
    "rec = frame_record (0 # build_bitmask_bytes present @ concat (map u16_le offs)
       @ replicate (?ds - (9 + ?m + length ?ot * 2)) 0 @ body)"
    by (auto simp: encode_compact_record_def encode_sparse_body_def Let_def present_def add.assoc elim!: rbind_OkE)
  have len: "length offs = length ?ot" using rmap_Ok_length[OF e(2)] .
  have "\<exists>start. starts (?ot ! i) = Some start \<and> offs ! i = word_of_nat (?ds + start)" if "i < length offs" for i
  proof -
    have "rbind (ok_or (starts (?ot ! i)) (ParseError ''missing sparse body offset for field {fi}''))
        (\<lambda>start. Ok (word_of_nat (?ds + start) :: u16)) = Ok (offs ! i)"
      using e(2) that len unfolding rmap_Ok_iff by (auto dest: list_all2_nthD)
    then show ?thesis by (auto simp: ok_or_def split: option.splits)
  qed
  then have "\<forall>i < length offs. \<exists>start. starts (?ot ! i) = Some start \<and> offs ! i = word_of_nat (?ds + start)"
    by blast
  then show thesis using that[OF e(1) len] e(3) by (simp add: len)
qed

text \<open>
  C5: A sparse record is read back: as long as it has at most 65535 bytes, \<open>resolve_field_offset\<close> gives
  for every slot outside the word of packed booleans no offset when the record has no cell for it, and
  otherwise an offset at which the decoder of its kind returns the value that was written.
\<close>

theorem sparse_record_roundtrip:
  assumes "encode_compact_record cells s opts = Ok rec" and "new_row_plan s (preamble_flags opts) = Ok plan"
    and "dense_frames opts" and "\<not> all_present cells s"
    and "sparse_typed cells s plan (mark_present cells (length (s_keys s)))"
    and "slot < length (s_keys s)" and "\<not> in_bool_word plan slot"
    and "length rec \<le> 65535" and "fits (pre @ rec @ post)"
  shows "if \<exists>c \<in> set cells. unat (fst c) = slot
    then \<exists>off. resolve_field_offset (pre @ rec @ post) (length pre) slot s plan True = Ok (Some off)
           \<and> cell_reads (pre @ rec @ post) off s plan slot (the (cell_of cells slot))
    else resolve_field_offset (pre @ rec @ post) (length pre) slot s plan True = Ok None"
proof -
  let ?p = "mark_present cells (length (s_keys s))"
  let ?m = "build_bitmask_bytes ?p" and ?ot = "table_slots ?p plan"
  obtain body starts offs where e:
    "encode_sparse_loop cells s ?p plan [0..<length (s_keys s)] [] Map.empty False = Ok (body, starts)"
    "length offs = length ?ot"
    "\<forall>i < length offs. \<exists>start. starts (?ot ! i) = Some start
       \<and> offs ! i = word_of_nat (align_to (9 + length ?m + length offs * 2) 8 + start)"
    "rec = frame_record (0 # ?m @ concat (map u16_le offs)
       @ replicate (align_to (9 + length ?m + length offs * 2) 8 - (9 + length ?m + length offs * 2)) 0 @ body)"
    by (rule encode_sparse_record[OF assms(1-4)])
  let ?h = "9 + length ?m + length offs * 2"
  let ?ds = "align_to ?h 8"
  let ?tail = "replicate (?ds - ?h) 0 @ body @ post"
  define hdr where "hdr = u32_le MAGIC_OBJ @ u32_le (word_of_nat (length rec)) @ [0]"
  have data: "pre @ rec @ post = pre @ hdr @ ?m @ concat (map u16_le offs) @ ?tail"
    by (simp add: e(4) frame_record_def hdr_def)
  have hdr: "length hdr = 9" "hdr ! 8 = 0" by (simp_all add: hdr_def nth_append)
  have "fits (replicate ?h 0)" using assms(9) unfolding data by (simp add: hdr u16c.length_array)
  then have "?h \<le> ?ds" using pad_to_align(2)[of 8 "replicate ?h 0"] by (simp add: cell_step_def)
  then have len: "length rec = ?ds + length body" by (simp add: e(4) u16c.length_array)
  have here: "?p ! slot \<longleftrightarrow> (\<exists>c \<in> set cells. unat (fst c) = slot)"
    using assms(6) by (auto simp: mark_present_def)
  have "resolve_field_offset (pre @ rec @ post) (length pre) slot s plan True
      = Ok (resolve_slot_v13_sparse (pre @ rec @ post) (length pre) slot s plan)"
    using assms(9) hdr unfolding data
    by (simp add: resolve_field_offset_def checked_add_def lims get_at_def nth_append)
  moreover have "resolve_slot_v13_sparse (pre @ rec @ post) (length pre) slot s plan
      = (if ?p ! slot then map_option (\<lambda>i. length pre + unat (offs ! i)) (position slot ?ot) else None)"
    using assms(6,7,9) unfolding data by (intro resolve_slot_v13_finds) (simp_all add: hdr e(2))
  ultimately have res: "resolve_field_offset (pre @ rec @ post) (length pre) slot s plan True
      = Ok (if ?p ! slot then map_option (\<lambda>i. length pre + unat (offs ! i)) (position slot ?ot) else None)" by simp
  show ?thesis
  proof (cases "?p ! slot")
    case True
    from table_slots_keeps[of slot ?p plan] True assms(6,7) obtain i where i: "position slot ?ot = Some i"
      using position_member by fastforce
    then have "i < length offs" "?ot ! i = slot" using position_Some[OF i] e(2) by auto
    with e(3) obtain start where st: "starts slot = Some start" "offs ! i = word_of_nat (?ds + start)" by auto
    let ?xs = "pre @ hdr @ ?m @ concat (map u16_le offs) @ replicate (?ds - ?h) 0"
    have xs: "pre @ rec @ post = ?xs @ body @ post" "length ?xs = length pre + ?ds"
      using \<open>?h \<le> ?ds\<close> by (simp_all add: data hdr u16c.length_array)
    have "\<exists>off. starts slot = Some off \<and> off \<le> length body
        \<and> cell_reads (?xs @ body @ post) (length ?xs + off) s plan slot (the (cell_of cells slot))"
      by (rule encode_sparse_loop_find[OF e(1) _ _ _ _ True assms(7,5)]) (use assms(6,9) xs(1) in auto)
    then have rd: "start \<le> length body"
      "cell_reads (?xs @ body @ post) (length ?xs + start) s plan slot (the (cell_of cells slot))"
      using st(1) by (metis option.inject)+
    have "unat (offs ! i) = ?ds + start"
      unfolding st(2) by (rule unat_u16) (use rd(1) len assms(8) in simp)
    then show ?thesis using True here rd(2) unfolding res i xs(1)[symmetric] xs(2) by (simp add: add.assoc)
  next
    case False
    then show ?thesis using here by (simp add: res)
  qed
qed

section \<open>Records that are misread\<close>

text \<open>
  Records whose readers compute another offset than the writer used, each with the bytes and the offset: a promoted
  string behind an odd number of bytes in wire order, a word of booleans in a sparse record, a field behind a null in
  a dense record, and a field behind packed booleans without dense frames.  And the two roundings that differ for a
  word of three bytes, which 17 to 24 booleans have.
\<close>

definition read_back ::
  "(u16 \<times> compact_cell) list \<Rightarrow> ext_schema \<Rightarrow> compact_options \<Rightarrow> usize \<Rightarrow> (u8 list \<times> usize option) res"
where
  "read_back cells s o1 slot =
     rbind (encode_compact_record cells s o1) (\<lambda>rec.
     rbind (new_row_plan s (preamble_flags o1)) (\<lambda>plan.
     rbind (resolve_field_offset rec 0 slot s plan (dense_frames o1)) (\<lambda>off. Ok (rec, off))))"

definition plain_schema :: "rstring list \<Rightarrow> u8 list \<Rightarrow> u8 list \<Rightarrow> ext_schema" where
  "plain_schema keys sigils widths =
     \<lparr>s_keys = keys, s_sigils = sigils, s_widths = widths, s_attrs = replicate (length keys) 0, s_pool = []\<rparr>"

lemma promoted_misread:
  "read_back [(0, CI64 5), (1, CStr (bstr ''Rome''))]
     ((plain_schema [bstr ''i'', bstr ''c''] [SIGIL_INT, SIGIL_STR] [1, 0])
       \<lparr>s_attrs := [0, 1], s_pool := [bstr ''Oslo'', bstr ''Rome'']\<rparr>) compact_all 1
   = Ok ([79, 88, 89, 78, 13, 0, 0, 0, 1, 5, 0, 1, 0], Some 10)"
  by code_simp

lemma wide_word_rounding: "align_to 4 3 = 4 \<and> length (pad_to 3 [7, 0, 0, 0]) = 6"
  by code_simp

lemma sparse_word_misread:
  "read_back [(0, CI64 7), (1, CBool True)]
     (plain_schema (map (\<lambda>i. [word_of_nat i]) [65..<75]) (SIGIL_INT # replicate 9 SIGIL_BOOL) (1 # replicate 9 0))
     compact_all 1
   = Ok ([79, 88, 89, 78, 20, 0, 0, 0, 0, 131, 0, 16, 0, 17, 0, 0, 7, 0, 1, 0], Some 17)"
  by code_simp

lemma null_cell_misread:
  "read_back [(0, CNull), (1, CI64 7)] (plain_schema [bstr ''n'', bstr ''m''] [SIGIL_INT, SIGIL_INT] [8, 8]) compact_all 1
   = Ok ([79, 88, 89, 78, 17, 0, 0, 0, 1, 7, 0, 0, 0, 0, 0, 0, 0], Some 17)"
  by code_simp

lemma packed_without_dense_misread:
  "read_back [(0, CBool True), (1, CBool True), (2, CI64 7)]
     (plain_schema [bstr ''a'', bstr ''b'', bstr ''n''] [SIGIL_BOOL, SIGIL_BOOL, SIGIL_INT] [0, 0, 0])
     (compact_all\<lparr>dense_frames := False\<rparr>) 2
   = Ok ([79, 88, 89, 78, 32, 0, 0, 0, 7, 16, 0, 24, 0, 0, 0, 0, 3, 0, 0, 0, 0, 0, 0, 0, 7, 0, 0, 0, 0, 0, 0, 0], Some 0)"
  by code_simp

definition ex_schema :: ext_schema where
  "ex_schema = plain_schema [bstr ''n'', bstr ''s''] [SIGIL_INT, SIGIL_STR] [1, 0]"

definition ex_plan :: row_plan where
  "ex_plan = \<lparr>pl_bool_slots = [], pl_first_bool = None, pl_packed_bools = True, pl_narrow = True,
     pl_dense_allowed = True, pl_wire_reorder = True, pl_fixed_offsets = Some [Some 0, None], pl_var_start = Some 1\<rparr>"

lemma ex_plan: "new_row_plan ex_schema (preamble_flags compact_all) = Ok ex_plan"
  by code_simp

lemma lessThan_2: "{..<2 :: nat} = {0, 1}" by auto

lemma ex_typed: "typed_cell ex_schema ex_plan 0 (CI64 5)" "typed_cell ex_schema ex_plan 1 (CStr (bstr ''ab''))"
  by code_simp+

theorem dense_record_roundtrip_witness:
  "\<exists>off. resolve_field_offset
       (frame_record [1, 5, 2, 0, 0, 0, 97, 98, 0, 0]) 0 1 ex_schema ex_plan True = Ok (Some off)
     \<and> cell_reads (frame_record [1, 5, 2, 0, 0, 0, 97, 98, 0, 0]) off ex_schema ex_plan 1 (CStr (bstr ''ab''))"
proof -
  let ?cells = "[(0, CI64 5), (1, CStr (bstr ''ab''))] :: (u16 \<times> compact_cell) list"
  have enc: "encode_compact_record ?cells ex_schema compact_all = Ok (frame_record [1, 5, 2, 0, 0, 0, 97, 98, 0, 0])"
    by code_simp
  have len: "length (s_keys ex_schema) = 2" by code_simp
  have cell: "cell_of ?cells 0 = Some (CI64 5)" "cell_of ?cells 1 = Some (CStr (bstr ''ab''))" by code_simp+
  have typed: "cells_typed ?cells ex_schema ex_plan {..<length (s_keys ex_schema)}"
    unfolding len lessThan_2 cells_typed_insert using cell ex_typed by (auto simp: cells_typed_def)
  have "\<exists>off. resolve_field_offset ([] @ frame_record [1, 5, 2, 0, 0, 0, 97, 98, 0, 0] @ []) (length ([] :: u8 list)) 1
        ex_schema ex_plan True = Ok (Some off)
     \<and> cell_reads ([] @ frame_record [1, 5, 2, 0, 0, 0, 97, 98, 0, 0] @ []) off ex_schema ex_plan 1 (the (cell_of ?cells 1))"
    by (rule dense_record_roundtrip[OF enc ex_plan _ _ _ _ typed])
      (code_simp | simp add: lims)+
  then show ?thesis unfolding append_Nil append_Nil2 list.size cell option.sel .
qed


theorem sparse_record_roundtrip_witness:
  "resolve_field_offset ([9] @ frame_record [0, 2, 16, 0, 0, 0, 0, 0, 2, 0, 0, 0, 97, 98, 0, 0] @ [8]) 1 0
     ex_schema ex_plan True = Ok None"
proof -
  let ?cells = "[(1, CStr (bstr ''ab''))] :: (u16 \<times> compact_cell) list"
  let ?rec = "frame_record [0, 2, 16, 0, 0, 0, 0, 0, 2, 0, 0, 0, 97, 98, 0, 0]"
  have enc: "encode_compact_record ?cells ex_schema compact_all = Ok ?rec" by code_simp
  have len: "length (s_keys ex_schema) = 2" by code_simp
  have p: "mark_present ?cells 2 = [False, True]" by code_simp
  have only: "{fi. fi < length [False, True] \<and> [False, True] ! fi} = {1}"
    by (auto simp: nth_Cons' less_2_cases_iff)
  have "typed_cell ex_schema ex_plan 1 (CStr (bstr ''ab''))" by code_simp
  moreover have "cell_of ?cells 1 = Some (CStr (bstr ''ab''))" by code_simp
  ultimately have typed: "sparse_typed ?cells ex_schema ex_plan (mark_present ?cells (length (s_keys ex_schema)))"
    using only unfolding len p sparse_typed_def by (simp add: cells_typed_def)
  have np: "\<not> all_present ?cells ex_schema" by (auto simp: all_present_def len intro!: exI[of _ 0])
  show ?thesis
    using sparse_record_roundtrip[OF enc ex_plan _ np typed, of 0 "[9]" "[8]"]
    by (simp add: len lims in_bool_word_def ex_plan_def compact_all_def)
qed


theorem dense_bool_roundtrip_witness:
  "read_packed_bool ([] @ frame_record [1, 5, 1] @ [7]) 0 1 (plain_schema [bstr ''n'', bstr ''b''] [SIGIL_INT, SIGIL_BOOL] [1, 0])
     \<lparr>pl_bool_slots = [1], pl_first_bool = Some 1, pl_packed_bools = True, pl_narrow = True,
      pl_dense_allowed = True, pl_wire_reorder = True, pl_fixed_offsets = Some [Some 0, Some 1], pl_var_start = None\<rparr>
   = Ok (Some True)"
proof -
  let ?cells = "[(0, CI64 5), (1, CBool True)] :: (u16 \<times> compact_cell) list"
  let ?s = "plain_schema [bstr ''n'', bstr ''b''] [SIGIL_INT, SIGIL_BOOL] [1, 0]"
  let ?plan = "\<lparr>pl_bool_slots = [1], pl_first_bool = Some 1, pl_packed_bools = True, pl_narrow = True,
      pl_dense_allowed = True, pl_wire_reorder = True, pl_fixed_offsets = Some [Some 0, Some 1], pl_var_start = None\<rparr>"
  have enc: "encode_compact_record ?cells ?s compact_all = Ok (frame_record [1, 5, 1])" by code_simp
  have plan: "new_row_plan ?s (preamble_flags compact_all) = Ok ?plan" by code_simp
  have len: "length (s_keys ?s) = 2" by code_simp
  have "cell_of ?cells 0 = Some (CI64 5)" "typed_cell ?s ?plan 0 (CI64 5)" "in_bool_word ?plan 1" by code_simp+
  then have typed: "cells_typed ?cells ?s ?plan {..<length (s_keys ?s)}"
    unfolding len lessThan_2 cells_typed_insert by (auto simp: cells_typed_def)
  have true: "cell_of ?cells 1 = Some (CBool True)" by code_simp
  have "read_packed_bool ([] @ frame_record [1, 5, 1] @ [7]) (length ([] :: u8 list)) 1 ?s ?plan
      = Ok (Some (cell_of ?cells 1 = Some (CBool True)))"
    by (rule dense_bool_roundtrip[OF enc plan _ _ _ _ _ typed]) (code_simp | simp add: lims)+
  then show ?thesis unfolding true list.size by simp
qed

end
