(* ===== verification/Row_Queries.thy ===== *)
theory Row_Queries
  imports Filters Record_Roundtrip
begin

text \<open>
  Row lookups of the query reader: its slot reader against that of the compact encoding, and opening
  a buffer without a panic.
\<close>

section \<open>The two slot readers\<close>

lemma scan_bits_scan7:
  "ti \<le> cur \<Longrightarrow> cur + length ks < USIZE_LIM \<Longrightarrow> scan_bits b ks slot (cur, ti, f) = scan7 b ks slot (cur, ti, f)"
proof (induction ks arbitrary: cur ti f)
  case (Cons k ks)
  then have "checked_add cur 1 = Some (cur + 1)" "checked_add ti 1 = Some (ti + 1)" by simp_all
  moreover have "scan_bits b ks slot (cur + 1, t, g) = scan7 b ks slot (cur + 1, t, g)" if "t \<le> cur + 1" for t g
    using Cons that by simp
  ultimately show ?case using Cons.prems(1) by (auto simp: Let_def)
qed simp

lemma scan7_state:
  "scan7 b ks slot (cur, ti, f) = Some (cur', ti', f') \<Longrightarrow> ti \<le> cur \<Longrightarrow> ti' \<le> cur' \<and> cur' = cur + length ks"
  by (induction ks arbitrary: cur ti f) (force simp: Let_def split: if_splits)+

lemma scan_slot_find_slot:
  assumes "length data < 2 ^ 60" and "ti \<le> cur" and "cur \<le> 7 * p"
  shows "scan_slot data p slot (cur, ti, f) = find_slot data p slot (cur, ti, f)"
  using assms
proof (induction data p slot "(cur, ti, f)" arbitrary: cur ti f rule: find_slot.induct)
  case (1 data p slot)
  show ?case
  proof (cases "get_at data p")
    case (Some b)
    then have p: "p < length data" by (simp add: get_at_eq_Some)
    then have "cur + 7 < USIZE_LIM" "p + 1 < USIZE_LIM" using "1.prems" by (simp_all add: lims)
    then have sb: "scan_bits b [0..<7] slot (cur, ti, f) = scan7 b [0..<7] slot (cur, ti, f)"
      and ca: "checked_add p 1 = Some (p + 1)" using "1.prems"(2) by (simp_all add: scan_bits_scan7 del: upt_Suc)
    show ?thesis
    proof (cases "scan7 b [0..<7] slot (cur, ti, f)")
      case None
      then show ?thesis by (simp add: scan_slot.simps[of data p] find_slot.simps[of data p] Some sb ca del: One_nat_def)
    next
      case st: (Some st)
      obtain cur' ti' f' where e: "st = (cur', ti', f')" by (cases st) auto
      have bound: "ti' \<le> cur' \<and> cur' = cur + length [0..<7]"
        using scan7_state[OF st[unfolded e] "1.prems"(2)] .
      then have "ti' \<le> cur'" "cur' \<le> 7 * (p + 1)" using "1.prems"(3) by simp_all
      then show ?thesis
        using "1.hyps"[OF Some st[unfolded e] refl refl] "1.prems"(1)
        by (simp add: scan_slot.simps[of data p] find_slot.simps[of data p] Some sb ca st e del: One_nat_def)
    qed
  qed (simp add: scan_slot.simps find_slot.simps)
qed


lemma find_slot_state:
  assumes "find_slot data p slot (cur, ti, f) = Some (b, q, t)" and "ti \<le> cur" and "cur \<le> 7 * p"
  shows "q \<le> length data \<and> t \<le> 7 * q"
  using assms
proof (induction data p slot "(cur, ti, f)" arbitrary: cur ti f rule: find_slot.induct)
  case (1 data p slot)
  from "1.prems"(1) obtain b' cur' ti' f' where g: "get_at data p = Some b'"
    and st: "scan7 b' [0..<7] slot (cur, ti, f) = Some (cur', ti', f')"
    by (subst (asm) find_slot.simps) (auto split: option.splits)
  have "ti' \<le> cur' \<and> cur' = cur + length [0..<7]" using scan7_state[OF st "1.prems"(2)] .
  then have bound: "ti' \<le> cur'" "cur' \<le> 7 * (p + 1)" using "1.prems"(3) by simp_all
  have p: "p < length data" using g by (simp add: get_at_eq_Some)
  show ?case
    using "1.hyps"[OF g st refl refl] "1.prems"(1) bound p
    by (subst (asm) find_slot.simps) (auto simp: g st split: if_splits)
qed

lemma skip_mask_eq: "p \<le> length data \<Longrightarrow> fits data \<Longrightarrow> skip_mask data b p = mask_end data b p"
proof (induction data b p rule: mask_end.induct)
  case (1 data b p)
  show ?case
  proof (cases "get_at data p")
    case (Some b')
    then have "p + 1 < USIZE_LIM" "p + 1 \<le> length data" using "1.prems" by (simp_all add: get_at_eq_Some lims)
    then show ?thesis
      using 1(1)[OF _ Some] "1.prems"(2) by (simp add: skip_mask.simps[of data b p] mask_end.simps[of data b p] Some)
  qed (simp add: skip_mask.simps mask_end.simps)
qed

lemma mask_end_le: "mask_end data b p = Some q \<Longrightarrow> p \<le> length data \<Longrightarrow> q \<le> length data"
proof (induction data b p rule: mask_end.induct)
  case (1 data b p)
  then show ?case
    by (subst (asm) (2) mask_end.simps) (auto simp: get_at_eq_Some split: if_splits option.splits)
qed

lemma resolve_slot_eq:
  assumes "length data < 2 ^ 60"
  shows "resolve_slot data obj slot = resolve_slot_v12 data obj slot"
proof (cases "checked_add obj 8")
  case (Some p0)
  show ?thesis
  proof (cases "find_slot data p0 slot (0, 0, False)")
    case None
    then show ?thesis using scan_slot_find_slot[OF assms, of 0 0 p0 slot False] Some
      by (simp add: resolve_slot_def resolve_slot_v12_def)
  next
    case fs: (Some x)
    obtain b p t where x: "x = (b, p, t)" by (cases x) auto
    have pt: "p \<le> length data" "t \<le> 7 * p" using find_slot_state[OF fs[unfolded x]] by simp_all
    have fits: "fits data" using assms by (simp add: lims)
    have "checked_mul t 2 = Some (t * 2)" using pt assms by (simp add: lims)
    moreover have "checked_add q (t * 2) = Some (q + t * 2)" "checked_add (q + t * 2) 2 = Some (q + t * 2 + 2)"
      "wadd (q + t * 2) 2 = q + t * 2 + 2" if "mask_end data b p = Some q" for q
      using mask_end_le[OF that pt(1)] pt assms by (simp_all add: lims)
    ultimately show ?thesis
      using scan_slot_find_slot[OF assms, of 0 0 p0 slot False] Some fs skip_mask_eq[OF pt(1) fits, of b]
      by (cases "mask_end data b p") (auto simp: resolve_slot_def resolve_slot_v12_def x get_u16_def bind_map_option comp_def)
  qed
qed (simp add: resolve_slot_def resolve_slot_v12_def)

end
