(* ===== verification/Reader_Safety.thy ===== *)
theory Reader_Safety
  imports Row_Queries Compile_Decode
begin

text \<open>
  Opening a buffer never panics, and neither does a lookup of a record in the columnar and PAX
  layouts, whatever the bytes are.
\<close>

section \<open>Opening\<close>

lemma fixed_offsets_loop_no_panic:
  assumes "\<forall>fi \<in> set fis. fi < length (s_sigils s)" and "\<forall>bs \<in> set (pl_bool_slots plan). bs < length out"
  shows "fixed_offsets_loop s plan fis pos out \<noteq> Panic"
  using assms
proof (induction fis arbitrary: pos out)
  case (Cons fi fis)
  have l: "length (set_bool_offsets plan b out) = length out" for b
  proof -
    have "length (fold (\<lambda>(i, bs) out. out[bs := Some (b + i div 8)]) ps out) = length out" for ps
      by (induction ps arbitrary: out) auto
    then show ?thesis by (simp add: set_bool_offsets_def)
  qed
  have IH: "fixed_offsets_loop s plan fis p o1 \<noteq> Panic" if "length o1 = length out" for p o1
    using Cons that by (intro Cons.IH) auto
  have "\<not> (\<exists>bs \<in> set (pl_bool_slots plan). length out \<le> bs)" using Cons.prems(2) by auto
  then show ?case using Cons.prems(1)
    by (auto simp: Let_def l IH idx_ok advance_dense_past_cell_fixed_def rbind_eq_Panic)
qed simp

lemma new_row_plan_no_panic:
  assumes "length (s_sigils s) = length (s_keys s)"
  shows "new_row_plan s flags \<noteq> Panic"
proof -
  have "precompute_dense_fixed_offsets s plan \<noteq> Panic" if "pl_bool_slots plan = bool_slots_of s" for plan
  proof -
    obtain order where o1: "dense_wire_order plan s = Ok order" "set order \<subseteq> {..<length (s_keys s)}"
    proof (cases "pl_wire_reorder plan")
      case True
      have "dense_wire_order plan s = Ok (fixed_order s plan @ var_order s)"
        using True reordered_slots_eq[of s plan] assms by (simp add: dense_wire_order_def)
      moreover have "set (fixed_order s plan @ var_order s) \<subseteq> {..<length (s_keys s)}"
        using fixed_order_set[of s plan] by (auto simp: var_order_def)
      ultimately show ?thesis using that by blast
    next
      case False
      then show ?thesis using that[of "[0..<length (s_keys s)]"] by (simp add: dense_wire_order_def atLeast0LessThan)
    qed
    have "fixed_offsets_loop s plan order 0 (replicate (length (s_keys s)) None) \<noteq> Panic"
      using o1(2) assms that by (intro fixed_offsets_loop_no_panic) (auto simp: bool_slots_of_def)
    then show ?thesis by (auto simp: precompute_dense_fixed_offsets_def o1 rbind_eq_Panic)
  qed
  then show ?thesis by (auto simp: new_row_plan_def Let_def rbind_eq_Panic)
qed

lemma read_many_length: "read_many rd n data p = Ok (vs, q) \<Longrightarrow> length vs = n"
  by (induction n arbitrary: p vs) (auto simp: res_simps)

lemma read_block_length: "read_block n data p = Ok (bs, q) \<Longrightarrow> length bs = n"
  by (auto simp: read_block_def res_simps slice_def checked_add_eq_Some split: if_splits)

lemma parse_extended_schema_lengths:
  "parse_extended_schema data pos flags = Ok (s, e) \<Longrightarrow> length (s_sigils s) = length (s_keys s)"
  by (auto simp: parse_extended_schema_def Let_def res_simps split: if_splits
      dest!: read_many_length read_block_length)

lemma parse_schema_no_panic:
  assumes "fits data"
  shows "parse_schema data offset \<noteq> Panic"
  using assms by (auto simp: parse_schema_def Let_def res_simps rd_Ok slice_def read_cstrs_no_panic split: if_splits)

lemma reader_schema_no_panic:
  assumes "fits data"
  shows "reader_schema data flags \<noteq> Panic"
proof -
  have "parse_extended_schema data 32 flags \<noteq> Panic"
    using parse_extended_schema_no_panic[OF assms, of 32 flags]
    by (cases "34 \<le> length data") (simp_all add: parse_extended_schema_def lims)
  then show ?thesis
    by (auto simp: reader_schema_def rbind_eq_Panic parse_schema_no_panic[OF assms]
        dest!: parse_extended_schema_lengths new_row_plan_no_panic)
qed

lemma reader_schema_lengths:
  "reader_schema data flags = Ok (keys, sigils, ext, plan) \<Longrightarrow> length sigils = length keys"
  by (auto simp: reader_schema_def parse_schema_def Let_def res_simps slice_def
      dest: parse_extended_schema_lengths dest!: read_many_length split: if_splits)

lemma read_col_entry_no_panic:
  assumes "fits data" and "tail + (i + 1) * 20 \<le> length data"
  shows "read_col_entry data tail kc i st \<noteq> Panic"
proof -
  have "tail + i * 20 + 20 \<le> length data" using assms(2) by simp
  then show ?thesis using assms(1)
    by (cases st) (auto simp: read_col_entry_def Let_def rbind_eq_Panic rd_Ok)
qed

lemma columnar_tail_no_panic:
  assumes "fits data" and "32 \<le> length data" and "has_flag flags FLAG_COLUMNAR" and "\<not> has_flag flags FLAG_PAX"
  shows "columnar_tail data flags kc \<noteq> Panic"
proof -
  let ?fo = "length data - footer_size flags"
  have fo: "footer_size flags = 20" using assms(3,4) by (simp add: footer_size_def)
  have rd: "rd_u64 data ?fo \<noteq> Panic" "rd_u64 data (?fo + 8) \<noteq> Panic"
    using assms(1,2) fo by (simp_all add: rd_Ok)
  have "rfold (read_col_entry data tp kc) [0..<kc] st \<noteq> Panic" if "tp + kc * 20 \<le> ?fo" for tp st
  proof (rule rfold_no_panic, rule read_col_entry_no_panic[OF assms(1)])
    fix i assume "i \<in> set [0..<kc]"
    then have "(i + 1) * 20 \<le> kc * 20" by (intro mult_right_mono) auto
    then show "tp + (i + 1) * 20 \<le> length data" using that by linarith
  qed
  then show ?thesis using rd
    by (auto simp: columnar_tail_def Let_def rbind_eq_Panic checked_mul_eq_Some checked_add_eq_Some ok_or_eq_Ok
        split: if_splits)
qed

lemma pax_tail_no_panic:
  "fits data \<Longrightarrow> 32 \<le> length data \<Longrightarrow> has_flag flags FLAG_PAX \<Longrightarrow> pax_tail data flags \<noteq> Panic"
  by (auto simp: pax_tail_def Let_def rbind_eq_Panic rd_Ok footer_size_def)

lemma row_tail_no_panic: "fits data \<Longrightarrow> 32 \<le> length data \<Longrightarrow> row_tail data flags t \<noteq> Panic"
  by (auto simp: row_tail_def Let_def rbind_eq_Panic rd_Ok parse_delta_tail_no_panic)

lemma layout_flags_exclusive:
  "layout_validate_flags flags = Ok () \<Longrightarrow> has_flag flags FLAG_COLUMNAR \<Longrightarrow> \<not> has_flag flags FLAG_PAX"
  by (auto simp: layout_validate_flags_def Let_def split: if_splits)

lemma reader_tail_no_panic:
  assumes "fits data" and "32 \<le> length data" and "layout_validate_flags flags = Ok ()"
  shows "reader_tail data flags kc t \<noteq> Panic"
  using columnar_tail_no_panic[OF assms(1,2), of flags kc] pax_tail_no_panic[OF assms(1,2), of flags]
    row_tail_no_panic[OF assms(1,2), of flags t] layout_flags_exclusive[OF assms(3)]
  by (simp add: reader_tail_def)

lemma reader_new_no_panic:
  assumes "fits data"
  shows "reader_new data \<noteq> Panic"
proof (cases "length data < 32")
  case False
  then have "layout_validate_flags flags = Ok () \<Longrightarrow> reader_tail data flags kc t \<noteq> Panic" for flags kc t
    using reader_tail_no_panic[OF assms] by simp
  moreover have "layout_validate_flags flags \<noteq> Panic" for flags
    by (simp add: layout_validate_flags_def validate_reader_flags_def Let_def)
  ultimately show ?thesis using False assms reader_schema_no_panic[OF assms]
    by (auto simp: reader_new_def rbind_eq_Panic rd_Ok)
qed (simp add: reader_new_def)

text \<open>What holds of every reader that was opened.\<close>

definition reader_ok :: "reader \<Rightarrow> bool" where
  "reader_ok r \<longleftrightarrow> fits (r_data r) \<and> 32 \<le> length (r_data r) \<and> length (r_key_sigils r) = length (r_keys r)
     \<and> r_key_index r = index_keys (r_keys r)"

lemma reader_new_ok: "fits data \<Longrightarrow> reader_new data = Ok r \<Longrightarrow> reader_ok r \<and> r_data r = data"
  by (auto simp: reader_new_def res_simps reader_ok_def dest: reader_schema_lengths split: if_splits)

section \<open>Columns\<close>

lemma col_bit_covered:
  assumes "i < n" and "n < ISIZE_LIM" and "length bm = null_bitmap_bytes n"
  shows "\<exists>b. col_bit bm i = Ok b"
proof -
  have "(i + 8) div 8 \<le> (n + 7) div 8" using assms(1) by (intro div_le_mono) simp
  then have "i div 8 < length bm" using null_bitmap_bytes_small(1)[OF assms(2)] assms(3) by simp
  then show ?thesis by (simp add: col_bit_def)
qed

lemma col_sector_no_panic: "col_sector r slot \<noteq> Panic"
  by (auto simp: col_sector_def rbind_eq_Panic ok_or_eq_Ok checked_add_eq_Some slice_def)

lemma col_sector_length: "col_sector r slot = Ok (sector, len) \<Longrightarrow> length sector = len \<and> len \<le> length (r_data r)"
  by (auto simp: col_sector_def res_simps checked_add_eq_Some slice_def split: if_splits)

lemma col_field_parts_no_panic: "col_field_parts r slot \<noteq> Panic"
  by (auto simp: col_field_parts_def rbind_eq_Panic col_sector_no_panic Let_def slice_def checked_add_eq_Some ok_or_eq_Ok
      dest!: col_sector_length split: if_splits)

lemma col_field_parts_Ok:
  assumes "reader_ok r" and "col_field_parts r slot = Ok (bm, vals)"
  shows "length bm = null_bitmap_bytes (r_record_count r) \<and> r_record_count r < ISIZE_LIM"
proof -
  from assms(2) obtain sector len where s: "col_sector r slot = Ok (sector, len)"
    and l: "null_bitmap_bytes (r_record_count r) + min (r_record_count r * 8) (USIZE_LIM - 1) \<le> len"
      "bm = seg sector 0 (null_bitmap_bytes (r_record_count r))"
    by (auto simp: col_field_parts_def Let_def res_simps checked_add_eq_Some slice_eq_Ok split: if_splits)
  have len: "len < ISIZE_LIM" "length sector = len"
    using col_sector_length[OF s] assms(1) by (simp_all add: reader_ok_def)
  have "min (r_record_count r * 8) (USIZE_LIM - 1) < ISIZE_LIM" using l(1) len(1) by linarith
  then have "r_record_count r * 8 < ISIZE_LIM" by (auto simp: lims min_def split: if_splits)
  moreover have "null_bitmap_bytes (r_record_count r) \<le> length sector" using l(1) len(2) by linarith
  ultimately show ?thesis using l(2) by simp
qed

lemma col_var_parts_no_panic: "col_var_parts sector n \<noteq> Panic"
  by (auto simp: col_var_parts_def Let_def rbind_eq_Panic)

lemma col_var_parts_Ok:
  assumes "col_var_parts sector n = Ok (bm, offsets, vals)" and "fits sector"
  shows "length bm = null_bitmap_bytes n \<and> n < ISIZE_LIM"
proof -
  from assms(1) have l: "(n + 1) * 4 < USIZE_LIM" "\<not> length sector < saturating_add (null_bitmap_bytes n) ((n + 1) * 4)"
    "bm = take (null_bitmap_bytes n) sector"
    by (auto simp: col_var_parts_def Let_def res_simps checked_add_eq_Some checked_mul_eq_Some bind_eq_Some_conv split: if_splits)
  have "null_bitmap_bytes n + (n + 1) * 4 \<le> length sector"
    using l(2) assms(2) by (auto simp: saturating_add_def lims min_def split: if_splits)
  then show ?thesis using l(1,3) by (simp add: lims)
qed

lemma fixed_value_no_panic:
  assumes "parts \<noteq> Panic" and "\<And>bm vals. parts = Ok (bm, vals) \<Longrightarrow> length bm = null_bitmap_bytes n \<and> n < ISIZE_LIM" and "i < n"
  shows "fixed_value rd parts i \<noteq> Panic"
proof (cases parts)
  case (Ok x)
  obtain bm vals where "x = (bm, vals)" by (cases x)
  then show ?thesis using assms(2)[of bm vals] col_bit_covered[OF assms(3), of bm] Ok by (auto simp: fixed_value_def)
qed (use assms(1) in \<open>simp_all add: fixed_value_def\<close>)

lemma str_value_no_panic:
  assumes "parts \<noteq> Panic" and "\<And>bm offs vals. parts = Ok (bm, offs, vals) \<Longrightarrow> length bm = null_bitmap_bytes n \<and> n < ISIZE_LIM"
    and "i < n"
  shows "str_value parts i \<noteq> Panic"
proof (cases parts)
  case (Ok x)
  obtain bm offs vals where "x = (bm, offs, vals)" by (cases x)
  then show ?thesis using assms(2)[of bm offs vals] col_bit_covered[OF assms(3), of bm] Ok by (auto simp: str_value_def)
qed (use assms(1) in \<open>simp_all add: str_value_def\<close>)

lemma columnar_values_no_panic:
  assumes "reader_ok r" and "i < r_record_count r"
  shows "fixed_value rd (col_field_parts r slot) i \<noteq> Panic" and "str_value (col_field_var_parts r slot) i \<noteq> Panic"
proof -
  show "fixed_value rd (col_field_parts r slot) i \<noteq> Panic"
    by (rule fixed_value_no_panic[OF col_field_parts_no_panic _ assms(2)]) (rule col_field_parts_Ok[OF assms(1)])
  show "str_value (col_field_var_parts r slot) i \<noteq> Panic"
  proof (rule str_value_no_panic[OF _ _ assms(2)])
    show "col_field_var_parts r slot \<noteq> Panic"
      by (auto simp: col_field_var_parts_def rbind_eq_Panic col_sector_no_panic col_var_parts_no_panic)
    fix bm offs vals
    assume "col_field_var_parts r slot = Ok (bm, offs, vals)"
    then obtain sector len where s: "col_sector r slot = Ok (sector, len)"
      and "col_var_parts sector (r_record_count r) = Ok (bm, offs, vals)"
      by (auto simp: col_field_var_parts_def res_simps)
    moreover have "fits sector" using col_sector_length[OF s] assms(1) by (simp add: reader_ok_def)
    ultimately show "length bm = null_bitmap_bytes (r_record_count r) \<and> r_record_count r < ISIZE_LIM"
      by (intro col_var_parts_Ok)
  qed
qed

section \<open>Pages\<close>

lemma page_count_no_panic: "reader_ok r \<Longrightarrow> page_count r \<noteq> Panic"
proof -
  have "footer_size FLAG_PAX = 28" by code_simp
  then show "reader_ok r \<Longrightarrow> ?thesis"
    by (auto simp: page_count_def rbind_eq_Panic reader_ok_def rd_Ok)
qed

lemma locate_loop_Some:
  "locate_loop r i lo hi = Some (p, l) \<Longrightarrow>
     \<exists>start cnt. pax_page_rec_start r p = Some start \<and> pax_page_rec_count r p = Some cnt
       \<and> l < unat cnt \<and> l = i - unat start \<and> unat start \<le> i"
proof (induction r i lo hi rule: locate_loop.induct)
  case (1 r i lo hi)
  let ?m = "page_mid lo hi"
  from "1.prems" have lh: "\<not> sint hi < int lo" by (subst (asm) locate_loop.simps) (auto split: if_splits)
  from "1.prems" obtain start where st: "pax_page_rec_start r ?m = Some start"
    by (subst (asm) locate_loop.simps) (auto simp: Let_def split: if_splits option.splits)
  from "1.prems" obtain cnt where ct: "pax_page_rec_count r ?m = Some cnt"
    by (subst (asm) locate_loop.simps) (auto simp: Let_def split: if_splits option.splits)
  have e: "locate_loop r i lo hi =
      (if i < unat start then locate_loop r i lo (word_of_nat ?m - 1)
       else if wadd (unat start) (unat cnt) \<le> i then locate_loop r i (?m + 1) hi else Some (?m, i - unat start))"
    by (subst locate_loop.simps) (simp add: lh st ct Let_def)
  consider (left) "i < unat start" | (right) "\<not> i < unat start" "wadd (unat start) (unat cnt) \<le> i"
    | (here) "\<not> i < unat start" "\<not> wadd (unat start) (unat cnt) \<le> i" by blast
  then show ?case
  proof cases
    case left
    then show ?thesis using "1.IH"(1)[OF lh refl st ct left] "1.prems" by (simp add: e)
  next
    case right
    then show ?thesis using "1.IH"(2)[OF lh refl st ct right] "1.prems" by (simp add: e)
  next
    case here
    have "wadd (unat start) (unat cnt) \<le> unat start + unat cnt" by (simp add: wadd_def)
    then have "i - unat start < unat cnt" using here by linarith
    moreover have "p = ?m" "l = i - unat start" using here "1.prems" by (simp_all add: e)
    ultimately show ?thesis using st ct here by auto
  qed
qed

lemma rd_u32_no_panic: "fits data \<Longrightarrow> p + 4 \<le> length data \<Longrightarrow> \<exists>v. rd_u32 data p = Ok v"
  by (simp add: rd_Ok)

lemma column_sector_len_no_panic: "fits sector \<Longrightarrow> column_sector_len sector n sigil \<noteq> Panic"
proof -
  assume f: "fits sector"
  have "rd_u32 sector (null_bitmap_bytes n + n * 4) \<noteq> Panic" if "null_bitmap_bytes n + (n * 4 + 4) \<le> length sector"
    using that f by (simp add: rd_Ok)
  then show ?thesis
    by (auto simp: column_sector_len_def Let_def rbind_eq_Panic checked_mul_eq_Some checked_add_eq_Some
        bind_eq_Some_conv ok_or_eq_Ok split: if_splits)
qed

lemma sector_at_no_panic: "reader_ok r \<Longrightarrow> sector_at r rc fi body \<noteq> Panic"
  by (auto simp: sector_at_def rbind_eq_Panic slice_def reader_ok_def seg_def dest: column_sector_len_no_panic[rotated]
      intro!: column_sector_len_no_panic)

lemma skip_column_no_panic: "reader_ok r \<Longrightarrow> skip_column r rc fi body \<noteq> Panic"
  by (auto simp: skip_column_def rbind_eq_Panic sector_at_no_panic)

lemma skip_column_grows: "skip_column r rc fi body = Ok b \<Longrightarrow> body \<le> b"
  by (auto simp: skip_column_def res_simps checked_add_eq_Some)

lemma pax_column_sector_no_panic:
  assumes "reader_ok r"
  shows "pax_column_sector r page slot \<noteq> Panic"
proof -
  have fits: "fits (r_data r)" "32 \<le> length (r_data r)" using assms by (simp_all add: reader_ok_def)
  have skip: "rfold (skip_column r rc) fis body \<noteq> Panic" for rc fis body
    by (rule rfold_no_panic) (rule skip_column_no_panic[OF assms])
  have grow: "body \<le> b" if "rfold (skip_column r rc) fis body = Ok b" for rc fis body b
    by (rule rfold_Ok_invariant[OF that, of "\<lambda>b. body \<le> b"]) (auto dest: skip_column_grows)
  show ?thesis
    using fits skip sector_at_no_panic[OF assms]
    by (auto simp: pax_column_sector_def Let_def rbind_eq_Panic rd_Ok slice_def ok_or_eq_Ok checked_add_eq_Some
        sector_at_def split: if_splits dest!: grow)
qed

lemma pax_column_sector_length:
  "pax_column_sector r page slot = Ok sector \<Longrightarrow> length sector \<le> length (r_data r)"
  by (auto simp: pax_column_sector_def Let_def res_simps slice_eq_Ok split: if_splits)

lemma pax_parts_no_panic:
  assumes "reader_ok r"
  shows "pax_page_field_parts r page slot \<noteq> Panic" and "pax_page_field_var_parts r page slot \<noteq> Panic"
  using pax_column_sector_no_panic[OF assms, of page slot]
  by (auto simp: pax_page_field_parts_def pax_page_field_var_parts_def Let_def rbind_eq_Panic slice_def
      col_var_parts_no_panic)

lemma u32_small: "unat (c :: u32) < ISIZE_LIM"
  using unsigned_less[of c, where ?'a = nat] by (simp add: lims)

lemma pax_values_no_panic:
  assumes "reader_ok r" and "pax_page_rec_count r page = Some cnt" and "l < unat cnt"
  shows "fixed_value rd (pax_page_field_parts r page slot) l \<noteq> Panic"
    and "str_value (pax_page_field_var_parts r page slot) l \<noteq> Panic"
proof -
  show "fixed_value rd (pax_page_field_parts r page slot) l \<noteq> Panic"
    by (rule fixed_value_no_panic[OF pax_parts_no_panic(1)[OF assms(1)] _ assms(3)])
      (auto simp: pax_page_field_parts_def Let_def res_simps slice_eq_Ok assms(2) u32_small split: if_splits)
  show "str_value (pax_page_field_var_parts r page slot) l \<noteq> Panic"
  proof (rule str_value_no_panic[OF pax_parts_no_panic(2)[OF assms(1)] _ assms(3)])
    fix bm offs vals
    assume "pax_page_field_var_parts r page slot = Ok (bm, offs, vals)"
    then obtain sector where "pax_column_sector r page slot = Ok sector" "col_var_parts sector (unat cnt) = Ok (bm, offs, vals)"
      by (auto simp: pax_page_field_var_parts_def res_simps assms(2))
    then show "length bm = null_bitmap_bytes (unat cnt) \<and> unat cnt < ISIZE_LIM"
      using pax_column_sector_length[of r page slot sector] assms(1) by (intro col_var_parts_Ok) (auto simp: reader_ok_def)
  qed
qed

lemma pax_locate_no_panic: "reader_ok r \<Longrightarrow> pax_locate_record r i \<noteq> Panic"
  by (auto simp: pax_locate_record_def rbind_eq_Panic page_count_no_panic)

lemma pax_locate_local:
  assumes "pax_locate_record r i = Ok (Some (p, l))"
  obtains cnt where "pax_page_rec_count r p = Some cnt" "l < unat cnt"
proof -
  from assms obtain hi where "locate_loop r i 0 hi = Some (p, l)" by (auto simp: pax_locate_record_def res_simps)
  then show ?thesis using locate_loop_Some that by blast
qed

lemma pax_get_no_panic:
  assumes "reader_ok r"
  shows "pax_get_fixed rd r i slot \<noteq> Panic" and "pax_get_str r i slot \<noteq> Panic"
  by (auto simp: pax_get_fixed_def pax_get_str_def obind_eq_Panic pax_locate_no_panic[OF assms] pax_values_no_panic[OF assms]
      elim!: pax_locate_local)

lemma columnar_get_no_panic:
  assumes "reader_ok r" and "i < r_record_count r"
  shows "col_get_fixed rd r i slot \<noteq> Panic"
  using columnar_values_no_panic(1)[OF assms] by (auto simp: col_get_fixed_def obind_eq_Panic)

lemma pred_no_panic:
  assumes "reader_ok r" and "r_layout r = Columnar \<Longrightarrow> i < r_record_count r"
  shows "pred_test r i p \<noteq> Panic"
proof (induction p)
  case (And p q)
  then show ?case by (auto simp: rbind_eq_Panic)
next
  case (Or p q)
  then show ?case by (auto simp: rbind_eq_Panic)
next
  case (Not p)
  then show ?case by (auto simp: rbind_eq_Panic)
qed (use assms(2) in \<open>auto simp: columnar_values_no_panic[OF assms(1)] pax_get_no_panic[OF assms(1)] field_test_defs test_fixed_def test_str_def test_value_def rbind_eq_Panic
     split: option.splits data_layout.splits\<close>)

text \<open>
  C17: Opening any buffer returns a reader or an error, never a panic, and so do the lookups in a reader
  of the columnar and PAX layouts -- integers, floats, booleans and strings by name, predicates -- for
  every record below the record count, however the counts, offsets and page headers of the file lie.
\<close>

theorem reader_never_panics:
  assumes "fits data"
  shows "reader_new data \<noteq> Panic
    \<and> (\<forall>r i key p. reader_new data = Ok r \<and> r_layout r \<noteq> Row \<and> i < r_record_count r \<longrightarrow>
         get_i64 r i key \<noteq> Panic \<and> get_f64 r i key \<noteq> Panic \<and> get_bool r i key \<noteq> Panic \<and> get_str r i key \<noteq> Panic
         \<and> pred_test r i p \<noteq> Panic)"
proof (intro conjI allI impI reader_new_no_panic[OF assms])
  fix r i key p
  assume r: "reader_new data = Ok r \<and> r_layout r \<noteq> Row \<and> i < r_record_count r"
  then have ok: "reader_ok r" and i: "i < r_record_count r" using reader_new_ok[OF assms] by auto
  note lookups = pax_get_no_panic[OF ok] columnar_get_no_panic[OF ok i] columnar_values_no_panic[OF ok i]
  show "get_i64 r i key \<noteq> Panic" "get_f64 r i key \<noteq> Panic" "get_bool r i key \<noteq> Panic" "get_str r i key \<noteq> Panic"
    using r by (auto simp: lookups get_i64_def get_f64_def get_bool_def get_str_def obind_eq_Panic split: data_layout.splits)
  show "pred_test r i p \<noteq> Panic" using pred_no_panic[OF ok] i by blast
qed

theorem reader_never_panics_witness:
  "reader_new (u32_le MAGIC_FILE @ replicate 24 0 @ u32_le MAGIC_FOOTER) \<noteq> Panic"
  using reader_never_panics[of "u32_le MAGIC_FILE @ replicate 24 0 @ u32_le MAGIC_FOOTER"] by (simp add: lims)

end
