(* ===== verification/Column_Tables.thy ===== *)
theory Column_Tables
  imports Filters
begin

text \<open>
  What the columnar and the PAX layout promise alike: a table of cells, and readers that answer from it.

  \<open>cell_reader\<close> is the contract of a function that reads one cell of eight bytes.  \<open>column_source\<close> is
  the contract of a layout: which readers hold a table, and what its word, flag and text lookups return
  on them.  Getters, predicates and the iterator are then proved once, for every layout that keeps it.
\<close>

section \<open>Cells of eight bytes\<close>

locale cell_reader =
  fixes rd :: "u8 list \<Rightarrow> usize \<Rightarrow> 'a option"
  assumes rd_shift: "length s = 8 \<Longrightarrow> fits (xs @ s @ ys) \<Longrightarrow> rd (xs @ s @ ys) (length xs) = rd s 0"
begin

lemma rd_slot:
  assumes "i < length col" and "length col < 2 ^ 59"
  shows "rd (concat (map (cell_slot sigil) col)) (i * 8) = rd (cell_slot sigil (col ! i)) 0"
proof -
  let ?s = "cell_slot sigil" and ?a = "concat (map (cell_slot sigil) (take i col))"
  have c: "concat (map ?s col) = ?a @ ?s (col ! i) @ concat (map ?s (drop (Suc i) col))"
    by (subst id_take_nth_drop[OF assms(1)]) simp
  have "length (concat (map ?s col)) = length col * 8" by simp
  then have "fits (?a @ ?s (col ! i) @ concat (map ?s (drop (Suc i) col)))"
    unfolding c[symmetric] using assms(2) by (simp add: lims)
  then have "rd (?a @ ?s (col ! i) @ concat (map ?s (drop (Suc i) col))) (length ?a) = rd (?s (col ! i)) 0"
    by (intro rd_shift) simp_all
  moreover have "length ?a = i * 8" using assms(1) by simp
  ultimately show ?thesis unfolding c[symmetric] by (simp only:)
qed

text \<open>A cell of a fixed-width column, from the two parts of the column.\<close>

lemma fixed_value_at:
  assumes "i < length col" and "length col < 2 ^ 59"
  shows "fixed_value rd (Ok (encode_null_bitmap (length col) (\<lambda>i. cell_populated (col ! i)),
      concat (map (cell_slot sigil) col))) i
    = Ok (if cell_populated (col ! i) then rd (cell_slot sigil (col ! i)) 0 else None)"
  using col_bit_bitmap[OF assms(1), of "\<lambda>i. cell_populated (col ! i)" "[]"] rd_slot[OF assms] assms(2)
  by (simp add: fixed_value_def lims)

end

interpretation word_cell: cell_reader get_u64
  by unfold_locales (simp add: get_uint_Some seg_append_left seg_append_right seg_def lims)

interpretation flag_cell: cell_reader read_flag
  by unfold_locales (auto simp: read_flag_def get_at_def nth_append)

section \<open>Tables\<close>

text \<open>
  The word a cell takes in a column of a given sigil: a value of another type, and a null, is stored as
  zeros.  \<open>cell_flag\<close> is what a boolean lookup makes of the word.
\<close>

definition cell_word :: "u8 \<Rightarrow> cell \<Rightarrow> u64 option" where
  "cell_word sigil c =
     (if is_var_sigil sigil then None
      else case c of
        Absent \<Rightarrow> None
      | CellF64 v \<Rightarrow> Some (if sigil = SIGIL_FLOAT then v else 0)
      | CellBool b \<Rightarrow> Some (if sigil = SIGIL_BOOL \<and> b then 1 else 0)
      | CellTime v \<Rightarrow> Some (if sigil = SIGIL_TIME then v else 0)
      | CellI64 v \<Rightarrow> Some (if sigil \<in> {SIGIL_FLOAT, SIGIL_BOOL, SIGIL_TIME} then 0 else v)
      | _ \<Rightarrow> Some 0)"

definition cell_flag :: "u8 \<Rightarrow> cell \<Rightarrow> bool option" where
  "cell_flag sigil c = map_option (\<lambda>w. ucast w \<noteq> (0 :: u8)) (cell_word sigil c)"

definition cell_text :: "u8 \<Rightarrow> cell \<Rightarrow> rstring option" where
  "cell_text sigil c = (if sigil \<noteq> SIGIL_STR \<or> c = Absent then None else str_from_utf8 (var_payload c))"

text \<open>The cell of a record under a name, and its column's sigil.\<close>

definition lookup :: "rstring list \<Rightarrow> cell list list \<Rightarrow> (u8 \<Rightarrow> cell \<Rightarrow> 'a option) \<Rightarrow> usize \<Rightarrow> rstring \<Rightarrow> 'a option" where
  "lookup keys rows view i key =
     Option.bind (position key keys) (\<lambda>slot. view (column_sigil rows slot) (cell_at (rows ! i) slot))"

primrec pred_holds :: "rstring list \<Rightarrow> cell list list \<Rightarrow> usize \<Rightarrow> predicate \<Rightarrow> bool" where
  "pred_holds keys rows i AlwaysTrue = True"
| "pred_holds keys rows i (EqBool k v) = holds_on (\<lambda>x. x = v) (lookup keys rows cell_flag i k)"
| "pred_holds keys rows i (EqStr k v) = holds_on (\<lambda>x. x = v) (lookup keys rows cell_text i k)"
| "pred_holds keys rows i (EqI64 k v) = holds_on (\<lambda>x. x = v) (lookup keys rows cell_word i k)"
| "pred_holds keys rows i (EqF64 k v) = holds_on (\<lambda>x. f64_eq x v) (lookup keys rows cell_word i k)"
| "pred_holds keys rows i (GtF64 k v) = holds_on (\<lambda>x. f64_lt v x) (lookup keys rows cell_word i k)"
| "pred_holds keys rows i (GtI64 k v) = holds_on (\<lambda>x. sint v < sint x) (lookup keys rows cell_word i k)"
| "pred_holds keys rows i (LtF64 k v) = holds_on (\<lambda>x. f64_lt x v) (lookup keys rows cell_word i k)"
| "pred_holds keys rows i (LtI64 k v) = holds_on (\<lambda>x. sint x < sint v) (lookup keys rows cell_word i k)"
| "pred_holds keys rows i (And p q) = (pred_holds keys rows i p \<and> pred_holds keys rows i q)"
| "pred_holds keys rows i (Or p q) = (pred_holds keys rows i p \<or> pred_holds keys rows i q)"
| "pred_holds keys rows i (Not p) = (\<not> pred_holds keys rows i p)"

text \<open>Predicates that compare strings only in string columns.\<close>

primrec pred_typed :: "rstring list \<Rightarrow> cell list list \<Rightarrow> predicate \<Rightarrow> bool" where
  "pred_typed keys rows AlwaysTrue = True"
| "pred_typed keys rows (EqBool k v) = True"
| "pred_typed keys rows (EqStr k v) = (\<forall>slot. position k keys = Some slot \<longrightarrow> column_sigil rows slot = SIGIL_STR)"
| "pred_typed keys rows (EqI64 k v) = True"
| "pred_typed keys rows (EqF64 k v) = True"
| "pred_typed keys rows (GtF64 k v) = True"
| "pred_typed keys rows (GtI64 k v) = True"
| "pred_typed keys rows (LtF64 k v) = True"
| "pred_typed keys rows (LtI64 k v) = True"
| "pred_typed keys rows (And p q) = (pred_typed keys rows p \<and> pred_typed keys rows q)"
| "pred_typed keys rows (Or p q) = (pred_typed keys rows p \<and> pred_typed keys rows q)"
| "pred_typed keys rows (Not p) = pred_typed keys rows p"

text \<open>The eight bytes of a populated cell, read as a word and as a flag.\<close>

lemma hd_u64_le: "u64_le v ! 0 = ucast v"
proof -
  have e: "(8 :: nat) = Suc 7" by simp
  have "u64_le v ! 0 = word_of_nat (unat v)" unfolding u64_le_def e le_nat.simps by simp
  then show ?thesis by simp
qed

lemma small_u64:
  "replicate 8 0 = u64_le 0" "0 # replicate 7 0 = u64_le 0" "1 # replicate 7 0 = u64_le 1"
proof -
  have n: "(7 :: nat) = Suc (Suc (Suc (Suc (Suc (Suc (Suc 0))))))" "(8 :: nat) = Suc (Suc (Suc (Suc (Suc (Suc (Suc (Suc 0)))))))"
    by simp_all
  show "replicate 8 0 = u64_le 0" "0 # replicate 7 0 = u64_le 0" "1 # replicate 7 0 = u64_le 1"
    unfolding u64_le_def n le_nat.simps replicate.simps by simp_all
qed

lemma fixed_cell_word:
  assumes "\<not> is_var_sigil sigil" and "cell_populated c"
  shows "\<exists>w. cell_word sigil c = Some w \<and> cell_slot sigil c = u64_le w"
proof -
  have "SIGIL_FLOAT \<noteq> SIGIL_BOOL" "SIGIL_FLOAT \<noteq> SIGIL_TIME" "SIGIL_BOOL \<noteq> SIGIL_TIME" by (simp_all add: sigil_defs)
  then show ?thesis using assms small_u64
    by (cases c) (auto simp: cell_word_def cell_slot_def fixed_cell_bytes_def cell_populated_def)
qed

lemma populated_word:
  "\<not> is_var_sigil sigil \<Longrightarrow>
     (if cell_populated c then get_u64 (cell_slot sigil c) 0 else None) = cell_word sigil c"
  using fixed_cell_word[of sigil c]
  by (auto simp: get_uint_Some seg_def lims cell_populated_def cell_word_def)

lemma populated_flag:
  "\<not> is_var_sigil sigil \<Longrightarrow>
     (if cell_populated c then read_flag (cell_slot sigil c) 0 else None) = cell_flag sigil c"
  using fixed_cell_word[of sigil c]
  by (auto simp: read_flag_def get_at_def hd_u64_le cell_flag_def cell_populated_def cell_word_def)

lemma str_value_at:
  assumes "i < length col" and "length (var_values col) \<le> 0xFFFFFFFF" and "length col < 2 ^ 59"
  shows "str_value (Ok (encode_null_bitmap (length col) (\<lambda>i. cell_populated (col ! i)), var_offsets col, var_values col)) i
    = Ok (cell_text SIGIL_STR (col ! i))"
  using col_bit_bitmap[OF assms(1), of "\<lambda>i. cell_populated (col ! i)" "[]"] var_bounds_at[OF assms(1,2)]
    var_value_at[OF assms(1)] assms(3)
  by (simp add: str_value_def var_str_at_def cell_text_def cell_populated_def lims)

section \<open>The iterator over tested records\<close>

lemma records_from_filter:
  assumes "\<And>i. i < n \<Longrightarrow> record_offset r i = Ok (Some i) \<and> pred_test r i p = Ok (f i)" and "r_record_count r = n"
  shows "records_from r p j = Ok (filter f [j..<n])"
proof (induction "n - j" arbitrary: j)
  case 0
  then show ?case using assms(2) by (simp add: records_from.simps records_next.simps[of r p j])
next
  case (Suc d)
  then have j: "j < n" by simp
  have IH: "records_from r p (j + 1) = Ok (filter f [j + 1..<n])" using Suc by simp
  have upt: "[j..<n] = j # [j + 1..<n]" using j by (simp add: upt_conv_Cons)
  show ?case
  proof (cases "f j")
    case True
    then have "records_next r p j = Ok (Some j, j + 1)"
      using assms j by (subst records_next.simps) simp
    then show ?thesis using IH True by (simp add: records_from.simps[of r p j] upt)
  next
    case False
    then have "records_next r p j = records_next r p (j + 1)"
      using assms j by (subst records_next.simps) simp
    then have "records_from r p j = records_from r p (j + 1)"
      by (simp only: records_from.simps[of r p j] records_from.simps[of r p "j + 1"])
    then show ?thesis using IH False by (simp add: upt)
  qed
qed

section \<open>Layouts that hold tables\<close>

locale column_source =
  fixes stored :: "rstring list \<Rightarrow> cell list list \<Rightarrow> reader \<Rightarrow> bool"
    and word_at :: "reader \<Rightarrow> usize \<Rightarrow> usize \<Rightarrow> u64 option res"
    and flag_at :: "reader \<Rightarrow> usize \<Rightarrow> usize \<Rightarrow> bool option res"
    and text_at :: "reader \<Rightarrow> usize \<Rightarrow> usize \<Rightarrow> rstring option res"
  assumes reader: "stored keys rows r \<Longrightarrow> r_layout r \<noteq> Row \<and> r_record_count r = length rows
        \<and> r_key_index r = (\<lambda>k. position k keys) \<and> r_key_sigils r = sigils_for_keys keys rows"
    and word_law: "stored keys rows r \<Longrightarrow> i < length rows \<Longrightarrow> slot < length keys \<Longrightarrow>
        word_at r i slot = Ok (cell_word (column_sigil rows slot) (cell_at (rows ! i) slot))"
    and flag_law: "stored keys rows r \<Longrightarrow> i < length rows \<Longrightarrow> slot < length keys \<Longrightarrow>
        flag_at r i slot = Ok (cell_flag (column_sigil rows slot) (cell_at (rows ! i) slot))"
    and text_law: "stored keys rows r \<Longrightarrow> i < length rows \<Longrightarrow> slot < length keys \<Longrightarrow> column_sigil rows slot = SIGIL_STR \<Longrightarrow>
        text_at r i slot = Ok (cell_text SIGIL_STR (cell_at (rows ! i) slot))"
    and getters: "stored keys rows r \<Longrightarrow> i < length rows \<Longrightarrow> slot < length keys \<Longrightarrow> reader_slot r key = Some slot \<Longrightarrow>
        get_i64 r i key = word_at r i slot \<and> get_f64 r i key = word_at r i slot \<and> get_bool r i key = flag_at r i slot
        \<and> get_str r i key = (if column_sigil rows slot = SIGIL_STR then text_at r i slot else Ok None)"
    and tests: "stored keys rows r \<Longrightarrow> i < length rows \<Longrightarrow> slot < length keys \<Longrightarrow> reader_slot r key = Some slot \<Longrightarrow>
        test_fixed get_u64 r i key t = test_value (word_at r i slot) t
        \<and> test_fixed read_flag r i key u = test_value (flag_at r i slot) u
        \<and> test_str r i key s = test_value (text_at r i slot) (\<lambda>v. v = s)"
begin

lemma slot_of: "stored keys rows r \<Longrightarrow> reader_slot r key = position key keys"
  using reader[of keys rows r] by (simp add: reader_slot_def)

lemma lookups:
  assumes "stored keys rows r" and "i < length rows"
  shows "get_i64 r i key = Ok (lookup keys rows cell_word i key)"
    and "get_f64 r i key = Ok (lookup keys rows cell_word i key)"
    and "get_bool r i key = Ok (lookup keys rows cell_flag i key)"
    and "get_str r i key = Ok (lookup keys rows cell_text i key)"
proof -
  have "get_i64 r i key = Ok (lookup keys rows cell_word i key) \<and> get_f64 r i key = Ok (lookup keys rows cell_word i key)
    \<and> get_bool r i key = Ok (lookup keys rows cell_flag i key) \<and> get_str r i key = Ok (lookup keys rows cell_text i key)"
  proof (cases "position key keys")
    case None
    then show ?thesis using slot_of[OF assms(1)]
      by (simp add: get_i64_def get_f64_def get_bool_def get_str_def lookup_def)
  next
    case (Some slot)
    note at = assms position_lt[OF Some]
    show ?thesis using getters[OF at, of key] word_law[OF at] flag_law[OF at] text_law[OF at] slot_of[OF assms(1)] Some
      by (simp add: lookup_def cell_text_def)
  qed
  then show "get_i64 r i key = Ok (lookup keys rows cell_word i key)"
    "get_f64 r i key = Ok (lookup keys rows cell_word i key)" "get_bool r i key = Ok (lookup keys rows cell_flag i key)"
    "get_str r i key = Ok (lookup keys rows cell_text i key)" by blast+
qed

lemma test_lookup:
  assumes "stored keys rows r" and "i < length rows"
  shows "test_fixed get_u64 r i key t = Ok (holds_on t (lookup keys rows cell_word i key))"
    and "test_fixed read_flag r i key u = Ok (holds_on u (lookup keys rows cell_flag i key))"
    and "pred_typed keys rows (EqStr key s) \<Longrightarrow> test_str r i key s = Ok (holds_on (\<lambda>v. v = s) (lookup keys rows cell_text i key))"
proof -
  have "test_fixed get_u64 r i key t = Ok (holds_on t (lookup keys rows cell_word i key))
    \<and> test_fixed read_flag r i key u = Ok (holds_on u (lookup keys rows cell_flag i key))
    \<and> (pred_typed keys rows (EqStr key s) \<longrightarrow> test_str r i key s = Ok (holds_on (\<lambda>v. v = s) (lookup keys rows cell_text i key)))"
  proof (cases "position key keys")
    case None
    then show ?thesis using slot_of[OF assms(1)] by (simp add: test_fixed_def test_str_def lookup_def)
  next
    case (Some slot)
    note at = assms position_lt[OF Some]
    show ?thesis
      using tests[OF at, of key t u s] word_law[OF at] flag_law[OF at] text_law[OF at] slot_of[OF assms(1)] Some
      by (simp add: lookup_def test_value_def)
  qed
  then show "test_fixed get_u64 r i key t = Ok (holds_on t (lookup keys rows cell_word i key))"
    "test_fixed read_flag r i key u = Ok (holds_on u (lookup keys rows cell_flag i key))"
    "pred_typed keys rows (EqStr key s) \<Longrightarrow> test_str r i key s = Ok (holds_on (\<lambda>v. v = s) (lookup keys rows cell_text i key))"
    by blast+
qed

lemma predicates:
  assumes "stored keys rows r" and "i < length rows" and "pred_typed keys rows p"
  shows "pred_test r i p = Ok (pred_holds keys rows i p)"
  using assms(3) by (induction p) (simp_all add: field_test_defs test_lookup[OF assms(1,2)])

lemma queries:
  assumes "stored keys rows r" and "pred_typed keys rows p"
  shows "where_pred r p = Ok (filter (\<lambda>i. pred_holds keys rows i p) [0..<length rows])"
  unfolding where_pred_def
  using reader[OF assms(1)] predicates[OF assms(1) _ assms(2)]
  by (intro records_from_filter) (simp_all add: record_offset_def)

end

end
