(* ===== verification/Layout_Files.thy ===== *)
theory Layout_Files
  imports Column_Tables
begin

text \<open>
  What columnar and PAX files have in common: the preamble and the schema, and the image of one column
  for every field.
\<close>

section \<open>Tables that can be stored\<close>

definition keys_ok :: "rstring list \<Rightarrow> bool" where
  "keys_ok keys \<longleftrightarrow> distinct keys \<and> length keys < 65536 \<and> list_all (\<lambda>k. nul_free k \<and> valid_utf8 k) keys"

definition column_of :: "cell list list \<Rightarrow> usize \<Rightarrow> cell list" where
  "column_of rows slot = map (\<lambda>row. cell_at row slot) rows"

lemma length_column_of [simp]: "length (column_of rows slot) = length rows"
  by (simp add: column_of_def)

lemma column_of_nth [simp]: "i < length rows \<Longrightarrow> column_of rows slot ! i = cell_at (rows ! i) slot"
  by (simp add: column_of_def)

lemma length_sigils_for_keys [simp]: "length (sigils_for_keys keys rows) = length keys"
  by (simp add: sigils_for_keys_def)

lemma sigils_for_keys_nth [simp]: "slot < length keys \<Longrightarrow> sigils_for_keys keys rows ! slot = column_sigil rows slot"
  by (simp add: sigils_for_keys_def)

lemma column_sigil_nonzero: "column_sigil rows slot \<noteq> 0"
proof -
  have "cell_sigil c \<noteq> 0" if "c \<noteq> Absent" for c
    using that by (cases c) (simp_all add: cell_sigil_def sigil_defs)
  moreover have "c \<noteq> Absent" if "filter (\<lambda>c. c \<noteq> Absent) xs = c # cs" for xs c cs
  proof -
    have "c \<in> set (filter (\<lambda>c. c \<noteq> Absent) xs)" unfolding that by simp
    then show ?thesis by simp
  qed
  moreover have "SIGIL_INT \<noteq> 0" by (simp add: sigil_defs)
  ultimately show ?thesis unfolding column_sigil_def by (metis (mono_tags, lifting) list.exhaust list.simps(4,5))
qed

lemma index_keys_distinct:
  assumes "distinct keys"
  shows "index_keys keys = (\<lambda>k. position k keys)"
proof
  fix k
  let ?ps = "zip keys [0..<length keys]"
  have d: "distinct (map fst (rev ?ps))" using assms by (simp flip: rev_map)
  show "index_keys keys k = position k keys"
  proof (cases "position k keys")
    case None
    then have "k \<notin> fst ` set (rev ?ps)" by (auto simp: position_None dest: set_zip_leftD)
    then have "map_of (rev ?ps) k = None" by (simp only: map_of_eq_None_iff) simp
    then show ?thesis using None by (simp add: index_keys_def)
  next
    case (Some i)
    then have i: "i < length keys" "keys ! i = k" using position_Some[OF Some] by auto
    then have "?ps ! i = (k, i)" and "i < length ?ps" by simp_all
    then have "(k, i) \<in> set (rev ?ps)" by (metis nth_mem set_rev)
    then show ?thesis using Some map_of_is_SomeI[OF d] by (simp add: index_keys_def)
  qed
qed

section \<open>The preamble and the schema\<close>

lemma unat_u64: "n < 2 ^ 64 \<Longrightarrow> unat (word_of_nat n :: u64) = n"
  by (simp add: unat_of_nat take_bit_nat_eq_self)

lemma length_layout_preamble [simp]: "length (layout_preamble flag sb tail) = 32"
  by (simp add: layout_preamble_def)

text \<open>A sigil of zero is stored as the string sigil.\<close>

definition stored_sigils :: "u8 list \<Rightarrow> u8 list" where
  "stored_sigils = map (\<lambda>s. if s = 0 then SIGIL_STR else s)"

lemma schema_at:
  assumes "keys_ok keys" and "length sigils = length keys"
    and data: "data = pre @ build_schema keys sigils @ post" and fits: "fits data"
  shows "\<exists>q. parse_schema data (length pre) = Ok (keys, stored_sigils sigils, q)
    \<and> (8 dvd length pre \<longrightarrow> q = length pre + length (build_schema keys sigils))"
proof -
  let ?n = "length keys" let ?cat = "concat (map (\<lambda>k. k @ [0]) keys)" let ?sigs = "stored_sigils sigils"
  have "map (\<lambda>i. let s = get_or_zero sigils i in if s = 0 then SIGIL_STR else s) [0..<?n] = ?sigs"
    using assms(2) by (intro nth_equalityI) (auto simp: get_or_zero_def Let_def stored_sigils_def)
  then obtain p where sb: "build_schema keys sigils = u16_le (word_of_nat ?n) @ ?sigs @ ?cat @ p"
    by (simp add: build_schema_def pad8_def)
  then have d: "data = pre @ u16_le (word_of_nat ?n) @ ?sigs @ ?cat @ p @ post" by (simp add: data)
  have ls: "length ?sigs = ?n" using assms(2) by (simp add: stored_sigils_def)
  have un: "unat (word_of_nat ?n :: u16) = ?n" using assms(1) by (simp add: keys_ok_def unat_of_nat)
  have r0: "rd_u16 data (length pre) = Ok (word_of_nat ?n)" by (rule u16c.rd_at[OF fits d refl])
  have r1: "slice data (length pre + 2) (length pre + 2 + ?n) = Ok ?sigs"
    using seg_at[of data "pre @ u16_le (word_of_nat ?n)" ?sigs "?cat @ p @ post"] d ls by simp
  have "read_many (read_cstr (ParseError ''invalid utf-8 key'')) ?n ((pre @ u16_le (word_of_nat ?n) @ ?sigs) @ ?cat @ (p @ post))
      (length (pre @ u16_le (word_of_nat ?n) @ ?sigs))
    = Ok (keys, length (pre @ u16_le (word_of_nat ?n) @ ?sigs) + length ?cat)"
    using assms(1) fits by (intro cstr.read_many_at) (simp_all add: d keys_ok_def)
  then have r2: "read_many (read_cstr (ParseError ''invalid utf-8 key'')) ?n data (length pre + 2 + ?n)
      = Ok (keys, length pre + 2 + ?n + length ?cat)"
    by (simp add: d ls add.assoc)
  define h where "h = 2 + ?n + length ?cat"
  have r3: "read_many (read_cstr (ParseError ''invalid utf-8 key'')) ?n data (length pre + 2 + ?n) = Ok (keys, length pre + h)"
    using r2 by (simp add: h_def add.assoc)
  have lb: "length (build_schema keys sigils) = align8 h" using assms(2) by (simp add: build_schema_def h_def stored_sigils_def length_concat)
  have up: "(if p mod 8 \<noteq> 0 then p + (8 - p mod 8) else p) = align8 p" for p :: nat unfolding align8_def by presburger
  have "length pre + 2 + ?n \<le> length data" by (simp add: d ls)
  then have "parse_schema data (length pre) = Ok (keys, stored_sigils sigils, align8 (length pre + h))"
    using un r0 r1 r3 up[of "length pre + h"] by (simp add: parse_schema_def Let_def add.assoc)
  then show ?thesis using lb by (auto simp: align8_add)
qed

text \<open>Opening a file of the plain encoding, once its tail is read.\<close>

lemma reader_new_upto:
  assumes fits: "fits data"
    and data: "data = u32_le MAGIC_FILE @ u16_le VERSION @ u16_le fl @ u64_le h @ u64_le tp @ u64_le 0
        @ build_schema keys sigils @ rest @ u32_le MAGIC_FOOTER"
    and flags: "layout_validate_flags fl = Ok ()" "has_flag fl FLAG_SCHEMA_EMBEDDED" "\<not> has_flag fl FLAG_V13_COMPACT_MASK"
    and keys: "keys_ok keys" "length sigils = length keys"
  shows "reader_new data = rbind (reader_tail data fl (length keys) tp) (\<lambda>(lay, n, ts, offs, lens, delta).
      Ok \<lparr>r_data = data, r_flags = fl, r_keys = keys, r_key_sigils = stored_sigils sigils, r_ext_schema = None,
        r_cell_plan = None, r_key_index = (\<lambda>k. position k keys), r_record_count = n, r_tail_start = ts,
        r_delta_tail = delta, r_layout = lay, r_col_buf_off = offs, r_col_buf_len = lens\<rparr>)"
proof -
  let ?pre = "u32_le MAGIC_FILE @ u16_le VERSION @ u16_le fl @ u64_le h @ u64_le tp @ u64_le 0"
  let ?sch = "build_schema keys sigils"
  have d: "data = ?pre @ ?sch @ rest @ u32_le MAGIC_FOOTER" by (simp add: data)
  have len: "36 \<le> length data" by (simp add: d)
  have r0: "rd_u32 data 0 = Ok MAGIC_FILE"
    by (rule u32c.rd_at[OF fits, of "[]"]) (simp_all add: d)
  have r6: "rd_u16 data 6 = Ok fl"
    by (rule u16c.rd_at[OF fits, of "u32_le MAGIC_FILE @ u16_le VERSION"]) (simp_all add: d)
  have r16: "rd_u64 data 16 = Ok tp"
    by (rule u64c.rd_at[OF fits, of "u32_le MAGIC_FILE @ u16_le VERSION @ u16_le fl @ u64_le h"]) (simp_all add: d)
  have rf: "rd_u32 data (length data - 4) = Ok MAGIC_FOOTER"
    by (rule u32c.rd_at[OF fits, of "?pre @ ?sch @ rest" _ "[]"]) (simp_all add: d)
  obtain q where "parse_schema data (length ?pre) = Ok (keys, stored_sigils sigils, q)"
    using schema_at[OF keys d fits] by blast
  then have "reader_schema data fl = Ok (keys, stored_sigils sigils, None, None)"
    using flags by (simp add: reader_schema_def)
  moreover have "index_keys keys = (\<lambda>k. position k keys)" using keys(1) by (simp add: keys_ok_def index_keys_distinct)
  ultimately show ?thesis
    using len r0 r6 r16 rf flags by (simp add: reader_new_def)
qed

lemma reader_new_parts:
  assumes "fits data"
    and "data = u32_le MAGIC_FILE @ u16_le VERSION @ u16_le fl @ u64_le h @ u64_le tp @ u64_le 0
        @ build_schema keys sigils @ rest @ u32_le MAGIC_FOOTER"
    and "layout_validate_flags fl = Ok ()" "has_flag fl FLAG_SCHEMA_EMBEDDED" "\<not> has_flag fl FLAG_V13_COMPACT_MASK"
    and "keys_ok keys" "length sigils = length keys"
    and "reader_tail data fl (length keys) tp = Ok (lay, n, ts, offs, lens, None)"
  shows "reader_new data = Ok \<lparr>r_data = data, r_flags = fl, r_keys = keys, r_key_sigils = stored_sigils sigils,
      r_ext_schema = None, r_cell_plan = None, r_key_index = (\<lambda>k. position k keys), r_record_count = n,
      r_tail_start = ts, r_delta_tail = None, r_layout = lay, r_col_buf_off = offs, r_col_buf_len = lens\<rparr>"
  by (simp add: reader_new_upto[OF assms(1-7)] assms(8))

lemma layout_flags:
  assumes "flag = FLAG_COLUMNAR \<or> flag = FLAG_PAX"
  shows "layout_validate_flags (or FLAG_SCHEMA_EMBEDDED flag) = Ok ()"
    and "has_flag (or FLAG_SCHEMA_EMBEDDED flag) FLAG_SCHEMA_EMBEDDED"
    and "\<not> has_flag (or FLAG_SCHEMA_EMBEDDED flag) FLAG_V13_COMPACT_MASK"
    and "has_flag (or FLAG_SCHEMA_EMBEDDED flag) FLAG_COLUMNAR = (flag = FLAG_COLUMNAR)"
    and "has_flag (or FLAG_SCHEMA_EMBEDDED flag) FLAG_PAX = (flag = FLAG_PAX)"
  using assms by (elim disjE; simp; code_simp)+

lemma reader_new_layout:
  assumes fits: "fits data" and flag: "flag = FLAG_COLUMNAR \<or> flag = FLAG_PAX"
    and data: "data = layout_preamble flag sb tail @ build_schema keys sigils @ rest @ u32_le MAGIC_FOOTER"
    and keys: "keys_ok keys" "length sigils = length keys" "0 \<notin> set sigils"
    and tl: "reader_tail data (or FLAG_SCHEMA_EMBEDDED flag) (length keys) (word_of_nat tail) = Ok (lay, n, ts, offs, lens, None)"
  shows "reader_new data = Ok \<lparr>r_data = data, r_flags = or FLAG_SCHEMA_EMBEDDED flag, r_keys = keys, r_key_sigils = sigils,
      r_ext_schema = None, r_cell_plan = None, r_key_index = (\<lambda>k. position k keys), r_record_count = n,
      r_tail_start = ts, r_delta_tail = None, r_layout = lay, r_col_buf_off = offs, r_col_buf_len = lens\<rparr>"
proof -
  have "stored_sigils sigils = sigils" using keys(3) by (auto simp: stored_sigils_def intro!: map_idI)
  then show ?thesis
    using reader_new_parts[OF fits _ layout_flags(1-3)[OF flag] keys(1,2) tl, of "murmur3_64 sb" rest]
    by (simp add: data layout_preamble_def)
qed

section \<open>The image of a column\<close>

lemma var_column_loop_total:
  "var_column_loop cs offs vals = Ok (o1, v1) \<Longrightarrow> length vals \<le> 0xFFFFFFFF \<Longrightarrow>
     length vals + length (var_values cs) \<le> 0xFFFFFFFF"
proof (induction cs arbitrary: offs vals)
  case (Cons c cs)
  show ?case
  proof (cases "cell_populated c")
    case True
    then show ?thesis using Cons.prems Cons.IH[of _ "vals @ var_payload c"] by (simp add: Let_def add.assoc split: if_splits)
  next
    case False
    then have "var_payload c = []" by (simp add: cell_populated_def var_payload_def)
    then show ?thesis using False Cons by simp
  qed
qed simp

definition bitmap_of :: "cell list \<Rightarrow> u8 list" where
  "bitmap_of col = encode_null_bitmap (length col) (\<lambda>i. cell_populated (col ! i))"

lemma length_bitmap_of [simp]: "length (bitmap_of col) = null_bitmap_bytes (length col)"
  by (simp add: bitmap_of_def)

text \<open>The sector of a column, in its two forms.\<close>

definition column_image :: "u8 \<Rightarrow> cell list \<Rightarrow> u8 list" where
  "column_image sigil col =
     (if is_var_sigil sigil then bitmap_of col @ var_offsets col @ var_values col
      else bitmap_of col @ concat (map (cell_slot sigil) col))"

lemma encode_field_column_image:
  assumes "encode_field_column n col sigil = Ok buf" and "length col = n"
  shows "buf = column_image sigil col" and "is_var_sigil sigil \<Longrightarrow> length (var_values col) \<le> 0xFFFFFFFF"
proof -
  have total: "length (var_values col) \<le> 0xFFFFFFFF" if "is_var_sigil sigil"
  proof -
    have "encode_var_column n col = Ok buf" using assms(1) that by (simp add: encode_field_column_def)
    then obtain x where "var_column_loop col [0] [] = Ok x"
      using assms(2) by (auto simp: encode_var_column_def res_simps)
    then show ?thesis using var_column_loop_total[of col "[0]" "[]"] by (cases x) simp
  qed
  then show "is_var_sigil sigil \<Longrightarrow> length (var_values col) \<le> 0xFFFFFFFF" .
  show "buf = column_image sigil col"
  proof (cases "is_var_sigil sigil")
    case True
    then show ?thesis
      using assms encode_var_column_Ok[OF assms(2) total] by (simp add: encode_field_column_def column_image_def bitmap_of_def)
  next
    case False
    moreover have "sigil \<noteq> SIGIL_KEYWORD" using assms(1) False by (auto simp: encode_field_column_def)
    ultimately show ?thesis
      using assms encode_fixed_column[of sigil col n] by (simp add: column_image_def bitmap_of_def)
  qed
qed

text \<open>Reading the parts of a column back.\<close>

lemma image_fixed_parts:
  assumes "\<not> is_var_sigil sigil"
  shows "length (column_image sigil col) = null_bitmap_bytes (length col) + length col * 8"
    and "seg (column_image sigil col) 0 (null_bitmap_bytes (length col)) = bitmap_of col"
    and "seg (column_image sigil col) (null_bitmap_bytes (length col)) (null_bitmap_bytes (length col) + length col * 8)
       = concat (map (cell_slot sigil) col)"
  using assms by (simp_all add: column_image_def seg_def)

lemma image_var_parts:
  assumes "is_var_sigil sigil" and "length col < 2 ^ 59"
  shows "col_var_parts (column_image sigil col) (length col) = Ok (bitmap_of col, var_offsets col, var_values col)"
  using assms col_var_parts_at[of "bitmap_of col" col] by (simp add: column_image_def)

lemma image_sector_len:
  assumes "length col < 2 ^ 59" and "fits (column_image sigil col @ rest)"
    and "is_var_sigil sigil \<Longrightarrow> length (var_values col) \<le> 0xFFFFFFFF"
  shows "column_sector_len (column_image sigil col @ rest) (length col) sigil = Ok (length (column_image sigil col))"
proof (cases "is_var_sigil sigil")
  case True
  then show ?thesis
    using assms var_sector_len[of sigil "bitmap_of col" col "var_values col @ rest"]
    by (simp add: column_image_def add.assoc)
next
  case False
  then show ?thesis
    using assms(1) fixed_sector_len[of sigil "bitmap_of col" "length col"] by (simp add: column_image_def)
qed

text \<open>The values of a column, from its parts.\<close>

lemma image_values:
  assumes "i < length col" and "length col < 2 ^ 59"
  shows "\<not> is_var_sigil sigil \<Longrightarrow>
      fixed_value get_u64 (Ok (bitmap_of col, concat (map (cell_slot sigil) col))) i = Ok (cell_word sigil (col ! i))"
    and "\<not> is_var_sigil sigil \<Longrightarrow>
      fixed_value read_flag (Ok (bitmap_of col, concat (map (cell_slot sigil) col))) i = Ok (cell_flag sigil (col ! i))"
    and "length (var_values col) \<le> 0xFFFFFFFF \<Longrightarrow>
      str_value (Ok (bitmap_of col, var_offsets col, var_values col)) i = Ok (cell_text SIGIL_STR (col ! i))"
  using word_cell.fixed_value_at[OF assms] flag_cell.fixed_value_at[OF assms] str_value_at[OF assms(1) _ assms(2)]
    populated_word[of sigil "col ! i"] populated_flag[of sigil "col ! i"]
  unfolding bitmap_of_def by simp_all

section \<open>A small table\<close>

definition sample_keys :: "rstring list" where "sample_keys = [bstr ''n'', bstr ''s'']"

definition sample_rows :: "cell list list" where
  "sample_rows = [[CellI64 7, CellStr (bstr ''a'')], [CellI64 8, Absent], [Absent, CellStr (bstr ''b'')]]"

lemma sample_table:
  "keys_ok sample_keys" "sample_keys \<noteq> []" "length sample_rows = 3" "length sample_keys = 2"
  "length (build_schema sample_keys (sigils_for_keys sample_keys sample_rows)) = 8"
  by code_simp+

end
