(* ===== verification/Row_Files.thy ===== *)
theory Row_Files
  imports Row_Queries Layout_Files Writer_Records
begin

text \<open>
  Row files are read back: records written through the writer of \<^verbatim>\<open>rust/src/writer.rs\<close>, sealed by
  \<open>finish\<close>, and looked up by the reader of \<^verbatim>\<open>rust/src/query.rs\<close>.
\<close>

section \<open>Writing a list of records\<close>

definition record_ok :: "nat \<Rightarrow> (u16 \<times> wr_value) list \<Rightarrow> bool" where
  "record_ok n fs \<longleftrightarrow> list_all (\<lambda>f. unat (fst f) < n) fs \<and> distinct (map fst fs)
     \<and> head_len n + length (all_bytes fs) \<le> 65535"

primrec object_starts :: "nat \<Rightarrow> nat \<Rightarrow> (u16 \<times> wr_value) list list \<Rightarrow> nat list" where
  "object_starts n p [] = []"
| "object_starts n p (fs # rs) = p # object_starts n (p + length (writer_object n fs)) rs"

abbreviation objects :: "nat \<Rightarrow> (u16 \<times> wr_value) list list \<Rightarrow> u8 list" where
  "objects n rs \<equiv> concat (map (writer_object n) rs)"

lemma length_object_starts [simp]: "length (object_starts n p rs) = length rs"
  by (induction rs arbitrary: p) simp_all

lemma object_starts_nth: "i < length rs \<Longrightarrow> object_starts n p rs ! i = p + length (objects n (take i rs))"
proof (induction rs arbitrary: p i)
  case (Cons fs rs)
  then show ?case by (cases i) (simp_all add: add.assoc)
qed simp

lemma record_ok_object:
  assumes "record_ok n fs" and "0 < n"
  shows "\<forall>k \<in> set (slots_of fs). k < n" and "distinct (map fst fs)"
    and "length (writer_object n fs) = head_len n + length (all_bytes fs)" and "8 \<le> length (writer_object n fs)"
proof -
  show a: "\<forall>k \<in> set (slots_of fs). k < n" "distinct (map fst fs)"
    using assms by (auto simp: record_ok_def list_all_iff)
  show l: "length (writer_object n fs) = head_len n + length (all_bytes fs)"
    by (rule length_writer_object[OF assms(2) a])
  show "8 \<le> length (writer_object n fs)"
    using align8_ge[of "8 + max ((n + 6) div 7) 1 + n * 2"] unfolding l head_len_def by linarith
qed

lemma write_records:
  assumes "w_compact w = None" and "w_schema w = new_schema keys" and "keys \<noteq> []" and "w_frames w = []"
    and "list_all (record_ok (length keys)) rs" and "length (w_buf w) + length (objects (length keys) rs) < 2 ^ 32"
  shows "\<exists>w'. rfold write_record rs w = Ok w' \<and> w_buf w' = w_buf w @ objects (length keys) rs
     \<and> w_schema w' = w_schema w \<and> w_compact w' = None \<and> length (w_slot_sigils w') = length (w_slot_sigils w)
     \<and> w_record_offsets w' = w_record_offsets w @ map word_of_nat (object_starts (length keys) (length (w_buf w)) rs)"
  using assms
proof (induction rs arbitrary: w)
  case (Cons fs rs)
  let ?n = "length keys"
  have n: "0 < ?n" using Cons.prems(3) by simp
  have ok: "record_ok ?n fs" using Cons.prems(5) by simp
  note o = record_ok_object[OF ok n]
  have "length (w_buf w) + head_len ?n + length (all_bytes fs) < 2 ^ 32" using Cons.prems(6) o(3) by simp
  from write_record_object[OF Cons.prems(1-3) o(1,2) this] Cons.prems(4) obtain w1 where
    w1: "write_record fs w = Ok w1" "w_buf w1 = w_buf w @ writer_object ?n fs" "w_frames w1 = []"
      "w_schema w1 = w_schema w" "w_compact w1 = None" "length (w_slot_sigils w1) = length (w_slot_sigils w)"
      "w_record_offsets w1 = w_record_offsets w @ [word_of_nat (length (w_buf w))]" by auto
  have "length (w_buf w1) + length (objects ?n rs) < 2 ^ 32" using Cons.prems(6) w1(2) by simp
  from Cons.IH[OF w1(5) _ Cons.prems(3) w1(3) _ this] Cons.prems(2,5) w1(4) obtain w' where
    "rfold write_record rs w1 = Ok w'" "w_buf w' = w_buf w1 @ objects ?n rs"
      "w_schema w' = w_schema w" "w_compact w' = None" "length (w_slot_sigils w') = length (w_slot_sigils w1)"
      "w_record_offsets w' = w_record_offsets w1 @ map word_of_nat (object_starts ?n (length (w_buf w1)) rs)" by auto
  then show ?case using w1 by simp
qed simp

section \<open>The tail index\<close>

definition tail_entry_bytes :: "u16 \<times> u64 \<Rightarrow> u8 list" where
  "tail_entry_bytes e = u16_le (fst e) @ u64_le (snd e)"

definition rd_tail_entry :: "u8 list \<Rightarrow> usize \<Rightarrow> (u16 \<times> u64) res" where
  "rd_tail_entry data e = rbind (rd_u16 data e) (\<lambda>i. rbind (rd_u64 data (e + 2)) (\<lambda>off. Ok (i, off)))"

interpretation tail_entry: fixed_codec tail_entry_bytes rd_tail_entry 10
proof
  fix xs ys :: "u8 list" and v :: "u16 \<times> u64"
  assume f: "fits (xs @ tail_entry_bytes v @ ys)"
  have "rd_u16 (xs @ tail_entry_bytes v @ ys) (length xs) = Ok (fst v)"
    by (rule u16c.rd_at[OF f _ refl]) (simp add: tail_entry_bytes_def)
  moreover have "rd_u64 (xs @ tail_entry_bytes v @ ys) (length xs + 2) = Ok (snd v)"
    by (rule u64c.rd_at[OF f, of "xs @ u16_le (fst v)"]) (simp_all add: tail_entry_bytes_def)
  ultimately show "rd_tail_entry (xs @ tail_entry_bytes v @ ys) (length xs) = Ok v" by (simp add: rd_tail_entry_def)
qed (simp add: tail_entry_bytes_def)

lemma tail_index_entries:
  "build_tail_index_records offs tp = u32_le (word_of_nat (length offs))
     @ concat (map tail_entry_bytes (zip (map word_of_nat [0..<length offs]) offs)) @ u64_le tp @ u32_le MAGIC_FOOTER"
proof -
  have "map (\<lambda>(i, off). u16_le (word_of_nat i) @ u64_le off) (zip is os) = map tail_entry_bytes (zip (map word_of_nat is) os)"
    for "is" os by (induction "is" os rule: list_induct2') (simp_all add: tail_entry_bytes_def)
  then show ?thesis by (simp only: build_tail_index_records_def)
qed

lemma classic_offset_at:
  assumes "i < length offs" and "fits (pre @ build_tail_index_records offs tp)"
  shows "classic_record_offset (pre @ build_tail_index_records offs tp) (length pre + 4) i = Some (unat (offs ! i))"
proof -
  let ?data = "pre @ build_tail_index_records offs tp" and ?e = "length pre + 4 + i * 10"
  let ?es = "zip (map word_of_nat [0..<length offs]) offs"
  have d: "?data = (pre @ u32_le (word_of_nat (length offs))) @ concat (map tail_entry_bytes ?es) @ u64_le tp @ u32_le MAGIC_FOOTER"
    by (simp add: tail_index_entries)
  have "rd_tail_entry ?data ?e = Ok (?es ! i)"
    unfolding d by (rule tail_entry.rd_array) (use assms in \<open>simp_all add: length_tail_index tail_entry.length_array\<close>)
  then have "rd_u64 ?data (?e + 2) = Ok (offs ! i)"
    using assms(1) by (auto simp: rd_tail_entry_def res_simps)
  moreover have "?e + 10 \<le> length ?data" using assms(1) by (simp add: length_tail_index)
  ultimately show ?thesis using assms(2) by (simp add: classic_record_offset_def rd_Ok lims Let_def)
qed

section \<open>Opening a sealed file\<close>

definition row_reader :: "rstring list \<Rightarrow> u8 list \<Rightarrow> u8 list \<Rightarrow> usize \<Rightarrow> usize \<Rightarrow> reader" where
  "row_reader keys sigils data n ts =
     \<lparr>r_data = data, r_flags = FLAG_SCHEMA_EMBEDDED, r_keys = keys, r_key_sigils = sigils, r_ext_schema = None,
      r_cell_plan = None, r_key_index = (\<lambda>k. position k keys), r_record_count = n, r_tail_start = ts,
      r_delta_tail = None, r_layout = Row, r_col_buf_off = [], r_col_buf_len = []\<rparr>"

lemma plain_flags:
  "layout_validate_flags FLAG_SCHEMA_EMBEDDED = Ok ()" "has_flag FLAG_SCHEMA_EMBEDDED FLAG_SCHEMA_EMBEDDED"
  "\<not> has_flag FLAG_SCHEMA_EMBEDDED FLAG_V13_COMPACT_MASK" "\<not> has_flag FLAG_SCHEMA_EMBEDDED FLAG_COLUMNAR"
  "\<not> has_flag FLAG_SCHEMA_EMBEDDED FLAG_PAX" "\<not> has_flag FLAG_SCHEMA_EMBEDDED FLAG_DELTA_TAIL"
  by code_simp+

text \<open>The bytes of a sealed file, and the reader that opens on them.\<close>

abbreviation row_file :: "rstring list \<Rightarrow> u8 list \<Rightarrow> u8 list \<Rightarrow> u64 list \<Rightarrow> u8 list" where
  "row_file keys sigils body offs \<equiv>
     file_preamble VERSION FLAG_SCHEMA_EMBEDDED (build_schema keys sigils) @ build_schema keys sigils @ body
       @ build_tail_index_records offs (word_of_nat (32 + length (build_schema keys sigils) + length body))"

lemma open_row_file:
  assumes data: "data = row_file keys sigils body offs" and keys: "keys_ok keys" "length sigils = length keys"
    and fits: "fits data" and n: "length offs < 2 ^ 32"
  shows "reader_new data = Ok (row_reader keys (stored_sigils sigils) data (length offs)
      (32 + length (build_schema keys sigils) + length body + 4))"
proof -
  let ?sb = "build_schema keys sigils" let ?tp = "32 + length ?sb + length body"
  let ?es = "concat (map tail_entry_bytes (zip (map word_of_nat [0..<length offs]) offs))"
  let ?front = "file_preamble VERSION FLAG_SCHEMA_EMBEDDED ?sb @ ?sb @ body"
  have d: "data = (?front @ u32_le (word_of_nat (length offs)) @ ?es) @ u64_le (word_of_nat ?tp) @ u32_le MAGIC_FOOTER"
    by (simp add: data tail_index_entries)
  have len: "length data = ?tp + 16 + length offs * 10" by (simp add: data length_tail_index)
  have tp: "unat (word_of_nat ?tp :: u64) = ?tp" by (rule unat_u64) (use len fits in \<open>simp add: lims\<close>)
  have n32: "unat (word_of_nat (length offs) :: u32) = length offs" using n by (simp add: unat_of_nat)
  have "rd_u64 data (length data - 12) = Ok (word_of_nat ?tp)"
    by (rule u64c.rd_at[OF fits d]) (simp add: len tail_entry.length_array)
  moreover have "rd_u32 data ?tp = Ok (word_of_nat (length offs))"
    by (rule u32c.rd_at[OF fits, of ?front _ "?es @ u64_le (word_of_nat ?tp) @ u32_le MAGIC_FOOTER"]) (simp_all add: d)
  ultimately have tl: "reader_tail data FLAG_SCHEMA_EMBEDDED (length keys) 0 = Ok (Row, length offs, ?tp + 4, [], [], None)"
    using len tp n32 plain_flags by (simp add: reader_tail_def row_tail_def Let_def)
  show ?thesis unfolding row_reader_def
    by (rule reader_new_parts[OF fits _ plain_flags(1-3) keys tl,
          where h = "murmur3_64 ?sb" and rest = "body @ u32_le (word_of_nat (length offs)) @ ?es @ u64_le (word_of_nat ?tp)"])
      (simp add: d file_preamble_def)
qed

section \<open>Values\<close>

lemma seg_present: "seg data p (p + n) = xs \<Longrightarrow> length xs = n \<Longrightarrow> 0 < n \<Longrightarrow>
    \<exists>a b. data = a @ xs @ b \<and> length a = p"
proof -
  assume a: "seg data p (p + n) = xs" "length xs = n" "0 < n"
  then have "p + n \<le> length data" by (auto simp: seg_def)
  then have "data = take p data @ seg data p (p + n) @ drop (p + n) data" "length (take p data) = p"
    by (simp_all add: seg_def add.commute flip: drop_drop)
  then show ?thesis using a by metis
qed

lemma word_read: "fits (a @ u64_le v @ b) \<Longrightarrow> get_u64 (a @ u64_le v @ b) (length a) = Some v"
  by (simp add: get_uint_Some seg_at)

lemma prefixed_read:
  assumes "fits (a @ prefixed_bytes s @ b)" and "length s < 2 ^ 32"
  shows "prefixed_str (a @ prefixed_bytes s @ b) (length a) = str_from_utf8 s"
proof -
  let ?data = "a @ prefixed_bytes s @ b"
  obtain p where d: "?data = a @ u32_le (word_of_nat (length s)) @ s @ p" by (simp add: prefixed_bytes_def)
  have "unat (word_of_nat (length s) :: u32) = length s" using assms(2) by (simp add: unat_of_nat)
  moreover have "get_u32 ?data (length a) = Some (word_of_nat (length s))"
    using assms(1) unfolding d by (simp add: get_uint_Some seg_at)
  moreover have "seg ?data (length a + 4) (length a + 4 + length s) = s"
    by (rule seg_at[of _ "a @ u32_le (word_of_nat (length s))"]) (simp_all add: d)
  moreover have "length a + 4 + length s \<le> length ?data" unfolding d by simp
  ultimately show ?thesis using assms(1) by (simp add: prefixed_str_def str_at_def lims)
qed

text \<open>What the getters make of the value written under a name.\<close>

definition reads_back :: "reader \<Rightarrow> usize \<Rightarrow> rstring \<Rightarrow> wr_value option \<Rightarrow> bool" where
  "reads_back r off key x = (case x of
     None \<Rightarrow> get_i64 r off key = Ok None \<and> get_f64 r off key = Ok None \<and> get_bool r off key = Ok None \<and> get_str r off key = Ok None
   | Some (WInt v) \<Rightarrow> get_i64 r off key = Ok (Some v)
   | Some (WTime v) \<Rightarrow> get_i64 r off key = Ok (Some v)
   | Some (WFloat v) \<Rightarrow> get_f64 r off key = Ok (Some v)
   | Some (WBool b) \<Rightarrow> get_bool r off key = Ok (Some b)
   | Some (WStr s) \<Rightarrow> get_str r off key = Ok (str_from_utf8 s)
   | Some (WBytes s) \<Rightarrow> get_str r off key = Ok (str_from_utf8 s)
   | Some WNull \<Rightarrow> get_i64 r off key = Ok (Some 0)
   | Some (WInts _) \<Rightarrow> True
   | Some (WFloats _) \<Rightarrow> True)"

lemma row_getters:
  assumes "r = row_reader keys sigils data n ts" and "position key keys = Some slot"
  shows "get_i64 r off key = obind (Ok (resolve_slot data off slot)) (\<lambda>p. Ok (get_u64 data p))"
    and "get_f64 r off key = obind (Ok (resolve_slot data off slot)) (\<lambda>p. Ok (get_u64 data p))"
    and "get_bool r off key = obind (Ok (resolve_slot data off slot)) (\<lambda>p. Ok (read_flag data p))"
    and "get_str r off key = obind (Ok (resolve_slot data off slot)) (\<lambda>p. Ok (prefixed_str data p))"
  using assms
  by (simp_all add: get_i64_def get_f64_def get_bool_def get_str_def record_resolve_def reader_slot_def row_reader_def)

lemma value_length_pos: "v \<noteq> WInts [] \<Longrightarrow> v \<noteq> WFloats [] \<Longrightarrow> 0 < length (value_bytes v)"
  by (cases v) (simp_all add: prefixed_bytes_def list64_bytes_def)

lemma value_reads_back:
  assumes r: "r = row_reader keys sigils data n ts" and key: "position key keys = Some slot" and fits: "fits data"
    and v: "resolve_slot data off slot = Some p" "seg data p (p + length (value_bytes v)) = value_bytes v"
    and len: "length (value_bytes v) < 2 ^ 32"
  shows "reads_back r off key (Some v)"
proof -
  have pos: "0 < length (value_bytes v)" if "\<forall>xs. v \<noteq> WInts xs \<and> v \<noteq> WFloats xs" using that value_length_pos by blast
  note g = row_getters[OF r key] v(1)
  show ?thesis
  proof (cases "\<exists>xs. v = WInts xs \<or> v = WFloats xs")
    case True
    then show ?thesis by (auto simp: reads_back_def)
  next
    case False
    then obtain a b where ab: "data = a @ value_bytes v @ b" "length a = p"
      using seg_present[OF v(2) refl] pos by blast
    have prefixed: "prefixed_str data p = str_from_utf8 s" if "value_bytes v = prefixed_bytes s" for s
    proof -
      have "length s < 2 ^ 32" using len that by (simp add: prefixed_bytes_def)
      then show ?thesis using prefixed_read[of a s b] fits by (simp add: ab that flip: ab(2))
    qed
    have "get_u64 data p = Some w" if "value_bytes v = u64_le w" for w
      using word_read[of a w b] fits by (simp add: ab that flip: ab(2))
    moreover have "read_flag data p = Some c" if "v = WBool c" for c
      using that by (simp add: ab read_flag_def get_at_def nth_append flip: ab(2))
    ultimately show ?thesis using False prefixed small_u64(1)
      by (cases v) (auto simp: reads_back_def g)
  qed
qed

section \<open>Round trip\<close>

lemma absolute_nth:
  assumes "i < length rs" and "length (objects n rs) < 2 ^ 32" and "32 + length sb + length (objects n rs) < 2 ^ 63"
  shows "unat (absolute sb (map word_of_nat (object_starts n 0 rs)) ! i) = 32 + length sb + length (objects n (take i rs))"
proof -
  let ?s = "length (objects n (take i rs))"
  have "?s \<le> length (objects n rs)" by (subst (2) append_take_drop_id[of i rs, symmetric]) (simp only: map_append concat_append, simp)
  then have s: "?s < 2 ^ 32" "32 + length sb + ?s < 2 ^ 63" using assms(2,3) by simp_all
  have "absolute sb (map word_of_nat (object_starts n 0 rs)) ! i
      = word_of_nat (32 + length sb) + ucast (word_of_nat ?s :: u32)"
    using assms(1) object_starts_nth[OF assms(1), of n 0] by (simp add: absolute_def)
  also have "ucast (word_of_nat ?s :: u32) = (word_of_nat ?s :: u64)"
    using s(1) by (simp add: unsigned_of_nat take_bit_nat_eq_self)
  finally have "absolute sb (map word_of_nat (object_starts n 0 rs)) ! i = word_of_nat (32 + length sb + ?s)" by simp
  moreover have "32 + length sb + ?s < 2 ^ 64"
    by (rule less_trans[OF s(2)]) simp
  ultimately show ?thesis by (simp only: unat_u64)
qed

lemma objects_split:
  "i < length rs \<Longrightarrow> objects n rs = objects n (take i rs) @ writer_object n (rs ! i) @ objects n (drop (Suc i) rs)"
  by (subst id_take_nth_drop[of i rs]) simp_all

lemma objects_count: "list_all (record_ok n) rs \<Longrightarrow> 0 < n \<Longrightarrow> length rs * 8 \<le> length (objects n rs)"
proof (induction rs)
  case (Cons fs rs)
  then show ?case using record_ok_object(4)[of n fs] by simp
qed simp

text \<open>A record anywhere in a file: every name of the schema reads back what was written under it.\<close>

lemma object_reads_back:
  assumes d: "data = pre @ writer_object (length keys) fs @ post" and r: "r = row_reader keys sigils data n ts"
    and keys: "keys_ok keys" and rok: "record_ok (length keys) fs" and small: "length data < 2 ^ 60"
    and slot: "slot < length keys"
  shows "reads_back r (length pre) (keys ! slot) (map_of fs (word_of_nat slot))"
proof -
  let ?n = "length keys"
  have fits: "fits data" using small by (simp add: lims)
  have n: "0 < ?n" using slot by linarith
  note o = record_ok_object[OF rok n]
  have u: "unat (word_of_nat slot :: u16) = slot" using slot keys by (simp add: keys_ok_def unat_of_nat)
  have key: "position (keys ! slot) keys = Some slot"
    using keys slot by (simp add: keys_ok_def position_nth)
  have total: "head_len ?n + length (all_bytes fs) \<le> 65535" using rok by (simp add: record_ok_def)
  have reads: "case map_of fs (word_of_nat slot) of
      None \<Rightarrow> resolve_slot data (length pre) slot = None
    | Some v \<Rightarrow> \<exists>off. resolve_slot data (length pre) slot = Some off
        \<and> seg data off (off + length (value_bytes v)) = value_bytes v"
    using writer_object_reads[OF n o(1,2) total, of pre post "word_of_nat slot"] fits
    by (simp only: resolve_slot_eq[OF small] u flip: d)
  show ?thesis
  proof (cases "map_of fs (word_of_nat slot)")
    case None
    then show ?thesis using reads row_getters[OF r key] by (simp add: reads_back_def)
  next
    case (Some v)
    then obtain p where p: "resolve_slot data (length pre) slot = Some p"
      "seg data p (p + length (value_bytes v)) = value_bytes v" using reads by auto
    have "length (value_bytes v) \<le> length (all_bytes fs)"
      using value_start[OF o(2) Some, of 0] by (metis length_append le_add1 le_add2 le_trans)
    then show ?thesis using value_reads_back[OF r key fits p] total Some by simp
  qed
qed

text \<open>A record of a sealed file.\<close>

lemma record_reads_back:
  assumes data: "data = row_file keys sigils (objects (length keys) rs) offs"
    and r: "r = row_reader keys sigils' data n ts" and keys: "keys_ok keys"
    and ok: "list_all (record_ok (length keys)) rs" and i: "i < length rs" and small: "length data < 2 ^ 60"
    and slot: "slot < length keys"
  shows "reads_back r (32 + length (build_schema keys sigils) + length (objects (length keys) (take i rs))) (keys ! slot)
      (map_of (rs ! i) (word_of_nat slot))"
proof -
  let ?n = "length keys" let ?sb = "build_schema keys sigils"
  let ?pre = "file_preamble VERSION FLAG_SCHEMA_EMBEDDED ?sb @ ?sb @ objects ?n (take i rs)"
  have d: "data = ?pre @ writer_object ?n (rs ! i) @ (objects ?n (drop (Suc i) rs)
      @ build_tail_index_records offs (word_of_nat (32 + length ?sb + length (objects ?n rs))))"
    by (simp add: data objects_split[OF i])
  have "record_ok ?n (rs ! i)" using ok i by (simp add: list_all_length)
  from object_reads_back[OF d r keys this small slot] show ?thesis by (simp add: add.assoc)
qed

text \<open>
  C2: Records written through the plain writer are read back from the sealed file.  For distinct valid
  names and records that fit their 16-bit offset table, writing and \<open>finish\<close> succeed, the reader opens
  the file with the names and the number of records, finds every record, and its getters return the
  value written under each name and nothing under the names left out.  A null reads as a present zero, since
  \<open>write_null\<close> stores eight zero bytes, where the format has a null without a payload.
\<close>

theorem row_file_roundtrip:
  assumes "keys_ok keys" and "keys \<noteq> []" and "schema_len keys < 2 ^ 59"
    and "list_all (record_ok (length keys)) rs" and "length (objects (length keys) rs) < 2 ^ 32"
  shows "\<exists>w data r. rfold write_record rs (new_writer (new_schema keys)) = Ok w \<and> finish w = Ok data
     \<and> reader_new data = Ok r \<and> r_keys r = keys \<and> r_record_count r = length rs
     \<and> (\<forall>i < length rs. \<exists>off. reader_record r i = Ok (Some off)
          \<and> (\<forall>slot < length keys. reads_back r off (keys ! slot) (map_of (rs ! i) (word_of_nat slot))))"
proof -
  let ?n = "length keys" let ?w0 = "new_writer (new_schema keys)" let ?body = "objects ?n rs"
  have w0: "w_compact ?w0 = None" "w_schema ?w0 = new_schema keys" "w_frames ?w0 = []" "w_buf ?w0 = []"
    "length (w_slot_sigils ?w0) = ?n" "w_record_offsets ?w0 = []"
    by (simp_all add: new_writer_def writer_with_compact_def new_schema_def Let_def)
  obtain w where w: "rfold write_record rs ?w0 = Ok w" "w_buf w = ?body" "w_schema w = new_schema keys" "w_compact w = None"
    "length (w_slot_sigils w) = ?n" "w_record_offsets w = map word_of_nat (object_starts ?n 0 rs)"
    using write_records[OF w0(1,2) assms(2) w0(3) assms(4)] assms(5) w0 by auto
  define sigs where "sigs = w_slot_sigils w"
  let ?sb = "build_schema keys sigs" let ?offs = "absolute ?sb (map word_of_nat (object_starts ?n 0 rs))"
  define data where "data = row_file keys sigs ?body ?offs"
  have fin: "finish w = Ok data" using finish_plain[OF w(4,3)] w by (simp add: Let_def data_def sigs_def)
  have cnt: "length rs * 8 \<le> length ?body" using objects_count[OF assms(4)] assms(2) by simp
  have lo: "length ?offs = length rs" by (simp add: absolute_def)
  have sb: "length ?sb < 2 ^ 59 + 8"
    using assms(3) align8_lt[of "schema_len keys"] by (simp add: length_build_schema)
  have small: "length data < 2 ^ 60"
    using sb cnt assms(5) by (simp add: data_def length_tail_index lo)
  define r where "r = row_reader keys (stored_sigils sigs) data (length rs) (32 + length ?sb + length ?body + 4)"
  have opens: "reader_new data = Ok r"
    using open_row_file[OF data_def assms(1)] w(5)[folded sigs_def] small cnt assms(5)
    by (simp add: r_def lo lims)
  have rec: "reader_record r i = Ok (Some (32 + length ?sb + length (objects ?n (take i rs))))" if i: "i < length rs" for i
  proof -
    have "classic_record_offset data (32 + length ?sb + length ?body + 4) i = Some (unat (?offs ! i))"
      using classic_offset_at[of i ?offs "file_preamble VERSION FLAG_SCHEMA_EMBEDDED ?sb @ ?sb @ ?body"] i lo small
      by (simp add: data_def lims)
    then show ?thesis using absolute_nth[OF i assms(5), of ?sb] sb assms(5) i
      by (simp add: reader_record_def record_offset_def row_record_offset_def r_def row_reader_def)
  qed
  show ?thesis
    using w(1) fin opens rec record_reads_back[OF data_def r_def assms(1,4) _ small]
    by (intro exI[of _ w] exI[of _ data] exI[of _ r]) (auto simp: r_def row_reader_def)
qed

theorem row_file_roundtrip_witness:
  "\<exists>w data r. rfold write_record [[(0, WInt 7)], [(1, WStr [104, 105])]] (new_writer (new_schema [[97], [98]])) = Ok w
     \<and> finish w = Ok data \<and> reader_new data = Ok r
     \<and> (\<exists>off. reader_record r 1 = Ok (Some off) \<and> get_i64 r off [97] = Ok None \<and> get_str r off [98] = Ok (Some [104, 105]))"
proof -
  let ?rs = "[[(0, WInt 7)], [(1, WStr [104, 105])]] :: (u16 \<times> wr_value) list list" and ?ks = "[[97], [98]] :: rstring list"
  have "keys_ok ?ks" "schema_len ?ks < 2 ^ 59" "list_all (record_ok (length ?ks)) ?rs"
    "length (objects (length ?ks) ?rs) < 2 ^ 32" by code_simp+
  from row_file_roundtrip[OF this(1) _ this(2-4)] obtain w data r where
    o: "rfold write_record ?rs (new_writer (new_schema ?ks)) = Ok w" "finish w = Ok data" "reader_new data = Ok r"
    and a: "\<forall>i < length ?rs. \<exists>off. reader_record r i = Ok (Some off)
          \<and> (\<forall>slot < length ?ks. reads_back r off (?ks ! slot) (map_of (?rs ! i) (word_of_nat slot)))" by blast
  from a[rule_format, of 1] obtain off where off: "reader_record r 1 = Ok (Some off)"
    "\<And>slot. slot < 2 \<Longrightarrow> reads_back r off (?ks ! slot) (map_of (?rs ! 1) (word_of_nat slot))" by auto
  have "reads_back r off [97] None" "reads_back r off [98] (Some (WStr [104, 105]))"
    using off(2)[of 0] off(2)[of 1] by simp_all
  moreover have "str_from_utf8 [104, 105] = Some [104, 105]" by code_simp
  ultimately show ?thesis using o off(1) by (auto simp: reads_back_def)
qed

end
