(* ===== verification/Columnar_Files.thy ===== *)
theory Columnar_Files
  imports Layout_Files
begin

text \<open>
  Columnar files are read back: \<open>finish_columnar\<close> of \<^verbatim>\<open>rust/src/layout.rs\<close> against the reader of
  \<^verbatim>\<open>rust/src/query.rs\<close>.
\<close>

section \<open>The tail index\<close>

definition rd_col_entry :: "u8 list \<Rightarrow> usize \<Rightarrow> (u16 \<times> u64 \<times> u64) res" where
  "rd_col_entry data e =
     rbind (rd_u16 data e) (\<lambda>fid. rbind (rd_u64 data (e + 4)) (\<lambda>off. rbind (rd_u64 data (e + 12)) (\<lambda>len. Ok (fid, off, len))))"

interpretation col_entry: fixed_codec column_entry_bytes rd_col_entry 20
proof
  fix xs ys :: "u8 list" and v :: "u16 \<times> u64 \<times> u64"
  obtain i off len where v: "v = (i, off, len)" by (cases v)
  assume f: "fits (xs @ column_entry_bytes v @ ys)"
  have "rd_u16 (xs @ column_entry_bytes v @ ys) (length xs) = Ok i"
    by (rule u16c.rd_at[OF f _ refl]) (simp add: v column_entry_bytes_def)
  moreover have "rd_u64 (xs @ column_entry_bytes v @ ys) (length xs + 4) = Ok off"
    by (rule u64c.rd_at[OF f, of "xs @ u16_le i @ u16_le 0"]) (simp_all add: v column_entry_bytes_def)
  moreover have "rd_u64 (xs @ column_entry_bytes v @ ys) (length xs + 12) = Ok len"
    by (rule u64c.rd_at[OF f, of "xs @ u16_le i @ u16_le 0 @ u64_le off"]) (simp_all add: v column_entry_bytes_def)
  ultimately show "rd_col_entry (xs @ column_entry_bytes v @ ys) (length xs) = Ok v" by (simp add: rd_col_entry_def v)
qed (simp add: column_entry_bytes_def split: prod.splits)

lemma read_col_entry_by:
  "rd_col_entry data (tail + i * 20) = Ok (fid, off, len) \<Longrightarrow> unat fid < kc \<Longrightarrow>
     read_col_entry data tail kc i (offs, lens) = Ok (offs[unat fid := off], lens[unat fid := len])"
  by (auto simp: rd_col_entry_def read_col_entry_def res_simps)

definition sector_start :: "usize \<Rightarrow> u8 list list \<Rightarrow> usize \<Rightarrow> usize" where
  "sector_start start bufs k = start + length (concat (take k bufs))"

lemma length_column_entries [simp]: "length (column_entries i start bufs) = length bufs"
  by (induction bufs arbitrary: i start) simp_all

lemma column_entries_nth:
  "k < length bufs \<Longrightarrow> column_entries i start bufs ! k
     = (word_of_nat (i + k), word_of_nat (sector_start start bufs k), word_of_nat (length (bufs ! k)))"
proof (induction bufs arbitrary: i start k)
  case (Cons b bufs)
  show ?case
  proof (cases k)
    case (Suc j)
    then have "column_entries (i + 1) (start + length b) bufs ! j
      = (word_of_nat (i + 1 + j), word_of_nat (sector_start (start + length b) bufs j), word_of_nat (length (bufs ! j)))"
      using Cons.prems by (intro Cons.IH) simp
    then show ?thesis using Suc by (simp add: sector_start_def add.assoc)
  qed (simp add: sector_start_def)
qed simp

lemma fill_updates:
  assumes "j < kc"
  shows "(map f [0..<j] @ replicate (kc - j) z)[j := f j] = map f [0..<Suc j] @ replicate (kc - Suc j) z"
proof -
  have "replicate (kc - j) z = z # replicate (kc - Suc j) z"
    using assms by (metis Suc_diff_Suc replicate_Suc)
  then show ?thesis by (simp add: list_update_append)
qed

lemma read_col_entries:
  assumes fits: "fits data" and data: "data = pre @ concat (map column_entry_bytes (column_entries 0 start bufs)) @ post"
    and kc: "length bufs = kc" "kc < 65536" and "j \<le> kc"
  shows "rfold (read_col_entry data (length pre) kc) [0..<j] (replicate kc 0, replicate kc 0)
    = Ok (map (\<lambda>k. word_of_nat (sector_start start bufs k)) [0..<j] @ replicate (kc - j) 0,
          map (\<lambda>k. word_of_nat (length (bufs ! k))) [0..<j] @ replicate (kc - j) 0)"
  using assms(5)
proof (induction j)
  case (Suc j)
  then have j: "j < kc" by simp
  have "rd_col_entry data (length pre + j * 20) = Ok (column_entries 0 start bufs ! j)"
    unfolding data by (rule col_entry.rd_array) (use j kc fits data in simp_all)
  then have "rd_col_entry data (length pre + j * 20)
      = Ok (word_of_nat j, word_of_nat (sector_start start bufs j), word_of_nat (length (bufs ! j)))"
    using j kc column_entries_nth[of j bufs 0 start] by simp
  then have step: "read_col_entry data (length pre) kc j (offs, lens)
      = Ok (offs[j := word_of_nat (sector_start start bufs j)], lens[j := word_of_nat (length (bufs ! j))])" for offs lens
    using j kc(2) read_col_entry_by[of data "length pre" j] by (simp add: unat_of_nat take_bit_nat_eq_self)
  have upt: "rfold f [0..<Suc j] s = rbind (rfold f [0..<j] s) (rfold f [j])" for f :: "nat \<Rightarrow> _ \<Rightarrow> (u64 list \<times> u64 list) res" and s
    by (simp add: rfold_append)
  show ?case
    unfolding upt Suc.IH[OF Suc_leD[OF Suc.prems]] by (simp only: rbind.simps rfold.simps step
        fill_updates[OF j, of "\<lambda>k. word_of_nat (sector_start start bufs k)" 0]
        fill_updates[OF j, of "\<lambda>k. word_of_nat (length (bufs ! k))" 0])
qed simp

section \<open>Opening\<close>

definition images :: "rstring list \<Rightarrow> cell list list \<Rightarrow> u8 list list" where
  "images keys rows = map (\<lambda>slot. column_image (column_sigil rows slot) (column_of rows slot)) [0..<length keys]"

lemma encode_columns_images:
  assumes "encode_columns rows (sigils_for_keys keys rows) = Ok bufs"
  shows "bufs = images keys rows"
    and "slot < length keys \<Longrightarrow> is_var_sigil (column_sigil rows slot) \<Longrightarrow> length (var_values (column_of rows slot)) \<le> 0xFFFFFFFF"
proof -
  have l: "length bufs = length keys" using rmap_Ok_length[OF assms[unfolded encode_columns_def]] by simp
  have enc: "encode_field_column (length rows) (column_of rows slot) (column_sigil rows slot) = Ok (bufs ! slot)"
    if "slot < length keys" for slot
    using assms that l by (simp add: encode_columns_def rmap_Ok_iff list_all2_conv_all_nth column_of_def)
  show "bufs = images keys rows"
    using l encode_field_column_image(1)[OF enc] by (intro nth_equalityI) (simp_all add: images_def)
  show "slot < length keys \<Longrightarrow> is_var_sigil (column_sigil rows slot) \<Longrightarrow> length (var_values (column_of rows slot)) \<le> 0xFFFFFFFF"
    using encode_field_column_image(2)[OF enc] by simp
qed

text \<open>The reader of a columnar file.\<close>

definition columnar_reader :: "rstring list \<Rightarrow> cell list list \<Rightarrow> u8 list \<Rightarrow> usize \<Rightarrow> usize \<Rightarrow> reader" where
  "columnar_reader keys rows data start tail =
     \<lparr>r_data = data, r_flags = or FLAG_SCHEMA_EMBEDDED FLAG_COLUMNAR, r_keys = keys, r_key_sigils = sigils_for_keys keys rows,
      r_ext_schema = None, r_cell_plan = None, r_key_index = (\<lambda>k. position k keys), r_record_count = length rows,
      r_tail_start = tail, r_delta_tail = None, r_layout = Columnar,
      r_col_buf_off = map (\<lambda>k. word_of_nat (sector_start start (images keys rows) k)) [0..<length keys],
      r_col_buf_len = map (\<lambda>k. word_of_nat (length (images keys rows ! k))) [0..<length keys]\<rparr>"

lemma finish_columnar_parts:
  assumes "finish_columnar keys rows = Ok data"
  defines "sb \<equiv> build_schema keys (sigils_for_keys keys rows)"
  defines "start \<equiv> 32 + length sb" and "body \<equiv> concat (images keys rows)"
  shows "data = layout_preamble FLAG_COLUMNAR sb (start + length body) @ sb @ body
      @ concat (map column_entry_bytes (column_entries 0 start (images keys rows)))
      @ u64_le (word_of_nat (start + length body)) @ u64_le (word_of_nat (length rows)) @ u32_le MAGIC_FOOTER"
  using assms(1) encode_columns_images(1)
  by (auto simp: finish_columnar_def Let_def res_simps sb_def start_def body_def)

lemma open_columnar:
  assumes fin: "finish_columnar keys rows = Ok data" and keys: "keys_ok keys" "keys \<noteq> []" and fits: "fits data"
    and n: "length rows < 2 ^ 59"
  obtains start tail where "reader_new data = Ok (columnar_reader keys rows data start tail)"
    "\<And>slot. slot < length keys \<Longrightarrow> \<exists>xs ys. data = xs @ images keys rows ! slot @ ys
       \<and> length xs = sector_start start (images keys rows) slot"
proof -
  let ?sigs = "sigils_for_keys keys rows" let ?sb = "build_schema keys ?sigs" let ?fl = "or FLAG_SCHEMA_EMBEDDED FLAG_COLUMNAR"
  let ?bufs = "images keys rows" let ?start = "32 + length ?sb" let ?tail = "?start + length (concat ?bufs)"
  let ?kc = "length keys" let ?entries = "concat (map column_entry_bytes (column_entries 0 ?start ?bufs))"
  let ?pre = "layout_preamble FLAG_COLUMNAR ?sb ?tail @ ?sb @ concat ?bufs"
  let ?foot = "u64_le (word_of_nat ?tail) @ u64_le (word_of_nat (length rows)) @ u32_le MAGIC_FOOTER"
  note d0 = finish_columnar_parts[OF fin]
  have d: "data = ?pre @ ?entries @ ?foot" unfolding d0 by simp
  have kc: "length ?bufs = ?kc" "?kc < 65536" using keys(1) by (simp_all add: images_def keys_ok_def)
  have le: "length ?entries = ?kc * 20" "length ?pre = ?tail"
    by (simp_all only: col_entry.length_array length_column_entries kc(1)) simp
  have len: "length data = ?tail + ?kc * 20 + 20" using le by (simp add: d)
  have small: "unat (word_of_nat ?tail :: u64) = ?tail" "unat (word_of_nat (length rows) :: u64) = length rows"
    by (rule unat_u64, use len fits n in \<open>simp add: lims\<close>)+
  have rt: "rd_u64 data (length data - 20) = Ok (word_of_nat ?tail)"
    by (rule u64c.rd_at[OF fits, of "?pre @ ?entries"]) (use le in \<open>simp_all add: d\<close>)
  have rn: "rd_u64 data (length data - 20 + 8) = Ok (word_of_nat (length rows))"
    by (rule u64c.rd_at[OF fits, of "?pre @ ?entries @ u64_le (word_of_nat ?tail)"]) (use le in \<open>simp_all add: d\<close>)
  have entries: "rfold (read_col_entry data ?tail ?kc) [0..<?kc] (replicate ?kc 0, replicate ?kc 0)
      = Ok (map (\<lambda>k. word_of_nat (sector_start ?start ?bufs k)) [0..<?kc], map (\<lambda>k. word_of_nat (length (?bufs ! k))) [0..<?kc])"
    using read_col_entries[OF fits d kc order_refl] unfolding le(2) by simp
  have "checked_mul ?kc 20 = Some (?kc * 20)" "checked_add ?tail (?kc * 20) = Some (?tail + ?kc * 20)"
    using kc(2) len fits by (simp_all add: lims)
  moreover have "footer_size ?fl = 20" by code_simp
  ultimately have "columnar_tail data ?fl ?kc = Ok (Columnar, length rows, ?tail,
      map (\<lambda>k. word_of_nat (sector_start ?start ?bufs k)) [0..<?kc], map (\<lambda>k. word_of_nat (length (?bufs ! k))) [0..<?kc], None)"
    using rt rn entries small keys(2) len by (simp add: columnar_tail_def Let_def)
  then have tl: "reader_tail data ?fl ?kc (word_of_nat ?tail) = Ok (Columnar, length rows, ?tail,
      map (\<lambda>k. word_of_nat (sector_start ?start ?bufs k)) [0..<?kc], map (\<lambda>k. word_of_nat (length (?bufs ! k))) [0..<?kc], None)"
    using layout_flags(4)[of FLAG_COLUMNAR] by (simp add: reader_tail_def)
  have nz: "0 \<notin> set ?sigs" by (auto simp: sigils_for_keys_def column_sigil_nonzero)
  have "reader_new data = Ok (columnar_reader keys rows data ?start ?tail)"
    unfolding columnar_reader_def
    by (rule reader_new_layout[OF fits _ _ keys(1) _ nz tl, where rest = "concat ?bufs @ ?entries
        @ u64_le (word_of_nat ?tail) @ u64_le (word_of_nat (length rows))" and sb = ?sb]) (simp_all add: d)
  moreover have "\<exists>xs ys. data = xs @ ?bufs ! slot @ ys \<and> length xs = sector_start ?start ?bufs slot" if "slot < ?kc" for slot
  proof -
    have "concat ?bufs = concat (take slot ?bufs) @ ?bufs ! slot @ concat (drop (Suc slot) ?bufs)"
      using that kc(1) by (subst id_take_nth_drop[of slot ?bufs]) simp_all
    then have "data = (layout_preamble FLAG_COLUMNAR ?sb ?tail @ ?sb @ concat (take slot ?bufs)) @ ?bufs ! slot
        @ (concat (drop (Suc slot) ?bufs) @ ?entries @ ?foot)" by (simp add: d)
    then show ?thesis by (intro exI conjI) (assumption, simp add: sector_start_def)
  qed
  ultimately show ?thesis using that by blast
qed

section \<open>Lookups\<close>

definition stored_columnar :: "rstring list \<Rightarrow> cell list list \<Rightarrow> reader \<Rightarrow> bool" where
  "stored_columnar keys rows r \<longleftrightarrow> keys_ok keys \<and> keys \<noteq> [] \<and> length rows < 2 ^ 59
     \<and> (\<exists>data. finish_columnar keys rows = Ok data \<and> fits data \<and> reader_new data = Ok r)"

text \<open>Such a reader, spelled out: where every column lies in the buffer.\<close>

definition columnar_holds :: "rstring list \<Rightarrow> cell list list \<Rightarrow> reader \<Rightarrow> u8 list \<Rightarrow> usize \<Rightarrow> bool" where
  "columnar_holds keys rows r data start \<longleftrightarrow> (\<exists>tail. r = columnar_reader keys rows data start tail) \<and> fits data
     \<and> length rows < 2 ^ 59
     \<and> (\<forall>slot < length keys. (\<exists>xs ys. data = xs @ images keys rows ! slot @ ys
           \<and> length xs = sector_start start (images keys rows) slot)
         \<and> (is_var_sigil (column_sigil rows slot) \<longrightarrow> length (var_values (column_of rows slot)) \<le> 0xFFFFFFFF))"

lemma stored_columnar_holds:
  assumes "stored_columnar keys rows r"
  shows "\<exists>data start. columnar_holds keys rows r data start"
proof -
  from assms obtain data where a: "keys_ok keys" "keys \<noteq> []" "length rows < 2 ^ 59" "finish_columnar keys rows = Ok data"
      "fits data" "reader_new data = Ok r"
    by (auto simp: stored_columnar_def)
  obtain bufs where "encode_columns rows (sigils_for_keys keys rows) = Ok bufs"
    using a(4) by (auto simp: finish_columnar_def Let_def res_simps)
  note var = encode_columns_images(2)[OF this]
  from open_columnar[OF a(4,1,2,5,3)] obtain start tail where
      "reader_new data = Ok (columnar_reader keys rows data start tail)"
    and "\<And>slot. slot < length keys \<Longrightarrow> \<exists>xs ys. data = xs @ images keys rows ! slot @ ys
       \<and> length xs = sector_start start (images keys rows) slot" by blast
  then have "columnar_holds keys rows r data start" using a var by (auto simp: columnar_holds_def)
  then show ?thesis by blast
qed

lemma image_at: "slot < length keys \<Longrightarrow> images keys rows ! slot = column_image (column_sigil rows slot) (column_of rows slot)"
  by (simp add: images_def)

lemma columnar_sector:
  assumes "slot < length keys" and "fits data"
    and "\<exists>xs ys. data = xs @ images keys rows ! slot @ ys \<and> length xs = sector_start start (images keys rows) slot"
    and "r = columnar_reader keys rows data start tail"
  shows "col_sector r slot = Ok (images keys rows ! slot, length (images keys rows ! slot))"
proof -
  let ?b = "images keys rows ! slot" let ?s = "sector_start start (images keys rows) slot"
  obtain xs ys where d: "data = xs @ ?b @ ys" "length xs = ?s" using assms(3) by blast
  then have le: "?s + length ?b \<le> length data" by simp
  then have "unat (word_of_nat ?s :: u64) = ?s" "unat (word_of_nat (length ?b) :: u64) = length ?b"
    by (intro unat_u64; use assms(2) in \<open>simp add: lims\<close>)+
  moreover have "seg data ?s (?s + length ?b) = ?b" using d by (intro seg_at[of data xs]) simp_all
  ultimately show ?thesis
    using assms(1,2) le by (simp add: assms(4) columnar_reader_def col_sector_def lims)
qed

text \<open>A column as its bytes stand in the file.\<close>

lemma columnar_image:
  assumes "stored_columnar keys rows r" and "slot < length keys"
  defines "col \<equiv> column_of rows slot" and "sigil \<equiv> column_sigil rows slot"
  shows "col_sector r slot = Ok (column_image sigil col, length (column_image sigil col))"
    and "r_record_count r = length col" and "get_at (r_key_sigils r) slot = Some sigil" and "r_layout r = Columnar"
proof -
  obtain data start where h: "columnar_holds keys rows r data start" using stored_columnar_holds[OF assms(1)] by blast
  then obtain tail where r: "r = columnar_reader keys rows data start tail" and fits: "fits data"
    by (auto simp: columnar_holds_def)
  have "\<exists>xs ys. data = xs @ images keys rows ! slot @ ys \<and> length xs = sector_start start (images keys rows) slot"
    using h assms(2) by (simp add: columnar_holds_def)
  then show "col_sector r slot = Ok (column_image sigil col, length (column_image sigil col))"
    using columnar_sector[OF assms(2) fits _ r] image_at[OF assms(2)] by (simp add: col_def sigil_def)
  show "r_record_count r = length col" "get_at (r_key_sigils r) slot = Some sigil" "r_layout r = Columnar"
    using assms(2) by (simp_all add: r columnar_reader_def col_def sigil_def)
qed

lemma columnar_parts:
  assumes "stored_columnar keys rows r" and "slot < length keys"
  shows "\<not> is_var_sigil (column_sigil rows slot) \<Longrightarrow>
      col_field_parts r slot = Ok (bitmap_of (column_of rows slot),
        concat (map (cell_slot (column_sigil rows slot)) (column_of rows slot)))"
    and "is_var_sigil (column_sigil rows slot) \<Longrightarrow>
      col_field_var_parts r slot = Ok (bitmap_of (column_of rows slot), var_offsets (column_of rows slot), var_values (column_of rows slot))"
proof -
  let ?c = "column_of rows slot" let ?sig = "column_sigil rows slot"
  note sec = columnar_image(1)[OF assms] and flds = columnar_image(2,3)[OF assms]
  have n: "length rows < 2 ^ 59" using assms(1) by (simp add: stored_columnar_def)
  have nb: "null_bitmap_bytes (length ?c) < 2 ^ 59 + 15" using null_bitmap_bytes_small(2)[of "length ?c"] n by (simp add: lims)
  show "col_field_parts r slot = Ok (bitmap_of ?c, concat (map (cell_slot ?sig) ?c))" if "\<not> is_var_sigil ?sig"
    using that sec image_fixed_parts[OF that, of ?c] n nb by (simp add: col_field_parts_def flds Let_def min_def lims)
  show "col_field_var_parts r slot = Ok (bitmap_of ?c, var_offsets ?c, var_values ?c)" if "is_var_sigil ?sig"
    using sec image_var_parts[OF that, of ?c] n by (simp add: col_field_var_parts_def flds)
qed

text \<open>A columnar file is a source of columns.\<close>

abbreviation columnar_text :: "reader \<Rightarrow> usize \<Rightarrow> usize \<Rightarrow> rstring option res" where
  "columnar_text r i slot \<equiv> str_value (col_field_var_parts r slot) i"

interpretation columnar: column_source stored_columnar "col_get_fixed get_u64" "col_get_fixed read_flag" columnar_text
proof
  fix keys :: "rstring list" and rows r i slot key s and t :: "u64 \<Rightarrow> bool" and u :: "bool \<Rightarrow> bool"
  assume st: "stored_columnar keys rows r"
  obtain data start where h: "columnar_holds keys rows r data start" using stored_columnar_holds[OF st] by blast
  then obtain tail where r: "r = columnar_reader keys rows data start tail" and n: "length rows < 2 ^ 59"
    by (auto simp: columnar_holds_def)
  show "r_layout r \<noteq> Row \<and> r_record_count r = length rows
      \<and> r_key_index r = (\<lambda>k. position k keys) \<and> r_key_sigils r = sigils_for_keys keys rows"
    by (simp add: r columnar_reader_def)
  assume i: "i < length rows" and slot: "slot < length keys"
  let ?c = "column_of rows slot" let ?sig = "column_sigil rows slot"
  have ic: "i < length ?c" "length ?c < 2 ^ 59" using i n by simp_all
  have sig: "get_at (r_key_sigils r) slot = Some ?sig" "r_layout r = Columnar"
    using slot by (simp_all add: r columnar_reader_def)
  have total: "is_var_sigil ?sig \<Longrightarrow> length (var_values ?c) \<le> 0xFFFFFFFF" using h slot by (simp add: columnar_holds_def)
  note parts = columnar_parts[OF st slot]
  show "col_get_fixed get_u64 r i slot = Ok (cell_word ?sig (cell_at (rows ! i) slot))"
    using parts(1) image_values(1)[OF ic, of ?sig] i by (simp add: col_get_fixed_def sig cell_word_def)
  show "col_get_fixed read_flag r i slot = Ok (cell_flag ?sig (cell_at (rows ! i) slot))"
    using parts(1) image_values(2)[OF ic, of ?sig] i by (simp add: col_get_fixed_def sig cell_word_def cell_flag_def)
  show "columnar_text r i slot = Ok (cell_text SIGIL_STR (cell_at (rows ! i) slot))" if "?sig = SIGIL_STR"
    using parts(2) image_values(3)[OF ic total] i slot that by (simp add: is_var_sigil_def)
  assume key: "reader_slot r key = Some slot"
  show "get_i64 r i key = col_get_fixed get_u64 r i slot \<and> get_f64 r i key = col_get_fixed get_u64 r i slot
      \<and> get_bool r i key = col_get_fixed read_flag r i slot
      \<and> get_str r i key = (if ?sig = SIGIL_STR then columnar_text r i slot else Ok None)"
    using key by (simp add: get_i64_def get_f64_def get_bool_def get_str_def sig)
  show "test_fixed get_u64 r i key t = test_value (col_get_fixed get_u64 r i slot) t
      \<and> test_fixed read_flag r i key u = test_value (col_get_fixed read_flag r i slot) u
      \<and> test_str r i key s = test_value (columnar_text r i slot) (\<lambda>v. v = s)"
    using key by (simp add: test_fixed_def test_str_def test_value_def col_get_fixed_def get_or_zero_def sig)
qed

text \<open>
  C7: A columnar file written from a table -- distinct valid names, at least one of them, fewer than
  \<open>2 ^ 59\<close> records -- opens, and every lookup of a record under a name returns the cell of the table: a
  word for the numeric getters, a flag, or the string of a string column.
\<close>

theorem columnar_roundtrip:
  assumes "finish_columnar keys rows = Ok data" and "keys_ok keys" and "keys \<noteq> []"
    and "fits data" and "length rows < 2 ^ 59"
  shows "\<exists>r. reader_new data = Ok r \<and> r_record_count r = length rows \<and> r_keys r = keys
    \<and> (\<forall>i < length rows. \<forall>key.
         get_i64 r i key = Ok (lookup keys rows cell_word i key) \<and> get_f64 r i key = Ok (lookup keys rows cell_word i key)
         \<and> get_bool r i key = Ok (lookup keys rows cell_flag i key) \<and> get_str r i key = Ok (lookup keys rows cell_text i key))"
proof -
  obtain start tail where o: "reader_new data = Ok (columnar_reader keys rows data start tail)" (is "_ = Ok ?r")
    by (rule open_columnar[OF assms])
  then have "stored_columnar keys rows ?r" using assms by (auto simp: stored_columnar_def)
  then show ?thesis using o columnar.lookups[of keys rows ?r]
    by (intro exI[of _ ?r]) (simp add: columnar_reader_def)
qed

text \<open>Encoding a table whose columns can be encoded.\<close>

lemma finish_columnar_ok:
  assumes "map_res (\<lambda>b. length (concat b)) (encode_columns rows (sigils_for_keys keys rows)) = Ok m" and "m < 2 ^ 60"
    and "length (build_schema keys (sigils_for_keys keys rows)) < 2 ^ 60" and "length keys < 65536"
  obtains data where "finish_columnar keys rows = Ok data" "fits data"
proof -
  let ?sigs = "sigils_for_keys keys rows"
  obtain bufs where b: "encode_columns rows ?sigs = Ok bufs" "length (concat bufs) = m"
    using assms(1) by (cases "encode_columns rows ?sigs") auto
  then have l: "length bufs = length keys" using rmap_Ok_length[of _ "zip [0..<length ?sigs] ?sigs" bufs]
    by (simp add: encode_columns_def)
  let ?sb = "build_schema keys ?sigs"
  let ?data = "layout_preamble FLAG_COLUMNAR ?sb (32 + length ?sb + length (concat bufs)) @ ?sb @ concat bufs
      @ concat (map column_entry_bytes (column_entries 0 (32 + length ?sb) bufs))
      @ u64_le (word_of_nat (32 + length ?sb + length (concat bufs))) @ u64_le (word_of_nat (length rows)) @ u32_le MAGIC_FOOTER"
  have "finish_columnar keys rows = Ok ?data" by (simp add: finish_columnar_def Let_def b(1))
  moreover have "fits ?data" using assms(2-4) by (simp add: b(2) col_entry.length_array l lims)
  ultimately show thesis by (rule that)
qed

lemma sample_columnar:
  obtains data where "finish_columnar sample_keys sample_rows = Ok data" "fits data"
proof -
  have "map_res (\<lambda>b. length (concat b)) (encode_columns sample_rows (sigils_for_keys sample_keys sample_rows)) = Ok 58"
    by code_simp
  then show thesis by (rule finish_columnar_ok) (use sample_table that in simp_all)
qed

theorem columnar_roundtrip_witness:
  "\<exists>data r. finish_columnar sample_keys sample_rows = Ok data \<and> reader_new data = Ok r
     \<and> get_i64 r 1 (bstr ''n'') = Ok (Some 8) \<and> get_str r 2 (bstr ''s'') = Ok (Some (bstr ''b'')) \<and> get_i64 r 2 (bstr ''n'') = Ok None"
proof -
  obtain data where d: "finish_columnar sample_keys sample_rows = Ok data" "fits data" by (rule sample_columnar)
  have "length sample_rows < 2 ^ 59" using sample_table(3) by simp
  from columnar_roundtrip[OF d(1) sample_table(1,2) d(2) this] obtain r where r: "reader_new data = Ok r"
    "\<And>i key. i < 3 \<Longrightarrow> get_i64 r i key = Ok (lookup sample_keys sample_rows cell_word i key)
       \<and> get_str r i key = Ok (lookup sample_keys sample_rows cell_text i key)" using sample_table(3) by auto
  have "lookup sample_keys sample_rows cell_word 1 (bstr ''n'') = Some 8"
    "lookup sample_keys sample_rows cell_text 2 (bstr ''s'') = Some (bstr ''b'')"
    "lookup sample_keys sample_rows cell_word 2 (bstr ''n'') = None" by code_simp+
  then show ?thesis using d(1) r by auto
qed

end
