(* ===== verification/Pax_Writer.thy ===== *)
theory Pax_Writer
  imports Layout_Files
begin

text \<open>
  The PAX emitter of \<^verbatim>\<open>rust/src/layout.rs\<close>: when its page loop returns, and the pages it writes.
\<close>

section \<open>The page loop\<close>

definition pages_of :: "nat \<Rightarrow> nat \<Rightarrow> nat" where
  "pages_of n ps = (n + ps - 1) div ps"

definition page_rows :: "nat \<Rightarrow> cell list list \<Rightarrow> nat \<Rightarrow> cell list list" where
  "page_rows ps rows j = seg rows (j * ps) (min (length rows) (j * ps + ps))"

lemma page_below: "0 < ps \<Longrightarrow> j < pages_of n ps \<longleftrightarrow> j * ps < n"
proof -
  assume ps: "0 < ps"
  have "j < pages_of n ps \<longleftrightarrow> Suc j \<le> (n + ps - 1) div ps" by (auto simp: pages_of_def)
  also have "\<dots> \<longleftrightarrow> Suc j * ps \<le> n + ps - 1" by (rule less_eq_div_iff_mult_less_eq[OF ps])
  finally show ?thesis using ps by auto
qed

lemma length_page_rows [simp]: "length (page_rows ps rows j) = min ps (length rows - j * ps)"
  by (simp add: page_rows_def seg_def)

lemma page_rows_nth:
  "l < ps \<Longrightarrow> j * ps + l < length rows \<Longrightarrow> page_rows ps rows j ! l = rows ! (j * ps + l)"
  by (simp add: page_rows_def seg_def)

lemma page_count_word:
  assumes "k < 2 ^ 32"
  shows "unat (min (word_of_nat k) page_size :: u32) = min k (unat page_size)"
proof -
  have "unat (word_of_nat k :: u32) = k" using assms by (simp add: unat_of_nat take_bit_nat_eq_self)
  then show ?thesis by (simp add: min_def word_le_nat_alt)
qed

text \<open>One page as the loop encodes it, and its entry in the tail index.\<close>

definition page_of :: "u32 \<Rightarrow> usize \<Rightarrow> u8 list \<Rightarrow> cell list list \<Rightarrow> nat \<Rightarrow> u8 list res" where
  "page_of page_size kc sigils rows j =
     (let prow = page_rows (unat page_size) rows j in
      encode_page (word_of_nat j) (word_of_nat (j * unat page_size)) (word_of_nat (length prow)) kc sigils prow)"

definition page_entry_of :: "u32 \<Rightarrow> cell list list \<Rightarrow> nat \<Rightarrow> usize \<Rightarrow> usize \<Rightarrow> pax_entry" where
  "page_entry_of page_size rows j off len =
     (word_of_nat j, word_of_nat (j * unat page_size), word_of_nat (length (page_rows (unat page_size) rows j)),
      word_of_nat off, word_of_nat len)"

definition page_entries :: "u32 \<Rightarrow> cell list list \<Rightarrow> nat \<Rightarrow> usize \<Rightarrow> u8 list list \<Rightarrow> pax_entry list" where
  "page_entries page_size rows j start pgs =
     map (\<lambda>k. page_entry_of page_size rows (j + k) (start + length (concat (take k pgs))) (length (pgs ! k))) [0..<length pgs]"

lemma page_entries_Cons:
  "page_entries page_size rows j start (p # pgs) =
     page_entry_of page_size rows j start (length p) # page_entries page_size rows (Suc j) (start + length p) pgs"
proof -
  have "[0..<length (p # pgs)] = 0 # map Suc [0..<length pgs]" by (simp add: upt_conv_Cons map_Suc_upt del: upt_Suc)
  then show ?thesis by (simp add: page_entries_def comp_def add.assoc)
qed

lemma pax_pages_step:
  assumes "0 < page_size" and "length rows < 2 ^ 32" and "j < pages_of (length rows) (unat page_size)"
  shows "pax_pages page_size kc sigils rows start (word_of_nat j) (word_of_nat (j * unat page_size)) (j * unat page_size) data pages
    = (case page_of page_size kc sigils rows j of
         Err e \<Rightarrow> Some (Err e)
       | Panic \<Rightarrow> Some Panic
       | Ok page \<Rightarrow>
           (let i = min (length rows) (Suc j * unat page_size) in
            pax_pages page_size kc sigils rows start (word_of_nat (Suc j)) (word_of_nat i) i (data @ page)
              (pages @ [page_entry_of page_size rows j (start + length data) (length page)])))"
proof -
  let ?ps = "unat page_size" let ?i = "j * ?ps" let ?k = "length rows - ?i"
  have ps: "0 < ?ps" using assms(1) by (simp add: word_less_nat_alt)
  have i: "?i < length rows" using page_below[OF ps] assms(3) by blast
  have k: "?k < 2 ^ 32" using assms(2) by simp
  define c where "c = min (word_of_nat ?k) page_size"
  have c: "unat c = min ?k ?ps" unfolding c_def by (rule page_count_word[OF k])
  have nxt: "?i + unat c = min (length rows) (Suc j * ?ps)" using i by (auto simp: c min_def)
  have rows: "seg rows ?i (min (length rows) (Suc j * ?ps)) = page_rows ?ps rows j"
    by (simp add: page_rows_def add.commute)
  have len: "length (page_rows ?ps rows j) = unat c" using c by simp
  have w: "c = word_of_nat (length (page_rows ?ps rows j))" unfolding len by simp
  have rs: "word_of_nat ?i + ucast c = (word_of_nat (min (length rows) (Suc j * ?ps)) :: u64)"
  proof -
    have "(ucast c :: u64) = word_of_nat (unat c)" by (simp add: unsigned_ucast_eq)
    then show ?thesis unfolding nxt[symmetric] by simp
  qed
  have sj: "word_of_nat j + 1 = (word_of_nat (Suc j) :: u32)" and cond: "(length rows \<le> ?i) = False" using i by simp_all
  show ?thesis
    by (subst pax_pages.simps)
      (simp only: cond if_False Let_def c_def[symmetric] rows nxt rs sj page_of_def page_entry_of_def w[symmetric])
qed

text \<open>Below \<open>2 ^ 32\<close> records the loop returns: it encodes the pages in order and stops at the first error.\<close>

lemma pax_pages_result:
  assumes ps: "0 < page_size" and n: "length rows < 2 ^ 32" and "j \<le> pages_of (length rows) (unat page_size)"
  shows "pax_pages page_size kc sigils rows start (word_of_nat j) (word_of_nat (min (length rows) (j * unat page_size)))
      (min (length rows) (j * unat page_size)) data pages
    = Some (rbind (rmap (page_of page_size kc sigils rows) [j..<pages_of (length rows) (unat page_size)])
        (\<lambda>pgs. Ok (data @ concat pgs, pages @ page_entries page_size rows j (start + length data) pgs)))"
  using assms(3)
proof (induction "pages_of (length rows) (unat page_size) - j" arbitrary: j data pages)
  case 0
  then have j: "j = pages_of (length rows) (unat page_size)" by simp
  have "length rows \<le> j * unat page_size"
    using page_below[of "unat page_size" j "length rows"] ps unfolding j by (auto simp: word_less_nat_alt)
  then show ?case unfolding j[symmetric] by (subst pax_pages.simps) (simp add: page_entries_def)
next
  case (Suc d)
  let ?np = "pages_of (length rows) (unat page_size)" let ?f = "page_of page_size kc sigils rows"
  from Suc(2) have j: "j < ?np" by simp
  then have "j * unat page_size < length rows"
    using page_below[of "unat page_size" j "length rows"] ps by (auto simp: word_less_nat_alt)
  then have i: "min (length rows) (j * unat page_size) = j * unat page_size" by simp
  have upt: "[j..<?np] = j # [Suc j..<?np]" using j by (simp add: upt_conv_Cons)
  show ?case
  proof (cases "?f j")
    case (Ok page)
    show ?thesis
      unfolding i upt pax_pages_step[OF ps n j] Ok res.case Let_def
      by (subst Suc(1)) (use Suc(2) j in \<open>simp_all add: Ok rbind_assoc page_entries_Cons add.assoc\<close>)
  next
    case (Err e)
    then show ?thesis unfolding i upt pax_pages_step[OF ps n j] by simp
  next
    case Panic
    then show ?thesis unfolding i upt pax_pages_step[OF ps n j] by simp
  qed
qed

text \<open>From \<open>2 ^ 32\<close> records on the loop never gets to the end: the rows left stay above a multiple of \<open>2 ^ 32\<close>.\<close>

lemma pax_pages_stuck:
  assumes "pax_pages page_size kc sigils rows start page_idx rec_start i data pages = Some y"
    and "2 ^ 32 \<le> length rows - i"
  shows "y \<noteq> Ok z"
  using assms
proof (induction page_size kc sigils rows start page_idx rec_start i data pages y rule: pax_pages.raw_induct[rotated, consumes 1, case_names step])
  case (step pax_pages page_size kc sigils rows start page_idx rec_start i data pages y)
  let ?k = "length rows - i" let ?c = "min (word_of_nat ?k) page_size"
  have "\<not> length rows \<le> i" using step(3) by auto
  note body = step(2)[unfolded if_not_P[OF this] Let_def]
  have "unat ?c \<le> unat (word_of_nat ?k :: u32)" by (simp add: min_def word_le_nat_alt)
  also have "\<dots> = ?k mod 2 ^ 32" by (simp add: unat_of_nat take_bit_eq_mod)
  finally have c: "unat ?c \<le> ?k mod 2 ^ 32" .
  have "?k mod 2 ^ 32 + 2 ^ 32 \<le> ?k"
    using step(3) by (metis add.commute le_add_diff_inverse2 le_mod_geq mod_less_eq_dividend nat_add_left_cancel_le)
  then have more: "2 ^ 32 \<le> length rows - (i + unat ?c)" using c by linarith
  show ?case
  proof (cases "encode_page page_idx rec_start ?c kc sigils (seg rows i (i + unat ?c))")
    case (Ok page)
    show ?thesis using body unfolding Ok res.case by (rule step(1)[OF _ more])
  qed (use body in auto)
qed

text \<open>
  C18: Emitting a PAX file returns -- a file or an error -- for every page size as long as there are fewer
  than \<open>2 ^ 32\<close> records.  From \<open>2 ^ 32\<close> records on it never yields a file: the count of the records left
  is truncated to 32 bits, reaches zero, and the loop goes on emitting empty pages without an end.
\<close>

theorem finish_pax_returns:
  "if page_size = 0 \<or> length rows < 2 ^ 32
   then \<exists>y. finish_pax keys rows page_size = Some y
   else \<forall>data. finish_pax keys rows page_size \<noteq> Some (Ok data)"
proof (cases "page_size = 0 \<or> length rows < 2 ^ 32")
  case True
  show ?thesis
  proof (cases "page_size = 0")
    case ps: False
    then have "\<exists>y. pax_pages page_size kc sigils rows start 0 0 0 [] [] = Some y" for kc sigils start
      using pax_pages_result[of page_size rows 0] True by (simp add: word_greater_zero_iff)
    then show ?thesis using True by (auto simp: finish_pax_def Let_def)
  qed (simp add: finish_pax_def)
next
  case False
  then have "pax_pages page_size kc sigils rows start 0 0 0 [] [] \<noteq> Some (Ok z)" for kc sigils start z
    using pax_pages_stuck[of page_size kc sigils rows start 0 0 0 "[]" "[]"] by fastforce
  then have "finish_pax keys rows page_size \<noteq> Some (Ok data)" for data
    using False by (auto simp: finish_pax_def Let_def res_simps)
  then show ?thesis using False by simp
qed

section \<open>The file\<close>

text \<open>What a PAX file consists of: pages one after the other, then the entries and the footer.\<close>

definition pax_file :: "rstring list \<Rightarrow> cell list list \<Rightarrow> u32 \<Rightarrow> u8 list list \<Rightarrow> u8 list" where
  "pax_file keys rows page_size pgs =
     (let sb = build_schema keys (sigils_for_keys keys rows); start = 32 + length sb; tail = start + length (concat pgs) in
      layout_preamble FLAG_PAX sb tail @ sb @ concat pgs
      @ concat (map pax_entry_bytes (page_entries page_size rows 0 start pgs))
      @ u64_le (word_of_nat tail) @ u64_le (word_of_nat (length rows)) @ u32_le (word_of_nat (length pgs))
      @ u32_le page_size @ u32_le MAGIC_FOOTER)"

lemma finish_pax_eq:
  assumes "0 < page_size" and "length rows < 2 ^ 32"
  shows "finish_pax keys rows page_size = Some (rbind (rmap (page_of page_size (length keys) (sigils_for_keys keys rows) rows)
      [0..<pages_of (length rows) (unat page_size)]) (\<lambda>pgs. Ok (pax_file keys rows page_size pgs)))"
proof -
  let ?sb = "build_schema keys (sigils_for_keys keys rows)" let ?start = "32 + length ?sb"
  let ?r = "rmap (page_of page_size (length keys) (sigils_for_keys keys rows) rows) [0..<pages_of (length rows) (unat page_size)]"
  have "pax_pages page_size (length keys) (sigils_for_keys keys rows) rows ?start 0 0 0 [] []
      = Some (rbind ?r (\<lambda>pgs. Ok (concat pgs, page_entries page_size rows 0 ?start pgs)))"
    using pax_pages_result[OF assms, of 0 "length keys" "sigils_for_keys keys rows" ?start "[]" "[]"] by simp
  then show ?thesis using assms(1)
    by (cases ?r) (auto simp: finish_pax_def Let_def pax_file_def page_entries_def word_greater_zero_iff)
qed

lemma finish_pax_file:
  assumes "finish_pax keys rows page_size = Some (Ok data)" and "length rows < 2 ^ 32"
  obtains pgs where "0 < page_size" "data = pax_file keys rows page_size pgs"
    "rmap (page_of page_size (length keys) (sigils_for_keys keys rows) rows) [0..<pages_of (length rows) (unat page_size)] = Ok pgs"
proof -
  have ps: "0 < page_size" using assms(1) by (auto simp: finish_pax_def word_greater_zero_iff)
  then show ?thesis using assms(1) that unfolding finish_pax_eq[OF ps assms(2)] by (auto simp: res_simps)
qed

text \<open>The columns of a page.\<close>

lemma encode_page_images:
  assumes "encode_page p rs rc (length keys) (sigils_for_keys keys rows) prow = Ok page"
  defines "cols \<equiv> map (\<lambda>slot. column_image (column_sigil rows slot) (column_of prow slot)) [0..<length keys]"
  shows "\<exists>post. page = u32_le MAGIC_PAGE @ u32_le p @ u64_le rs @ u32_le rc @ u16_le (word_of_nat (length keys)) @ u16_le 0
      @ concat cols @ post"
    and "slot < length keys \<Longrightarrow> is_var_sigil (column_sigil rows slot) \<Longrightarrow> length (var_values (column_of prow slot)) \<le> 0xFFFFFFFF"
proof -
  from assms(1) obtain bufs where bufs: "rmap (\<lambda>i. encode_field_column (length prow) (map (\<lambda>row. cell_at row i) prow)
      (case get_at (sigils_for_keys keys rows) i of Some s \<Rightarrow> s | None \<Rightarrow> SIGIL_INT)) [0..<length keys] = Ok bufs"
    and page: "\<exists>post. page = u32_le MAGIC_PAGE @ u32_le p @ u64_le rs @ u32_le rc @ u16_le (word_of_nat (length keys)) @ u16_le 0
      @ concat bufs @ post"
    by (auto simp: encode_page_def Let_def res_simps pad8_def)
  have l: "length bufs = length keys" using rmap_Ok_length[OF bufs] by simp
  have enc: "encode_field_column (length prow) (column_of prow slot) (column_sigil rows slot) = Ok (bufs ! slot)"
    if "slot < length keys" for slot
    using bufs that l by (simp add: rmap_Ok_iff list_all2_conv_all_nth column_of_def)
  have "bufs = cols" using l encode_field_column_image(1)[OF enc] by (intro nth_equalityI) (simp_all add: cols_def)
  then show "\<exists>post. page = u32_le MAGIC_PAGE @ u32_le p @ u64_le rs @ u32_le rc @ u16_le (word_of_nat (length keys)) @ u16_le 0
      @ concat cols @ post" using page by simp
  show "slot < length keys \<Longrightarrow> is_var_sigil (column_sigil rows slot) \<Longrightarrow> length (var_values (column_of prow slot)) \<le> 0xFFFFFFFF"
    using encode_field_column_image(2)[OF enc] by simp
qed

end
