(* ===== verification/Pax_Files.thy ===== *)
theory Pax_Files
  imports Pax_Writer
begin

text \<open>
  PAX files are read back: \<open>finish_pax\<close> of \<^verbatim>\<open>rust/src/layout.rs\<close> against the reader of
  \<^verbatim>\<open>rust/src/query.rs\<close>, with its binary search for the page of a record.
\<close>

section \<open>Opening\<close>

definition pax_start :: "rstring list \<Rightarrow> cell list list \<Rightarrow> usize" where
  "pax_start keys rows = 32 + length (build_schema keys (sigils_for_keys keys rows))"

definition pax_reader :: "rstring list \<Rightarrow> cell list list \<Rightarrow> u8 list \<Rightarrow> usize \<Rightarrow> reader" where
  "pax_reader keys rows data tail =
     \<lparr>r_data = data, r_flags = or FLAG_SCHEMA_EMBEDDED FLAG_PAX, r_keys = keys, r_key_sigils = sigils_for_keys keys rows,
      r_ext_schema = None, r_cell_plan = None, r_key_index = (\<lambda>k. position k keys), r_record_count = length rows,
      r_tail_start = tail, r_delta_tail = None, r_layout = Pax, r_col_buf_off = [], r_col_buf_len = []\<rparr>"

lemma length_pax_entry_bytes [simp]: "length (pax_entry_bytes e) = 28"
  by (cases e) (simp add: pax_entry_bytes_def)

lemma length_pax_entries [simp]: "length (concat (map pax_entry_bytes es)) = length es * 28"
  by (induction es) simp_all

lemma length_page_entries [simp]: "length (page_entries page_size rows j start pgs) = length pgs"
  by (simp add: page_entries_def)

lemma open_pax:
  assumes data: "data = pax_file keys rows page_size pgs" and keys: "keys_ok keys" and fits: "fits data"
    and n: "length rows < 2 ^ 32" and np: "length pgs < 2 ^ 32"
  shows "reader_new data = Ok (pax_reader keys rows data (pax_start keys rows + length (concat pgs)))"
    and "page_count (pax_reader keys rows data (pax_start keys rows + length (concat pgs))) = Ok (length pgs)"
proof -
  let ?sb = "build_schema keys (sigils_for_keys keys rows)" let ?tail = "pax_start keys rows + length (concat pgs)"
  let ?entries = "concat (map pax_entry_bytes (page_entries page_size rows 0 (pax_start keys rows) pgs))"
  let ?pre = "layout_preamble FLAG_PAX ?sb ?tail @ ?sb @ concat pgs @ ?entries"
  let ?fl = "or FLAG_SCHEMA_EMBEDDED FLAG_PAX"
  have d: "data = ?pre @ u64_le (word_of_nat ?tail) @ u64_le (word_of_nat (length rows)) @ u32_le (word_of_nat (length pgs))
      @ u32_le page_size @ u32_le MAGIC_FOOTER"
    by (simp add: data pax_file_def Let_def pax_start_def)
  have len: "length data = ?tail + length pgs * 28 + 28" by (simp add: d pax_start_def)
  have small: "unat (word_of_nat ?tail :: u64) = ?tail" "unat (word_of_nat (length rows) :: u64) = length rows"
    by (rule unat_u64, use len fits n in \<open>simp add: lims\<close>)+
  have rt: "rd_u64 data (length data - 28) = Ok (word_of_nat ?tail)"
    by (rule u64c.rd_at[OF fits, of ?pre]) (simp_all add: d)
  have rn: "rd_u64 data (length data - 28 + 8) = Ok (word_of_nat (length rows))"
    by (rule u64c.rd_at[OF fits, of "?pre @ u64_le (word_of_nat ?tail)"]) (simp_all add: d)
  have rc: "rd_u32 data (length data - 28 + 16) = Ok (word_of_nat (length pgs))"
    by (rule u32c.rd_at[OF fits, of "?pre @ u64_le (word_of_nat ?tail) @ u64_le (word_of_nat (length rows))"]) (simp_all add: d)
  have ft: "footer_size ?fl = 28" "footer_size FLAG_PAX = 28" by code_simp+
  have tl: "reader_tail data ?fl (length keys) (word_of_nat ?tail) = Ok (Pax, length rows, ?tail, [], [], None)"
    using rt rn small ft layout_flags(4,5)[of FLAG_PAX]
    by (simp add: reader_tail_def pax_tail_def FLAG_PAX_def FLAG_COLUMNAR_def)
  have nz: "0 \<notin> set (sigils_for_keys keys rows)" by (auto simp: sigils_for_keys_def column_sigil_nonzero)
  show "reader_new data = Ok (pax_reader keys rows data ?tail)"
    unfolding pax_reader_def
    by (rule reader_new_layout[OF fits _ _ keys _ nz tl, where rest = "concat pgs @ ?entries
        @ u64_le (word_of_nat ?tail) @ u64_le (word_of_nat (length rows)) @ u32_le (word_of_nat (length pgs)) @ u32_le page_size"
        and sb = ?sb]) (simp_all add: d)
  have "unat (word_of_nat (length pgs) :: u32) = length pgs" using np by (simp add: unat_of_nat take_bit_nat_eq_self)
  then show "page_count (pax_reader keys rows data ?tail) = Ok (length pgs)"
    using rc ft len by (simp add: page_count_def pax_reader_def)
qed

section \<open>The tail index\<close>

text \<open>What the reader needs to know about the pages: their entries, and where they lie.\<close>

definition pax_holds :: "reader \<Rightarrow> u32 \<Rightarrow> cell list list \<Rightarrow> usize \<Rightarrow> u8 list list \<Rightarrow> bool" where
  "pax_holds r page_size rows start pgs \<longleftrightarrow>
     (\<forall>p < length pgs.
        pax_page_rec_start r p = Some (word_of_nat (p * unat page_size))
      \<and> pax_page_rec_count r p = Some (word_of_nat (length (page_rows (unat page_size) rows p)))
      \<and> (\<exists>e. page_entry r p = Some e \<and> e + 28 \<le> length (r_data r)
           \<and> get_range (r_data r) (e + 16) (e + 24) = Some (u64_le (word_of_nat (start + length (concat (take p pgs))))))
      \<and> (\<exists>xs ys. r_data r = xs @ pgs ! p @ ys \<and> length xs = start + length (concat (take p pgs)) \<and> 28 \<le> length ys))"

lemma open_pax_holds:
  assumes data: "data = pax_file keys rows page_size pgs" and fits: "fits data"
  shows "pax_holds (pax_reader keys rows data (pax_start keys rows + length (concat pgs))) page_size rows (pax_start keys rows) pgs"
  unfolding pax_holds_def
proof (intro allI impI conjI)
  fix p
  assume p: "p < length pgs"
  let ?tail = "pax_start keys rows + length (concat pgs)" let ?r = "pax_reader keys rows data ?tail"
  let ?es = "page_entries page_size rows 0 (pax_start keys rows) pgs" let ?off = "pax_start keys rows + length (concat (take p pgs))"
  let ?sb = "build_schema keys (sigils_for_keys keys rows)"
  let ?pre = "layout_preamble FLAG_PAX ?sb ?tail @ ?sb @ concat pgs" let ?e = "?tail + p * 28"
  let ?foot = "u64_le (word_of_nat ?tail) @ u64_le (word_of_nat (length rows)) @ u32_le (word_of_nat (length pgs))
      @ u32_le page_size @ u32_le MAGIC_FOOTER"
  have d0: "data = ?pre @ concat (map pax_entry_bytes ?es) @ ?foot"
    by (simp add: data pax_file_def Let_def pax_start_def)
  have "?es ! p = page_entry_of page_size rows p ?off (length (pgs ! p))" using p by (simp add: page_entries_def)
  then have es: "concat (map pax_entry_bytes ?es) = concat (map pax_entry_bytes (take p ?es))
      @ pax_entry_bytes (page_entry_of page_size rows p ?off (length (pgs ! p))) @ concat (map pax_entry_bytes (drop (Suc p) ?es))"
    using p by (subst id_take_nth_drop[of p ?es]) simp_all
  define xs where "xs = ?pre @ concat (map pax_entry_bytes (take p ?es))"
  define ys where "ys = concat (map pax_entry_bytes (drop (Suc p) ?es)) @ ?foot"
  let ?cnt = "word_of_nat (length (page_rows (unat page_size) rows p)) :: u32"
  have lx: "length xs = ?e" using p by (simp add: xs_def pax_start_def)
  have d: "data = xs @ (u32_le (word_of_nat p) @ u64_le (word_of_nat (p * unat page_size)) @ u32_le ?cnt
      @ u64_le (word_of_nat ?off) @ u32_le (word_of_nat (length (pgs ! p)))) @ ys"
    using d0 unfolding es by (simp add: xs_def ys_def page_entry_of_def pax_entry_bytes_def)
  have le: "?e + 28 \<le> length data" using lx by (simp add: d)
  then have e: "page_entry ?r p = Some ?e"
    using fits by (simp add: page_entry_def pax_reader_def PAX_TAIL_ENTRY_BYTES_def lims)
  have seg1: "seg data (?e + 4) (?e + 12) = u64_le (word_of_nat (p * unat page_size))"
    by (rule seg_at[of data "xs @ u32_le (word_of_nat p)"]) (use lx in \<open>simp_all add: d\<close>)
  have seg2: "seg data (?e + 12) (?e + 16) = u32_le ?cnt"
    by (rule seg_at[of data "xs @ u32_le (word_of_nat p) @ u64_le (word_of_nat (p * unat page_size))"]) (use lx in \<open>simp_all add: d\<close>)
  have seg3: "seg data (?e + 16) (?e + 24) = u64_le (word_of_nat ?off)"
    by (rule seg_at[of data "xs @ u32_le (word_of_nat p) @ u64_le (word_of_nat (p * unat page_size)) @ u32_le ?cnt"])
      (use lx in \<open>simp_all add: d\<close>)
  have rd: "r_data ?r = data" by (simp add: pax_reader_def)
  show "pax_page_rec_start ?r p = Some (word_of_nat (p * unat page_size))"
    using le fits seg1 by (simp add: pax_page_rec_start_def e rd lims del: of_nat_mult)
  show "pax_page_rec_count ?r p = Some ?cnt"
    using le fits seg2 by (simp add: pax_page_rec_count_def e rd lims)
  show "\<exists>e. page_entry ?r p = Some e \<and> e + 28 \<le> length (r_data ?r)
      \<and> get_range (r_data ?r) (e + 16) (e + 24) = Some (u64_le (word_of_nat ?off))"
    using le seg3 by (simp add: e rd)
  have "concat pgs = concat (take p pgs) @ pgs ! p @ concat (drop (Suc p) pgs)"
    using p by (subst id_take_nth_drop[of p pgs]) simp_all
  then have "data = (layout_preamble FLAG_PAX ?sb ?tail @ ?sb @ concat (take p pgs)) @ pgs ! p
      @ (concat (drop (Suc p) pgs) @ concat (map pax_entry_bytes ?es) @ ?foot)"
    using d0 by simp
  then show "\<exists>xs ys. r_data ?r = xs @ pgs ! p @ ys \<and> length xs = ?off \<and> 28 \<le> length ys"
    unfolding rd by (intro exI conjI) (assumption, simp_all add: pax_start_def)
qed

section \<open>The binary search\<close>

lemma page_mid_small:
  assumes "lo \<le> h" and "lo + h < 2 ^ 31"
  shows "page_mid lo (word_of_nat h) = (lo + h) div 2"
proof -
  have "sint (word_of_nat lo + word_of_nat h :: 32 word) = int (lo + h)"
  proof -
    have "(word_of_nat lo + word_of_nat h :: 32 word) = word_of_nat (lo + h)" by simp
    then show ?thesis using assms(2)
      by (simp only: sint_uint unsigned_of_nat) (simp add: signed_take_bit_int_eq_self take_bit_nat_eq_self)
  qed
  then have "page_mid lo (word_of_nat h) = nat (int ((lo + h) div 2) mod 2 ^ 64)"
    by (simp only: page_mid_def sdiv_2_nat)
  then show ?thesis using assms(2) by simp
qed

lemma sint_small: "h < 2 ^ 31 \<Longrightarrow> sint (word_of_nat h :: 32 word) = int h"
  by (simp add: sint_uint unsigned_of_nat signed_take_bit_int_eq_self take_bit_nat_eq_self)

text \<open>Contiguous pages: page \<open>p\<close> holds the records from \<open>p * ps\<close> on, at most \<open>ps\<close> of them.\<close>

lemma locate_finds:
  assumes holds: "pax_holds r page_size rows start pgs" and ps: "0 < unat page_size" and n: "length rows < 2 ^ 32"
    and np: "length pgs = pages_of (length rows) (unat page_size)" "length pgs \<le> 2 ^ 30" and i: "i < length rows"
    and "lo \<le> i div unat page_size" and "i div unat page_size \<le> h" and "h < length pgs"
  shows "locate_loop r i lo (word_of_nat h) = Some (i div unat page_size, i mod unat page_size)"
  using assms(7-9)
proof (induction "h - lo" arbitrary: lo h rule: less_induct)
  case less
  let ?ps = "unat page_size" let ?p = "i div ?ps" define m where "m = (lo + h) div 2"
  have lh: "lo \<le> h" "lo + h < 2 ^ 31" using less.prems np(2) by simp_all
  have m: "lo \<le> m" "m \<le> h" "m < length pgs" using lh less.prems(3) by (auto simp: m_def)
  have mid: "page_mid lo (word_of_nat h) = m" unfolding m_def by (rule page_mid_small[OF lh])
  have below: "m * ?ps < length rows" using page_below[OF ps] m(3) np(1) by simp
  have st: "pax_page_rec_start r m = Some (word_of_nat (m * ?ps))"
    and ct: "pax_page_rec_count r m = Some (word_of_nat (length (page_rows ?ps rows m)))"
    using holds m(3) by (simp_all add: pax_holds_def)
  have us: "unat (word_of_nat (m * ?ps) :: u64) = m * ?ps" by (rule unat_u64) (use below n in simp)
  have uc: "unat (word_of_nat (length (page_rows ?ps rows m)) :: u32) = min ?ps (length rows - m * ?ps)"
    using n by (simp add: unat_of_nat take_bit_nat_eq_self del: of_nat_diff)
  have end1: "wadd (m * ?ps) (min ?ps (length rows - m * ?ps)) = min (m * ?ps + ?ps) (length rows)"
    using below n by (auto simp: lims min_def)
  have sh: "sint (word_of_nat h :: 32 word) = int h" using lh by (intro sint_small) simp
  have unf: "locate_loop r i lo (word_of_nat h) =
      (if i < m * ?ps then locate_loop r i lo (word_of_nat m - 1)
       else if min (m * ?ps + ?ps) (length rows) \<le> i then locate_loop r i (m + 1) (word_of_nat h)
       else Some (m, i - m * ?ps))"
    by (subst locate_loop.simps) (use lh in \<open>simp add: sh mid st ct us uc end1 Let_def del: of_nat_mult length_page_rows\<close>)
  consider (left) "?p < m" | (right) "m < ?p" | (here) "m = ?p" by linarith
  then show ?case
  proof cases
    case left
    then have "i < m * ?ps" using ps by (metis div_less_iff_less_mult)
    moreover have "word_of_nat m - 1 = (word_of_nat (m - 1) :: 32 word)" using left by (simp add: of_nat_diff)
    moreover have "locate_loop r i lo (word_of_nat (m - 1)) = Some (?p, i mod ?ps)"
      using left less.prems m by (intro less.hyps) simp_all
    ultimately show ?thesis by (simp add: unf)
  next
    case right
    then have "m * ?ps + ?ps \<le> i" using ps by (metis Suc_leI add.commute less_eq_div_iff_mult_less_eq mult_Suc)
    then have "min (m * ?ps + ?ps) (length rows) \<le> i" "\<not> i < m * ?ps" by simp_all
    moreover have "locate_loop r i (m + 1) (word_of_nat h) = Some (?p, i mod ?ps)"
      using right less.prems m by (intro less.hyps) simp_all
    ultimately show ?thesis by (simp add: unf)
  next
    case here
    have "i = m * ?ps + i mod ?ps" unfolding here by simp
    moreover have "i mod ?ps < ?ps" using ps by simp
    ultimately have "m * ?ps \<le> i" "i < m * ?ps + ?ps" "i - m * ?ps = i mod ?ps" by linarith+
    moreover from this have "\<not> i < m * ?ps" "\<not> min (m * ?ps + ?ps) (length rows) \<le> i" using i by simp_all
    ultimately show ?thesis unfolding unf here[symmetric] by simp
  qed
qed

section \<open>The columns of a page\<close>

lemma sector_at_image:
  assumes "r_data r = xs @ column_image sig col @ ys" and "length xs = body" and "length col = rc"
    and "sigil_or_int r fi = sig" and "rc < 2 ^ 59" and "fits (r_data r)"
    and "is_var_sigil sig \<Longrightarrow> length (var_values col) \<le> 0xFFFFFFFF"
  shows "sector_at r rc fi body = Ok (length (column_image sig col))"
proof -
  have "seg (r_data r) body (length (r_data r)) = column_image sig col @ ys"
    using assms(1,2) by (simp add: seg_def)
  moreover have "column_sector_len (column_image sig col @ ys) (length col) sig = Ok (length (column_image sig col))"
    using assms by (intro image_sector_len) simp_all
  moreover have "body \<le> length (r_data r)" using assms(1,2) by simp
  ultimately show ?thesis using assms(3,4) by (simp add: sector_at_def)
qed

definition page_cols :: "rstring list \<Rightarrow> cell list list \<Rightarrow> cell list list \<Rightarrow> u8 list list" where
  "page_cols keys rows prow = map (\<lambda>slot. column_image (column_sigil rows slot) (column_of prow slot)) [0..<length keys]"

lemma page_cols_nth [simp]:
  "slot < length keys \<Longrightarrow> page_cols keys rows prow ! slot = column_image (column_sigil rows slot) (column_of prow slot)"
  by (simp add: page_cols_def)

lemma length_page_cols [simp]: "length (page_cols keys rows prow) = length keys"
  by (simp add: page_cols_def)

text \<open>A page in a buffer: the columns follow each other from its byte 24 on.\<close>

definition page_body_at ::
  "reader \<Rightarrow> rstring list \<Rightarrow> cell list list \<Rightarrow> cell list list \<Rightarrow> u8 list \<Rightarrow> u8 list \<Rightarrow> bool"
where
  "page_body_at r keys rows prow xs ys \<longleftrightarrow>
     r_data r = xs @ concat (page_cols keys rows prow) @ ys \<and> fits (r_data r)
   \<and> r_key_sigils r = sigils_for_keys keys rows \<and> length prow < 2 ^ 59
   \<and> (\<forall>slot < length keys. is_var_sigil (column_sigil rows slot) \<longrightarrow> length (var_values (column_of prow slot)) \<le> 0xFFFFFFFF)"

lemma page_body_atD:
  assumes "page_body_at r keys rows prow xs ys"
  shows "fits (r_data r)" and "r_key_sigils r = sigils_for_keys keys rows" and "length prow < 2 ^ 59"
    and "slot < length keys \<Longrightarrow> is_var_sigil (column_sigil rows slot) \<Longrightarrow> length (var_values (column_of prow slot)) \<le> 0xFFFFFFFF"
  using assms unfolding page_body_at_def by blast+

lemma col_split:
  assumes "page_body_at r keys rows prow xs ys" and "slot < length keys"
  shows "r_data r = (xs @ concat (take slot (page_cols keys rows prow)))
    @ column_image (column_sigil rows slot) (column_of prow slot) @ (concat (drop (Suc slot) (page_cols keys rows prow)) @ ys)"
  using assms(2) unfolding conjunct1[OF assms(1)[unfolded page_body_at_def]]
  by (subst id_take_nth_drop[of slot "page_cols keys rows prow"]) simp_all

lemma sector_here:
  assumes "page_body_at r keys rows prow xs ys" and "slot < length keys"
  shows "sector_at r (length prow) slot (length xs + length (concat (take slot (page_cols keys rows prow))))
    = Ok (length (column_image (column_sigil rows slot) (column_of prow slot)))"
  by (rule sector_at_image[OF col_split[OF assms]])
    (use page_body_atD[OF assms(1)] assms(2) in \<open>simp_all add: sigil_or_int_def\<close>)

lemma skip_columns:
  assumes page: "page_body_at r keys rows prow xs ys" and "k \<le> length keys"
  shows "rfold (skip_column r (length prow)) [0..<k] (length xs)
    = Ok (length xs + length (concat (take k (page_cols keys rows prow))))"
  using assms(2)
proof (induction k)
  case (Suc k)
  then have k: "k < length keys" by simp
  let ?here = "length xs + length (concat (take k (page_cols keys rows prow)))"
  have "?here + length (column_image (column_sigil rows k) (column_of prow k)) \<le> length (r_data r)"
    using arg_cong[OF col_split[OF page k], of length] by simp
  then have "skip_column r (length prow) k ?here = Ok (?here + length (column_image (column_sigil rows k) (column_of prow k)))"
    using sector_here[OF page k] page_body_atD(1)[OF page] by (simp add: skip_column_def lims)
  moreover have "take (Suc k) (page_cols keys rows prow) = take k (page_cols keys rows prow) @ [column_image (column_sigil rows k) (column_of prow k)]"
    using k by (simp add: take_Suc_conv_app_nth)
  ultimately show ?case using Suc k by (simp add: rfold_append)
qed simp

text \<open>The sector of a column, found from the index of its page.\<close>

lemma pax_sector:
  assumes holds: "pax_holds r page_size rows start pgs" and p: "p < length pgs" and slot: "slot < length keys"
    and page: "pgs ! p = u32_le MAGIC_PAGE @ u32_le pn @ u64_le rs @ u32_le (word_of_nat (length prow))
        @ u16_le (word_of_nat (length keys)) @ u16_le 0 @ concat (page_cols keys rows prow) @ post"
    and fits: "fits (r_data r)" and sigils: "r_key_sigils r = sigils_for_keys keys rows"
    and small: "length prow < 2 ^ 32" "length keys < 65536"
    and total: "\<And>slot. slot < length keys \<Longrightarrow> is_var_sigil (column_sigil rows slot) \<Longrightarrow>
      length (var_values (column_of prow slot)) \<le> 0xFFFFFFFF"
  shows "pax_column_sector r p slot = Ok (column_image (column_sigil rows slot) (column_of prow slot))"
proof -
  let ?off = "start + length (concat (take p pgs))" let ?img = "column_image (column_sigil rows slot) (column_of prow slot)"
  obtain e where e: "page_entry r p = Some e" "e + 28 \<le> length (r_data r)"
    and off: "get_range (r_data r) (e + 16) (e + 24) = Some (u64_le (word_of_nat ?off))"
    using holds p by (auto simp: pax_holds_def)
  obtain xs ys where d0: "r_data r = xs @ pgs ! p @ ys" "length xs = ?off" "28 \<le> length ys"
    using holds p unfolding pax_holds_def by blast
  let ?hdr = "u32_le MAGIC_PAGE @ u32_le pn @ u64_le rs @ u32_le (word_of_nat (length prow))
      @ u16_le (word_of_nat (length keys)) @ u16_le 0"
  have d: "r_data r = xs @ ?hdr @ concat (page_cols keys rows prow) @ (post @ ys)" by (simp add: d0(1) page)
  have le: "?off + 52 \<le> length (r_data r)" using d0(2,3) by (simp add: d)
  have un: "unat (word_of_nat ?off :: u64) = ?off" by (rule unat_u64) (use le fits in \<open>simp add: lims\<close>)
  have r0: "rd_u32 (r_data r) ?off = Ok MAGIC_PAGE"
    by (rule u32c.rd_at[OF fits, of xs]) (simp_all add: d d0(2))
  have r16: "rd_u32 (r_data r) (?off + 16) = Ok (word_of_nat (length prow))"
    by (rule u32c.rd_at[OF fits, of "xs @ u32_le MAGIC_PAGE @ u32_le pn @ u64_le rs"]) (simp_all add: d d0(2))
  have r20: "rd_u16 (r_data r) (?off + 20) = Ok (word_of_nat (length keys))"
    by (rule u16c.rd_at[OF fits, of "xs @ u32_le MAGIC_PAGE @ u32_le pn @ u64_le rs @ u32_le (word_of_nat (length prow))"])
      (simp_all add: d d0(2))
  have uc: "unat (word_of_nat (length prow) :: u32) = length prow" "unat (word_of_nat (length keys) :: u16) = length keys"
    using small by (simp_all add: unat_of_nat take_bit_nat_eq_self)
  have body: "page_body_at r keys rows prow (xs @ ?hdr) (post @ ys)"
    using d fits sigils small(1) total by (simp add: page_body_at_def)
  let ?at = "?off + 24 + length (concat (take slot (page_cols keys rows prow)))"
  have lh: "length (xs @ ?hdr) = ?off + 24" by (simp add: d0(2))
  have skip: "rfold (skip_column r (length prow)) [0..<slot] (?off + 24) = Ok ?at"
    using skip_columns[OF body, of slot] slot lh by (simp only: less_imp_le)
  have here_sec: "sector_at r (length prow) slot ?at = Ok (length ?img)"
    using sector_here[OF body slot] lh by (simp only:)
  have sp: "r_data r = ((xs @ ?hdr) @ concat (take slot (page_cols keys rows prow))) @ ?img
      @ (concat (drop (Suc slot) (page_cols keys rows prow)) @ post @ ys)" by (rule col_split[OF body slot])
  have le2: "?at + length ?img \<le> length (r_data r)" using arg_cong[OF sp, of length] lh by simp
  moreover have "seg (r_data r) ?at (?at + length ?img) = ?img" by (rule seg_at[OF sp]) (use lh in simp_all)
  ultimately have slc: "slice (r_data r) ?at (?at + length ?img) = Ok ?img" "\<not> length (r_data r) - length ?img < ?at" by simp_all
  have ca: "checked_add e 16 = Some (e + 16)" "checked_add e 24 = Some (e + 24)" "checked_add ?off 24 = Some (?off + 24)"
    using e(2) le fits by (simp_all add: lims)
  have bound: "\<not> length (r_data r) - 24 < ?off" using le by simp
  define off where "off = ?off"
  define here where "here = ?at"
  show ?thesis
    using off un bound r0 r16 r20 skip here_sec slc ca uc slot e(1)
    unfolding here_def[symmetric] off_def[symmetric] by (simp add: pax_column_sector_def)
qed

section \<open>Lookups\<close>

definition stored_pax :: "rstring list \<Rightarrow> cell list list \<Rightarrow> reader \<Rightarrow> bool" where
  "stored_pax keys rows r \<longleftrightarrow> keys_ok keys \<and> length rows < 2 ^ 32
     \<and> (\<exists>page_size data. finish_pax keys rows page_size = Some (Ok data) \<and> fits data \<and> reader_new data = Ok r
          \<and> pages_of (length rows) (unat page_size) \<le> 2 ^ 30)"

text \<open>A record of such a file: its page, its place there, and its columns.\<close>

definition pax_record :: "rstring list \<Rightarrow> cell list list \<Rightarrow> reader \<Rightarrow> nat \<Rightarrow> nat \<Rightarrow> nat \<Rightarrow> cell list list \<Rightarrow> bool" where
  "pax_record keys rows r i p l prow \<longleftrightarrow>
     pax_locate_record r i = Ok (Some (p, l)) \<and> l < length prow \<and> length prow < 2 ^ 32 \<and> prow ! l = rows ! i
   \<and> pax_page_rec_count r p = Some (word_of_nat (length prow))
   \<and> (\<forall>slot < length keys. pax_column_sector r p slot = Ok (column_image (column_sigil rows slot) (column_of prow slot))
        \<and> (is_var_sigil (column_sigil rows slot) \<longrightarrow> length (var_values (column_of prow slot)) \<le> 0xFFFFFFFF))"

lemma stored_pax_opened:
  assumes "stored_pax keys rows r"
  obtains page_size pgs data where "keys_ok keys" "length rows < 2 ^ 32" "fits data" "0 < unat page_size"
    "length pgs = pages_of (length rows) (unat page_size)" "length pgs \<le> 2 ^ 30"
    "r = pax_reader keys rows data (pax_start keys rows + length (concat pgs))"
    "page_count r = Ok (length pgs)" "pax_holds r page_size rows (pax_start keys rows) pgs"
    "rmap (page_of page_size (length keys) (sigils_for_keys keys rows) rows) [0..<length pgs] = Ok pgs"
proof -
  from assms obtain page_size data where a: "keys_ok keys" "length rows < 2 ^ 32" "finish_pax keys rows page_size = Some (Ok data)"
    "fits data" "reader_new data = Ok r" "pages_of (length rows) (unat page_size) \<le> 2 ^ 30"
    by (auto simp: stored_pax_def)
  obtain pgs where p: "0 < page_size" "data = pax_file keys rows page_size pgs"
    and pg: "rmap (page_of page_size (length keys) (sigils_for_keys keys rows) rows) [0..<pages_of (length rows) (unat page_size)] = Ok pgs"
    by (rule finish_pax_file[OF a(3,2)])
  have l: "length pgs = pages_of (length rows) (unat page_size)" using rmap_Ok_length[OF pg] by simp
  then have "length pgs < 2 ^ 32" using a(6) by simp
  note o1 = open_pax[OF p(2) a(1,4,2) this] and o2 = open_pax_holds[OF p(2) a(4)]
  have r: "r = pax_reader keys rows data (pax_start keys rows + length (concat pgs))" using o1(1) a(5) by simp
  show ?thesis
    by (rule that[OF a(1,2,4) _ l _ r]) (use p(1) a(6) l o1(2) o2 pg in \<open>simp_all add: r word_less_nat_alt\<close>)
qed

lemma stored_pax_record:
  assumes "stored_pax keys rows r" and i: "i < length rows"
  shows "\<exists>p l prow. pax_record keys rows r i p l prow"
proof -
  obtain page_size pgs data where keys: "keys_ok keys" and n: "length rows < 2 ^ 32" and fits: "fits data"
    and ps: "0 < unat page_size"
    and np: "length pgs = pages_of (length rows) (unat page_size)" "length pgs \<le> 2 ^ 30"
    and r: "r = pax_reader keys rows data (pax_start keys rows + length (concat pgs))" and pc: "page_count r = Ok (length pgs)"
    and holds: "pax_holds r page_size rows (pax_start keys rows) pgs"
    and pg: "rmap (page_of page_size (length keys) (sigils_for_keys keys rows) rows) [0..<length pgs] = Ok pgs"
    by (rule stored_pax_opened[OF assms(1)])
  let ?ps = "unat page_size" let ?p = "i div ?ps" let ?prow = "page_rows ?ps rows ?p"
  have pi: "?p * ?ps + i mod ?ps = i" "i mod ?ps < ?ps" using ps by simp_all
  then have "?p * ?ps < length rows" using i by linarith
  then have p: "?p < length pgs" using page_below[OF ps, of ?p "length rows"] np(1) by simp
  have loc: "pax_locate_record r i = Ok (Some (?p, i mod ?ps))"
    using locate_finds[OF holds ps n np i, of 0 "length pgs - 1"] p pc by (simp add: pax_locate_record_def)
  have small: "length ?prow < 2 ^ 32" using n by simp
  have lrow: "i mod ?ps < length ?prow" "?prow ! (i mod ?ps) = rows ! i"
    using pi i page_rows_nth[of "i mod ?ps" ?ps ?p rows] by (simp_all del: div_mult_mod_eq, linarith)
  have "page_of page_size (length keys) (sigils_for_keys keys rows) rows ?p = Ok (pgs ! ?p)"
    using pg p by (simp add: rmap_Ok_iff list_all2_conv_all_nth)
  then have enc: "encode_page (word_of_nat ?p) (word_of_nat (?p * ?ps)) (word_of_nat (length ?prow)) (length keys)
      (sigils_for_keys keys rows) ?prow = Ok (pgs ! ?p)"
    by (simp only: page_of_def Let_def)
  obtain post where page: "pgs ! ?p = u32_le MAGIC_PAGE @ u32_le (word_of_nat ?p) @ u64_le (word_of_nat (?p * ?ps))
      @ u32_le (word_of_nat (length ?prow)) @ u16_le (word_of_nat (length keys)) @ u16_le 0
      @ concat (page_cols keys rows ?prow) @ post"
    using encode_page_images(1)[OF enc] unfolding page_cols_def by blast
  note total = encode_page_images(2)[OF enc]
  have kc: "length keys < 65536" using keys by (simp add: keys_ok_def)
  have flds: "fits (r_data r)" "r_key_sigils r = sigils_for_keys keys rows" using fits by (simp_all add: r pax_reader_def)
  have "pax_column_sector r ?p slot = Ok (column_image (column_sigil rows slot) (column_of ?prow slot))"
    if "slot < length keys" for slot
    by (rule pax_sector[OF holds p that page flds small kc total])
  moreover have "pax_page_rec_count r ?p = Some (word_of_nat (length ?prow))" using holds p by (simp only: pax_holds_def)
  ultimately have "pax_record keys rows r i ?p (i mod ?ps) ?prow"
    using loc small lrow total by (simp only: pax_record_def) blast
  then show ?thesis by blast
qed

lemma pax_values:
  assumes "pax_record keys rows r i p l prow" and "slot < length keys" and "r_key_sigils r = sigils_for_keys keys rows"
  shows "pax_get_fixed get_u64 r i slot = Ok (cell_word (column_sigil rows slot) (cell_at (rows ! i) slot))"
    and "pax_get_fixed read_flag r i slot = Ok (cell_flag (column_sigil rows slot) (cell_at (rows ! i) slot))"
    and "pax_get_str r i slot =
      Ok (if column_sigil rows slot = SIGIL_STR then cell_text SIGIL_STR (cell_at (rows ! i) slot) else None)"
proof -
  let ?c = "column_of prow slot" let ?sig = "column_sigil rows slot"
  note rec = assms(1)[unfolded pax_record_def]
  have l: "l < length ?c" "length ?c < 2 ^ 59" "?c ! l = cell_at (rows ! i) slot" using rec by simp_all
  have sec: "pax_column_sector r p slot = Ok (column_image ?sig ?c)"
    and total: "is_var_sigil ?sig \<Longrightarrow> length (var_values ?c) \<le> 0xFFFFFFFF" using rec assms(2) by blast+
  have cnt: "pax_page_rec_count r p = Some (word_of_nat (length ?c))" "unat (word_of_nat (length ?c) :: u32) = length ?c"
    using rec by (simp_all add: unat_of_nat take_bit_nat_eq_self)
  have loc: "pax_locate_record r i = Ok (Some (p, l))" using rec by blast
  have sig: "get_at (r_key_sigils r) slot = Some ?sig" using assms(2,3) by simp
  have parts: "pax_page_field_parts r p slot = Ok (bitmap_of ?c, concat (map (cell_slot ?sig) ?c))" if "\<not> is_var_sigil ?sig"
    using image_fixed_parts[OF that, of ?c] by (simp only: pax_page_field_parts_def sec cnt ok_or_simps rbind.simps Let_def) simp
  have var_parts: "pax_page_field_var_parts r p slot = Ok (bitmap_of ?c, var_offsets ?c, var_values ?c)" if "is_var_sigil ?sig"
    using image_var_parts[OF that l(2)] by (simp only: pax_page_field_var_parts_def sec cnt ok_or_simps rbind.simps)
  show "pax_get_fixed get_u64 r i slot = Ok (cell_word ?sig (cell_at (rows ! i) slot))"
    using parts image_values(1)[OF l(1,2), of ?sig] by (simp add: pax_get_fixed_def loc sig l(3) cell_word_def)
  show "pax_get_fixed read_flag r i slot = Ok (cell_flag ?sig (cell_at (rows ! i) slot))"
    using parts image_values(2)[OF l(1,2), of ?sig] by (simp add: pax_get_fixed_def loc sig l(3) cell_word_def cell_flag_def)
  show "pax_get_str r i slot = Ok (if ?sig = SIGIL_STR then cell_text SIGIL_STR (cell_at (rows ! i) slot) else None)"
    using var_parts image_values(3)[OF l(1,2) total] by (simp add: pax_get_str_def loc sig l(3) is_var_sigil_def)
qed

text \<open>A PAX file is a source of columns.\<close>

interpretation pax: column_source stored_pax "pax_get_fixed get_u64" "pax_get_fixed read_flag" pax_get_str
proof
  fix keys :: "rstring list" and rows r i slot key s and t :: "u64 \<Rightarrow> bool" and u :: "bool \<Rightarrow> bool"
  assume st: "stored_pax keys rows r"
  then obtain data tail where r: "r = pax_reader keys rows data tail" by (rule stored_pax_opened)
  show "r_layout r \<noteq> Row \<and> r_record_count r = length rows
      \<and> r_key_index r = (\<lambda>k. position k keys) \<and> r_key_sigils r = sigils_for_keys keys rows"
    by (simp add: r pax_reader_def)
  assume i: "i < length rows" and slot: "slot < length keys"
  obtain p l prow where rec: "pax_record keys rows r i p l prow" using stored_pax_record[OF st i] by blast
  have flds: "r_key_sigils r = sigils_for_keys keys rows" "r_layout r = Pax" by (simp_all add: r pax_reader_def)
  note vals = pax_values[OF rec slot flds(1)]
  show "pax_get_fixed get_u64 r i slot = Ok (cell_word (column_sigil rows slot) (cell_at (rows ! i) slot))"
    and "pax_get_fixed read_flag r i slot = Ok (cell_flag (column_sigil rows slot) (cell_at (rows ! i) slot))"
    by (rule vals(1), rule vals(2))
  show "pax_get_str r i slot = Ok (cell_text SIGIL_STR (cell_at (rows ! i) slot))" if "column_sigil rows slot = SIGIL_STR"
    using vals(3) that by simp
  assume key: "reader_slot r key = Some slot"
  show "get_i64 r i key = pax_get_fixed get_u64 r i slot \<and> get_f64 r i key = pax_get_fixed get_u64 r i slot
      \<and> get_bool r i key = pax_get_fixed read_flag r i slot
      \<and> get_str r i key = (if column_sigil rows slot = SIGIL_STR then pax_get_str r i slot else Ok None)"
    using key vals(3) by (simp add: get_i64_def get_f64_def get_bool_def get_str_def flds(2))
  show "test_fixed get_u64 r i key t = test_value (pax_get_fixed get_u64 r i slot) t
      \<and> test_fixed read_flag r i key u = test_value (pax_get_fixed read_flag r i slot) u
      \<and> test_str r i key s = test_value (pax_get_str r i slot) (\<lambda>v. v = s)"
    using key by (simp add: test_fixed_def test_str_def flds(2))
qed

lemma pax_opens:
  assumes "finish_pax keys rows page_size = Some (Ok data)" and "keys_ok keys" and "fits data"
    and "length rows < 2 ^ 32" and "pages_of (length rows) (unat page_size) \<le> 2 ^ 30"
  obtains tail where "reader_new data = Ok (pax_reader keys rows data tail)" "stored_pax keys rows (pax_reader keys rows data tail)"
proof -
  obtain pgs where p: "data = pax_file keys rows page_size pgs"
    and pg: "rmap (page_of page_size (length keys) (sigils_for_keys keys rows) rows) [0..<pages_of (length rows) (unat page_size)] = Ok pgs"
    by (rule finish_pax_file[OF assms(1,4)])
  have "length pgs < 2 ^ 32" using rmap_Ok_length[OF pg] assms(5) by simp
  then have o1: "reader_new data = Ok (pax_reader keys rows data (pax_start keys rows + length (concat pgs)))" (is "_ = Ok ?r")
    by (rule open_pax(1)[OF p assms(2-4)])
  moreover have "stored_pax keys rows ?r" using assms o1 by (auto simp: stored_pax_def)
  ultimately show thesis by (rule that)
qed

text \<open>
  C8: A PAX file written from a table of fewer than \<open>2 ^ 32\<close> records in at most \<open>2 ^ 30\<close> pages opens, and
  every lookup of a record under a name -- the binary search for its page, the walk over the columns of
  the page, the cell -- returns the cell of the table.
\<close>

theorem pax_roundtrip:
  assumes "finish_pax keys rows page_size = Some (Ok data)" and "keys_ok keys" and "fits data"
    and "length rows < 2 ^ 32" and "pages_of (length rows) (unat page_size) \<le> 2 ^ 30"
  shows "\<exists>r. reader_new data = Ok r \<and> r_record_count r = length rows \<and> r_keys r = keys
    \<and> (\<forall>i < length rows. \<forall>key.
         get_i64 r i key = Ok (lookup keys rows cell_word i key) \<and> get_f64 r i key = Ok (lookup keys rows cell_word i key)
         \<and> get_bool r i key = Ok (lookup keys rows cell_flag i key) \<and> get_str r i key = Ok (lookup keys rows cell_text i key))"
proof -
  obtain tail where "reader_new data = Ok (pax_reader keys rows data tail)" "stored_pax keys rows (pax_reader keys rows data tail)"
    by (rule pax_opens[OF assms])
  then show ?thesis using pax.lookups[of keys rows "pax_reader keys rows data tail"]
    by (intro exI[of _ "pax_reader keys rows data tail"]) (simp add: pax_reader_def)
qed

text \<open>Encoding a table whose pages can be encoded.\<close>

lemma finish_pax_ok:
  assumes "0 < page_size" and "length rows < 2 ^ 32" and "length keys = kc"
    and "map_res (\<lambda>b. (length b, length (concat b)))
      (rmap (page_of page_size kc (sigils_for_keys keys rows) rows) [0..<pages_of (length rows) (unat page_size)]) = Ok (np, m)"
    and "np < 2 ^ 32" and "m < 2 ^ 60" and "length (build_schema keys (sigils_for_keys keys rows)) < 2 ^ 60"
  obtains data where "finish_pax keys rows page_size = Some (Ok data)" "fits data"
proof -
  let ?r = "rmap (page_of page_size (length keys) (sigils_for_keys keys rows) rows) [0..<pages_of (length rows) (unat page_size)]"
  obtain pgs where b: "?r = Ok pgs" "length pgs = np" "length (concat pgs) = m"
    using assms(3,4) by (cases ?r) auto
  have "finish_pax keys rows page_size = Some (Ok (pax_file keys rows page_size pgs))"
    unfolding finish_pax_eq[OF assms(1,2)] b(1) by simp
  moreover have "fits (pax_file keys rows page_size pgs)"
    using assms(5-7) by (simp add: pax_file_def Let_def b lims)
  ultimately show thesis by (rule that)
qed

lemma sample_pax:
  obtains data where "finish_pax sample_keys sample_rows 2 = Some (Ok data)" "fits data"
proof -
  have "map_res (\<lambda>b. (length b, length (concat b))) (rmap (page_of 2 2 (sigils_for_keys sample_keys sample_rows) sample_rows)
      [0..<pages_of (length sample_rows) (unat (2 :: u32))]) = Ok (2, 144)"
    by code_simp
  then show thesis by (rule finish_pax_ok[of _ _ _ 2, rotated 3]) (use sample_table that in simp_all)
qed

theorem pax_roundtrip_witness:
  "\<exists>data r. finish_pax sample_keys sample_rows 2 = Some (Ok data) \<and> reader_new data = Ok r
     \<and> get_i64 r 1 (bstr ''n'') = Ok (Some 8) \<and> get_str r 2 (bstr ''s'') = Ok (Some (bstr ''b'')) \<and> get_i64 r 2 (bstr ''n'') = Ok None"
proof -
  obtain data where d: "finish_pax sample_keys sample_rows 2 = Some (Ok data)" "fits data" by (rule sample_pax)
  have n: "length sample_rows < 2 ^ 32" "pages_of (length sample_rows) (unat (2 :: u32)) \<le> 2 ^ 30" by code_simp+
  from pax_roundtrip[OF d(1) sample_table(1) d(2) n] obtain r where r: "reader_new data = Ok r"
    "\<And>i key. i < 3 \<Longrightarrow> get_i64 r i key = Ok (lookup sample_keys sample_rows cell_word i key)
       \<and> get_str r i key = Ok (lookup sample_keys sample_rows cell_text i key)" using sample_table(3) by auto
  have "lookup sample_keys sample_rows cell_word 1 (bstr ''n'') = Some 8"
    "lookup sample_keys sample_rows cell_text 2 (bstr ''s'') = Some (bstr ''b'')"
    "lookup sample_keys sample_rows cell_word 2 (bstr ''n'') = None" by code_simp+
  then show ?thesis using d(1) r by auto
qed

end
