(* ===== verification/Layout_Queries.thy ===== *)
theory Layout_Queries
  imports Columnar_Files Pax_Files
begin

text \<open>
  Queries over the columnar and the PAX layout: predicates, the record iterator and sums answer from
  the table alone, so the two layouts give the same answers.
\<close>

section \<open>Dense columns\<close>

lemma dense_bits:
  assumes "null_bitmap_dense bm n" and "i < n"
  shows "col_bit bm i = Ok True"
proof -
  have len: "(n + 7) div 8 \<le> length bm" and full: "\<forall>b \<in> set (take (n div 8) bm). b = 0xFF"
    and rest: "n mod 8 \<noteq> 0 \<Longrightarrow> and (bm ! (n div 8)) (push_bit (n mod 8) 1 - 1) = push_bit (n mod 8) 1 - 1"
    using assms by (auto simp: null_bitmap_dense_def Let_def split: if_splits)
  have "(i + 8) div 8 \<le> (n + 7) div 8" using assms(2) by (intro div_le_mono) simp
  then have i: "i div 8 < length bm" using len by simp
  have b: "bit (bm ! (i div 8)) (i mod 8)"
  proof (cases "i div 8 < n div 8")
    case True
    then have "take (n div 8) bm ! (i div 8) \<in> set (take (n div 8) bm)" using i by (intro nth_mem) simp
    then have "bm ! (i div 8) = 0xFF" using full True by simp
    also have "\<dots> = mask 8" by (simp add: mask_eq_exp_minus_1)
    finally show ?thesis by (simp add: bit_mask_iff)
  next
    case False
    moreover have "i div 8 \<le> n div 8" using assms(2) by (simp add: div_le_mono)
    ultimately have e: "i div 8 = n div 8" by simp
    then have m: "i mod 8 < n mod 8" using assms(2) by (metis add_less_cancel_left div_mult_mod_eq)
    have "push_bit (n mod 8) 1 - 1 = (mask (n mod 8) :: u8)" by (simp add: mask_eq_exp_minus_1 push_bit_of_1)
    then have "and (bm ! (n div 8)) (mask (n mod 8)) = mask (n mod 8)" using rest m by simp
    then have "bit (and (bm ! (n div 8)) (mask (n mod 8))) (i mod 8) = bit (mask (n mod 8) :: u8) (i mod 8)" by (simp only:)
    then show ?thesis using m by (simp add: bit_and_iff bit_mask_iff e)
  qed
  then show ?thesis using i by (simp add: col_bit_def idx_ok read_bit)
qed

lemma rfold_pure: "(\<And>x acc. x \<in> set xs \<Longrightarrow> f x acc = Ok (g x acc)) \<Longrightarrow> rfold f xs acc = Ok (fold g xs acc)"
  by (induction xs arbitrary: acc) simp_all

lemma sum_column_sparse: "sum_f64_column Portable vals bm n = sum_f64_sparse vals bm n"
proof (cases "null_bitmap_dense bm n")
  case True
  have "sum_f64_sparse vals bm n = Ok (sum_f64_scalar vals n)"
    unfolding sum_f64_sparse_def sum_f64_scalar_def
    by (rule rfold_pure) (simp add: dense_bits[OF True])
  moreover have "sum_f64_sparse vals bm 0 = Ok 0" by (simp add: sum_f64_sparse_def)
  ultimately show ?thesis by (cases "n = 0") (simp_all add: sum_f64_column_def sum_f64_dense_le_def)
qed (simp add: sum_f64_column_def sum_f64_sparse_def)

section \<open>Sums of columns\<close>

lemma add_value_some: "add_value vals i acc = add_some (get_u64 vals (i * 8)) acc"
  by (simp add: add_value_def add_some_def split: option.splits)

lemma sum_sparse_values:
  assumes "\<And>i. i < n \<Longrightarrow> fixed_value get_u64 (Ok (bm, vals)) i = Ok (f i)"
  shows "sum_f64_sparse vals bm n = Ok (fold (\<lambda>i. add_some (f i)) [0..<n] 0)"
  unfolding sum_f64_sparse_def
proof (rule rfold_pure)
  fix i acc assume "i \<in> set [0..<n]"
  then have "rbind (col_bit bm i) (\<lambda>b. Ok (if b then get_u64 vals (i * 8) else None)) = Ok (f i)"
    using assms[of i] by (simp add: fixed_value_def)
  then obtain b where "col_bit bm i = Ok b" "f i = (if b then get_u64 vals (i * 8) else None)" by (auto simp: res_simps)
  then show "rbind (col_bit bm i) (\<lambda>b. Ok (if b then add_value vals i acc else acc)) = Ok (add_some (f i) acc)"
    by (simp add: add_value_some) (simp add: add_some_def)
qed

text \<open>The sum of the words stored under a name, in the order of the records.\<close>

definition table_sum :: "rstring list \<Rightarrow> cell list list \<Rightarrow> rstring \<Rightarrow> f64" where
  "table_sum keys rows key = fold (\<lambda>i. add_some (lookup keys rows cell_word i key)) [0..<length rows] 0"

lemma columnar_sum:
  assumes "stored_columnar keys rows r" and "position key keys = Some slot" and "\<not> is_var_sigil (column_sigil rows slot)"
  shows "col_sum_f64 Portable r key = Ok (Some (table_sum keys rows key))"
proof -
  have slot: "slot < length keys" using assms(2) by (rule position_lt)
  let ?c = "column_of rows slot" let ?sig = "column_sigil rows slot"
  let ?vals = "concat (map (cell_slot ?sig) ?c)"
  have n: "length rows < 2 ^ 59" using assms(1) by (simp add: stored_columnar_def)
  have lay: "r_layout r = Columnar" "r_record_count r = length rows"
    using stored_columnar_holds[OF assms(1)] by (auto simp: columnar_holds_def columnar_reader_def)
  have "fixed_value get_u64 (Ok (bitmap_of ?c, ?vals)) i = Ok (lookup keys rows cell_word i key)" if "i < length rows" for i
    using image_values(1)[of i ?c ?sig] that n assms(2,3) by (simp add: lookup_def)
  from sum_sparse_values[OF this]
  have "sum_f64_sparse ?vals (bitmap_of ?c) (length rows) = Ok (table_sum keys rows key)" by (simp add: table_sum_def)
  then show ?thesis
    using columnar_parts(1)[OF assms(1) slot assms(3)] columnar.slot_of[OF assms(1), of key] assms(2) lay
    by (simp add: col_sum_f64_def sum_column_sparse)
qed

lemma pax_sum:
  assumes "stored_pax keys rows r" and "position key keys = Some slot"
  shows "col_sum_f64 cpu r key = Ok (Some (table_sum keys rows key))"
proof -
  have slot: "slot < length keys" using assms(2) by (rule position_lt)
  have "pax_get_fixed get_u64 r i slot = Ok (lookup keys rows cell_word i key)" if "i < length rows" for i
    using pax.word_law[OF assms(1) that slot] assms(2) by (simp add: lookup_def)
  then have "rfold (\<lambda>i acc. rbind (pax_get_fixed get_u64 r i slot) (\<lambda>v. Ok (add_some v acc))) [0..<length rows] 0
      = Ok (table_sum keys rows key)"
    unfolding table_sum_def by (intro rfold_pure) simp
  moreover obtain data tail where "r = pax_reader keys rows data tail" by (rule stored_pax_opened[OF assms(1)])
  then have "r_layout r = Pax" "r_record_count r = length rows" by (simp_all add: pax_reader_def)
  ultimately show ?thesis using pax.slot_of[OF assms(1), of key] assms(2) by (simp add: col_sum_f64_def)
qed

text \<open>
  Without vector instructions, the sum of a numeric column is the same in a columnar and in a PAX file of one
  table: the words stored under the name, added in the order of the records.
\<close>

lemma layout_sums_agree:
  assumes "stored_columnar keys rows rc" and "stored_pax keys rows rp"
    and "position key keys = Some slot" and "\<not> is_var_sigil (column_sigil rows slot)"
  shows "col_sum_f64 Portable rc key = Ok (Some (table_sum keys rows key))
     \<and> col_sum_f64 Portable rp key = Ok (Some (table_sum keys rows key))"
  using columnar_sum[OF assms(1,3,4)] pax_sum[OF assms(2,3)] by simp

text \<open>
  C12: A predicate selects the same records in a columnar and in a PAX file of one table, the records on
  which it holds in the table, in their order -- as long as it compares strings only in string columns.
\<close>

theorem layout_queries_agree:
  assumes "stored_columnar keys rows rc" and "stored_pax keys rows rp" and "pred_typed keys rows p"
  shows "where_pred rc p = Ok (filter (\<lambda>i. pred_holds keys rows i p) [0..<length rows]) \<and> where_pred rp p = where_pred rc p"
  using columnar.queries[OF assms(1,3)] pax.queries[OF assms(2,3)] by simp

section \<open>The two files of the small table\<close>

text \<open>Two opened files of one table, once it can be encoded.\<close>

lemma stored_both:
  assumes "finish_columnar keys rows = Ok data" "fits data" and "finish_pax keys rows page_size = Some (Ok data')" "fits data'"
    and "keys_ok keys" "keys \<noteq> []" and "length rows < 2 ^ 32" "pages_of (length rows) (unat page_size) \<le> 2 ^ 30"
  obtains rc rp where "stored_columnar keys rows rc" "stored_pax keys rows rp"
proof -
  have "length rows < 2 ^ 59" using assms(7) by simp
  with open_columnar[OF assms(1,5,6,2)] obtain rc where "reader_new data = Ok rc" by blast
  then have "stored_columnar keys rows rc" using assms by (auto simp: stored_columnar_def)
  moreover obtain tail where "stored_pax keys rows (pax_reader keys rows data' tail)"
    by (rule pax_opens[OF assms(3,5,4,7,8)])
  ultimately show thesis by (rule that)
qed

lemma sample_stored:
  obtains rc rp where "stored_columnar sample_keys sample_rows rc" "stored_pax sample_keys sample_rows rp"
proof -
  obtain data where d: "finish_columnar sample_keys sample_rows = Ok data" "fits data" by (rule sample_columnar)
  obtain data' where d': "finish_pax sample_keys sample_rows 2 = Some (Ok data')" "fits data'" by (rule sample_pax)
  have "length sample_rows < 2 ^ 32" "pages_of (length sample_rows) (unat (2 :: u32)) \<le> 2 ^ 30" by code_simp+
  from stored_both[OF d d' sample_table(1,2) this] that show thesis by blast
qed

theorem layout_queries_agree_witness:
  "\<exists>rc rp. where_pred rc (And (Not (EqStr (bstr ''s'') (bstr ''a''))) (GtI64 (bstr ''n'') 7)) = Ok [1]
     \<and> where_pred rp (And (Not (EqStr (bstr ''s'') (bstr ''a''))) (GtI64 (bstr ''n'') 7)) = Ok [1]"
proof -
  let ?p = "And (Not (EqStr (bstr ''s'') (bstr ''a''))) (GtI64 (bstr ''n'') 7)"
  obtain rc rp where st: "stored_columnar sample_keys sample_rows rc" "stored_pax sample_keys sample_rows rp"
    by (rule sample_stored)
  have "position (bstr ''s'') sample_keys = Some 1" "column_sigil sample_rows 1 = SIGIL_STR" by code_simp+
  then have "pred_typed sample_keys sample_rows ?p" by simp
  moreover have "filter (\<lambda>i. pred_holds sample_keys sample_rows i ?p) [0..<length sample_rows] = [1]" by code_simp
  ultimately show ?thesis using layout_queries_agree[OF st, of ?p] by metis
qed

end
