(* ===== verification/Record_Tables.thy ===== *)
theory Record_Tables
  imports Layout_Queries
begin

text \<open>
  From the record blocks of a source file to the table of cells, and on to the files compiled from it:
  \<open>records_from_fields\<close> and \<open>compile_fields\<close> of \<^verbatim>\<open>rust/src/layout.rs\<close>.
\<close>

section \<open>One record\<close>

text \<open>The value of a record under a name: the last one counts.\<close>

definition cell_in :: "field list \<Rightarrow> rstring \<Rightarrow> cell" where
  "cell_in inner key =
     (case map_of (rev (map (\<lambda>f. (fkey f, fvalue f)) inner)) key of
        None \<Rightarrow> Absent
      | Some v \<Rightarrow> (case cell_from_value v of Ok c \<Rightarrow> c | _ \<Rightarrow> Absent))"

lemma cell_in_snoc:
  "cell_from_value (fvalue f) = Ok c \<Longrightarrow> cell_in (inner @ [f]) key = (if key = fkey f then c else cell_in inner key)"
  by (simp add: cell_in_def)

lemma cell_in_absent: "key \<notin> fkey ` set inner \<Longrightarrow> cell_in inner key = Absent"
proof -
  assume "key \<notin> fkey ` set inner"
  then have "map_of (rev (map (\<lambda>f. (fkey f, fvalue f)) inner)) key = None"
    by (simp add: map_of_eq_None_iff image_image del: rev_map flip: rev_map)
  then show ?thesis by (simp add: cell_in_def)
qed

text \<open>The cells of a record, against the names known so far.\<close>

definition row_ok :: "rstring list \<Rightarrow> field list \<Rightarrow> cell list \<Rightarrow> bool" where
  "row_ok ko inner cells \<longleftrightarrow> fkey ` set inner \<subseteq> set ko \<and> length cells \<le> length ko
     \<and> list_all (\<lambda>f. \<exists>c. cell_from_value (fvalue f) = Ok c) inner
     \<and> (\<forall>slot < length ko. cell_at cells slot = cell_in inner (ko ! slot))"

lemma row_ok_more:
  assumes "row_ok ko inner cells" and "distinct (ko @ ext)"
  shows "row_ok (ko @ ext) inner cells"
proof -
  have "cell_at cells slot = cell_in inner ((ko @ ext) ! slot)" if slot: "slot < length (ko @ ext)" for slot
  proof (cases "slot < length ko")
    case True
    then show ?thesis using assms(1) by (simp add: row_ok_def nth_append)
  next
    case False
    then have "ext ! (slot - length ko) \<in> set ext" using slot by (intro nth_mem) auto
    then have "(ko @ ext) ! slot \<notin> fkey ` set inner" using assms False by (auto simp: row_ok_def nth_append)
    moreover have "get_at cells slot = None" using assms(1) False by (simp add: row_ok_def get_at_def)
    ultimately show ?thesis by (simp add: cell_in_absent cell_at_def)
  qed
  then show ?thesis using assms(1) by (auto simp: row_ok_def)
qed

lemma cell_at_nth: "cell_at cells slot = (if slot < length cells then cells ! slot else Absent)"
  by (simp add: cell_at_def get_at_def)

lemma resize_cells_simps [simp]:
  "length (resize_cells n cs) = n"
  "length cs \<le> n \<Longrightarrow> cell_at (resize_cells n cs) slot = cell_at cs slot"
  by (auto simp: resize_cells_def cell_at_nth nth_append)

lemma place_cell_ok:
  assumes "place_cell f (ko, ki, cells) = Ok (ko', ki', cells')" and "distinct ko" and "ki = (\<lambda>k. position k ko)"
    and "row_ok ko inner cells"
  shows "(\<exists>ext. ko' = ko @ ext) \<and> distinct ko' \<and> ki' = (\<lambda>k. position k ko') \<and> row_ok ko' (inner @ [f]) cells'"
proof -
  obtain c where c: "cell_from_value (fvalue f) = Ok c" using assms(1) by (auto simp: place_cell_def res_simps)
  show ?thesis
  proof (cases "position (fkey f) ko")
    case (Some i)
    let ?cs = "if length cells \<le> i then resize_cells (i + 1) cells else cells"
    have i: "i < length ko" "ko ! i = fkey f" using position_Some[OF Some] by auto
    have st: "ko' = ko" "ki' = ki" "cells' = ?cs[i := c]"
      using assms(1,3) c Some by (auto simp: place_cell_def Let_def)
    have "cell_at (?cs[i := c]) slot = cell_in (inner @ [f]) (ko ! slot)" if "slot < length ko" for slot
    proof (cases "slot = i")
      case False
      then have "ko ! slot \<noteq> fkey f" using nth_eq_iff_index_eq[OF assms(2) that i(1)] i(2) by simp
      then show ?thesis using False that assms(4)
        by (auto simp: cell_in_snoc[OF c] row_ok_def cell_at_nth resize_cells_def nth_append)
    qed (simp add: cell_in_snoc[OF c] cell_at_nth i)
    moreover have "length (?cs[i := c]) \<le> length ko" using assms(4) i by (simp add: row_ok_def)
    ultimately have "row_ok ko (inner @ [f]) cells'" using assms(4) i c by (auto simp: row_ok_def st in_set_conv_nth)
    then show ?thesis using assms(2,3) st by simp
  next
    case None
    then have new: "fkey f \<notin> set ko" by (simp add: position_None)
    let ?n = "length ko" let ?ko = "ko @ [fkey f]"
    let ?cs = "resize_cells (?n + 1) (resize_cells ?n cells)"
    have st: "ko' = ?ko" "ki' = ki(fkey f \<mapsto> ?n)" "cells' = ?cs[?n := c]"
      using assms(1,3) c None by (auto simp: place_cell_def Let_def)
    have lc: "length cells \<le> ?n" using assms(4) by (simp add: row_ok_def)
    have old: "row_ok ?ko inner cells" using row_ok_more[OF assms(4), of "[fkey f]"] assms(2) new by simp
    have "cell_at (?cs[?n := c]) slot = cell_in (inner @ [f]) (?ko ! slot)" if "slot < Suc ?n" for slot
    proof (cases "slot = ?n")
      case False
      then have "cell_at (?cs[?n := c]) slot = cell_at cells slot"
        using lc that by (auto simp: cell_at_nth resize_cells_def nth_append)
      moreover have "?ko ! slot \<noteq> fkey f" using False that new by (auto simp: nth_append in_set_conv_nth)
      ultimately show ?thesis using old that by (simp add: row_ok_def cell_in_snoc[OF c])
    qed (simp add: cell_at_nth cell_in_snoc[OF c])
    then have "row_ok ?ko (inner @ [f]) cells'" using old c by (auto simp: row_ok_def st)
    moreover have "ki(fkey f \<mapsto> ?n) = (\<lambda>k. position k ?ko)"
      using None by (auto simp: assms(3) position_append fun_eq_iff split: option.splits)
    ultimately show ?thesis using assms(2) new st by simp
  qed
qed

lemma place_cells_ok:
  assumes "rfold place_cell fs (ko, ki, cells) = Ok (ko', ki', cells')" and "distinct ko" and "ki = (\<lambda>k. position k ko)"
    and "row_ok ko inner cells"
  shows "(\<exists>ext. ko' = ko @ ext) \<and> distinct ko' \<and> ki' = (\<lambda>k. position k ko') \<and> row_ok ko' (inner @ fs) cells'"
  using assms
proof (induction fs arbitrary: ko ki cells inner)
  case (Cons f fs)
  then obtain ko1 ki1 cells1 where p: "place_cell f (ko, ki, cells) = Ok (ko1, ki1, cells1)"
    and r: "rfold place_cell fs (ko1, ki1, cells1) = Ok (ko', ki', cells')" by (auto simp: res_simps)
  note s = place_cell_ok[OF p Cons.prems(2-4)]
  from Cons.IH[OF r, of "inner @ [f]"] s show ?case by auto
qed simp

section \<open>All records\<close>

definition record_fields :: "field \<Rightarrow> field list" where
  "record_fields f = (case fvalue f of VObject inner \<Rightarrow> inner | _ \<Rightarrow> [])"

lemma collect_records_ok:
  assumes "collect_records fs ko ki rows = Ok (keys, rows')" and "distinct ko" and "ki = (\<lambda>k. position k ko)"
    and "list_all2 (row_ok ko) done rows"
  shows "distinct keys \<and> list_all (\<lambda>f. \<exists>inner. fvalue f = VObject inner) fs
     \<and> list_all2 (row_ok keys) (done @ map record_fields fs) rows'"
  using assms
proof (induction fs ko ki rows arbitrary: "done" rule: collect_records.induct)
  case (2 f fs ko ki rows)
  then obtain inner ko1 ki1 cells where f: "fvalue f = VObject inner"
    and p: "rfold place_cell inner (ko, ki, []) = Ok (ko1, ki1, cells)"
    and c: "collect_records fs ko1 ki1 (rows @ [cells]) = Ok (keys, rows')"
    by (auto simp: res_simps split: nxs_value.splits)
  have "row_ok ko [] []" by (simp add: row_ok_def cell_in_def cell_at_nth)
  from place_cells_ok[OF p "2.prems"(2,3) this] obtain ext where
    s: "ko1 = ko @ ext" "distinct ko1" "ki1 = (\<lambda>k. position k ko1)" "row_ok ko1 inner cells" by auto
  have "list_all2 (row_ok ko1) done rows"
    using "2.prems"(4) s(1,2) by (auto elim!: list_all2_mono simp: row_ok_more)
  then have "list_all2 (row_ok ko1) (done @ [inner]) (rows @ [cells])" using s(4) by (simp add: list_all2_appendI)
  from "2.IH"[OF f p refl refl c s(2,3) this] f show ?case by (simp add: record_fields_def)
qed simp

lemma table_of_records:
  assumes "records_from_fields fs = Ok (keys, rows)"
  shows "distinct keys \<and> rows \<noteq> [] \<and> length rows = length fs \<and> list_all (\<lambda>row. length row = length keys) rows
    \<and> (\<forall>i < length fs. (\<exists>inner. fvalue (fs ! i) = VObject inner) \<and> fkey ` set (record_fields (fs ! i)) \<subseteq> set keys
         \<and> (\<forall>slot < length keys. rows ! i ! slot = cell_in (record_fields (fs ! i)) (keys ! slot)))"
proof -
  from assms obtain rows0 where c: "collect_records fs [] Map.empty [] = Ok (keys, rows0)" "rows0 \<noteq> []"
    and rows: "rows = map (resize_cells (length keys)) rows0"
    by (auto simp: records_from_fields_def res_simps split: if_splits)
  from collect_records_ok[OF c(1), of "[]"] have
    t: "distinct keys" "list_all (\<lambda>f. \<exists>inner. fvalue f = VObject inner) fs"
      "list_all2 (row_ok keys) (map record_fields fs) rows0" by simp_all
  then have len: "length rows0 = length fs" by (auto dest: list_all2_lengthD)
  have "rows ! i ! slot = cell_in (record_fields (fs ! i)) (keys ! slot)" if "i < length fs" "slot < length keys" for i slot
  proof -
    have ok: "row_ok keys (record_fields (fs ! i)) (rows0 ! i)" using t(3) that(1) by (auto simp: list_all2_conv_all_nth)
    then have "cell_at (rows ! i) slot = cell_in (record_fields (fs ! i)) (keys ! slot)"
      using that len by (simp add: rows row_ok_def)
    then show ?thesis using that len by (simp add: rows cell_at_nth)
  qed
  moreover have "fkey ` set (record_fields (fs ! i)) \<subseteq> set keys" if "i < length fs" for i
    using t(3) that by (auto simp: list_all2_conv_all_nth row_ok_def)
  ultimately show ?thesis using t(1,2) c(2) len by (auto simp: rows list_all_iff list_all_length)
qed

text \<open>
  C24: The table of a source file.  The names are distinct and cover every record, there is a row for
  every top-level block, each as wide as there are names, and a cell holds the last value its record has
  under the name, or is absent.
\<close>

theorem records_table:
  assumes "records_from_fields fs = Ok (keys, rows)"
  shows "distinct keys \<and> rows \<noteq> [] \<and> length rows = length fs \<and> list_all (\<lambda>row. length row = length keys) rows
    \<and> (\<forall>i < length fs. (\<exists>inner. fvalue (fs ! i) = VObject inner) \<and> fkey ` set (record_fields (fs ! i)) \<subseteq> set keys
         \<and> (\<forall>slot < length keys. rows ! i ! slot = cell_in (record_fields (fs ! i)) (keys ! slot)))"
  by (rule table_of_records[OF assms])

section \<open>Compiled files\<close>

text \<open>What a lookup in a compiled file makes of the value of a record, by the sigil of its column.\<close>

definition field_lookup :: "rstring list \<Rightarrow> cell list list \<Rightarrow> field \<Rightarrow> (u8 \<Rightarrow> cell \<Rightarrow> 'a option) \<Rightarrow> rstring \<Rightarrow> 'a option" where
  "field_lookup keys rows f view key =
     Option.bind (position key keys) (\<lambda>slot. view (column_sigil rows slot) (cell_in (record_fields f) key))"

lemma pages_of_le: "0 < ps \<Longrightarrow> pages_of n ps \<le> n"
proof -
  assume ps: "0 < ps"
  have "n * 1 \<le> n * ps" by (rule mult_le_mono2) (use ps in simp)
  then have "n + ps - 1 < n * ps + ps" using ps by linarith
  then have "n + ps - 1 < Suc n * ps" by (simp add: add.commute)
  then show ?thesis unfolding pages_of_def by (metis less_Suc_eq_le less_mult_imp_div_less)
qed

lemma table_lookup:
  assumes "records_from_fields fs = Ok (keys, rows)" and "i < length fs"
  shows "lookup keys rows view i key = field_lookup keys rows (fs ! i) view key"
proof (cases "position key keys")
  case (Some slot)
  then have s: "slot < length keys" "keys ! slot = key" using position_Some[OF Some] by auto
  note t = table_of_records[OF assms(1)]
  have "cell_at (rows ! i) slot = cell_in (record_fields (fs ! i)) key"
    using t assms(2) s by (auto simp: cell_at_nth list_all_length)
  then show ?thesis using Some by (simp add: lookup_def field_lookup_def)
qed (simp add: lookup_def field_lookup_def)

text \<open>
  From a source file to the answers of the reader.  A file compiled to the columnar or the PAX layout
  from at most \<open>2 ^ 30\<close> record blocks opens, and every lookup of a record under a name -- numeric, flag
  or string -- answers from the last value of that block under the name.
\<close>

lemma compiled_layout_reads:
  assumes "compile_fields fs opts = Some (Ok data)" and "co_layout opts \<noteq> LRow" and "fits data" and "length fs \<le> 2 ^ 30"
    and "records_from_fields fs = Ok (keys, rows)" and "keys_ok keys" and "keys \<noteq> []"
  shows "\<exists>r. reader_new data = Ok r \<and> r_record_count r = length fs
    \<and> (\<forall>i < length fs. \<forall>key.
         get_i64 r i key = Ok (field_lookup keys rows (fs ! i) cell_word key)
       \<and> get_f64 r i key = Ok (field_lookup keys rows (fs ! i) cell_word key)
       \<and> get_bool r i key = Ok (field_lookup keys rows (fs ! i) cell_flag key)
       \<and> get_str r i key = Ok (field_lookup keys rows (fs ! i) cell_text key))"
proof -
  have n: "length rows = length fs" using table_of_records[OF assms(5)] by blast
  show ?thesis
  proof (cases "co_layout opts = LColumnar")
    case True
    then have fin: "finish_columnar keys rows = Ok data" using assms(1,5) by (simp add: compile_fields_def)
    have small: "length rows < 2 ^ 59" using n assms(4) by simp
    obtain start tail where o: "reader_new data = Ok (columnar_reader keys rows data start tail)"
      by (rule open_columnar[OF fin assms(6,7,3) small])
    then have st: "stored_columnar keys rows (columnar_reader keys rows data start tail)"
      using fin assms(3,6,7) small by (auto simp: stored_columnar_def)
    then show ?thesis using o columnar.lookups[OF st] n
      by (intro exI[of _ "columnar_reader keys rows data start tail"]) (simp add: columnar_reader_def table_lookup[OF assms(5)])
  next
    case False
    let ?ps = "if co_page_size opts = 0 then 4096 else co_page_size opts"
    have fin: "finish_pax keys rows ?ps = Some (Ok data)"
      using assms(1,2,5) False by (cases "co_layout opts") (simp_all add: compile_fields_def)
    have "0 < unat ?ps" by (simp add: unat_gt_0)
    then have pages: "pages_of (length rows) (unat ?ps) \<le> 2 ^ 30"
      using pages_of_le[of "unat ?ps" "length rows"] n assms(4) by linarith
    have small: "length rows < 2 ^ 32" using n assms(4) by simp
    obtain tail where o: "reader_new data = Ok (pax_reader keys rows data tail)"
      and st: "stored_pax keys rows (pax_reader keys rows data tail)"
      by (rule pax_opens[OF fin assms(6,3) small pages])
    then show ?thesis using pax.lookups[OF st] n
      by (intro exI[of _ "pax_reader keys rows data tail"]) (simp add: pax_reader_def table_lookup[OF assms(5)])
  qed
qed

text \<open>The small table as a source file, one name twice in its second block.\<close>

definition sample_blocks :: "field list" where
  "sample_blocks =
     [Field (bstr ''a'') (VObject [Field (bstr ''n'') (VInt 7), Field (bstr ''s'') (VStr (bstr ''a''))]),
      Field (bstr ''b'') (VObject [Field (bstr ''n'') (VInt 1), Field (bstr ''n'') (VInt 8)]),
      Field (bstr ''c'') (VObject [Field (bstr ''s'') (VStr (bstr ''b''))])]"

lemma sample_blocks_table: "records_from_fields sample_blocks = Ok (sample_keys, sample_rows)"
  by code_simp

theorem records_table_witness: "distinct sample_keys \<and> sample_rows ! 1 ! 0 = cell_in (record_fields (sample_blocks ! 1)) (bstr ''n'')"
proof -
  have "1 < length sample_blocks" "0 < length sample_keys" "sample_keys ! 0 = bstr ''n''" by code_simp+
  then show ?thesis using records_table[OF sample_blocks_table] by metis
qed

end
