(* ===== verification/Layout_Departures.thy ===== *)
theory Layout_Departures
  imports Record_Tables Writer_Records
begin

text \<open>
  Where the layouts and the getters disagree: string tests without a sigil test, sums of string columns,
  columns that start with a null, tables without names, and nulls in compact row files.
\<close>

section \<open>A table of odd columns\<close>

text \<open>Zeros, strings, and a string behind a null.\<close>

definition odd_keys :: "rstring list" where "odd_keys = [bstr ''n'', bstr ''s'', bstr ''t'']"

definition odd_rows :: "cell list list" where
  "odd_rows = [[CellI64 0, CellStr (bstr ''a''), CellNull], [CellI64 0, CellStr (bstr ''b''), CellStr (bstr ''c'')]]"

lemma odd_table:
  "keys_ok odd_keys" "odd_keys \<noteq> []" "length odd_rows = 2" "length odd_keys = 3"
  "length (build_schema odd_keys (sigils_for_keys odd_keys odd_rows)) = 16"
  by code_simp+

lemma odd_stored:
  obtains rc rp where "stored_columnar odd_keys odd_rows rc" "stored_pax odd_keys odd_rows rp"
proof -
  have "map_res (\<lambda>b. length (concat b)) (encode_columns odd_rows (sigils_for_keys odd_keys odd_rows)) = Ok 70"
    by code_simp
  then obtain data where d: "finish_columnar odd_keys odd_rows = Ok data" "fits data"
    by (rule finish_columnar_ok) (use odd_table in simp_all)
  have "map_res (\<lambda>b. (length b, length (concat b))) (rmap (page_of 2 3 (sigils_for_keys odd_keys odd_rows) odd_rows)
      [0..<pages_of (length odd_rows) (unat (2 :: u32))]) = Ok (1, 104)"
    by code_simp
  then obtain data' where d': "finish_pax odd_keys odd_rows 2 = Some (Ok data')" "fits data'"
    by (rule finish_pax_ok[of _ _ _ 3, rotated 3]) (use odd_table in simp_all)
  have "length odd_rows < 2 ^ 32" "pages_of (length odd_rows) (unat (2 :: u32)) \<le> 2 ^ 30" by code_simp+
  from stored_both[OF d d' odd_table(1,2) this] that show thesis by blast
qed

section \<open>Sums of string columns\<close>

lemma columnar_var_sum:
  assumes "stored_columnar keys rows r" and "position key keys = Some slot" and "is_var_sigil (column_sigil rows slot)"
  shows "col_sum_f64 cpu r key = Ok None"
proof -
  have "col_field_parts r slot = Err UnsupportedFieldType"
    using columnar_image(3)[OF assms(1) position_lt[OF assms(2)]] assms(3) by (simp add: col_field_parts_def)
  then show ?thesis using columnar.slot_of[OF assms(1), of key] assms(2) columnar_image(4)[OF assms(1) position_lt[OF assms(2)]]
    by (simp add: col_sum_f64_def)
qed

lemma fold_add_none: "fold (\<lambda>i. add_some None) xs acc = acc"
  by (induction xs arbitrary: acc) (simp_all add: add_some_def)

lemma pax_var_sum:
  assumes "stored_pax keys rows r" and "position key keys = Some slot" and "is_var_sigil (column_sigil rows slot)"
  shows "col_sum_f64 cpu r key = Ok (Some 0)"
proof -
  have "lookup keys rows cell_word i key = None" for i using assms(2,3) by (simp add: lookup_def cell_word_def)
  then have "table_sum keys rows key = 0" by (simp add: table_sum_def fold_add_none)
  then show ?thesis using pax_sum[OF assms(1,2)] by simp
qed

section \<open>String tests on other columns\<close>

lemma odd_string_tests:
  assumes "stored_columnar odd_keys odd_rows rc" and "stored_pax odd_keys odd_rows rp"
  shows "where_pred rc (EqStr (bstr ''n'') []) = Ok [0, 1]" and "where_pred rp (EqStr (bstr ''n'') []) = Ok []"
    and "get_str rc 0 (bstr ''n'') = Ok None"
proof -
  let ?n = "bstr ''n''" let ?img = "column_image (column_sigil odd_rows 0) (column_of odd_rows 0)"
  have slot: "0 < length odd_keys" "position ?n odd_keys = Some 0" by code_simp+
  have two: "length odd_rows = 2" by (rule odd_table(3))
  have none: "lookup odd_keys odd_rows cell_text i ?n = None" for i
    using slot(2) by (simp add: lookup_def cell_text_def) code_simp
  note img = columnar_image[OF assms(1) slot(1)]
  have v: "col_var_parts ?img 2 = Ok ([3, 0, 0, 0, 0, 0, 0, 0], replicate 12 0, replicate 4 0)" by code_simp
  have e: "str_value (Ok ([3, 0, 0, 0, 0, 0, 0, 0], replicate 12 0, replicate 4 0)) 0 = Ok (Some [])"
    "str_value (Ok ([3, 0, 0, 0, 0, 0, 0, 0], replicate 12 0, replicate 4 0)) 1 = Ok (Some [])" by code_simp+
  have "columnar_text rc i 0 = Ok (Some [])" if "i < 2" for i
    using that e img(1,2) two v by (auto simp: col_field_var_parts_def less_2_cases_iff)
  then have t: "pred_test rc i (EqStr ?n []) = Ok True" if "i < 2" for i
    using that columnar.tests[OF assms(1) _ slot(1), of i ?n] columnar.slot_of[OF assms(1), of ?n] slot(2) two
    by (simp add: test_value_def)
  have "where_pred rc (EqStr ?n []) = Ok (filter (\<lambda>_. True) [0..<length odd_rows])" unfolding where_pred_def
    by (rule records_from_filter) (use t two columnar.reader[OF assms(1)] in \<open>auto simp: record_offset_def\<close>)
  also have "filter (\<lambda>_. True) [0..<length odd_rows] = [0, 1]" by (simp add: two upt_rec)
  finally show "where_pred rc (EqStr ?n []) = Ok [0, 1]" .
  have "pred_test rp i (EqStr ?n []) = Ok False" if "i < 2" for i
  proof -
    obtain data tail where "rp = pax_reader odd_keys odd_rows data tail" by (rule stored_pax_opened[OF assms(2)])
    then have "r_layout rp = Pax" by (simp add: pax_reader_def)
    then have "pax_get_str rp i 0 = get_str rp i ?n"
      using pax.slot_of[OF assms(2), of ?n] slot(2) by (simp add: get_str_def)
    then have "pax_get_str rp i 0 = Ok None" using pax.lookups(4)[OF assms(2), of i ?n] none that two by simp
    then show ?thesis using that pax.tests[OF assms(2) _ slot(1), of i ?n] pax.slot_of[OF assms(2), of ?n] slot(2) two
      by (simp add: test_value_def)
  qed
  then have "where_pred rp (EqStr ?n []) = Ok (filter (\<lambda>_. False) [0..<length odd_rows])" unfolding where_pred_def
    by (intro records_from_filter) (use two pax.reader[OF assms(2)] in \<open>auto simp: record_offset_def\<close>)
  then show "where_pred rp (EqStr ?n []) = Ok []" by simp
  show "get_str rc 0 ?n = Ok None" using columnar.lookups(4)[OF assms(1), of 0 ?n] none two by simp
qed

section \<open>Tables without names, records with nulls\<close>

lemma empty_columnar_refused:
  assumes "finish_columnar [] rows = Ok data" and "fits data"
  shows "reader_new data = Err OutOfBounds"
proof -
  let ?sb = "build_schema [] []" let ?fl = "or FLAG_SCHEMA_EMBEDDED FLAG_COLUMNAR" let ?tail = "32 + length ?sb"
  let ?foot = "u64_le (word_of_nat ?tail) @ u64_le (word_of_nat (length rows))"
  have d: "data = layout_preamble FLAG_COLUMNAR ?sb ?tail @ ?sb @ ?foot @ u32_le MAGIC_FOOTER"
    using finish_columnar_parts[OF assms(1)] by (simp add: images_def sigils_for_keys_def)
  have sb: "length ?sb = 8" by code_simp
  have len: "length data = ?tail + 20" by (simp add: d sb)
  have rt: "rd_u64 data (length data - 20) = Ok (word_of_nat ?tail)"
    by (rule u64c.rd_at[OF assms(2), of "layout_preamble FLAG_COLUMNAR ?sb ?tail @ ?sb"]) (simp_all add: d sb)
  have rn: "rd_u64 data (length data - 20 + 8) = Ok (word_of_nat (length rows))"
    by (rule u64c.rd_at[OF assms(2), of "layout_preamble FLAG_COLUMNAR ?sb ?tail @ ?sb @ u64_le (word_of_nat ?tail)"])
      (simp_all add: d sb)
  have "footer_size ?fl = 20" by code_simp
  then have "reader_tail data ?fl (length ([] :: rstring list)) (word_of_nat ?tail) = Err OutOfBounds"
    using rt rn len layout_flags(4)[of FLAG_COLUMNAR] by (simp add: reader_tail_def columnar_tail_def Let_def sb lims)
  moreover have "keys_ok []" by (simp add: keys_ok_def)
  ultimately show ?thesis
    using reader_new_upto[OF assms(2) _ layout_flags(1-3)[of FLAG_COLUMNAR], of "murmur3_64 ?sb" "word_of_nat ?tail" "[]" "[]" ?foot]
    by (simp add: d layout_preamble_def)
qed

lemma null_field_panics:
  "compile_fields [Field name (VObject [Field key VNull])] default_compile_options = Some Panic"
proof -
  let ?w = "writer_with_compact (new_schema [key]) (Some compact_all)"
  have "records_from_fields [Field name (VObject [Field key VNull])] = Ok ([key], [[CellNull]])"
    by (simp add: records_from_fields_def place_cell_def Let_def resize_cells_def cell_from_value_def)
  moreover have "w_compact ?w \<noteq> None" by (simp add: writer_with_compact_def Let_def)
  then have "finish_row [key] [[CellNull]] (Some compact_all) = Panic"
    using compact_null_panics(1)[of ?w 0] by (simp add: finish_row_def)
  ultimately show ?thesis
    by (simp add: compile_fields_def default_compile_options_def row_compact_opts_def resolve_compact_encoding_def
        COMPILE_DEFAULT_COMPACT_def)
qed

text \<open>
  C32: Where the layouts disagree.  In a columnar file a test for the empty string selects the zeros of an
  integer column, which have no string, and in a PAX file it does not; the sum of a string column is
  absent from the first and zero in the second; a string behind a null of its column is lost, and reads as
  the integer zero.  A columnar file without names is written but never opened, and the default options
  panic on a record with a null field.
\<close>

theorem layout_departures:
  "(\<exists>rc rp. stored_columnar odd_keys odd_rows rc \<and> stored_pax odd_keys odd_rows rp
      \<and> where_pred rc (EqStr (bstr ''n'') []) = Ok [0, 1] \<and> where_pred rp (EqStr (bstr ''n'') []) = Ok []
      \<and> get_str rc 0 (bstr ''n'') = Ok None
      \<and> (\<forall>cpu. col_sum_f64 cpu rc (bstr ''s'') = Ok None \<and> col_sum_f64 cpu rp (bstr ''s'') = Ok (Some 0))
      \<and> get_str rc 1 (bstr ''t'') = Ok None \<and> get_i64 rc 1 (bstr ''t'') = Ok (Some 0))
   \<and> (\<exists>data. finish_columnar [] [[]] = Ok data \<and> reader_new data = Err OutOfBounds)
   \<and> compile_fields [Field name (VObject [Field key VNull])] default_compile_options = Some Panic"
proof (intro conjI)
  obtain rc rp where st: "stored_columnar odd_keys odd_rows rc" "stored_pax odd_keys odd_rows rp" by (rule odd_stored)
  have s: "position (bstr ''s'') odd_keys = Some 1" "is_var_sigil (column_sigil odd_rows 1)" by code_simp+
  have "lookup odd_keys odd_rows cell_text 1 (bstr ''t'') = None" "lookup odd_keys odd_rows cell_word 1 (bstr ''t'') = Some 0"
    by code_simp+
  then have "get_str rc 1 (bstr ''t'') = Ok None" "get_i64 rc 1 (bstr ''t'') = Ok (Some 0)"
    using columnar.lookups(1,4)[OF st(1), of 1 "bstr ''t''"] odd_table(3) by simp_all
  then show "\<exists>rc rp. stored_columnar odd_keys odd_rows rc \<and> stored_pax odd_keys odd_rows rp
      \<and> where_pred rc (EqStr (bstr ''n'') []) = Ok [0, 1] \<and> where_pred rp (EqStr (bstr ''n'') []) = Ok []
      \<and> get_str rc 0 (bstr ''n'') = Ok None
      \<and> (\<forall>cpu. col_sum_f64 cpu rc (bstr ''s'') = Ok None \<and> col_sum_f64 cpu rp (bstr ''s'') = Ok (Some 0))
      \<and> get_str rc 1 (bstr ''t'') = Ok None \<and> get_i64 rc 1 (bstr ''t'') = Ok (Some 0)"
    using st odd_string_tests[OF st] columnar_var_sum[OF st(1) s] pax_var_sum[OF st(2) s] by blast
  have e: "map_res (\<lambda>b. length (concat b)) (encode_columns [[]] (sigils_for_keys [] [[]])) = Ok 0"
    "length (build_schema [] (sigils_for_keys [] [[]])) = 8" by code_simp+
  obtain data where "finish_columnar [] [[]] = Ok data" "fits data" by (rule finish_columnar_ok[OF e(1)]) (simp_all add: e(2))
  then show "\<exists>data. finish_columnar [] [[]] = Ok data \<and> reader_new data = Err OutOfBounds"
    using empty_columnar_refused by blast
qed (rule null_field_panics)

end
