(* ===== verification/Stream_Reader.thy ===== *)
theory Stream_Reader
  imports Query
begin

text \<open>
  The stream reader: \<^verbatim>\<open>rust/src/stream_reader.rs\<close>.

  It reads a row file that is still growing: the preamble has no tail pointer yet, and the objects behind
  the schema are polled one by one, as far as they are complete.
\<close>

section \<open>Complete objects\<close>

definition complete_nyxo_end :: "u8 list \<Rightarrow> usize \<Rightarrow> usize option" where
  "complete_nyxo_end data off =
     (if length data < off + 8 then None
      else Option.bind (get_u32 data off) (\<lambda>magic.
      if magic \<noteq> MAGIC_OBJ then None
      else Option.bind (get_u32 data (off + 4)) (\<lambda>obj_len.
      if unat obj_len < 8 then None
      else Option.bind (checked_add off (unat obj_len)) (\<lambda>e.
      if e \<le> length data then Some e else None))))"

lemma complete_nyxo_end_advances: "complete_nyxo_end data off = Some e \<Longrightarrow> off + 8 \<le> e \<and> e \<le> length data"
  by (auto simp: complete_nyxo_end_def bind_eq_Some_conv checked_add_eq_Some split: if_splits)

section \<open>Opening a stream\<close>

record stream_reader =
  sr_data :: "u8 list"
  sr_flags :: u16
  sr_keys :: "rstring list"
  sr_key_sigils :: "u8 list"
  sr_key_index :: "rstring \<rightharpoonup> usize"
  sr_ext_schema :: "ext_schema option"
  sr_cell_plan :: "row_plan option"
  sr_data_start :: usize
  sr_cursor :: usize
  sr_sealed :: bool

definition stream_schema ::
  "u8 list \<Rightarrow> u16 \<Rightarrow> (rstring list \<times> u8 list \<times> ext_schema option \<times> row_plan option \<times> usize) res"
where
  "stream_schema data flags =
     (if \<not> has_flag flags FLAG_SCHEMA_EMBEDDED then Ok ([], [], None, None, 32)
      else if has_flag flags FLAG_V13_COMPACT_MASK then
        rbind (parse_extended_schema data 32 flags) (\<lambda>(ext, e).
        if length data < e then Err OutOfBounds
        else rbind (new_row_plan ext flags) (\<lambda>plan. Ok (s_keys ext, s_sigils ext, Some ext, Some plan, e)))
      else rbind (parse_schema data 32) (\<lambda>(keys, sigils, start). Ok (keys, sigils, None, None, start)))"

definition footer_present :: "u8 list \<Rightarrow> bool res" where
  "footer_present data =
     (if length data < 16 then Ok False
      else rbind (rd_u32 data (length data - 4)) (\<lambda>tail_magic.
      if tail_magic \<noteq> MAGIC_FOOTER then Ok False
      else rbind (rd_u64 data (length data - 12)) (\<lambda>tp.
           Ok (0 < unat tp \<and> unat tp < length data \<and> 16 \<le> length data - unat tp))))"

definition stream_open :: "u8 list \<Rightarrow> stream_reader res" where
  "stream_open data =
     (if length data < 32 then Err OutOfBounds
      else rbind (rd_u32 data 0) (\<lambda>magic.
      if magic \<noteq> MAGIC_FILE then Err BadMagic
      else rbind (rd_u16 data 6) (\<lambda>flags. rbind (rd_u64 data 16) (\<lambda>tail_ptr.
      if tail_ptr \<noteq> 0 then Err (ParseError ''not a stream file: TailPtr already set'')
      else rbind (stream_schema data flags) (\<lambda>(keys, sigils, ext, plan, start).
           rbind (footer_present data) (\<lambda>sealed.
           Ok \<lparr>sr_data = data, sr_flags = flags, sr_keys = keys, sr_key_sigils = sigils,
               sr_key_index = index_keys keys, sr_ext_schema = ext, sr_cell_plan = plan,
               sr_data_start = start, sr_cursor = start, sr_sealed = sealed\<rparr>))))))"

definition has_first_complete :: "stream_reader \<Rightarrow> bool" where
  "has_first_complete sr \<longleftrightarrow> complete_nyxo_end (sr_data sr) (sr_data_start sr) \<noteq> None"

definition poll_next_offset :: "stream_reader \<Rightarrow> usize option \<times> stream_reader" where
  "poll_next_offset sr =
     (case complete_nyxo_end (sr_data sr) (sr_cursor sr) of
        None \<Rightarrow> (None, sr)
      | Some e \<Rightarrow> (Some (sr_cursor sr), sr\<lparr>sr_cursor := e\<rparr>))"

section \<open>Fields of an object\<close>

definition resolve_field_at :: "stream_reader \<Rightarrow> usize \<Rightarrow> usize \<Rightarrow> usize option res" where
  "resolve_field_at sr off slot =
     (case (sr_ext_schema sr, sr_cell_plan sr) of
        (Some ext, Some plan) \<Rightarrow>
          resolve_field_offset (sr_data sr) off slot ext plan (has_flag (sr_flags sr) FLAG_DENSE_FRAMES)
      | _ \<Rightarrow> Ok (resolve_slot (sr_data sr) off slot))"

definition get_i64_at :: "stream_reader \<Rightarrow> usize \<Rightarrow> rstring \<Rightarrow> i64 option res" where
  "get_i64_at sr obj key =
     obind (Ok (sr_key_index sr key)) (\<lambda>slot.
     obind (resolve_field_at sr obj slot) (\<lambda>off.
     case sr_ext_schema sr of
       Some ext \<Rightarrow> res_ok (decode_int_cell (sr_data sr) off (cell_width ext slot))
     | None \<Rightarrow> Ok (get_u64 (sr_data sr) off)))"

definition get_f64_at :: "stream_reader \<Rightarrow> usize \<Rightarrow> rstring \<Rightarrow> f64 option res" where
  "get_f64_at sr obj key =
     obind (Ok (sr_key_index sr key)) (\<lambda>slot.
     obind (resolve_field_at sr obj slot) (\<lambda>off.
     case sr_ext_schema sr of
       Some ext \<Rightarrow> res_ok (decode_f64_cell (sr_data sr) off (cell_width ext slot))
     | None \<Rightarrow> Ok (get_u64 (sr_data sr) off)))"

definition get_bool_at :: "stream_reader \<Rightarrow> usize \<Rightarrow> rstring \<Rightarrow> bool option res" where
  "get_bool_at sr obj key =
     obind (Ok (sr_key_index sr key)) (\<lambda>slot.
     let by_offset = obind (resolve_field_at sr obj slot) (\<lambda>off. Ok (read_flag (sr_data sr) off)) in
     case (sr_ext_schema sr, sr_cell_plan sr) of
       (Some ext, Some plan) \<Rightarrow>
         if pl_packed_bools plan \<and> slot \<in> set (pl_bool_slots plan)
         then read_packed_bool (sr_data sr) obj slot ext plan else by_offset
     | _ \<Rightarrow> by_offset)"

definition get_str_at :: "stream_reader \<Rightarrow> usize \<Rightarrow> rstring \<Rightarrow> rstring option res" where
  "get_str_at sr obj key =
     obind (Ok (sr_key_index sr key)) (\<lambda>slot.
     obind (resolve_field_at sr obj slot) (\<lambda>off.
     case sr_ext_schema sr of
       Some ext \<Rightarrow>
         if is_promoted ext slot then Ok (Option.bind (get_u16 (sr_data sr) off) (\<lambda>n. get_at (s_pool ext) (unat n)))
         else let prefix = str_len_prefix ext slot in
           obind (res_ok (read_str_cell_len (sr_data sr) off prefix)) (\<lambda>len.
           Ok (str_at (sr_data sr) (wadd off prefix) len))
     | None \<Rightarrow> Ok (prefixed_str (sr_data sr) off)))"

text \<open>
  A stream answers as the query reader does on a row file with the same bytes, schema and plan; what holds
  of the getters there holds here.
\<close>

definition row_view :: "stream_reader \<Rightarrow> reader" where
  "row_view sr =
     \<lparr>r_data = sr_data sr, r_flags = sr_flags sr, r_keys = sr_keys sr, r_key_sigils = sr_key_sigils sr,
      r_ext_schema = sr_ext_schema sr, r_cell_plan = sr_cell_plan sr, r_key_index = sr_key_index sr,
      r_record_count = 0, r_tail_start = 0, r_delta_tail = None, r_layout = Row, r_col_buf_off = [], r_col_buf_len = []\<rparr>"

lemma row_view_simps [simp]:
  "r_data (row_view sr) = sr_data sr" "r_flags (row_view sr) = sr_flags sr" "r_layout (row_view sr) = Row"
  "r_ext_schema (row_view sr) = sr_ext_schema sr" "r_cell_plan (row_view sr) = sr_cell_plan sr"
  "reader_slot (row_view sr) key = sr_key_index sr key"
  by (simp_all add: row_view_def reader_slot_def)

lemma resolve_field_row_view: "resolve_field_at sr off slot = record_resolve (row_view sr) off slot"
  by (simp add: resolve_field_at_def record_resolve_def cong: option.case_cong)

lemma stream_getters:
  shows "get_i64_at sr off key = get_i64 (row_view sr) off key"
    and "get_f64_at sr off key = get_f64 (row_view sr) off key"
    and "get_bool_at sr off key = get_bool (row_view sr) off key"
    and "get_str_at sr off key = get_str (row_view sr) off key"
  by (simp_all add: get_i64_at_def get_f64_at_def get_bool_at_def get_str_at_def
    get_i64_def get_f64_def get_bool_def get_str_def resolve_field_row_view Let_def cong: option.case_cong if_cong)

section \<open>Polling\<close>

text \<open>Polling until nothing more is complete: the offsets in order, and the reader that is left.\<close>

function poll_offsets :: "stream_reader \<Rightarrow> usize list \<times> stream_reader" where
  "poll_offsets sr =
     (case poll_next_offset sr of
        (None, sr') \<Rightarrow> ([], sr')
      | (Some off, sr') \<Rightarrow> (case poll_offsets sr' of (offs, sr'') \<Rightarrow> (off # offs, sr'')))"
  by pat_completeness auto

termination poll_offsets
  by (relation "measure (\<lambda>sr. Suc (length (sr_data sr)) - sr_cursor sr)")
    (auto simp: poll_next_offset_def split: option.splits dest!: complete_nyxo_end_advances)

declare poll_offsets.simps [simp del]

end
