(* ===== verification/Frames.thy ===== *)
theory Frames
  imports Wire
begin

text \<open>
  Self-delimiting frames in a file that is still growing: the objects of a row stream and the pages of a
  PAX stream.  A reader finds the end of the frame at a position once all of it is there; the contract
  \<open>framed\<close> says so, and gives the frames that a reader of a prefix of the stream gets to see.
\<close>

section \<open>Whole frames in a prefix\<close>

text \<open>How many frames lie in the first \<open>k\<close> bytes.\<close>

primrec whole_frames :: "('a \<Rightarrow> u8 list) \<Rightarrow> 'a list \<Rightarrow> nat \<Rightarrow> nat" where
  "whole_frames f [] k = 0"
| "whole_frames f (x # xs) k = (if length (f x) \<le> k then Suc (whole_frames f xs (k - length (f x))) else 0)"

lemma whole_frames_le: "whole_frames f xs k \<le> length xs"
  by (induction xs arbitrary: k) simp_all

lemma whole_frames_all: "length (concat (map f xs)) \<le> k \<Longrightarrow> whole_frames f xs k = length xs"
  by (induction xs arbitrary: k) auto

lemma whole_frames_iff:
  "i < length xs \<Longrightarrow> i < whole_frames f xs k \<longleftrightarrow> length (concat (map f (take (Suc i) xs))) \<le> k"
proof (induction xs arbitrary: i k)
  case (Cons x xs)
  then show ?case by (cases i) auto
qed simp

lemma take_frames:
  "\<exists>t. take k (concat (map f xs)) = concat (map f (take (whole_frames f xs k) xs)) @ t
    \<and> (whole_frames f xs k < length xs \<longrightarrow> (\<exists>j < length (f (xs ! whole_frames f xs k)). t = take j (f (xs ! whole_frames f xs k))))
    \<and> (whole_frames f xs k = length xs \<longrightarrow> t = [])"
proof (induction xs arbitrary: k)
  case (Cons x xs)
  show ?case
  proof (cases "length (f x) \<le> k")
    case True
    then show ?thesis using Cons[of "k - length (f x)"] by auto
  next
    case False
    then show ?thesis by (auto intro!: exI[of _ k])
  qed
qed simp

lemma whole_frames_prefix:
  assumes "i < whole_frames f xs k"
  shows "\<exists>post. take k (concat (map f xs)) = concat (map f (take i xs)) @ f (xs ! i) @ post"
  using assms
proof (induction xs arbitrary: i k)
  case (Cons x xs)
  then have k: "length (f x) \<le> k" by (auto split: if_splits)
  show ?case
  proof (cases i)
    case (Suc j)
    then have "j < whole_frames f xs (k - length (f x))" using Cons.prems k by simp
    from Cons.IH[OF this] show ?thesis using k Suc by simp
  qed (simp add: k)
qed simp

lemma seg_take: "q \<le> d \<Longrightarrow> seg (take d xs) p q = seg xs p q"
  by (cases "p \<le> q") (simp_all add: seg_def drop_take min_def)

section \<open>The contract\<close>

locale framed =
  fixes frame :: "'a \<Rightarrow> u8 list"
    and frame_ok :: "'a \<Rightarrow> bool"
    and position_ok :: "nat \<Rightarrow> bool"
    and frame_end :: "u8 list \<Rightarrow> usize \<Rightarrow> usize option res"
  assumes frame_whole: "frame_ok x \<Longrightarrow> position_ok (length pre) \<Longrightarrow> fits (pre @ frame x @ post)
      \<Longrightarrow> frame_end (pre @ frame x @ post) (length pre) = Ok (Some (length pre + length (frame x)))"
    and frame_torn: "frame_ok x \<Longrightarrow> position_ok (length pre) \<Longrightarrow> fits (pre @ frame x) \<Longrightarrow> j < length (frame x)
      \<Longrightarrow> frame_end (pre @ take j (frame x)) (length pre) = Ok None"
    and frame_none: "frame_end data (length data) = Ok None"
    and position_next: "frame_ok x \<Longrightarrow> position_ok p \<Longrightarrow> position_ok (p + length (frame x))"
begin

abbreviation frames :: "'a list \<Rightarrow> u8 list" where
  "frames xs \<equiv> concat (map frame xs)"

lemma position_frames: "list_all frame_ok xs \<Longrightarrow> position_ok p \<Longrightarrow> position_ok (p + length (frames xs))"
proof (induction xs arbitrary: p)
  case (Cons x xs)
  from Cons.IH[OF _ position_next[of x p]] Cons.prems show ?case by (simp add: add.assoc)
qed simp

text \<open>What a reader of the first \<open>k\<close> bytes of the frames is told at the start of frame \<open>i\<close>.\<close>

lemma frame_end_at:
  assumes ok: "list_all frame_ok xs" and pre: "position_ok (length pre)" and fits: "fits (pre @ frames xs)"
    and data: "data = pre @ take k (frames xs)" and off: "off = length pre + length (frames (take i xs))"
  shows "i < whole_frames frame xs k \<Longrightarrow> frame_end data off = Ok (Some (off + length (frame (xs ! i))))"
    and "i = whole_frames frame xs k \<Longrightarrow> frame_end data off = Ok None"
proof -
  let ?m = "whole_frames frame xs k"
  obtain t where t: "take k (frames xs) = frames (take ?m xs) @ t"
    "?m < length xs \<Longrightarrow> \<exists>j < length (frame (xs ! ?m)). t = take j (frame (xs ! ?m))" "?m = length xs \<Longrightarrow> t = []"
    using take_frames[of k frame xs] by blast
  have le: "?m \<le> length xs" by (rule whole_frames_le)
  have small: "length data \<le> length (pre @ frames xs)" unfolding data by simp
  have okp: "list_all frame_ok (take i xs)" "i < length xs \<Longrightarrow> frame_ok (xs ! i)"
    using ok by (auto simp: list_all_length)
  have pos: "position_ok (length (pre @ frames (take i xs)))"
    using position_frames[OF okp(1) pre] by simp
  show "frame_end data off = Ok (Some (off + length (frame (xs ! i))))" if i: "i < ?m"
  proof -
    have "take ?m xs = take i xs @ xs ! i # drop (Suc i) (take ?m xs)"
      using i le by (subst id_take_nth_drop[of i "take ?m xs"]) simp_all
    then have "frames (take ?m xs) = frames (take i xs) @ frame (xs ! i) @ frames (drop (Suc i) (take ?m xs))"
      by (metis map_append list.map(2) concat_append concat.simps(2))
    then have d: "data = (pre @ frames (take i xs)) @ frame (xs ! i) @ (frames (drop (Suc i) (take ?m xs)) @ t)"
      by (simp add: data t(1))
    have "fits data" using small fits by (simp add: lims)
    then show ?thesis
      unfolding d off using frame_whole[OF okp(2) pos, of "frames (drop (Suc i) (take ?m xs)) @ t"] i le by simp
  qed
  show "frame_end data off = Ok None" if i: "i = ?m"
  proof (cases "?m = length xs")
    case True
    then have "length data = off" using t(3) by (simp add: data t(1) off i)
    then show ?thesis using frame_none[of data] by simp
  next
    case False
    then obtain j where j: "j < length (frame (xs ! i))" "t = take j (frame (xs ! i))" using t(2) le i by auto
    have "length (frames (take (Suc i) xs)) \<le> length (frames xs)"
      by (subst (2) append_take_drop_id[of "Suc i" xs, symmetric]) (simp only: map_append concat_append, simp)
    then have "fits ((pre @ frames (take i xs)) @ frame (xs ! i))"
      using fits False le i by (simp add: take_Suc_conv_app_nth lims)
    from frame_torn[OF okp(2) pos this j(1)] show ?thesis
      using False le i by (simp add: data t(1) j(2) off)
  qed
qed

end

end
