(* ===== verification/Stream_Files.thy ===== *)
theory Stream_Files
  imports Stream_Reader Frames Row_Files
begin

text \<open>
  Streams of records: what a reader of the first bytes of a stream gets to see
  (\<^verbatim>\<open>rust/src/writer.rs\<close> against \<^verbatim>\<open>rust/src/stream_reader.rs\<close>).
\<close>

section \<open>Objects are frames\<close>

lemma written_head:
  assumes "8 \<le> k"
  obtains rest where "take k (writer_object n fs)
    = u32_le MAGIC_OBJ @ u32_le (word_of_nat (head_len n + length (all_bytes fs))) @ rest"
proof -
  obtain rest where "writer_object n fs = u32_le MAGIC_OBJ @ u32_le (word_of_nat (head_len n + length (all_bytes fs))) @ rest"
    by (simp add: writer_object_def Let_def)
  then show thesis using assms that[of "take (k - 8) rest"] by simp
qed

text \<open>The end of an object of which at least the first eight bytes are there.\<close>

lemma object_end:
  assumes ok: "record_ok n fs" "0 < n" and "8 \<le> k" and data: "data = pre @ take k (writer_object n fs) @ post" and fits: "fits data"
  shows "complete_nyxo_end data (length pre)
    = (if length pre + length (writer_object n fs) \<le> length data then Some (length pre + length (writer_object n fs)) else None)"
proof -
  let ?l = "head_len n + length (all_bytes fs)"
  obtain rest where t: "take k (writer_object n fs) = u32_le MAGIC_OBJ @ u32_le (word_of_nat ?l) @ rest"
    using written_head[OF assms(3)] by blast
  have l: "length (writer_object n fs) = ?l" "8 \<le> ?l" using record_ok_object(3,4)[OF ok] by simp_all
  have small: "?l < 65536" using ok(1) by (simp add: record_ok_def)
  then have u: "unat (word_of_nat ?l :: u32) = ?l" by (simp only: unat_of_nat, simp add: take_bit_nat_eq_self)
  have d: "data = pre @ u32_le MAGIC_OBJ @ u32_le (word_of_nat ?l) @ rest @ post" by (simp add: data t)
  have "get_u32 data (length pre) = Some MAGIC_OBJ" "get_u32 data (length pre + 4) = Some (word_of_nat ?l)"
    "length pre + 8 \<le> length data"
    using fits seg_at[of data pre "u32_le MAGIC_OBJ"] seg_at[of data "pre @ u32_le MAGIC_OBJ" "u32_le (word_of_nat ?l)"]
    by (simp_all add: get_uint_Some d)
  moreover have "checked_add (length pre) ?l = Some (length pre + ?l)"
    by (rule checked_add_Some) (use fits small in \<open>simp add: d lims\<close>)
  ultimately show ?thesis using l u by (simp add: complete_nyxo_end_def)
qed

abbreviation object_frame_ok :: "nat \<Rightarrow> (u16 \<times> wr_value) list \<Rightarrow> bool" where
  "object_frame_ok n fs \<equiv> 0 < n \<and> record_ok n fs"

interpretation nyxo: framed "writer_object n" "object_frame_ok n" "\<lambda>_. True" "\<lambda>data off. Ok (complete_nyxo_end data off)" for n
proof
  fix x :: "(u16 \<times> wr_value) list" and pre post :: "u8 list" and j :: nat
  assume ok: "object_frame_ok n x"
  note l = record_ok_object(4)[of n x]
  show "Ok (complete_nyxo_end (pre @ writer_object n x @ post) (length pre)) = Ok (Some (length pre + length (writer_object n x)))"
    if "fits (pre @ writer_object n x @ post)"
    using object_end[of n x "length (writer_object n x)" "pre @ writer_object n x @ post" pre post] ok l that by simp
  show "Ok (complete_nyxo_end (pre @ take j (writer_object n x)) (length pre)) = Ok None"
    if f: "fits (pre @ writer_object n x)" and j: "j < length (writer_object n x)"
  proof (cases "8 \<le> j")
    case True
    have "fits (pre @ take j (writer_object n x))" using f j by simp
    then show ?thesis
      using object_end[of n x j "pre @ take j (writer_object n x)" pre "[]"] ok j True by simp
  next
    case False
    then show ?thesis using j by (simp add: complete_nyxo_end_def)
  qed
qed (simp_all add: complete_nyxo_end_def)

section \<open>Polling a prefix of the objects\<close>

lemma poll_from:
  assumes ok: "list_all (object_frame_ok n) rs" and fits: "fits (pre @ objects n rs)"
    and "sr_data sr = pre @ take k (objects n rs)" and "sr_cursor sr = length pre + length (objects n (take i rs))"
    and "i \<le> whole_frames (writer_object n) rs k"
  shows "fst (poll_offsets sr) = map (\<lambda>j. length pre + length (objects n (take j rs))) [i..<whole_frames (writer_object n) rs k]"
  using assms(3-)
proof (induction "whole_frames (writer_object n) rs k - i" arbitrary: i sr)
  case 0
  then have "complete_nyxo_end (sr_data sr) (sr_cursor sr) = None"
    using nyxo.frame_end_at(2)[OF ok _ fits 0(2) 0(3)] by simp
  then show ?case using 0 by (subst poll_offsets.simps) (simp add: poll_next_offset_def)
next
  case (Suc d)
  let ?m = "whole_frames (writer_object n) rs k"
  have i: "i < ?m" using Suc(2) by linarith
  then have lt: "i < length rs" using whole_frames_le[of "writer_object n" rs k] by simp
  have "complete_nyxo_end (sr_data sr) (sr_cursor sr) = Some (length pre + length (objects n (take (Suc i) rs)))"
    using nyxo.frame_end_at(1)[OF ok _ fits Suc(3) Suc(4) i] lt Suc(4) by (simp add: take_Suc_conv_app_nth)
  then have p: "poll_next_offset sr = (Some (sr_cursor sr), sr\<lparr>sr_cursor := length pre + length (objects n (take (Suc i) rs))\<rparr>)"
    by (simp add: poll_next_offset_def)
  have "fst (poll_offsets (sr\<lparr>sr_cursor := length pre + length (objects n (take (Suc i) rs))\<rparr>))
      = map (\<lambda>j. length pre + length (objects n (take j rs))) [Suc i..<?m]"
    by (rule Suc(1)) (use Suc(2,3) i in simp_all)
  then show ?case using p Suc(4) i by (subst poll_offsets.simps) (auto simp: upt_conv_Cons split: prod.splits)
qed

section \<open>Opening a stream\<close>

lemma build_schema_no_sigils: "build_schema keys [] = build_schema keys (replicate (length keys) 0)"
proof -
  have "get_or_zero [] i = get_or_zero (replicate (length keys) 0) i" for i
    by (simp add: get_or_zero_def get_at_def)
  then show ?thesis by (simp add: build_schema_def)
qed

lemma open_row_stream:
  assumes data: "data = fst (stream_file_header (new_schema keys)) @ rest" and keys: "keys_ok keys" and fits: "fits data"
  obtains sr where "stream_open data = Ok sr" "row_view sr = row_reader keys (stored_sigils (replicate (length keys) 0)) data 0 0"
    "sr_data sr = data" "sr_keys sr = keys" "sr_cursor sr = 32 + length (build_schema keys [])"
proof -
  let ?sigs = "replicate (length keys) (0 :: u8)" let ?sb = "build_schema keys ?sigs"
  let ?pre = "file_preamble VERSION FLAG_SCHEMA_EMBEDDED ?sb"
  have d: "data = ?pre @ ?sb @ rest"
    by (simp add: data stream_file_header_def Let_def new_schema_def build_schema_no_sigils)
  have parse: "parse_schema data 32 = Ok (keys, stored_sigils ?sigs, 32 + length ?sb)"
    using schema_at[OF keys _ d fits] by auto
  have r0: "rd_u32 data 0 = Ok MAGIC_FILE"
    using u32c.rd_at[OF fits, of "[]" MAGIC_FILE] by (simp add: d file_preamble_def)
  have r6: "rd_u16 data 6 = Ok FLAG_SCHEMA_EMBEDDED"
    by (rule u16c.rd_at[OF fits, of "u32_le MAGIC_FILE @ u16_le VERSION"]) (simp_all add: d file_preamble_def)
  have r16: "rd_u64 data 16 = Ok 0"
    by (rule u64c.rd_at[OF fits, of "u32_le MAGIC_FILE @ u16_le VERSION @ u16_le FLAG_SCHEMA_EMBEDDED @ u64_le (murmur3_64 ?sb)"])
      (simp_all add: d file_preamble_def)
  have len: "32 \<le> length data" by (simp add: d)
  then have "\<exists>b. footer_present data = Ok b" using fits by (auto simp: footer_present_def rd_Ok)
  then obtain b where "footer_present data = Ok b" by blast
  then have "stream_open data = Ok \<lparr>sr_data = data, sr_flags = FLAG_SCHEMA_EMBEDDED, sr_keys = keys,
      sr_key_sigils = stored_sigils ?sigs, sr_key_index = (\<lambda>k. position k keys), sr_ext_schema = None, sr_cell_plan = None,
      sr_data_start = 32 + length ?sb, sr_cursor = 32 + length ?sb, sr_sealed = b\<rparr>"
    using len r0 r6 r16 parse plain_flags keys
    by (simp add: stream_open_def stream_schema_def keys_ok_def index_keys_distinct)
  then show thesis by (rule that) (simp_all add: row_view_def row_reader_def build_schema_no_sigils)
qed

definition stream_reads_back :: "stream_reader \<Rightarrow> usize \<Rightarrow> rstring \<Rightarrow> wr_value option \<Rightarrow> bool" where
  "stream_reads_back sr off key x = (case x of
     None \<Rightarrow> get_i64_at sr off key = Ok None \<and> get_f64_at sr off key = Ok None \<and> get_bool_at sr off key = Ok None
       \<and> get_str_at sr off key = Ok None
   | Some (WInt v) \<Rightarrow> get_i64_at sr off key = Ok (Some v)
   | Some (WTime v) \<Rightarrow> get_i64_at sr off key = Ok (Some v)
   | Some (WFloat v) \<Rightarrow> get_f64_at sr off key = Ok (Some v)
   | Some (WBool b) \<Rightarrow> get_bool_at sr off key = Ok (Some b)
   | Some (WStr s) \<Rightarrow> get_str_at sr off key = Ok (str_from_utf8 s)
   | Some (WBytes s) \<Rightarrow> get_str_at sr off key = Ok (str_from_utf8 s)
   | Some WNull \<Rightarrow> get_i64_at sr off key = Ok (Some 0)
   | Some (WInts _) \<Rightarrow> True
   | Some (WFloats _) \<Rightarrow> True)"

lemma stream_reads_back_view: "stream_reads_back sr off key x = reads_back (row_view sr) off key x"
  unfolding stream_reads_back_def reads_back_def stream_getters by (rule refl)

text \<open>
  C10: A row stream can be read while it is written.  For distinct valid names and records that fit their
  16-bit offset table, cut the streamed file anywhere behind its header: the stream reader opens it,
  polls exactly the records that are whole, in the order they were written, and at each of them every
  getter returns the value written under its name and nothing under the names left out.
\<close>

theorem stream_polls_whole_records:
  assumes "keys_ok keys" and "keys \<noteq> []" and "schema_len keys < 2 ^ 59"
    and "list_all (record_ok (length keys)) rs" and "length (objects (length keys) rs) < 2 ^ 32"
  shows "\<exists>w. rfold write_record rs (new_writer (new_schema keys)) = Ok w
     \<and> (\<forall>k. \<exists>sr offs. stream_open (fst (stream_file_header (new_schema keys)) @ take k (w_buf w)) = Ok sr
          \<and> sr_keys sr = keys \<and> fst (poll_offsets sr) = offs
          \<and> length offs = whole_frames (writer_object (length keys)) rs k
          \<and> (\<forall>i < length offs. \<forall>slot < length keys.
               stream_reads_back sr (offs ! i) (keys ! slot) (map_of (rs ! i) (word_of_nat slot))))"
proof -
  let ?n = "length keys" let ?w0 = "new_writer (new_schema keys)" let ?hdr = "fst (stream_file_header (new_schema keys))"
  let ?m = "whole_frames (writer_object ?n) rs"
  have w0: "w_compact ?w0 = None" "w_schema ?w0 = new_schema keys" "w_frames ?w0 = []" "w_buf ?w0 = []"
    by (simp_all add: new_writer_def writer_with_compact_def new_schema_def Let_def)
  obtain w where w: "rfold write_record rs ?w0 = Ok w" "w_buf w = objects ?n rs"
    using write_records[OF w0(1,2) assms(2) w0(3) assms(4)] assms(5) w0 by auto
  have ok: "list_all (object_frame_ok ?n) rs" using assms(2,4) by (auto simp: list_all_iff)
  have hdr: "length ?hdr = 32 + length (build_schema keys [])" "length (build_schema keys []) < 2 ^ 59 + 8"
    using assms(3) align8_lt[of "schema_len keys"]
    by (simp_all add: stream_file_header_def Let_def new_schema_def length_build_schema)
  then have small: "length (?hdr @ take k (objects ?n rs)) < 2 ^ 60" "fits (?hdr @ take k (objects ?n rs))"
    "fits (?hdr @ objects ?n rs)" for k
    using assms(5) by (simp_all add: lims)
  have "\<exists>sr offs. stream_open (?hdr @ take k (w_buf w)) = Ok sr \<and> sr_keys sr = keys \<and> fst (poll_offsets sr) = offs
      \<and> length offs = ?m k \<and> (\<forall>i < length offs. \<forall>slot < ?n.
           stream_reads_back sr (offs ! i) (keys ! slot) (map_of (rs ! i) (word_of_nat slot)))" for k
  proof -
    obtain sr where sr: "stream_open (?hdr @ take k (objects ?n rs)) = Ok sr"
      "row_view sr = row_reader keys (stored_sigils (replicate ?n 0)) (?hdr @ take k (objects ?n rs)) 0 0"
      "sr_data sr = ?hdr @ take k (objects ?n rs)" "sr_keys sr = keys" "sr_cursor sr = 32 + length (build_schema keys [])"
      by (rule open_row_stream[OF refl assms(1) small(2)])
    have offs: "fst (poll_offsets sr) = map (\<lambda>j. length ?hdr + length (objects ?n (take j rs))) [0..<?m k]"
      by (rule poll_from[OF ok small(3) sr(3)]) (simp_all add: sr(5) hdr)
    have "stream_reads_back sr (length ?hdr + length (objects ?n (take i rs))) (keys ! slot) (map_of (rs ! i) (word_of_nat slot))"
      if i: "i < ?m k" and slot: "slot < ?n" for i slot
    proof -
      have lt: "i < length rs" using i whole_frames_le[of "writer_object ?n" rs k] by simp
      obtain post where post: "take k (objects ?n rs) = objects ?n (take i rs) @ writer_object ?n (rs ! i) @ post"
        using whole_frames_prefix[OF i] by blast
      have "record_ok ?n (rs ! i)" using assms(4) lt by (simp add: list_all_length)
      moreover have "?hdr @ take k (objects ?n rs) = (?hdr @ objects ?n (take i rs)) @ writer_object ?n (rs ! i) @ post"
        by (simp add: post)
      ultimately show ?thesis
        using object_reads_back[OF _ sr(2) assms(1) _ small(1) slot, of "?hdr @ objects ?n (take i rs)" "rs ! i" post]
        by (simp add: stream_reads_back_view)
    qed
    then show ?thesis using sr(1,4) offs unfolding w(2) by (intro exI[of _ sr]) simp
  qed
  then show ?thesis using w(1) by blast
qed

theorem stream_polls_whole_records_witness:
  "\<exists>w sr off. rfold write_record [[(0, WInt 7)], [(1, WStr [104, 105])]] (new_writer (new_schema [[97], [98]])) = Ok w
     \<and> stream_open (fst (stream_file_header (new_schema [[97], [98]])) @ take 30 (w_buf w)) = Ok sr
     \<and> fst (poll_offsets sr) = [off] \<and> get_i64_at sr off [97] = Ok (Some 7) \<and> get_str_at sr off [98] = Ok None"
proof -
  let ?rs = "[[(0, WInt 7)], [(1, WStr [104, 105])]] :: (u16 \<times> wr_value) list list" and ?ks = "[[97], [98]] :: rstring list"
  have "keys_ok ?ks" "schema_len ?ks < 2 ^ 59" "list_all (record_ok (length ?ks)) ?rs"
    "length (objects (length ?ks) ?rs) < 2 ^ 32" by code_simp+
  from stream_polls_whole_records[OF this(1) _ this(2-4)] obtain w where
    o: "rfold write_record ?rs (new_writer (new_schema ?ks)) = Ok w"
    and a: "\<forall>k. \<exists>sr offs. stream_open (fst (stream_file_header (new_schema ?ks)) @ take k (w_buf w)) = Ok sr
          \<and> sr_keys sr = ?ks \<and> fst (poll_offsets sr) = offs \<and> length offs = whole_frames (writer_object (length ?ks)) ?rs k
          \<and> (\<forall>i < length offs. \<forall>slot < length ?ks.
               stream_reads_back sr (offs ! i) (?ks ! slot) (map_of (?rs ! i) (word_of_nat slot)))" by blast
  have one: "whole_frames (writer_object (length ?ks)) ?rs 30 = 1" by code_simp
  from a[rule_format, of 30] obtain sr offs where
    sr: "stream_open (fst (stream_file_header (new_schema ?ks)) @ take 30 (w_buf w)) = Ok sr" "fst (poll_offsets sr) = offs"
      "length offs = 1" and r: "\<forall>i < length offs. \<forall>slot < length ?ks.
               stream_reads_back sr (offs ! i) (?ks ! slot) (map_of (?rs ! i) (word_of_nat slot))" unfolding one by blast
  then obtain off where off: "offs = [off]" by (auto simp: length_Suc_conv)
  have "stream_reads_back sr off [97] (Some (WInt 7))" "stream_reads_back sr off [98] None"
    using r[rule_format, of 0 0] r[rule_format, of 0 1] off by simp_all
  then show ?thesis using o sr off by (auto simp: stream_reads_back_def)
qed

end
