(* ===== verification/Pax_Stream.thy ===== *)
theory Pax_Stream
  imports Query
begin

text \<open>
  The PAX stream: \<^verbatim>\<open>rust/src/pax_stream.rs\<close>.

  A writer collects records, emits a page whenever it has a page full, and ends with the tail index and
  the footer.  A reader finds the complete pages of a file that is still growing.  Positions in a file are
  sums of lengths of buffers, so their additions are exact; an offset beyond the end of the buffer is
  refused by \<open>get\<close> whether or not the addition before it wraps.
\<close>

section \<open>Complete pages\<close>

record page_meta =
  pm_index :: u32
  pm_start :: u64
  pm_count :: u32
  pm_offset :: u64
  pm_length :: u32

text \<open>The end of the columns of a page: one step of the loop over the fields.\<close>

definition page_column_end :: "u8 list \<Rightarrow> u8 list \<Rightarrow> usize \<Rightarrow> usize \<Rightarrow> usize option res \<Rightarrow> usize option res" where
  "page_column_end data sigils rc fi body =
     obind body (\<lambda>body_end.
     if length data < body_end then Ok None
     else obind (res_ok (column_sector_len (drop body_end data) rc (case get_at sigils fi of Some s \<Rightarrow> s | None \<Rightarrow> SIGIL_INT)))
            (\<lambda>slen. Ok (checked_add body_end slen)))"

definition complete_page_end :: "u8 list \<Rightarrow> usize \<Rightarrow> u8 list \<Rightarrow> usize option res" where
  "complete_page_end data off sigils =
     (if length data < off + 24 then Ok None
      else obind (Ok (get_u32 data off)) (\<lambda>magic.
      if magic \<noteq> MAGIC_PAGE then Ok None
      else obind (Ok (get_u32 data (off + 16))) (\<lambda>rc.
           obind (Ok (get_u16 data (off + 20))) (\<lambda>fc.
           obind (fold (page_column_end data sigils (unat rc)) [0..<unat fc] (Ok (Some (off + 24)))) (\<lambda>body_end.
           if length data < body_end + 4 then Ok None
           else obind (Ok (get_u32 data body_end)) (\<lambda>page_len.
                obind (Ok (checked_add off (unat page_len))) (\<lambda>logical_end.
                if logical_end \<noteq> body_end + 4 then Ok None
                else let aligned_end = (logical_end + 7) div 8 * 8 in
                     Ok (if aligned_end \<le> length data then Some aligned_end else None))))))))"

section \<open>The writer\<close>

record pax_writer =
  px_keys :: "rstring list"
  px_sigils :: "u8 list"
  px_schema_bytes :: "u8 list"
  px_dict_hash :: u64
  px_page_size :: u32
  px_field_count :: usize
  px_pending :: "cell list list"
  px_data :: "u8 list"
  px_pages :: "page_meta list"
  px_next_index :: u32
  px_next_start :: u64

definition pax_writer_new :: "rstring list \<Rightarrow> u8 list \<Rightarrow> u32 \<Rightarrow> pax_writer res" where
  "pax_writer_new keys sigils page_size =
     (if page_size = 0 then Err (ParseError ''page_size must be > 0'')
      else if keys = [] then Err (ParseError ''PAX stream writer requires schema keys'')
      else let sb = build_schema keys sigils in
        Ok \<lparr>px_keys = keys, px_sigils = sigils, px_schema_bytes = sb, px_dict_hash = murmur3_64 sb, px_page_size = page_size,
            px_field_count = length keys, px_pending = [], px_data = [], px_pages = [], px_next_index = 0, px_next_start = 0\<rparr>)"

definition flush_page :: "pax_writer \<Rightarrow> (u8 list \<times> pax_writer) res" where
  "flush_page w =
     (let count = word_of_nat (length (px_pending w));
          page_off = word_of_nat (32 + length (px_schema_bytes w) + length (px_data w)) in
      rbind (encode_page (px_next_index w) (px_next_start w) count (px_field_count w) (px_sigils w) (px_pending w)) (\<lambda>page.
      Ok (page, w\<lparr>px_pages := px_pages w @ [\<lparr>pm_index = px_next_index w, pm_start = px_next_start w, pm_count = count,
                                            pm_offset = page_off, pm_length = word_of_nat (length page)\<rparr>],
                  px_data := px_data w @ page, px_next_index := px_next_index w + 1,
                  px_next_start := px_next_start w + ucast count, px_pending := []\<rparr>)))"

definition push_record :: "cell list \<Rightarrow> pax_writer \<Rightarrow> (u8 list option \<times> pax_writer) res" where
  "push_record row w =
     (let w = w\<lparr>px_pending := px_pending w @ [row]\<rparr> in
      if px_page_size w \<le> word_of_nat (length (px_pending w))
      then rbind (flush_page w) (\<lambda>(page, w). Ok (Some page, w)) else Ok (None, w))"

definition flush_pending :: "pax_writer \<Rightarrow> (u8 list option \<times> pax_writer) res" where
  "flush_pending w =
     (if px_pending w = [] then Ok (None, w) else rbind (flush_page w) (\<lambda>(page, w). Ok (Some page, w)))"

definition pax_writer_from_rows :: "rstring list \<Rightarrow> cell list list \<Rightarrow> u32 \<Rightarrow> pax_writer res" where
  "pax_writer_from_rows keys rows page_size =
     rbind (pax_writer_new keys (sigils_for_keys keys rows) page_size)
       (rfold (\<lambda>row w. rbind (push_record row w) (\<lambda>(_, w). Ok w)) rows)"

definition total_records :: "pax_writer \<Rightarrow> u64" where
  "total_records w = px_next_start w + word_of_nat (length (px_pending w))"

text \<open>Writing to an output that is the list of the bytes written so far.\<close>

definition pax_preamble :: "pax_writer \<Rightarrow> u64 \<Rightarrow> u8 list" where
  "pax_preamble w tail =
     u32_le MAGIC_FILE @ u16_le VERSION @ u16_le (or FLAG_SCHEMA_EMBEDDED FLAG_PAX) @ u64_le (px_dict_hash w)
       @ u64_le tail @ u64_le 0"

definition write_stream_header :: "pax_writer \<Rightarrow> u8 list \<Rightarrow> u8 list \<times> u64" where
  "write_stream_header w out =
     (out @ pax_preamble w 0 @ px_schema_bytes w, word_of_nat (32 + length (px_schema_bytes w)))"

definition write_data_since :: "pax_writer \<Rightarrow> usize \<Rightarrow> u8 list \<Rightarrow> u8 list" where
  "write_data_since w start out = (if start < length (px_data w) then out @ drop start (px_data w) else out)"

definition page_meta_bytes :: "page_meta \<Rightarrow> u8 list" where
  "page_meta_bytes p =
     u32_le (pm_index p) @ u64_le (pm_start p) @ u32_le (pm_count p) @ u64_le (pm_offset p) @ u32_le (pm_length p)"

definition build_pax_tail :: "page_meta list \<Rightarrow> u64 \<Rightarrow> u64 \<Rightarrow> u32 \<Rightarrow> u8 list" where
  "build_pax_tail pages tail_index_offset record_count page_size =
     concat (map page_meta_bytes pages) @ u64_le tail_index_offset @ u64_le record_count
       @ u32_le (word_of_nat (length pages)) @ u32_le page_size @ u32_le MAGIC_FOOTER"

text \<open>What \<open>finish_stream\<close> and \<open>seal_stream\<close> share: the last page, and the tail behind it.\<close>

definition sealed_tail :: "pax_writer \<Rightarrow> (pax_writer \<times> u64 \<times> u8 list) res" where
  "sealed_tail w =
     rbind (if px_pending w = [] then Ok w else rbind (flush_page w) (\<lambda>(_, w). Ok w)) (\<lambda>w.
     let off = word_of_nat (32 + length (px_schema_bytes w) + length (px_data w)) in
     Ok (w, off, build_pax_tail (px_pages w) off (total_records w) (px_page_size w)))"

definition finish_stream :: "pax_writer \<Rightarrow> u8 list res" where
  "finish_stream w =
     rbind (sealed_tail w) (\<lambda>(w, off, tail). Ok (pax_preamble w off @ px_schema_bytes w @ px_data w @ tail))"

definition seal_stream :: "pax_writer \<Rightarrow> u8 list \<Rightarrow> (u8 list \<times> u64) res" where
  "seal_stream w out = rbind (sealed_tail w) (\<lambda>(_, off, tail). Ok (out @ tail, off))"

section \<open>Views of a page\<close>

record page_view =
  pv_offset :: usize
  pv_index :: u32
  pv_start :: u64
  pv_count :: u32
  pv_fields :: u16
  pv_data :: "u8 list"

definition parse_page_view :: "u8 list \<Rightarrow> usize \<Rightarrow> page_view res" where
  "parse_page_view data off =
     rbind (rd_u32 data (off + 4)) (\<lambda>i. rbind (rd_u64 data (off + 8)) (\<lambda>s.
     rbind (rd_u32 data (off + 16)) (\<lambda>c. rbind (rd_u16 data (off + 20)) (\<lambda>f.
     Ok \<lparr>pv_offset = off, pv_index = i, pv_start = s, pv_count = c, pv_fields = f, pv_data = data\<rparr>))))"

definition view_field_parts :: "page_view \<Rightarrow> usize \<Rightarrow> (u8 list \<times> u8 list) res" where
  "view_field_parts v slot =
     (let rc = unat (pv_count v); bm_len = null_bitmap_bytes rc;
          body = fold (\<lambda>_ body. body + (bm_len + rc * 8)) [0..<slot] (pv_offset v + 24) in
      if unat (pv_fields v) \<le> slot \<or> length (pv_data v) < body + bm_len + rc * 8 then Err OutOfBounds
      else rbind (slice (pv_data v) body (body + bm_len)) (\<lambda>bm.
           rbind (slice (pv_data v) (body + bm_len) (body + bm_len + rc * 8)) (\<lambda>vals. Ok (bm, vals))))"

text \<open>\<open>PaxPageView::get_f64\<close> and \<open>get_i64\<close>, on the bits of the value.\<close>

definition view_get :: "page_view \<Rightarrow> usize \<Rightarrow> rstring \<Rightarrow> (rstring \<rightharpoonup> usize) \<Rightarrow> u64 option res" where
  "view_get v local key key_index =
     obind (Ok (key_index key)) (\<lambda>slot. fixed_value get_u64 (view_field_parts v slot) local)"

section \<open>The reader\<close>

record pax_stream =
  pr_data :: "u8 list"
  pr_keys :: "rstring list"
  pr_sigils :: "u8 list"
  pr_index :: "rstring \<rightharpoonup> usize"
  pr_data_start :: usize
  pr_cursor :: usize
  pr_sealed :: bool

definition stream_sealed :: "u8 list \<Rightarrow> u64 \<Rightarrow> bool res" where
  "stream_sealed data preamble_tail =
     (if length data < 32 then Ok False
      else rbind (rd_u32 data (length data - 4)) (\<lambda>magic.
        if magic \<noteq> MAGIC_FOOTER then Ok False
        else if preamble_tail \<noteq> 0 then Ok True
        else rbind (rd_u64 data (length data - 28)) (\<lambda>tp.
             Ok (0 < unat tp \<and> unat tp < length data \<and> 28 \<le> length data - unat tp))))"

definition pax_stream_open :: "u8 list \<Rightarrow> pax_stream res" where
  "pax_stream_open data =
     (if length data < 32 then Err OutOfBounds
      else rbind (rd_u32 data 0) (\<lambda>magic.
      if magic \<noteq> MAGIC_FILE then Err BadMagic
      else rbind (rd_u16 data 6) (\<lambda>flags.
      if \<not> has_flag flags FLAG_PAX then Err UnsupportedLayout
      else rbind (rd_u64 data 16) (\<lambda>preamble_tail.
      if \<not> has_flag flags FLAG_SCHEMA_EMBEDDED then Err (ParseError ''PAX stream requires FLAG_SCHEMA_EMBEDDED'')
      else rbind (parse_schema data 32) (\<lambda>(keys, sigils, start).
           rbind (stream_sealed data preamble_tail) (\<lambda>sealed.
           if \<not> sealed \<and> preamble_tail \<noteq> 0 then Err (ParseError ''PAX stream: preamble tail offset set before seal'')
           else Ok \<lparr>pr_data = data, pr_keys = keys, pr_sigils = sigils, pr_index = index_keys keys, pr_data_start = start,
                    pr_cursor = start, pr_sealed = sealed\<rparr>))))))"

lemma obind_eq_Some: "obind x f = Ok (Some y) \<longleftrightarrow> (\<exists>a. x = Ok (Some a) \<and> f a = Ok (Some y))"
  by (cases x) (auto simp: obind_def split: option.splits)

lemma column_ends_stop: "fold (page_column_end data sigils rc) fs x = Ok (Some c) \<Longrightarrow> \<exists>b. x = Ok (Some b) \<and> b \<le> c"
proof (induction fs arbitrary: x)
  case (Cons f fs)
  then obtain b where "page_column_end data sigils rc f x = Ok (Some b)" "b \<le> c" by auto
  then show ?case by (auto simp: page_column_end_def obind_eq_Some checked_add_eq_Some split: if_splits)
qed simp

lemma complete_page_end_advances:
  assumes "complete_page_end data off sigils = Ok (Some e)"
  shows "off + 4 \<le> e \<and> e \<le> length data"
proof -
  obtain rc fc b where "fold (page_column_end data sigils rc) [0..<fc] (Ok (Some (off + 24))) = Ok (Some b)"
    and e: "e = (b + 4 + 7) div 8 * 8" "e \<le> length data"
    using assms by (auto simp: complete_page_end_def obind_eq_Some Let_def split: if_splits)
  then have "off + 24 \<le> b" using column_ends_stop by fastforce
  moreover have "b + 4 \<le> (b + 4 + 7) div 8 * 8" by presburger
  ultimately show ?thesis using e by linarith
qed

text \<open>The loops over the complete pages, from an offset on.\<close>

function count_pages :: "pax_stream \<Rightarrow> usize \<Rightarrow> usize \<Rightarrow> usize res" where
  "count_pages r off n =
     (case complete_page_end (pr_data r) off (pr_sigils r) of
        Ok (Some e) \<Rightarrow> rbind (rd_u32 (pr_data r) (off + 16)) (\<lambda>rc. count_pages r e (n + unat rc))
      | Ok None \<Rightarrow> Ok n
      | Err e \<Rightarrow> Err e
      | Panic \<Rightarrow> Panic)"
  by pat_completeness auto

termination count_pages
  by (relation "measure (\<lambda>(r, off, n). Suc (length (pr_data r)) - off)") (auto dest!: complete_page_end_advances)

definition complete_record_count :: "pax_stream \<Rightarrow> usize res" where
  "complete_record_count r = count_pages r (pr_data_start r) 0"

definition has_complete_page :: "pax_stream \<Rightarrow> bool res" where
  "has_complete_page r = rbind (complete_page_end (pr_data r) (pr_data_start r) (pr_sigils r)) (\<lambda>e. Ok (e \<noteq> None))"

definition poll_next_page :: "pax_stream \<Rightarrow> (page_view option \<times> pax_stream) res" where
  "poll_next_page r =
     rbind (complete_page_end (pr_data r) (pr_cursor r) (pr_sigils r)) (\<lambda>e.
     case e of
       None \<Rightarrow> Ok (None, r)
     | Some e \<Rightarrow> rbind (parse_page_view (pr_data r) (pr_cursor r)) (\<lambda>v. Ok (Some v, r\<lparr>pr_cursor := e\<rparr>)))"

definition rewind_pages :: "pax_stream \<Rightarrow> pax_stream" where
  "rewind_pages r = r\<lparr>pr_cursor := pr_data_start r\<rparr>"

definition add_present :: "u8 list \<Rightarrow> u8 list \<Rightarrow> usize \<Rightarrow> f64 \<times> bool \<Rightarrow> (f64 \<times> bool) res" where
  "add_present bm vals i st =
     (case st of (acc, any) \<Rightarrow>
      rbind (col_bit bm i) (\<lambda>b.
      if b then rbind (rd_u64 vals (i * 8)) (\<lambda>v. Ok (f64_add acc v, True)) else Ok (acc, any)))"

function sum_pages :: "pax_stream \<Rightarrow> usize \<Rightarrow> usize \<Rightarrow> f64 \<times> bool \<Rightarrow> f64 option res" where
  "sum_pages r slot off st =
     (case complete_page_end (pr_data r) off (pr_sigils r) of
        Ok (Some e) \<Rightarrow>
          rbind (parse_page_view (pr_data r) off) (\<lambda>v.
          obind (res_ok (view_field_parts v slot)) (\<lambda>(bm, vals).
          rbind (rfold (add_present bm vals) [0..<unat (pv_count v)] st) (sum_pages r slot e)))
      | Ok None \<Rightarrow> Ok (if snd st then Some (fst st) else None)
      | Err e \<Rightarrow> Err e
      | Panic \<Rightarrow> Panic)"
  by pat_completeness auto

termination sum_pages
  by (relation "measure (\<lambda>(r, slot, off, st). Suc (length (pr_data r)) - off)") (auto dest!: complete_page_end_advances)

definition col_sum_complete_pages :: "pax_stream \<Rightarrow> rstring \<Rightarrow> f64 option res" where
  "col_sum_complete_pages r key = obind (Ok (pr_index r key)) (\<lambda>slot. sum_pages r slot (pr_data_start r) (0, False))"

function find_page :: "pax_stream \<Rightarrow> usize \<Rightarrow> rstring \<Rightarrow> usize \<Rightarrow> f64 option res" where
  "find_page r i key off =
     (case complete_page_end (pr_data r) off (pr_sigils r) of
        Ok (Some e) \<Rightarrow>
          rbind (parse_page_view (pr_data r) off) (\<lambda>v.
          let start = unat (pv_start v) in
          if start \<le> i \<and> i < wadd start (unat (pv_count v)) then view_get v (i - start) key (pr_index r)
          else find_page r i key e)
      | Ok None \<Rightarrow> Ok None
      | Err e \<Rightarrow> Err e
      | Panic \<Rightarrow> Panic)"
  by pat_completeness auto

termination find_page
  by (relation "measure (\<lambda>(r, i, key, off). Suc (length (pr_data r)) - off)") (auto dest!: complete_page_end_advances)

declare count_pages.simps [simp del] sum_pages.simps [simp del] find_page.simps [simp del]

definition get_f64_complete :: "pax_stream \<Rightarrow> usize \<Rightarrow> rstring \<Rightarrow> f64 option res" where
  "get_f64_complete r i key = find_page r i key (pr_data_start r)"

end
