(* ===== verification/Pax_Pages.thy ===== *)
theory Pax_Pages
  imports Pax_Stream Frames Layout_Files
begin

text \<open>
  Pages as frames: the test for a complete page of \<^verbatim>\<open>rust/src/pax_stream.rs\<close> on a stream that is cut anywhere.
\<close>

section \<open>The bytes of a page\<close>

text \<open>A page is its index, its first record and its rows.\<close>

type_synonym page = "u32 \<times> u64 \<times> cell list list"

definition page_head :: "u8 list \<Rightarrow> page \<Rightarrow> u8 list" where
  "page_head sigils x = (case x of (i, s, prow) \<Rightarrow>
     u32_le MAGIC_PAGE @ u32_le i @ u64_le s @ u32_le (word_of_nat (length prow)) @ u16_le (word_of_nat (length sigils)) @ u16_le 0)"

definition page_images :: "u8 list \<Rightarrow> cell list list \<Rightarrow> u8 list list" where
  "page_images sigils prow = map (\<lambda>slot. column_image (sigils ! slot) (column_of prow slot)) [0..<length sigils]"

definition page_body :: "u8 list \<Rightarrow> page \<Rightarrow> u8 list" where
  "page_body sigils x = concat (page_images sigils (snd (snd x)))"

definition page_bytes :: "u8 list \<Rightarrow> page \<Rightarrow> u8 list" where
  "page_bytes sigils x = pad8 (page_head sigils x @ page_body sigils x @ u32_le (word_of_nat (28 + length (page_body sigils x))))"

lemma length_page_head [simp]: "length (page_head sigils x) = 24"
  by (simp add: page_head_def split: prod.splits)

lemma length_page_images [simp]: "length (page_images sigils prow) = length sigils"
  by (simp add: page_images_def)

lemma length_page_bytes: "length (page_bytes sigils x) = align8 (28 + length (page_body sigils x))"
  by (simp add: page_bytes_def)

lemma encode_page_bytes:
  assumes "encode_page i s (word_of_nat (length prow)) (length sigils) sigils prow = Ok page"
  shows "page = page_bytes sigils (i, s, prow)"
proof -
  from assms obtain bufs where bufs: "rmap (\<lambda>i. encode_field_column (length prow) (map (\<lambda>row. cell_at row i) prow)
      (case get_at sigils i of Some s \<Rightarrow> s | None \<Rightarrow> SIGIL_INT)) [0..<length sigils] = Ok bufs"
    and page: "page = pad8 (u32_le MAGIC_PAGE @ u32_le i @ u64_le s @ u32_le (word_of_nat (length prow))
       @ u16_le (word_of_nat (length sigils)) @ u16_le 0 @ concat bufs @ u32_le (word_of_nat (24 + length (concat bufs) + 4)))"
    by (auto simp: encode_page_def Let_def res_simps)
  have l: "length bufs = length sigils" using rmap_Ok_length[OF bufs] by simp
  have enc: "encode_field_column (length prow) (column_of prow slot) (sigils ! slot) = Ok (bufs ! slot)" if "slot < length sigils" for slot
    using bufs that l by (simp add: rmap_Ok_iff list_all2_conv_all_nth column_of_def)
  have "bufs = page_images sigils prow"
    using l encode_field_column_image(1)[OF enc] by (intro nth_equalityI) (simp_all add: page_images_def)
  then show ?thesis by (simp add: page page_bytes_def page_head_def page_body_def)
qed

definition page_frame_ok :: "u8 list \<Rightarrow> page \<Rightarrow> bool" where
  "page_frame_ok sigils x \<longleftrightarrow> length sigils < 65536 \<and> length (snd (snd x)) < 2 ^ 32 \<and> length (page_bytes sigils x) < 2 ^ 32"

text \<open>The strings of a column are part of the page.\<close>

lemma page_image_small:
  assumes "page_frame_ok sigils x" and "slot < length sigils"
  shows "length (page_images sigils (snd (snd x)) ! slot) < 2 ^ 32"
    and "is_var_sigil (sigils ! slot) \<Longrightarrow> length (var_values (column_of (snd (snd x)) slot)) \<le> 0xFFFFFFFF"
proof -
  let ?im = "page_images sigils (snd (snd x))"
  have "length (?im ! slot) \<le> length (page_body sigils x)"
    using assms(2) by (auto simp: page_body_def length_concat intro!: member_le_sum_list nth_mem)
  also have "\<dots> \<le> length (page_bytes sigils x)"
    unfolding length_page_bytes by (rule order_trans[OF _ align8_ge]) simp
  finally have le: "length (?im ! slot) < 2 ^ 32" using assms(1) by (simp add: page_frame_ok_def)
  then show "length (?im ! slot) < 2 ^ 32" .
  show "length (var_values (column_of (snd (snd x)) slot)) \<le> 0xFFFFFFFF" if "is_var_sigil (sigils ! slot)"
    using le that assms(2) by (simp add: page_images_def column_image_def)
qed

section \<open>Columns of a page that is cut\<close>

lemma sector_len_prefix:
  assumes "column_sector_len s n sigil = Ok l" and "fits s"
  shows "column_sector_len (take e s) n sigil = Ok l \<or> (\<exists>er. column_sector_len (take e s) n sigil = Err er)"
proof (cases "is_var_sigil sigil")
  case False
  then show ?thesis using assms(1) by (auto simp: column_sector_len_def Let_def split: if_splits)
next
  case True
  define b where "b = null_bitmap_bytes n"
  have s: "checked_add n 1 = Some (n + 1)" "checked_mul (n + 1) 4 = Some ((n + 1) * 4)"
    "checked_add b ((n + 1) * 4) = Some (b + (n + 1) * 4)" "b + (n + 1) * 4 \<le> length s" "checked_mul n 4 = Some (n * 4)"
    "checked_add b (n * 4) = Some (b + n * 4)"
    using assms(1) True
    by (auto simp: column_sector_len_def Let_def b_def res_simps checked_add_eq_Some checked_mul_eq_Some bind_eq_Some_conv
      checked_add_def checked_mul_def split: if_splits)
  show ?thesis
  proof (cases "b + (n + 1) * 4 \<le> e")
    case e: True
    have "rd_u32 (take e s) (b + n * 4) = rd_u32 s (b + n * 4)"
      using e s(4) assms(2) by (simp add: rd_Ok seg_take)
    then show ?thesis using assms(1) True s e by (auto simp: column_sector_len_def Let_def b_def[symmetric])
  next
    case False
    then show ?thesis using True s by (auto simp: column_sector_len_def Let_def b_def[symmetric])
  qed
qed

text \<open>One step of the loop over the columns, on the first \<open>d\<close> bytes of a file.\<close>

lemma page_column_step:
  assumes whole: "whole = pre @ page_images sigils (snd (snd x)) ! slot @ post" and fits: "fits whole"
    and ok: "page_frame_ok sigils x" and slot: "slot < length sigils"
    and e_def: "e = length pre + length (page_images sigils (snd (snd x)) ! slot)"
    and r_def: "r = page_column_end (take d whole) sigils (length (snd (snd x))) slot (Ok (Some (length pre)))"
  shows "r = Ok (Some e) \<or> r = Ok None" and "e \<le> length (take d whole) \<Longrightarrow> r = Ok (Some e)"
proof -
  let ?prow = "snd (snd x)" let ?im = "page_images sigils ?prow ! slot" let ?n = "length ?prow"
  have im: "?im = column_image (sigils ! slot) (column_of ?prow slot)" using slot by (simp add: page_images_def)
  have n: "?n < 2 ^ 59" using ok by (simp add: page_frame_ok_def)
  have len: "column_sector_len (?im @ post') ?n (sigils ! slot) = Ok (length ?im)" if "fits (?im @ post')" for post'
    using image_sector_len[of "column_of ?prow slot" "sigils ! slot" post'] page_image_small(2)[OF ok slot] that n
    unfolding im by simp
  have add: "checked_add (length pre) (length ?im) = Some e"
    unfolding e_def by (rule checked_add_Some) (use fits in \<open>simp add: whole lims\<close>)
  have sig: "get_at sigils slot = Some (sigils ! slot)" using slot by simp
  show "r = Ok (Some e)" if "e \<le> length (take d whole)"
  proof -
    have "e \<le> d" using that by simp
    then have "take d whole = pre @ ?im @ take (d - e) post" by (simp add: whole e_def)
    moreover have "fits (?im @ take (d - e) post)" using fits by (simp add: whole min_def)
    ultimately show ?thesis using len add sig by (simp add: r_def page_column_end_def)
  qed
  show "r = Ok (Some e) \<or> r = Ok None"
  proof (cases "length (take d whole) < length pre")
    case True
    then show ?thesis by (simp add: r_def page_column_end_def)
  next
    case False
    then have t: "take d whole = pre @ take (d - length pre) (?im @ post)" by (simp add: whole)
    have "fits (?im @ post)" using fits by (simp add: whole)
    from sector_len_prefix[OF len[OF this] this, of "d - length pre"] show ?thesis
      using add sig False by (auto simp: r_def page_column_end_def t res_ok_simps)
  qed
qed

text \<open>All columns: the end of the last one, or nothing when the file is cut before it.\<close>

lemma page_columns_end:
  assumes whole: "whole = pre @ page_body sigils x @ post" and fits: "fits whole" and ok: "page_frame_ok sigils x"
    and e_def: "\<And>k. e k = length pre + length (concat (take k (page_images sigils (snd (snd x)))))"
    and k: "k \<le> length sigils"
  shows "fold (page_column_end (take d whole) sigils (length (snd (snd x)))) [0..<k] (Ok (Some (length pre))) \<in> {Ok (Some (e k)), Ok None}
    \<and> (e k \<le> length (take d whole) \<longrightarrow>
       fold (page_column_end (take d whole) sigils (length (snd (snd x)))) [0..<k] (Ok (Some (length pre))) = Ok (Some (e k)))"
  using k
proof (induction k)
  case (Suc k)
  let ?ims = "page_images sigils (snd (snd x))" let ?step = "page_column_end (take d whole) sigils (length (snd (snd x)))"
  let ?r = "fold ?step [0..<k] (Ok (Some (length pre)))"
  have k: "k < length sigils" using Suc.prems by simp
  have "?ims = take k ?ims @ ?ims ! k # drop (Suc k) ?ims" using k by (subst id_take_nth_drop[of k ?ims]) simp_all
  then have "concat ?ims = concat (take k ?ims) @ ?ims ! k @ concat (drop (Suc k) ?ims)" by (metis concat_append concat.simps(2))
  then have w: "whole = (pre @ concat (take k ?ims)) @ ?ims ! k @ (concat (drop (Suc k) ?ims) @ post)"
    by (simp add: whole page_body_def)
  have e: "e (Suc k) = length (pre @ concat (take k ?ims)) + length (?ims ! k)" "e k = length (pre @ concat (take k ?ims))"
    using k by (simp_all add: e_def take_Suc_conv_app_nth)
  note step = page_column_step[OF w fits ok k e(1) refl, of d, folded e(2)]
  have "?step k (Ok None) = Ok None" by (simp add: page_column_end_def)
  moreover have "e k \<le> e (Suc k)" by (simp add: e)
  ultimately show ?case using Suc.IH k step by auto
qed (simp add: e_def)

section \<open>Pages are frames\<close>

text \<open>The test for a complete page on the first \<open>d\<close> bytes of a file that holds the page.\<close>

lemma page_end:
  assumes whole: "whole = pre @ page_bytes sigils x @ post" and fits: "fits whole" and ok: "page_frame_ok sigils x"
    and pos: "8 dvd length pre" and d: "length pre \<le> d" "d \<le> length whole"
  shows "complete_page_end (take d whole) (length pre) sigils
    = Ok (if length pre + length (page_bytes sigils x) \<le> d then Some (length pre + length (page_bytes sigils x)) else None)"
proof -
  let ?data = "take d whole" let ?body = "page_body sigils x" let ?n = "length (snd (snd x))"
  let ?plen = "28 + length ?body" let ?off = "length pre" let ?b = "?off + 24 + length ?body"
  obtain i s prow where x: "x = (i, s, prow)" by (cases x)
  have le: "?plen \<le> length (page_bytes sigils x)" unfolding length_page_bytes by (rule align8_ge)
  have small: "length sigils < 65536" "?n < 2 ^ 32" "?plen < 2 ^ 32" "?plen \<le> length (page_bytes sigils x)"
    using ok le by (simp_all only: page_frame_ok_def) linarith
  obtain fill where w: "whole = pre @ page_head sigils x @ ?body @ u32_le (word_of_nat ?plen) @ fill @ post"
    by (simp add: whole page_bytes_def pad8_def)
  have end8: "(?off + ?plen + 7) div 8 * 8 = ?off + length (page_bytes sigils x)"
  proof -
    obtain k where k: "?off = 8 * k" using pos by (elim dvdE)
    have "(8 * k + (?plen + 7)) div 8 = k + (?plen + 7) div 8" by (rule div_mult_self4) simp
    then show ?thesis unfolding k length_page_bytes align8_def by (simp only: add.assoc) simp
  qed
  have fd: "fits ?data" "length ?data = d" using fits d(2) by simp_all
  show ?thesis
  proof (cases "?off + 24 \<le> d")
    case False
    then show ?thesis using small(4) fd by (simp add: complete_page_end_def)
  next
    case True
    have magic: "get_u32 ?data ?off = Some MAGIC_PAGE" "get_u32 ?data (?off + 16) = Some (word_of_nat ?n)"
      "get_u16 ?data (?off + 20) = Some (word_of_nat (length sigils))"
    proof -
      have "seg whole ?off (?off + 4) = u32_le MAGIC_PAGE"
        by (rule seg_at[OF w[unfolded page_head_def x prod.case append_assoc]]) simp_all
      moreover have "seg whole (?off + 16) (?off + 16 + 4) = u32_le (word_of_nat ?n)"
        by (rule seg_at[of _ "pre @ u32_le MAGIC_PAGE @ u32_le i @ u64_le s"]) (simp_all add: w page_head_def x)
      moreover have "seg whole (?off + 20) (?off + 20 + 2) = u16_le (word_of_nat (length sigils))"
        by (rule seg_at[of _ "pre @ u32_le MAGIC_PAGE @ u32_le i @ u64_le s @ u32_le (word_of_nat ?n)"]) (simp_all add: w page_head_def x)
      ultimately show "get_u32 ?data ?off = Some MAGIC_PAGE" "get_u32 ?data (?off + 16) = Some (word_of_nat ?n)"
        "get_u16 ?data (?off + 20) = Some (word_of_nat (length sigils))"
        using fd True by (simp_all add: get_uint_Some seg_take)
    qed
    have un: "unat (word_of_nat ?n :: u32) = ?n" "unat (word_of_nat (length sigils) :: u16) = length sigils"
      "unat (word_of_nat ?plen :: u32) = ?plen"
      using small by (simp_all only: unat_of_nat, simp_all add: take_bit_nat_eq_self)
    define ends where "ends = fold (page_column_end ?data sigils ?n) [0..<length sigils] (Ok (Some (?off + 24)))"
    have w': "whole = (pre @ page_head sigils x) @ ?body @ u32_le (word_of_nat ?plen) @ fill @ post" by (simp add: w)
    have "page_images sigils prow = take (length sigils) (page_images sigils prow)" by simp
    then have ends: "ends \<in> {Ok (Some ?b), Ok None}" "?b \<le> d \<Longrightarrow> ends = Ok (Some ?b)"
      using page_columns_end[OF w' fits ok refl order_refl, of d, folded page_body_def] fd(2)
      unfolding ends_def length_append length_page_head by (simp_all add: page_body_def x)
    have pl: "get_u32 ?data ?b = Some (word_of_nat ?plen)" if "?b + 4 \<le> d"
    proof -
      have "seg whole ?b (?b + 4) = u32_le (word_of_nat ?plen)"
        by (rule seg_at[of _ "pre @ page_head sigils x @ ?body"]) (simp_all add: w)
      then show ?thesis using that fd by (simp add: get_uint_Some seg_take)
    qed
    have "checked_add ?off ?plen = Some (?b + 4)"
      by (rule trans[OF checked_add_Some]) (use fits in \<open>simp_all add: w lims\<close>)
    then show ?thesis
      using magic un True fd ends pl small(4) end8
      by (auto simp: complete_page_end_def Let_def ends_def[symmetric] add.assoc)
  qed
qed

interpretation pax_page: framed "page_bytes sigils" "page_frame_ok sigils" "(dvd) 8" "\<lambda>data off. complete_page_end data off sigils" for sigils
proof
  fix x :: page and pre post :: "u8 list" and j p :: nat and data :: "u8 list"
  assume ok: "page_frame_ok sigils x"
  show "complete_page_end (pre @ page_bytes sigils x @ post) (length pre) sigils
      = Ok (Some (length pre + length (page_bytes sigils x)))"
    if "8 dvd length pre" "fits (pre @ page_bytes sigils x @ post)"
    using page_end[OF refl that(2) ok that(1), of "length (pre @ page_bytes sigils x @ post)"] by simp
  show "complete_page_end (pre @ take j (page_bytes sigils x)) (length pre) sigils = Ok None"
    if "8 dvd length pre" "fits (pre @ page_bytes sigils x)" "j < length (page_bytes sigils x)"
    using page_end[of "pre @ page_bytes sigils x @ []" pre sigils x "[]" "length pre + j"] ok that by simp
  show "8 dvd p + length (page_bytes sigils x)" if "8 dvd p" using that by (simp add: length_page_bytes)
qed (simp add: complete_page_end_def)

end
