(* ===== verification/Pax_Stream_Files.thy ===== *)
theory Pax_Stream_Files
  imports Pax_Stream Pax_Files
begin

text \<open>
  The PAX stream against the sealed file: \<^verbatim>\<open>rust/src/pax_stream.rs\<close> and \<open>finish_pax\<close> of \<^verbatim>\<open>rust/src/layout.rs\<close>.
\<close>

section \<open>The writer, record by record\<close>

definition meta_of :: "pax_entry \<Rightarrow> page_meta" where
  "meta_of e = (case e of (i, s, c, off, len) \<Rightarrow>
     \<lparr>pm_index = i, pm_start = s, pm_count = c, pm_offset = off, pm_length = len\<rparr>)"

lemma page_meta_bytes_of [simp]: "page_meta_bytes (meta_of e) = pax_entry_bytes e"
  by (simp add: page_meta_bytes_def meta_of_def pax_entry_bytes_def split: prod.splits)

text \<open>The writer after \<open>k\<close> records, \<open>pgs\<close> being the pages it has emitted.\<close>

definition writer_at :: "rstring list \<Rightarrow> cell list list \<Rightarrow> u32 \<Rightarrow> nat \<Rightarrow> u8 list list \<Rightarrow> pax_writer" where
  "writer_at keys rows page_size k pgs =
     (let sigils = sigils_for_keys keys rows; sb = build_schema keys sigils; q = k div unat page_size in
      \<lparr>px_keys = keys, px_sigils = sigils, px_schema_bytes = sb, px_dict_hash = murmur3_64 sb, px_page_size = page_size,
       px_field_count = length keys, px_pending = seg rows (q * unat page_size) k, px_data = concat pgs,
       px_pages = map meta_of (page_entries page_size rows 0 (32 + length sb) pgs), px_next_index = word_of_nat q,
       px_next_start = word_of_nat (q * unat page_size)\<rparr>)"

abbreviation table_page :: "rstring list \<Rightarrow> cell list list \<Rightarrow> u32 \<Rightarrow> nat \<Rightarrow> u8 list res" where
  "table_page keys rows page_size \<equiv> page_of page_size (length keys) (sigils_for_keys keys rows) rows"

lemma page_entries_snoc:
  "page_entries page_size rows 0 start (pgs @ [p])
     = page_entries page_size rows 0 start pgs @ [page_entry_of page_size rows (length pgs) (start + length (concat pgs)) (length p)]"
  by (simp add: page_entries_def nth_append)

lemma unat_page: "unat (x :: u32) < 2 ^ 32"
proof -
  have "unat x < 2 ^ LENGTH(32)" by (rule unsigned_less)
  then show ?thesis by simp
qed

text \<open>Flushing the page that is pending.\<close>

lemma flush_table_page:
  assumes pend: "px_pending w = page_rows (unat page_size) rows q" and len: "length pgs = q"
    and w: "w = (writer_at keys rows page_size k pgs)\<lparr>px_pending := px_pending w\<rparr>" and q: "k div unat page_size = q"
  shows "flush_page w = rbind (table_page keys rows page_size q) (\<lambda>p.
     Ok (p, w\<lparr>px_pages := map meta_of (page_entries page_size rows 0 (32 + length (px_schema_bytes w)) (pgs @ [p])),
              px_data := concat (pgs @ [p]), px_next_index := word_of_nat (Suc q),
              px_next_start := word_of_nat (q * unat page_size + length (px_pending w)), px_pending := []\<rparr>))"
proof -
  let ?c = "word_of_nat (length (px_pending w)) :: u32"
  have small: "length (px_pending w) < 2 ^ 32"
    using unat_page[of page_size] by (simp add: pend)
  then have c: "(ucast ?c :: u64) = word_of_nat (length (px_pending w))"
    by (simp add: unsigned_of_nat take_bit_nat_eq_self)
  have f: "px_next_index w = word_of_nat q" "px_next_start w = word_of_nat (q * unat page_size)" "px_field_count w = length keys"
    "px_sigils w = sigils_for_keys keys rows" "px_data w = concat pgs"
    "px_pages w = map meta_of (page_entries page_size rows 0 (32 + length (px_schema_bytes w)) pgs)"
    by (subst w, simp add: writer_at_def Let_def q)+
  have e: "encode_page (word_of_nat q) (word_of_nat (q * unat page_size)) ?c (length keys) (sigils_for_keys keys rows) (px_pending w)
      = table_page keys rows page_size q" by (simp add: page_of_def pend)
  show ?thesis
    unfolding flush_page_def f e Let_def
    by (cases "table_page keys rows page_size q")
      (simp_all add: page_entries_snoc len page_entry_of_def meta_of_def c[unfolded pend length_page_rows] pend add.commute)
qed

lemma page_div_step: "0 < p \<Longrightarrow> Suc k div p = (if Suc k mod p = 0 then Suc (k div p) else k div p)"
  by (simp add: div_Suc)

lemma push_table_row:
  assumes ps: "0 < page_size" and k: "k < length rows" and len: "length pgs = k div unat page_size"
  shows "push_record (rows ! k) (writer_at keys rows page_size k pgs)
     = (if Suc k mod unat page_size = 0
        then rbind (table_page keys rows page_size (k div unat page_size))
               (\<lambda>p. Ok (Some p, writer_at keys rows page_size (Suc k) (pgs @ [p])))
        else Ok (None, writer_at keys rows page_size (Suc k) pgs))"
proof -
  let ?ps = "unat page_size" let ?q = "k div ?ps" let ?sb = "build_schema keys (sigils_for_keys keys rows)"
  have p0: "0 < ?ps" using ps by (simp add: word_less_nat_alt)
  have km: "?q * ?ps + k mod ?ps = k" "k mod ?ps < ?ps" using p0 by simp_all
  define w where "w = (writer_at keys rows page_size k pgs)\<lparr>px_pending := seg rows (?q * ?ps) (Suc k)\<rparr>"
  have pend: "seg rows (?q * ?ps) k @ [rows ! k] = seg rows (?q * ?ps) (Suc k)"
  proof -
    define a where "a = ?q * ?ps"
    have a: "a \<le> k" using km(1) by (simp add: a_def)
    then have "Suc k - a = Suc (k - a)" "drop a rows ! (k - a) = rows ! k" using k by simp_all
    then show ?thesis unfolding a_def[symmetric] using k a by (simp add: seg_def take_Suc_conv_app_nth)
  qed
  have lp: "length (px_pending w) = Suc (k mod ?ps)"
  proof -
    have "Suc k - ?q * ?ps = Suc (k mod ?ps)" using km(1) by linarith
    moreover have "Suc k - ?q * ?ps \<le> length rows - ?q * ?ps" using k by (intro diff_le_mono) simp
    moreover have "px_pending w = seg rows (?q * ?ps) (Suc k)" by (simp add: w_def)
    ultimately show ?thesis by (simp only: seg_def length_take length_drop min_absorb1)
  qed
  have full: "page_size \<le> word_of_nat (length (px_pending w)) \<longleftrightarrow> Suc k mod ?ps = 0"
  proof -
    have "unat (word_of_nat (Suc (k mod ?ps)) :: u32) = Suc (k mod ?ps)"
      using km(2) unat_page[of page_size] by (simp only: unat_of_nat, simp add: take_bit_nat_eq_self)
    then have "page_size \<le> word_of_nat (length (px_pending w)) \<longleftrightarrow> ?ps \<le> Suc (k mod ?ps)" unfolding lp by (simp only: word_le_nat_alt)
    then show ?thesis using km(2) by (simp add: mod_Suc)
  qed
  have push: "push_record (rows ! k) (writer_at keys rows page_size k pgs)
      = (if Suc k mod ?ps = 0 then rbind (flush_page w) (\<lambda>(page, w). Ok (Some page, w)) else Ok (None, w))"
    using full pend by (simp add: push_record_def w_def writer_at_def Let_def)
  show ?thesis
  proof (cases "Suc k mod ?ps = 0")
    case True
    then have q0: "Suc k div ?ps = Suc ?q" using page_div_step[OF p0, of k] by simp
    then have q1: "Suc k div ?ps = Suc ?q" "Suc ?q * ?ps = Suc k" using True by (simp, metis div_mult_mod_eq add_0_right)
    have "min (length rows) (?q * ?ps + ?ps) = Suc k" using q1(2) k by simp
    then have page: "px_pending w = page_rows ?ps rows ?q" by (simp add: w_def page_rows_def)
    have e: "?q * ?ps + length (px_pending w) = Suc ?q * ?ps" "seg rows (Suc ?q * ?ps) (Suc k) = []"
      using lp km(1) q1(2) by (simp_all add: seg_def)
    have upd: "w\<lparr>px_pages := map meta_of (page_entries page_size rows 0 (32 + length (px_schema_bytes w)) (pgs @ [p])),
        px_data := concat (pgs @ [p]), px_next_index := word_of_nat (Suc ?q), px_next_start := word_of_nat (Suc ?q * ?ps),
        px_pending := []\<rparr> = writer_at keys rows page_size (Suc k) (pgs @ [p])" for p
      by (simp only: w_def writer_at_def Let_def q1(1) e(2) pax_writer.simps)
    have same: "w = (writer_at keys rows page_size k pgs)\<lparr>px_pending := px_pending w\<rparr>" by (simp add: w_def)
    have "flush_page w = rbind (table_page keys rows page_size ?q) (\<lambda>p. Ok (p, writer_at keys rows page_size (Suc k) (pgs @ [p])))"
      by (simp only: flush_table_page[OF page len same refl] e(1) upd)
    then show ?thesis using push True by (simp add: rbind_assoc)
  next
    case False
    then have "w = writer_at keys rows page_size (Suc k) pgs"
      using page_div_step[OF p0, of k] by (simp add: w_def writer_at_def Let_def)
    then show ?thesis using push False by simp
  qed
qed

lemma rfold_none: "rfold f [] = Ok"
  by (rule ext) simp

lemma rbind_Ok: "rbind x Ok = x"
  by (cases x) simp_all

lemma push_table_rows:
  assumes "0 < page_size" and "k \<le> length rows"
  shows "rfold (\<lambda>row w. rbind (push_record row w) (\<lambda>(_, w). Ok w)) (take k rows) (writer_at keys rows page_size 0 [])
     = rbind (rmap (table_page keys rows page_size) [0..<k div unat page_size]) (\<lambda>pgs. Ok (writer_at keys rows page_size k pgs))"
  using assms(2)
proof (induction k)
  case (Suc k)
  let ?ps = "unat page_size" let ?page = "table_page keys rows page_size"
  have k: "k < length rows" and p0: "0 < ?ps" using Suc.prems assms(1) by (simp_all add: word_less_nat_alt)
  have "rfold (\<lambda>row w. rbind (push_record row w) (\<lambda>(_, w). Ok w)) (take (Suc k) rows) (writer_at keys rows page_size 0 [])
      = rbind (rmap ?page [0..<k div ?ps]) (\<lambda>pgs. rbind (push_record (rows ! k) (writer_at keys rows page_size k pgs)) (\<lambda>(_, w). Ok w))"
    using Suc k by (simp add: take_Suc_conv_app_nth rfold_append rbind_assoc rfold_none rbind_Ok)
  also have "\<dots> = rbind (rmap ?page [0..<Suc k div ?ps]) (\<lambda>pgs. Ok (writer_at keys rows page_size (Suc k) pgs))"
  proof (cases "rmap ?page [0..<k div ?ps]")
    case (Ok pgs)
    then have "length pgs = k div ?ps" using rmap_Ok_length[OF Ok] by simp
    from push_table_row[OF assms(1) k this] Ok show ?thesis
      by (cases "?page (k div ?ps)") (simp_all add: page_div_step[OF p0] rmap_append)
  qed (simp_all add: page_div_step[OF p0] rmap_append)
  finally show ?case .
qed (simp add: writer_at_def)

section \<open>Sealing\<close>

lemma pages_of_div: "0 < ps \<Longrightarrow> pages_of n ps = (if n mod ps = 0 then n div ps else Suc (n div ps))"
proof -
  assume ps: "0 < ps"
  define q r where "q = n div ps" and "r = n mod ps"
  have n: "n = q * ps + r" "r < ps" using ps by (simp_all add: q_def r_def)
  have "q * ps + r + ps - 1 = (r + ps - 1) + q * ps" using ps by simp
  then have "(q * ps + r + ps - 1) div ps = q + (r + ps - 1) div ps" using div_mult_self1[of ps "r + ps - 1" q] ps by simp
  moreover have "(r + ps - 1) div ps = (if r = 0 then 0 else 1)"
  proof (cases r)
    case (Suc r')
    then have "r + ps - 1 = r' + ps" by simp
    then show ?thesis using Suc n(2) ps by (simp add: div_add_self2)
  qed (use ps in simp)
  moreover have "pages_of n ps = (q * ps + r + ps - 1) div ps" by (simp only: pages_of_def n(1)[symmetric])
  ultimately have "pages_of n ps = q + (if r = 0 then 0 else 1)" by simp
  then show ?thesis by (simp add: q_def r_def)
qed

text \<open>The last page, when the rows do not fill it.\<close>

lemma flush_last_page:
  fixes keys :: "rstring list"
  assumes ps: "0 < page_size" and len: "length pgs = length rows div unat page_size" and part: "length rows mod unat page_size \<noteq> 0"
  defines "w \<equiv> writer_at keys rows page_size (length rows) pgs" and "q \<equiv> length rows div unat page_size"
  shows "px_pending w \<noteq> []"
    and "flush_page w = rbind (table_page keys rows page_size q) (\<lambda>p. Ok (p,
        w\<lparr>px_pages := map meta_of (page_entries page_size rows 0 (32 + length (px_schema_bytes w)) (pgs @ [p])),
          px_data := concat (pgs @ [p]), px_next_index := word_of_nat (Suc q),
          px_next_start := word_of_nat (length rows), px_pending := []\<rparr>))"
proof -
  let ?ps = "unat page_size" let ?n = "length rows"
  have n: "q * ?ps + ?n mod ?ps = ?n" by (simp add: q_def)
  have "?n mod ?ps < ?ps" using ps by (simp add: word_less_nat_alt)
  then have "min ?n (q * ?ps + ?ps) = ?n" "q * ?ps < ?n" using n part by linarith+
  then have e: "px_pending w \<noteq> []" "px_pending w = page_rows ?ps rows q"
    by (auto simp: w_def q_def writer_at_def Let_def seg_def page_rows_def)
  have l: "q * ?ps + length (px_pending w) = ?n" by (simp add: w_def q_def writer_at_def Let_def seg_def)
  show "px_pending w \<noteq> []" by (rule e(1))
  have "w = (writer_at keys rows page_size ?n pgs)\<lparr>px_pending := px_pending w\<rparr>" by (simp add: w_def)
  from flush_table_page[OF e(2) len[folded q_def] this meta_eq_to_obj_eq[OF q_def[symmetric]]]
  show "flush_page w = rbind (table_page keys rows page_size q) (\<lambda>p. Ok (p,
        w\<lparr>px_pages := map meta_of (page_entries page_size rows 0 (32 + length (px_schema_bytes w)) (pgs @ [p])),
          px_data := concat (pgs @ [p]), px_next_index := word_of_nat (Suc q),
          px_next_start := word_of_nat ?n, px_pending := []\<rparr>))"
    unfolding l .
qed

text \<open>The last page, if there is one, and the tail.\<close>

lemma sealed_table:
  assumes ps: "0 < page_size" and len: "length pgs = length rows div unat page_size"
  shows "finish_stream (writer_at keys rows page_size (length rows) pgs)
     = rbind (if length rows mod unat page_size = 0 then Ok pgs
              else rbind (table_page keys rows page_size (length rows div unat page_size)) (\<lambda>p. Ok (pgs @ [p])))
         (\<lambda>pgs. Ok (pax_file keys rows page_size pgs))"
proof -
  let ?ps = "unat page_size" let ?n = "length rows" let ?q = "?n div ?ps"
  let ?w = "writer_at keys rows page_size ?n pgs" let ?sb = "build_schema keys (sigils_for_keys keys rows)"
  have bytes: "pax_preamble w off @ px_schema_bytes w @ px_data w @ build_pax_tail (px_pages w) off (word_of_nat ?n) (px_page_size w)
      = pax_file keys rows page_size ps'"
    if "px_page_size w = page_size" "px_dict_hash w = murmur3_64 ?sb" "px_schema_bytes w = ?sb" "px_data w = concat ps'"
      "px_pages w = map meta_of (page_entries page_size rows 0 (32 + length ?sb) ps')"
      "off = word_of_nat (32 + length ?sb + length (concat ps'))" for w off ps'
    using that by (simp add: pax_preamble_def build_pax_tail_def pax_file_def layout_preamble_def Let_def comp_def)
  show ?thesis
  proof (cases "?n mod ?ps = 0")
    case True
    have "?q * ?ps + ?n mod ?ps = ?n" by simp
    then have e: "px_pending ?w = []" and t: "total_records ?w = word_of_nat ?n"
      using True by (simp_all add: writer_at_def Let_def seg_def total_records_def del: of_nat_mult)
    show ?thesis unfolding finish_stream_def sealed_tail_def using True e t
      by (simp add: Let_def) (rule bytes; simp add: writer_at_def Let_def)
  next
    case False
    note last = flush_last_page[OF ps len False, of keys]
    have fl: "sealed_tail ?w = rbind (table_page keys rows page_size ?q) (\<lambda>p.
        let w = ?w\<lparr>px_pages := map meta_of (page_entries page_size rows 0 (32 + length (px_schema_bytes ?w)) (pgs @ [p])),
              px_data := concat (pgs @ [p]), px_next_index := word_of_nat (Suc ?q), px_next_start := word_of_nat ?n,
              px_pending := []\<rparr>; off = word_of_nat (32 + length (px_schema_bytes w) + length (px_data w)) in
        Ok (w, off, build_pax_tail (px_pages w) off (word_of_nat ?n) (px_page_size w)))"
      using last by (simp add: sealed_tail_def rbind_assoc Let_def total_records_def del: of_nat_Suc)
    show ?thesis
    proof (cases "table_page keys rows page_size ?q")
      case (Ok p)
      show ?thesis unfolding finish_stream_def fl Ok rbind.simps Let_def prod.case if_not_P[OF False] res.inject
        by (rule bytes) (simp_all add: writer_at_def Let_def)
    qed (simp_all add: finish_stream_def fl False)
  qed
qed

text \<open>All pages of a table, once the pending rows are flushed.\<close>

lemma flushed_pages:
  assumes ps: "0 < page_size" and w: "pax_writer_from_rows keys rows page_size = Ok w" and f: "flush_pending w = Ok (p, w')"
  obtains pgs where "rmap (table_page keys rows page_size) [0..<pages_of (length rows) (unat page_size)] = Ok pgs"
    "px_data w' = concat pgs" "px_schema_bytes w' = build_schema keys (sigils_for_keys keys rows)"
proof -
  let ?ps = "unat page_size" let ?n = "length rows" let ?page = "table_page keys rows page_size"
  have p0: "0 < ?ps" using ps by (simp add: word_less_nat_alt)
  have "keys \<noteq> []" using w by (auto simp: pax_writer_from_rows_def pax_writer_new_def split: if_splits)
  then have "pax_writer_new keys (sigils_for_keys keys rows) page_size = Ok (writer_at keys rows page_size 0 [])"
    using ps by (simp add: pax_writer_new_def writer_at_def Let_def seg_def page_entries_def word_greater_zero_iff)
  then obtain pgs where pgs: "rmap ?page [0..<?n div ?ps] = Ok pgs" and w_at: "w = writer_at keys rows page_size ?n pgs"
    using push_table_rows[OF ps order_refl, of rows keys] w by (auto simp: pax_writer_from_rows_def res_simps)
  have len: "length pgs = ?n div ?ps" using rmap_Ok_length[OF pgs] by simp
  show thesis
  proof (cases "?n mod ?ps = 0")
    case True
    have "?n div ?ps * ?ps + ?n mod ?ps = ?n" by simp
    then have "px_pending w = []" using True by (simp add: w_at writer_at_def Let_def seg_def)
    then have "w' = w" using f by (simp add: flush_pending_def)
    then show thesis using that[of pgs] pgs True by (simp add: pages_of_div[OF p0] w_at writer_at_def Let_def)
  next
    case False
    from f obtain pg where pg: "?page (?n div ?ps) = Ok pg" and "px_data w' = concat (pgs @ [pg])"
      "px_schema_bytes w' = px_schema_bytes w"
      using flush_last_page[OF ps len False, of keys] by (auto simp: flush_pending_def w_at res_simps)
    then show thesis using that[of "pgs @ [pg]"] pgs False
      by (simp add: pages_of_div[OF p0] rmap_append w_at writer_at_def Let_def)
  qed
qed

text \<open>
  C9: Streaming a table gives the file that is written at once.  For every table with names and fewer than
  \<open>2 ^ 32\<close> records, and every page size, pushing the records one by one and finishing the stream gives the
  bytes of \<open>finish_pax\<close>, or its error.
\<close>

theorem stream_is_sealed_file:
  assumes "keys \<noteq> []" and "length rows < 2 ^ 32"
  shows "finish_pax keys rows page_size = Some (rbind (pax_writer_from_rows keys rows page_size) finish_stream)"
proof (cases "page_size = 0")
  case False
  then have ps: "0 < page_size" by (simp add: word_greater_zero_iff)
  let ?ps = "unat page_size" let ?n = "length rows" let ?page = "table_page keys rows page_size"
  have p0: "0 < ?ps" using ps by (simp add: word_less_nat_alt)
  have "pax_writer_new keys (sigils_for_keys keys rows) page_size = Ok (writer_at keys rows page_size 0 [])"
    using False assms(1) by (simp add: pax_writer_new_def writer_at_def Let_def seg_def page_entries_def)
  then have "rbind (pax_writer_from_rows keys rows page_size) finish_stream
      = rbind (rmap ?page [0..<?n div ?ps]) (\<lambda>pgs. finish_stream (writer_at keys rows page_size ?n pgs))"
    using push_table_rows[OF ps order_refl, of rows keys] by (simp add: pax_writer_from_rows_def rbind_assoc)
  also have "\<dots> = rbind (rmap ?page [0..<pages_of ?n ?ps]) (\<lambda>pgs. Ok (pax_file keys rows page_size pgs))"
  proof (cases "rmap ?page [0..<?n div ?ps]")
    case (Ok pgs)
    then have "length pgs = ?n div ?ps" using rmap_Ok_length[OF Ok] by simp
    from sealed_table[OF ps this] Ok show ?thesis
      by (cases "?page (?n div ?ps)") (simp_all add: pages_of_div[OF p0] rmap_append)
  qed (simp_all add: pages_of_div[OF p0] rmap_append)
  finally show ?thesis using finish_pax_eq[OF ps assms(2)] by simp
qed (simp add: finish_pax_def pax_writer_from_rows_def pax_writer_new_def)

theorem stream_is_sealed_file_witness:
  "finish_pax sample_keys sample_rows 2 = Some (rbind (pax_writer_from_rows sample_keys sample_rows 2) finish_stream)"
  by (rule stream_is_sealed_file) (simp_all add: sample_table)

end
