(* ===== verification/Pax_Stream_Reading.thy ===== *)
theory Pax_Stream_Reading
  imports Pax_Pages Pax_Stream_Files
begin

text \<open>
  Reading a PAX stream that is still growing: the complete pages of a prefix of the stream, and the values
  in them (\<^verbatim>\<open>rust/src/pax_stream.rs\<close>).
\<close>

section \<open>The pages of a table\<close>

definition table_pages :: "cell list list \<Rightarrow> nat \<Rightarrow> page list" where
  "table_pages rows ps =
     map (\<lambda>j. (word_of_nat j, word_of_nat (j * ps), page_rows ps rows j)) [0..<pages_of (length rows) ps]"

lemma length_table_pages [simp]: "length (table_pages rows ps) = pages_of (length rows) ps"
  by (simp add: table_pages_def)

lemma table_pages_nth [simp]:
  "j < pages_of (length rows) ps \<Longrightarrow> table_pages rows ps ! j = (word_of_nat j, word_of_nat (j * ps), page_rows ps rows j)"
  by (simp add: table_pages_def)

lemma table_page_bytes:
  assumes "rmap (table_page keys rows page_size) [0..<pages_of (length rows) (unat page_size)] = Ok pgs"
  shows "pgs = map (page_bytes (sigils_for_keys keys rows)) (table_pages rows (unat page_size))"
proof (rule nth_equalityI)
  show l: "length pgs = length (map (page_bytes (sigils_for_keys keys rows)) (table_pages rows (unat page_size)))"
    using rmap_Ok_length[OF assms] by simp
  fix j assume j: "j < length pgs"
  then have "table_page keys rows page_size j = Ok (pgs ! j)" using assms l by (simp add: rmap_Ok_iff list_all2_conv_all_nth)
  then show "pgs ! j = map (page_bytes (sigils_for_keys keys rows)) (table_pages rows (unat page_size)) ! j"
    using j l encode_page_bytes[of _ _ _ "sigils_for_keys keys rows"] by (simp add: page_of_def Let_def)
qed

text \<open>A reader on the first \<open>k\<close> bytes of the pages of a table.\<close>

definition stream_holds :: "rstring list \<Rightarrow> cell list list \<Rightarrow> nat \<Rightarrow> nat \<Rightarrow> u8 list \<Rightarrow> pax_stream \<Rightarrow> bool" where
  "stream_holds keys rows ps k pre r \<longleftrightarrow> (let sigils = sigils_for_keys keys rows; xs = table_pages rows ps in
     keys_ok keys \<and> length rows < 2 ^ 32 \<and> 0 < ps \<and> list_all (page_frame_ok sigils) xs
   \<and> 8 dvd length pre \<and> fits (pre @ pax_page.frames sigils xs) \<and> pr_data r = pre @ take k (pax_page.frames sigils xs)
   \<and> pr_sigils r = sigils \<and> pr_index r = (\<lambda>k. position k keys) \<and> pr_data_start r = length pre)"

abbreviation page_start :: "rstring list \<Rightarrow> cell list list \<Rightarrow> nat \<Rightarrow> u8 list \<Rightarrow> nat \<Rightarrow> nat" where
  "page_start keys rows ps pre j \<equiv>
     length pre + length (pax_page.frames (sigils_for_keys keys rows) (take j (table_pages rows ps)))"

abbreviation whole_pages :: "rstring list \<Rightarrow> cell list list \<Rightarrow> nat \<Rightarrow> nat \<Rightarrow> nat" where
  "whole_pages keys rows ps k \<equiv> whole_frames (page_bytes (sigils_for_keys keys rows)) (table_pages rows ps) k"

lemma stream_page_end:
  assumes "stream_holds keys rows ps k pre r"
  shows "j < whole_pages keys rows ps k \<Longrightarrow>
      complete_page_end (pr_data r) (page_start keys rows ps pre j) (pr_sigils r) = Ok (Some (page_start keys rows ps pre (Suc j)))"
    and "j = whole_pages keys rows ps k \<Longrightarrow>
      complete_page_end (pr_data r) (page_start keys rows ps pre j) (pr_sigils r) = Ok None"
proof -
  let ?sigils = "sigils_for_keys keys rows" and ?xs = "table_pages rows ps"
  have h: "list_all (page_frame_ok ?sigils) ?xs" "8 dvd length pre" "fits (pre @ pax_page.frames ?sigils ?xs)"
    "pr_data r = pre @ take k (pax_page.frames ?sigils ?xs)" "pr_sigils r = ?sigils"
    using assms by (simp_all add: stream_holds_def Let_def)
  note e = pax_page.frame_end_at[OF h(1-4) refl]
  show "complete_page_end (pr_data r) (page_start keys rows ps pre j) (pr_sigils r) = Ok (Some (page_start keys rows ps pre (Suc j)))"
    if j: "j < whole_pages keys rows ps k"
  proof -
    have "j < length ?xs" using j whole_frames_le[of "page_bytes ?sigils" ?xs k] by simp
    then show ?thesis using e(1)[OF j] h(5) by (simp add: take_Suc_conv_app_nth add.assoc)
  qed
  show "complete_page_end (pr_data r) (page_start keys rows ps pre j) (pr_sigils r) = Ok None" if "j = whole_pages keys rows ps k"
    using e(2)[OF that] h(5) by simp
qed

text \<open>The bytes of a whole page in the file, and its view.\<close>

definition table_view :: "rstring list \<Rightarrow> cell list list \<Rightarrow> nat \<Rightarrow> u8 list \<Rightarrow> u8 list \<Rightarrow> nat \<Rightarrow> page_view" where
  "table_view keys rows ps pre data j =
     \<lparr>pv_offset = page_start keys rows ps pre j, pv_index = word_of_nat j, pv_start = word_of_nat (j * ps),
      pv_count = word_of_nat (length (page_rows ps rows j)), pv_fields = word_of_nat (length keys), pv_data = data\<rparr>"

lemma stream_page:
  assumes "stream_holds keys rows ps k pre r" and j: "j < whole_pages keys rows ps k"
  obtains a post where "pr_data r = a @ page_head (sigils_for_keys keys rows) (table_pages rows ps ! j)
      @ page_body (sigils_for_keys keys rows) (table_pages rows ps ! j) @ post" "length a = page_start keys rows ps pre j"
    "j < pages_of (length rows) ps" "fits (pr_data r)"
proof -
  let ?sigils = "sigils_for_keys keys rows" and ?xs = "table_pages rows ps"
  obtain post where "take k (pax_page.frames ?sigils ?xs)
      = pax_page.frames ?sigils (take j ?xs) @ page_bytes ?sigils (?xs ! j) @ post" using whole_frames_prefix[OF j] by blast
  moreover have h: "pr_data r = pre @ take k (pax_page.frames ?sigils ?xs)" "fits (pre @ pax_page.frames ?sigils ?xs)"
    using assms(1) by (simp_all add: stream_holds_def Let_def)
  moreover have "fits (pr_data r)" using h by (simp add: min_def)
  moreover have "j < pages_of (length rows) ps" using j whole_frames_le[of "page_bytes ?sigils" ?xs k] by simp
  ultimately show thesis using that[of "pre @ pax_page.frames ?sigils (take j ?xs)"] by (simp add: page_bytes_def pad8_def)
qed

lemma stream_page_view:
  assumes h: "stream_holds keys rows ps k pre r" and j: "j < whole_pages keys rows ps k"
  shows "parse_page_view (pr_data r) (page_start keys rows ps pre j) = Ok (table_view keys rows ps pre (pr_data r) j)"
proof (rule stream_page[OF h j])
  let ?sigils = "sigils_for_keys keys rows" let ?n = "length (page_rows ps rows j)"
  fix a post
  assume d: "pr_data r = a @ page_head ?sigils (table_pages rows ps ! j) @ page_body ?sigils (table_pages rows ps ! j) @ post"
    and a: "length a = page_start keys rows ps pre j" and jn: "j < pages_of (length rows) ps" and fits: "fits (pr_data r)"
  have w: "pr_data r = a @ u32_le MAGIC_PAGE @ u32_le (word_of_nat j) @ u64_le (word_of_nat (j * ps)) @ u32_le (word_of_nat ?n)
      @ u16_le (word_of_nat (length keys)) @ u16_le 0 @ page_body ?sigils (table_pages rows ps ! j) @ post"
    using jn by (simp add: d page_head_def del: of_nat_mult)
  have "rd_u32 (pr_data r) (length a + 4) = Ok (word_of_nat j)" "rd_u64 (pr_data r) (length a + 8) = Ok (word_of_nat (j * ps))"
    "rd_u32 (pr_data r) (length a + 16) = Ok (word_of_nat ?n)" "rd_u16 (pr_data r) (length a + 20) = Ok (word_of_nat (length keys))"
    using u32c.rd_at[OF fits, of "a @ u32_le MAGIC_PAGE" "word_of_nat j"]
      u64c.rd_at[OF fits, of "a @ u32_le MAGIC_PAGE @ u32_le (word_of_nat j)" "word_of_nat (j * ps)"]
      u32c.rd_at[OF fits, of "a @ u32_le MAGIC_PAGE @ u32_le (word_of_nat j) @ u64_le (word_of_nat (j * ps))" "word_of_nat ?n"]
      u16c.rd_at[OF fits, of "a @ u32_le MAGIC_PAGE @ u32_le (word_of_nat j) @ u64_le (word_of_nat (j * ps)) @ u32_le (word_of_nat ?n)"
        "word_of_nat (length keys)"]
    by (simp_all add: w del: of_nat_mult)
  then show ?thesis by (simp add: parse_page_view_def table_view_def a del: of_nat_mult)
qed

section \<open>Fixed-width columns\<close>

definition fixed_table :: "rstring list \<Rightarrow> cell list list \<Rightarrow> bool" where
  "fixed_table keys rows \<longleftrightarrow> (\<forall>slot < length keys. \<not> is_var_sigil (column_sigil rows slot))"

lemma fold_add_const: "fold (\<lambda>_ body. body + c) xs b = b + length xs * (c :: nat)"
  by (induction xs arbitrary: b) simp_all

lemma slice_here: "data = a @ x @ b \<Longrightarrow> p = length a \<Longrightarrow> q = p + length x \<Longrightarrow> slice data p q = Ok x"
  by (simp add: slice_Ok seg_at)

lemma stream_column:
  assumes h: "stream_holds keys rows ps k pre r" and j: "j < whole_pages keys rows ps k" and fx: "fixed_table keys rows"
    and slot: "slot < length keys" and col: "col = column_of (page_rows ps rows j) slot"
  shows "view_field_parts (table_view keys rows ps pre (pr_data r) j) slot
    = Ok (bitmap_of col, concat (map (cell_slot (column_sigil rows slot)) col))"
proof (rule stream_page[OF h j])
  let ?sigils = "sigils_for_keys keys rows" let ?prow = "page_rows ps rows j" let ?ims = "page_images ?sigils ?prow"
  define n where "n = length ?prow"
  define bm where "bm = null_bitmap_bytes n"
  fix a post
  assume d: "pr_data r = a @ page_head ?sigils (table_pages rows ps ! j) @ page_body ?sigils (table_pages rows ps ! j) @ post"
    and a: "length a = page_start keys rows ps pre j" and jn: "j < pages_of (length rows) ps" and fits: "fits (pr_data r)"
  have keys: "length keys < 65536" "length rows < 2 ^ 32" using h by (simp_all add: stream_holds_def Let_def keys_ok_def)
  have "n \<le> length rows" by (simp add: n_def page_rows_def seg_def)
  then have un: "unat (word_of_nat n :: u32) = n" using keys(2) by (simp add: unat_of_nat take_bit_nat_eq_self)
  have uf: "unat (word_of_nat (length keys) :: u16) = length keys" using keys(1) by (simp add: unat_of_nat take_bit_nat_eq_self)
  have im: "?ims ! s = column_image (column_sigil rows s) (column_of ?prow s)" if "s < length keys" for s
    using that by (simp add: page_images_def)
  have lim: "length (?ims ! s) = bm + n * 8" if "s < length keys" for s
    using that fx image_fixed_parts(1)[of "column_sigil rows s" "column_of ?prow s"]
    by (simp only: im fixed_table_def length_column_of bm_def n_def simp_thms)
  have "map length (take slot ?ims) = replicate slot (bm + n * 8)"
    using slot lim by (intro nth_equalityI) simp_all
  then have lt: "length (concat (take slot ?ims)) = slot * (bm + n * 8)"
    by (simp only: length_concat sum_list_replicate of_nat_id)
  define p where "p = page_start keys rows ps pre j + 24 + slot * (bm + n * 8)"
  define front where "front = a @ page_head ?sigils (table_pages rows ps ! j) @ concat (take slot ?ims)"
  define rear where "rear = concat (drop (Suc slot) ?ims) @ post"
  let ?vals = "concat (map (cell_slot (column_sigil rows slot)) col)"
  have "?ims = take slot ?ims @ ?ims ! slot # drop (Suc slot) ?ims" using slot by (subst id_take_nth_drop[of slot ?ims]) simp_all
  then have "concat ?ims = concat (take slot ?ims) @ ?ims ! slot @ concat (drop (Suc slot) ?ims)" by (metis concat_append concat.simps(2))
  moreover have "?ims ! slot = bitmap_of col @ ?vals"
    using fx slot by (simp add: im col column_image_def fixed_table_def)
  ultimately have w: "pr_data r = front @ bitmap_of col @ ?vals @ rear"
    using jn by (simp add: d page_body_def front_def rear_def)
  have lp: "p = length front" using lt a by (simp add: p_def front_def)
  have lc: "length col = n" by (simp only: col n_def length_column_of)
  have s1: "slice (pr_data r) p (p + bm) = Ok (bitmap_of col)" by (rule slice_here[OF w lp]) (simp add: lc bm_def)
  have s2: "slice (pr_data r) (p + bm) (p + bm + n * 8) = Ok ?vals"
    by (rule slice_here[of _ "front @ bitmap_of col" _ rear]) (simp_all add: w lp lc bm_def)
  have le: "p + bm + n * 8 \<le> length (pr_data r)" by (simp add: w lp lc bm_def)
  have v: "pv_count (table_view keys rows ps pre (pr_data r) j) = word_of_nat n"
    "pv_fields (table_view keys rows ps pre (pr_data r) j) = word_of_nat (length keys)"
    "pv_offset (table_view keys rows ps pre (pr_data r) j) = page_start keys rows ps pre j"
    "pv_data (table_view keys rows ps pre (pr_data r) j) = pr_data r" by (simp_all only: table_view_def page_view.simps n_def)
  have body: "fold (\<lambda>_ body. body + (bm + n * 8)) [0..<slot] (page_start keys rows ps pre j + 24) = p"
    by (simp only: fold_add_const p_def length_upt diff_zero)
  show ?thesis unfolding view_field_parts_def v un uf Let_def bm_def[symmetric] body
    using s1 s2 le slot by simp
qed

section \<open>Counting, finding and summing over the complete pages\<close>

text \<open>How many records the complete pages hold.\<close>

definition whole_records :: "rstring list \<Rightarrow> cell list list \<Rightarrow> nat \<Rightarrow> nat \<Rightarrow> nat" where
  "whole_records keys rows ps k = min (whole_pages keys rows ps k * ps) (length rows)"

lemma stream_numbers:
  assumes h: "stream_holds keys rows ps k pre r" and j: "j < whole_pages keys rows ps k"
  shows "unat (word_of_nat (length (page_rows ps rows j)) :: u32) = length (page_rows ps rows j)"
    and "unat (word_of_nat (j * ps) :: u64) = j * ps"
    and "wadd (j * ps) (length (page_rows ps rows j)) = j * ps + length (page_rows ps rows j)"
    and "j * ps + length (page_rows ps rows j) = min (Suc j * ps) (length rows)" and "j * ps < length rows"
    and "min (Suc j * ps) (length rows) \<le> whole_records keys rows ps k"
proof -
  have h': "length rows < 2 ^ 32" "0 < ps" using h by (simp_all add: stream_holds_def Let_def)
  have "j < pages_of (length rows) ps"
    using j whole_frames_le[of "page_bytes (sigils_for_keys keys rows)" "table_pages rows ps" k] by simp
  then show jp: "j * ps < length rows" using page_below[OF h'(2)] by simp
  have le: "length (page_rows ps rows j) \<le> length rows" by (simp add: page_rows_def seg_def)
  then show "unat (word_of_nat (length (page_rows ps rows j)) :: u32) = length (page_rows ps rows j)"
    using h'(1) by (simp only: unat_of_nat) (simp add: take_bit_nat_eq_self del: length_page_rows)
  show "unat (word_of_nat (j * ps) :: u64) = j * ps"
    by (rule unat_u64) (use jp h'(1) in simp)
  show "wadd (j * ps) (length (page_rows ps rows j)) = j * ps + length (page_rows ps rows j)"
    using jp le h'(1) by (intro wadd_small) (simp add: lims del: length_page_rows)
  show "j * ps + length (page_rows ps rows j) = min (Suc j * ps) (length rows)" using jp by (simp add: page_rows_def)
  have "Suc j * ps \<le> whole_pages keys rows ps k * ps" using j by (intro mult_le_mono1) simp
  then show "min (Suc j * ps) (length rows) \<le> whole_records keys rows ps k" unfolding whole_records_def by linarith
qed

lemma count_from:
  assumes h: "stream_holds keys rows ps k pre r" and "j \<le> whole_pages keys rows ps k"
  shows "count_pages r (page_start keys rows ps pre j) c = Ok (c + (whole_records keys rows ps k - min (j * ps) (length rows)))"
  using assms(2)
proof (induction "whole_pages keys rows ps k - j" arbitrary: j c)
  case 0
  then show ?case using stream_page_end(2)[OF h, of j] by (subst count_pages.simps) (simp add: whole_records_def)
next
  case (Suc d)
  then have j: "j < whole_pages keys rows ps k" by simp
  have "rd_u32 (pr_data r) (page_start keys rows ps pre j + 16) = Ok (word_of_nat (length (page_rows ps rows j)))"
    using stream_page_view[OF h j] by (auto simp: parse_page_view_def table_view_def res_simps)
  note step = stream_page_end(1)[OF h j] this stream_numbers[OF h j]
  have "count_pages r (page_start keys rows ps pre (Suc j)) (c + length (page_rows ps rows j))
      = Ok (c + length (page_rows ps rows j) + (whole_records keys rows ps k - min (Suc j * ps) (length rows)))"
    using Suc j by simp
  then show ?case using step by (subst count_pages.simps) (simp del: length_page_rows add: min_def)
qed

text \<open>Values of a column, as far as the complete pages go.\<close>

lemma stream_cell:
  assumes h: "stream_holds keys rows ps k pre r" and j: "j < whole_pages keys rows ps k" and fx: "fixed_table keys rows"
    and i: "j * ps \<le> i" "i < j * ps + length (page_rows ps rows j)"
  shows "view_get (table_view keys rows ps pre (pr_data r) j) (i - j * ps) key (pr_index r) = Ok (lookup keys rows cell_word i key)"
proof (cases "position key keys")
  case None
  then show ?thesis using h by (simp add: view_get_def stream_holds_def Let_def lookup_def)
next
  case (Some slot)
  then have slot: "slot < length keys" by (simp add: position_lt)
  let ?col = "column_of (page_rows ps rows j) slot"
  have "length rows < 2 ^ 32" using h by (simp add: stream_holds_def Let_def)
  then have small: "length ?col < 2 ^ 59" "i - j * ps < length ?col" using i by (simp_all add: page_rows_def seg_def)
  have "?col ! (i - j * ps) = cell_at (rows ! (j * ps + (i - j * ps))) slot"
    using i small(2) by (subst column_of_nth) (simp_all add: page_rows_nth)
  then have "?col ! (i - j * ps) = cell_at (rows ! i) slot" using i(1) by simp
  then show ?thesis
    using image_values(1)[OF small(2,1)] fx slot stream_column[OF h j fx slot refl] h Some
    by (simp add: view_get_def stream_holds_def Let_def lookup_def fixed_table_def)
qed

lemma find_from:
  assumes h: "stream_holds keys rows ps k pre r" and fx: "fixed_table keys rows"
    and "j \<le> whole_pages keys rows ps k" and "min (j * ps) (length rows) \<le> i"
  shows "find_page r i key (page_start keys rows ps pre j)
    = Ok (if i < whole_records keys rows ps k then lookup keys rows cell_word i key else None)"
  using assms(3,4)
proof (induction "whole_pages keys rows ps k - j" arbitrary: j)
  case 0
  then show ?case using stream_page_end(2)[OF h, of j] by (subst find_page.simps) (auto simp: whole_records_def)
next
  case (Suc d)
  then have j: "j < whole_pages keys rows ps k" by simp
  note step = stream_page_end(1)[OF h j] stream_page_view[OF h j] stream_numbers[OF h j]
  have lo: "j * ps \<le> i" using Suc.prems(2) step(7) by simp
  have v: "unat (pv_start (table_view keys rows ps pre (pr_data r) j)) = j * ps"
    "unat (pv_count (table_view keys rows ps pre (pr_data r) j)) = length (page_rows ps rows j)"
    using step(3,4) by (simp_all add: table_view_def del: length_page_rows of_nat_mult)
  show ?case
  proof (cases "i < j * ps + length (page_rows ps rows j)")
    case True
    then have "i < whole_records keys rows ps k" using step(6,8) by linarith
    then show ?thesis using step(1,2,5) lo v True stream_cell[OF h j fx lo True]
      by (subst find_page.simps) (simp add: Let_def del: length_page_rows)
  next
    case False
    then have later: "min (Suc j * ps) (length rows) \<le> i" using step(6) by linarith
    have "find_page r i key (page_start keys rows ps pre (Suc j))
        = Ok (if i < whole_records keys rows ps k then lookup keys rows cell_word i key else None)"
      by (rule Suc(1)[OF _ _ later]) (use Suc(2) j in simp_all)
    then show ?thesis using step(1,2,5) v False
      by (subst find_page.simps) (simp add: Let_def del: length_page_rows)
  qed
qed

section \<open>Sums\<close>

text \<open>The sum of the values present, and whether there was one.\<close>

definition sum_words :: "u64 option list \<Rightarrow> f64 \<times> bool \<Rightarrow> f64 \<times> bool" where
  "sum_words = fold (\<lambda>v (acc, any). case v of Some x \<Rightarrow> (f64_add acc x, True) | None \<Rightarrow> (acc, any))"

lemma add_present_cell:
  assumes "fixed_value get_u64 (Ok (bm, vals)) i = Ok v" and "i * 8 + 8 \<le> length vals" and "fits vals"
  shows "add_present bm vals i (acc, any) = Ok (case v of Some x \<Rightarrow> (f64_add acc x, True) | None \<Rightarrow> (acc, any))"
proof -
  obtain b where b: "col_bit bm i = Ok b" "v = (if b then get_u64 vals (i * 8) else None)"
    using assms(1) by (auto simp: fixed_value_def res_simps)
  show ?thesis using b assms(2,3) by (cases b) (simp_all add: add_present_def get_uint_Some rd_Ok)
qed

lemma add_column:
  assumes "length col < 2 ^ 32" and "\<not> is_var_sigil sig"
  shows "n \<le> length col \<Longrightarrow> rfold (add_present (bitmap_of col) (concat (map (cell_slot sig) col))) [0..<n] st
    = Ok (sum_words (map (cell_word sig) (take n col)) st)"
proof (induction n)
  case (Suc n)
  obtain acc any where st: "sum_words (map (cell_word sig) (take n col)) st = (acc, any)" by (cases "sum_words (map (cell_word sig) (take n col)) st")
  have l: "length (concat (map (cell_slot sig) col)) = length col * 8" by simp
  have "add_present (bitmap_of col) (concat (map (cell_slot sig) col)) n (acc, any)
      = Ok (case cell_word sig (col ! n) of Some x \<Rightarrow> (f64_add acc x, True) | None \<Rightarrow> (acc, any))"
    by (rule add_present_cell[OF image_values(1)]) (use Suc.prems assms l in \<open>simp_all add: lims\<close>)
  then show ?case using Suc st by (simp add: rfold_append take_Suc_conv_app_nth sum_words_def)
qed (simp add: sum_words_def)

lemma seg_split: "a \<le> b \<Longrightarrow> b \<le> c \<Longrightarrow> seg xs a c = seg xs a b @ seg xs b c"
proof -
  assume "a \<le> b" "b \<le> c"
  then obtain d e where "b = a + d" "c = a + d + e" by (metis le_Suc_ex)
  then show ?thesis by (simp add: seg_def take_add add.commute)
qed

lemma sum_from:
  assumes h: "stream_holds keys rows ps k pre r" and fx: "fixed_table keys rows" and slot: "slot < length keys"
    and "j \<le> whole_pages keys rows ps k"
  shows "sum_pages r slot (page_start keys rows ps pre j) st
    = Ok (let s = sum_words (map (\<lambda>row. cell_word (column_sigil rows slot) (cell_at row slot))
              (seg rows (min (j * ps) (length rows)) (whole_records keys rows ps k))) st
          in if snd s then Some (fst s) else None)"
  using assms(4)
proof (induction "whole_pages keys rows ps k - j" arbitrary: j st)
  case 0
  then show ?case using stream_page_end(2)[OF h, of j]
    by (subst sum_pages.simps) (simp add: whole_records_def seg_def sum_words_def)
next
  case (Suc d)
  then have j: "j < whole_pages keys rows ps k" by simp
  let ?N = "whole_records keys rows ps k" and ?col = "column_of (page_rows ps rows j) slot"
  let ?val = "\<lambda>row. cell_word (column_sigil rows slot) (cell_at row slot)"
  note step = stream_page_end(1)[OF h j] stream_page_view[OF h j] stream_numbers[OF h j]
  have "length rows < 2 ^ 32" using h by (simp add: stream_holds_def Let_def)
  then have small: "length ?col < 2 ^ 32" by (simp add: page_rows_def seg_def)
  have v: "unat (pv_count (table_view keys rows ps pre (pr_data r) j)) = length ?col"
    using step(3) by (simp add: table_view_def del: length_page_rows of_nat_mult)
  have col: "map (cell_word (column_sigil rows slot)) ?col = map ?val (page_rows ps rows j)"
    by (simp add: column_of_def)
  have cut: "seg rows (min (j * ps) (length rows)) ?N = page_rows ps rows j @ seg rows (min (Suc j * ps) (length rows)) ?N"
  proof -
    have "seg rows (j * ps) ?N = seg rows (j * ps) (min (length rows) (j * ps + ps)) @ seg rows (min (length rows) (j * ps + ps)) ?N"
      by (rule seg_split) (use step(7,8) in \<open>simp_all add: whole_records_def min.commute add.commute\<close>)
    then show ?thesis using step(7) by (simp add: page_rows_def min.commute add.commute)
  qed
  have "sum_pages r slot (page_start keys rows ps pre (Suc j)) st' = Ok (let s = sum_words (map ?val (seg rows (min (Suc j * ps) (length rows)) ?N)) st'
          in if snd s then Some (fst s) else None)" for st' using Suc j by simp
  moreover have "rfold (add_present (bitmap_of ?col) (concat (map (cell_slot (column_sigil rows slot)) ?col))) [0..<length ?col] st
      = Ok (sum_words (map ?val (page_rows ps rows j)) st)"
    using add_column[OF small _ order_refl] fx slot col by (simp add: fixed_table_def)
  moreover have "sum_words (xs @ ys) st = sum_words ys (sum_words xs st)" for xs ys by (simp add: sum_words_def)
  ultimately show ?case
    using step(1,2) stream_column[OF h j fx slot refl] by (subst sum_pages.simps) (simp add: v cut del: length_column_of)
qed

section \<open>Opening the stream\<close>

lemma stored_table_sigils: "stored_sigils (sigils_for_keys keys rows) = sigils_for_keys keys rows"
  by (simp add: stored_sigils_def sigils_for_keys_def column_sigil_nonzero)

lemma open_pax_stream:
  assumes data: "data = fst (write_stream_header w []) @ rest" and keys: "keys_ok keys" and fits: "fits data"
    and w: "px_schema_bytes w = build_schema keys (sigils_for_keys keys rows)"
  obtains r where "pax_stream_open data = Ok r" "pr_data r = data" "pr_keys r = keys" "pr_sigils r = sigils_for_keys keys rows"
    "pr_index r = (\<lambda>k. position k keys)" "pr_data_start r = 32 + length (px_schema_bytes w)"
proof -
  let ?sigs = "sigils_for_keys keys rows" let ?fl = "or FLAG_SCHEMA_EMBEDDED FLAG_PAX"
  have d: "data = pax_preamble w 0 @ build_schema keys ?sigs @ rest" by (simp add: data write_stream_header_def w)
  have l: "length (pax_preamble w 0) = 32" by (simp add: pax_preamble_def)
  have parse: "parse_schema data 32 = Ok (keys, ?sigs, 32 + length (build_schema keys ?sigs))"
    using schema_at[OF keys _ d fits] by (auto simp: l stored_table_sigils)
  have r0: "rd_u32 data 0 = Ok MAGIC_FILE"
    by (rule u32c.rd_at[OF fits, of "[]"]) (simp_all add: d pax_preamble_def)
  have r6: "rd_u16 data 6 = Ok ?fl"
    by (rule u16c.rd_at[OF fits, of "u32_le MAGIC_FILE @ u16_le VERSION"]) (simp_all add: d pax_preamble_def)
  have r16: "rd_u64 data 16 = Ok 0"
    by (rule u64c.rd_at[OF fits, of "u32_le MAGIC_FILE @ u16_le VERSION @ u16_le ?fl @ u64_le (px_dict_hash w)"])
      (simp_all add: d pax_preamble_def)
  have len: "32 \<le> length data" by (simp add: d l)
  then have "\<exists>b. stream_sealed data 0 = Ok b" using fits by (auto simp: stream_sealed_def rd_Ok)
  then obtain b where "stream_sealed data 0 = Ok b" by blast
  moreover have "has_flag ?fl FLAG_PAX" "has_flag ?fl FLAG_SCHEMA_EMBEDDED" by code_simp+
  ultimately have "pax_stream_open data = Ok \<lparr>pr_data = data, pr_keys = keys, pr_sigils = ?sigs, pr_index = (\<lambda>k. position k keys),
      pr_data_start = 32 + length (px_schema_bytes w), pr_cursor = 32 + length (px_schema_bytes w), pr_sealed = b\<rparr>"
    using len r0 r6 r16 parse keys w by (simp add: pax_stream_open_def keys_ok_def index_keys_distinct)
  then show thesis by (rule that) simp_all
qed

text \<open>
  C11: A PAX stream can be read while it is written.  Push the records of a table into the stream writer,
  flush the last page, and cut the stream anywhere behind its header: the reader opens it, counts the
  records of the pages that are whole, and, when every column has a fixed width, returns for each of
  those records the value of the table and for all others nothing, and sums a column over them.
\<close>

theorem pax_stream_reads_whole_pages:
  assumes "keys_ok keys" and "length rows < 2 ^ 32" and "pax_writer_from_rows keys rows page_size = Ok w"
    and "flush_pending w = Ok (p, w')" and "length (px_data w') < 2 ^ 32" and "length (px_schema_bytes w') < 2 ^ 62"
  shows "\<forall>k. \<exists>r. pax_stream_open (fst (write_stream_header w' []) @ take k (px_data w')) = Ok r \<and> pr_keys r = keys
     \<and> complete_record_count r = Ok (whole_records keys rows (unat page_size) k)
     \<and> (fixed_table keys rows \<longrightarrow>
          (\<forall>i key. get_f64_complete r i key
             = Ok (if i < whole_records keys rows (unat page_size) k then lookup keys rows cell_word i key else None))
        \<and> (\<forall>slot < length keys. col_sum_complete_pages r (keys ! slot)
             = Ok (let s = sum_words (map (\<lambda>row. cell_word (column_sigil rows slot) (cell_at row slot))
                       (take (whole_records keys rows (unat page_size) k) rows)) (0, False)
                   in if snd s then Some (fst s) else None)))"
proof
  fix k
  let ?sigils = "sigils_for_keys keys rows" let ?ps = "unat page_size" let ?xs = "table_pages rows ?ps"
  let ?hdr = "fst (write_stream_header w' [])" let ?N = "whole_records keys rows ?ps k"
  have ps: "0 < page_size" using assms(3) by (auto simp: pax_writer_from_rows_def pax_writer_new_def word_greater_zero_iff split: if_splits)
  then have p0: "0 < ?ps" by (simp add: word_less_nat_alt)
  obtain pgs where pgs: "rmap (table_page keys rows page_size) [0..<pages_of (length rows) ?ps] = Ok pgs"
    and w': "px_data w' = concat pgs" "px_schema_bytes w' = build_schema keys ?sigils"
    by (rule flushed_pages[OF ps assms(3,4)])
  have data: "px_data w' = pax_page.frames ?sigils ?xs" using table_page_bytes[OF pgs] w'(1) by simp
  have hdr: "length ?hdr = 32 + length (px_schema_bytes w')" "8 dvd length ?hdr"
    by (simp_all add: write_stream_header_def pax_preamble_def w'(2) build_schema_def)
  have fits: "fits (?hdr @ pax_page.frames ?sigils ?xs)" "fits (?hdr @ take k (pax_page.frames ?sigils ?xs))"
    using assms(5,6) hdr(1) unfolding data by (simp_all add: lims)
  obtain r where r: "pax_stream_open (?hdr @ take k (px_data w')) = Ok r" "pr_data r = ?hdr @ take k (pax_page.frames ?sigils ?xs)"
    "pr_keys r = keys" "pr_sigils r = ?sigils" "pr_index r = (\<lambda>k. position k keys)" "pr_data_start r = length ?hdr"
    using open_pax_stream[OF refl assms(1) fits(2) w'(2)] hdr(1) unfolding data by metis
  have "page_frame_ok ?sigils x" if "x \<in> set ?xs" for x
  proof -
    have "length (page_bytes ?sigils x) \<le> length (pax_page.frames ?sigils ?xs)"
      using that by (auto simp: length_concat intro!: member_le_sum_list)
    moreover have "length (snd (snd x)) < 2 ^ 32" using that assms(2) by (auto simp: table_pages_def)
    ultimately show ?thesis using assms(1,5) by (simp add: data page_frame_ok_def keys_ok_def)
  qed
  then have h: "stream_holds keys rows ?ps k ?hdr r"
    using assms(1,2) p0 hdr(2) fits r by (simp add: stream_holds_def Let_def list_all_iff)
  have "complete_record_count r = Ok ?N"
    using count_from[OF h, of 0 0] r(6) by (simp add: complete_record_count_def)
  moreover have "get_f64_complete r i key = Ok (if i < ?N then lookup keys rows cell_word i key else None)"
    if "fixed_table keys rows" for i key
    using find_from[OF h that, of 0 i key] r(6) by (simp add: get_f64_complete_def)
  moreover have "col_sum_complete_pages r (keys ! slot)
      = Ok (let s = sum_words (map (\<lambda>row. cell_word (column_sigil rows slot) (cell_at row slot)) (take ?N rows)) (0, False)
            in if snd s then Some (fst s) else None)" if "fixed_table keys rows" "slot < length keys" for slot
    using sum_from[OF h that, of 0 "(0, False)"] r(5,6) assms(1) that(2)
    by (simp add: col_sum_complete_pages_def keys_ok_def position_nth seg_def)
  ultimately show "\<exists>r. pax_stream_open (?hdr @ take k (px_data w')) = Ok r \<and> pr_keys r = keys \<and> complete_record_count r = Ok ?N
     \<and> (fixed_table keys rows \<longrightarrow> (\<forall>i key. get_f64_complete r i key = Ok (if i < ?N then lookup keys rows cell_word i key else None))
        \<and> (\<forall>slot < length keys. col_sum_complete_pages r (keys ! slot)
             = Ok (let s = sum_words (map (\<lambda>row. cell_word (column_sigil rows slot) (cell_at row slot)) (take ?N rows)) (0, False)
                   in if snd s then Some (fst s) else None)))"
    using r(1,3) by blast
qed

text \<open>A writer over a table whose pages can be emitted.\<close>

lemma writer_over_table:
  assumes "keys \<noteq> []" and "0 < page_size"
    and "rmap (table_page keys rows page_size) [0..<length rows div unat page_size] = Ok pgs"
  shows "pax_writer_from_rows keys rows page_size = Ok (writer_at keys rows page_size (length rows) pgs)"
proof -
  have "pax_writer_new keys (sigils_for_keys keys rows) page_size = Ok (writer_at keys rows page_size 0 [])"
    using assms(1,2) by (simp add: pax_writer_new_def writer_at_def Let_def seg_def page_entries_def word_greater_zero_iff)
  then show ?thesis using push_table_rows[OF assms(2) order_refl, of rows keys] assms(3)
    by (simp add: pax_writer_from_rows_def)
qed

definition number_rows :: "cell list list" where
  "number_rows = [[CellI64 7], [CellI64 8], [CellI64 9]]"

lemma number_table: "keys_ok [bstr ''n'']" "length number_rows = 3" "fixed_table [bstr ''n''] number_rows"
  "length (build_schema [bstr ''n''] (sigils_for_keys [bstr ''n''] number_rows)) = 8"
proof -
  have "\<not> is_var_sigil (column_sigil number_rows 0)" by code_simp
  then show "fixed_table [bstr ''n''] number_rows" by (simp add: fixed_table_def)
qed code_simp+

lemma number_writer:
  obtains w w' p where "pax_writer_from_rows [bstr ''n''] number_rows 2 = Ok w" "flush_pending w = Ok (p, w')"
    "length (px_data w) = 56" "length (px_data w') = 104" "length (px_schema_bytes w') = 8" "length (px_schema_bytes w) = 8"
    "px_pending w \<noteq> []" "\<exists>pg. flush_page w = Ok (pg, w')"
proof -
  let ?ks = "[bstr ''n'']" and ?w = "\<lambda>pgs. writer_at [bstr ''n''] number_rows 2 (length number_rows) pgs"
  have two: "unat (2 :: u32) = 2" "3 div 2 = (1 :: nat)" "3 mod 2 = (1 :: nat)" by simp_all
  have "case table_page ?ks number_rows 2 0 of Ok p \<Rightarrow> length p = 56 | _ \<Rightarrow> False"
    "case table_page ?ks number_rows 2 1 of Ok p \<Rightarrow> length p = 48 | _ \<Rightarrow> False" by code_simp+
  then obtain p0 p1 where pg: "table_page ?ks number_rows 2 0 = Ok p0" "length p0 = 56"
    "table_page ?ks number_rows 2 1 = Ok p1" "length p1 = 48" by (auto split: res.splits)
  have r: "rmap (table_page ?ks number_rows 2) [0..<length number_rows div unat (2 :: u32)] = Ok [p0]"
    using pg(1) by (simp add: number_table(2) two)
  have part: "length [p0] = length number_rows div unat (2 :: u32)" "length number_rows mod unat (2 :: u32) \<noteq> 0"
    by (simp_all add: number_table(2) two)
  note last = flush_last_page[OF _ part, of ?ks]
  obtain w' where f: "flush_page (?w [p0]) = Ok (p1, w')" "px_data w' = p0 @ p1" "px_schema_bytes w' = px_schema_bytes (?w [p0])"
    using last(2) pg(3) by (auto simp: number_table(2) two)
  have w: "px_data (?w [p0]) = p0" "px_schema_bytes (?w [p0]) = build_schema ?ks (sigils_for_keys ?ks number_rows)"
    by (simp_all add: writer_at_def Let_def)
  show thesis
  proof (rule that)
    show "pax_writer_from_rows ?ks number_rows 2 = Ok (?w [p0])" by (rule writer_over_table[OF _ _ r]) simp_all
    show "flush_pending (?w [p0]) = Ok (Some p1, w')" using last(1) f(1) by (simp add: flush_pending_def)
    show "px_pending (?w [p0]) \<noteq> []" using last(1) by simp
  qed (use f w pg number_table(4) in auto)
qed

theorem pax_stream_reads_whole_pages_witness:
  "\<exists>w w' p r. pax_writer_from_rows [bstr ''n''] number_rows 2 = Ok w \<and> flush_pending w = Ok (p, w')
     \<and> pax_stream_open (fst (write_stream_header w' []) @ take 60 (px_data w')) = Ok r
     \<and> complete_record_count r = Ok 2 \<and> get_f64_complete r 1 (bstr ''n'') = Ok (Some 8)
     \<and> get_f64_complete r 2 (bstr ''n'') = Ok None"
proof -
  obtain w w' p where w: "pax_writer_from_rows [bstr ''n''] number_rows 2 = Ok w" "flush_pending w = Ok (p, w')"
    "length (px_data w') = 104" "length (px_schema_bytes w') = 8" by (rule number_writer)
  have n: "length number_rows < 2 ^ 32" "length (px_data w') < 2 ^ 32" "length (px_schema_bytes w') < 2 ^ 62"
    using w(3,4) number_table(2) by simp_all
  have N: "whole_records [bstr ''n''] number_rows (unat (2 :: u32)) 60 = 2" by code_simp
  have l: "lookup [bstr ''n''] number_rows cell_word 1 (bstr ''n'') = Some 8" by code_simp
  from pax_stream_reads_whole_pages[OF number_table(1) n(1) w(1,2) n(2,3), rule_format, of 60] show ?thesis
    using w(1,2) number_table(3) l unfolding N by force
qed

end
