(* ===== verification/Stream_Departures.thy ===== *)
theory Stream_Departures
  imports Stream_Files Pax_Stream_Reading
begin

text \<open>
  What streams do not keep: the types of the fields of a row stream, numbers behind strings in a PAX
  stream, and the last page of a PAX stream that is sealed while records are pending.
\<close>

lemma stream_header_untyped:
  assumes "keys_ok keys" and "fits (fst (stream_file_header (new_schema keys)) @ rest)"
  shows "\<exists>q. parse_schema (fst (stream_file_header (new_schema keys)) @ rest) 32 = Ok (keys, replicate (length keys) SIGIL_STR, q)"
proof -
  let ?sigs = "replicate (length keys) (0 :: u8)" let ?sb = "build_schema keys ?sigs"
  let ?data = "file_preamble VERSION FLAG_SCHEMA_EMBEDDED ?sb @ ?sb @ rest"
  have d: "fst (stream_file_header (new_schema keys)) @ rest = ?data"
    by (simp add: stream_file_header_def Let_def new_schema_def build_schema_no_sigils)
  have "\<exists>q. parse_schema ?data (length (file_preamble VERSION FLAG_SCHEMA_EMBEDDED ?sb)) = Ok (keys, stored_sigils ?sigs, q)"
    using schema_at[OF assms(1) _ refl assms(2)[unfolded d]] by auto
  moreover have "stored_sigils ?sigs = replicate (length keys) SIGIL_STR"
    by (simp add: stored_sigils_def)
  ultimately show ?thesis unfolding d by simp
qed

lemma untyped_record_misread:
  "decode_record_at (writer_object 1 [(0, WInt 4)]) 0 [bstr ''n''] [SIGIL_STR] = Ok [(bstr ''n'', DStr [0, 0, 0, 0])]"
  "decode_record_at (writer_object 1 [(0, WInt 4)]) 0 [bstr ''n''] [SIGIL_INT] = Ok [(bstr ''n'', DInt 4)]"
  by code_simp+

lemma number_behind_string:
  "rbind (encode_page 0 0 1 2 [SIGIL_STR, SIGIL_INT] [[CellStr (bstr ''a''), CellI64 7]]) (\<lambda>page.
   rbind (parse_page_view page 0) (\<lambda>v. view_get v 0 (bstr ''n'') [bstr ''n'' \<mapsto> 1])) = Ok (Some 1792)"
  "rbind (encode_page 0 0 1 2 [SIGIL_INT, SIGIL_STR] [[CellI64 7, CellStr (bstr ''a'')]]) (\<lambda>page.
   rbind (parse_page_view page 0) (\<lambda>v. view_get v 0 (bstr ''n'') [bstr ''n'' \<mapsto> 0])) = Ok (Some 7)"
  by code_simp+

lemma sealed_without_page:
  "\<exists>w out tail off. pax_writer_from_rows [bstr ''n''] number_rows 2 = Ok w
     \<and> out = write_data_since w 0 (fst (write_stream_header w []))
     \<and> seal_stream w out = Ok (out @ tail, off) \<and> unat off = length out + 48"
proof -
  obtain w w' pg where w: "pax_writer_from_rows [bstr ''n''] number_rows 2 = Ok w" "flush_page w = Ok (pg, w')"
    "length (px_data w) = 56" "length (px_data w') = 104" "length (px_schema_bytes w') = 8" "length (px_schema_bytes w) = 8"
    "px_pending w \<noteq> []" by (rule number_writer) blast
  let ?out = "write_data_since w 0 (fst (write_stream_header w []))"
  have "length ?out = 96" using w(3,6) by (simp add: write_data_since_def write_stream_header_def pax_preamble_def)
  moreover have "seal_stream w ?out = Ok (?out @ build_pax_tail (px_pages w') 144 (total_records w') (px_page_size w'), 144)"
    using w(2,4,5,7) by (simp add: seal_stream_def sealed_tail_def Let_def)
  moreover have "unat (144 :: u64) = 144" by simp
  ultimately show ?thesis using w(1) 
    by (intro exI[of _ w] exI[of _ ?out] exI[of _ "build_pax_tail (px_pages w') 144 (total_records w') (px_page_size w')"] exI[of _ 144]) simp
qed

text \<open>
  C33: What streams lose.  The header of a row stream declares every field a string, so the decoder, which goes
  by the declared types, reads the integer 4 of a streamed record as a string of four zeros; a page
  view takes every column for one of fixed width and reads 1792 for the 7 behind a column of strings; and a
  PAX stream sealed with a record pending gets a tail that places itself behind a page of 48 bytes which
  is not in the file.
\<close>

theorem stream_departures:
  "(\<exists>q. parse_schema (fst (stream_file_header (new_schema [bstr ''n'']))) 32 = Ok ([bstr ''n''], [SIGIL_STR], q))
   \<and> decode_record_at (writer_object 1 [(0, WInt 4)]) 0 [bstr ''n''] [SIGIL_STR] = Ok [(bstr ''n'', DStr [0, 0, 0, 0])]
   \<and> rbind (encode_page 0 0 1 2 [SIGIL_STR, SIGIL_INT] [[CellStr (bstr ''a''), CellI64 7]]) (\<lambda>page.
      rbind (parse_page_view page 0) (\<lambda>v. view_get v 0 (bstr ''n'') [bstr ''n'' \<mapsto> 1])) = Ok (Some 1792)
   \<and> (\<exists>w out tail off. pax_writer_from_rows [bstr ''n''] number_rows 2 = Ok w
      \<and> out = write_data_since w 0 (fst (write_stream_header w []))
      \<and> seal_stream w out = Ok (out @ tail, off) \<and> unat off = length out + 48)"
proof -
  have "length (fst (stream_file_header (new_schema [bstr ''n'']))) < 2 ^ 10"
    by (simp add: stream_file_header_def Let_def new_schema_def length_build_schema schema_len_def align8_def)
  then have "fits (fst (stream_file_header (new_schema [bstr ''n''])) @ [])" by (simp add: lims)
  from stream_header_untyped[OF number_table(1) this] show ?thesis
    using untyped_record_misread(1) number_behind_string(1) sealed_without_page by simp
qed

end
