(* ===== verification/Segment_Reader.thy ===== *)
theory Segment_Reader
  imports Wal Query
begin

text \<open>
  The segment reader: \<^verbatim>\<open>rust/src/segment_reader.rs\<close>.

  It opens the sealed segments and the live log of one directory and answers queries for spans.  A
  directory is the list of its files in the order \<open>read_dir\<close> gives them; opening and mapping a file
  does not fail.  No two files of it have the same path, so that ties do not arise when segments are sorted by
  path.  The helpers that look a field up by its name are those of \<open>Wal\<close>, and the keys and sigils of a
  span as well: both source files have them word for word.
\<close>

section \<open>Spans\<close>

record span =
  sn_trace_id :: u128
  sn_span_id :: u64
  sn_parent :: "u64 option"
  sn_name :: rstring
  sn_service :: rstring
  sn_start :: i64
  sn_duration :: i64
  sn_status :: i64
  sn_payload :: "u8 list option"

definition extract_trace_id :: "(rstring \<times> decoded_value) list \<Rightarrow> u128 option" where
  "extract_trace_id fs =
     Option.bind (field_i64 fs ''trace_id_hi'') (\<lambda>hi.
     Option.bind (field_i64 fs ''trace_id_lo'') (\<lambda>lo. Some (trace_id_of hi lo)))"

definition fields_to_span :: "(rstring \<times> decoded_value) list \<Rightarrow> span option" where
  "fields_to_span fs =
     Option.bind (extract_trace_id fs) (\<lambda>t.
     Option.bind (field_i64 fs ''span_id'') (\<lambda>i.
     let or0 = (\<lambda>x. case x of Some v \<Rightarrow> v | None \<Rightarrow> 0) in
     Some \<lparr>sn_trace_id = t, sn_span_id = i,
           sn_parent = (if field_null fs ''parent_span_id'' then None
                        else case field_i64 fs ''parent_span_id'' of
                               Some v \<Rightarrow> if v \<noteq> 0 then Some v else None | None \<Rightarrow> None),
           sn_name = field_str fs ''name'', sn_service = field_str fs ''service'',
           sn_start = or0 (field_i64 fs ''start_time_ns''), sn_duration = or0 (field_i64 fs ''duration_ns''),
           sn_status = or0 (field_i64 fs ''status_code''), sn_payload = field_bytes fs ''payload''\<rparr>))"

text \<open>A span of the live log.\<close>

definition decode_span_from_raw :: "u8 list \<Rightarrow> usize \<Rightarrow> span option res" where
  "decode_span_from_raw data offset =
     (if length data < wadd offset 4 then Ok None
      else rbind (rd_u32 data offset) (\<lambda>magic.
      if magic \<noteq> MAGIC_OBJ then Ok None
      else obind (res_ok (decode_record_at data offset span_keys span_sigils)) (\<lambda>fs. Ok (fields_to_span fs))))"

section \<open>Sealed segments\<close>

text \<open>
  The index from trace identifiers to offsets is a hash map; here an association list with one entry per
  identifier, in the order of their first record.
\<close>

type_synonym trace_index = "(u128 \<times> u64 list) list"

definition index_push :: "u128 \<Rightarrow> u64 \<Rightarrow> trace_index \<Rightarrow> trace_index" where
  "index_push t off ix =
     (if t \<in> fst ` set ix then map (\<lambda>(k, offs). (k, if k = t then offs @ [off] else offs)) ix else ix @ [(t, [off])])"

record sealed_segment =
  sg_path :: rstring
  sg_data :: "u8 list"
  sg_index :: trace_index
  sg_keys :: "rstring list"
  sg_sigils :: "u8 list"

text \<open>One entry of the tail index.\<close>

definition index_entry :: "u8 list \<Rightarrow> rstring list \<Rightarrow> u8 list \<Rightarrow> u64 \<Rightarrow> trace_index \<Rightarrow> trace_index res" where
  "index_entry data keys sigils off ix =
     (if length data < wadd (unat off) 8 then Ok ix
      else rbind (case decode_record_at data (unat off) keys sigils of Err _ \<Rightarrow> Ok [] | r \<Rightarrow> r) (\<lambda>fs.
           Ok (case extract_trace_id fs of Some t \<Rightarrow> index_push t off ix | None \<Rightarrow> ix)))"

lemma rd_u16_bound: "rd_u16 data p = Ok v \<Longrightarrow> p < length data"
proof -
  assume "rd_u16 data p = Ok v"
  then have w: "p \<le> wadd p 2" "wadd p 2 \<le> length data" by (auto simp: rd_u16_def rbind_eq_Ok slice_eq_Ok)
  have "wadd p 2 < USIZE_LIM" by (simp add: wadd_def lims)
  then have "p < USIZE_LIM" using w(1) by simp
  then have "wadd p 2 = (if p + 2 < USIZE_LIM then p + 2 else p + 2 - USIZE_LIM)"
    by (auto simp: wadd_def mod_if lims)
  then show ?thesis using w by (auto simp: lims split: if_splits)
qed

function load_index :: "u8 list \<Rightarrow> rstring list \<Rightarrow> u8 list \<Rightarrow> usize \<Rightarrow> trace_index \<Rightarrow> trace_index res" where
  "load_index data keys sigils pos ix =
     (if length data - 12 < wadd pos 10 then Ok ix
      else case rbind (rd_u16 data pos) (\<lambda>_. rbind (rd_u64 data (pos + 2)) (\<lambda>off. index_entry data keys sigils off ix)) of
             Ok ix' \<Rightarrow> load_index data keys sigils (pos + 10) ix'
           | r \<Rightarrow> r)"
  by pat_completeness auto

termination load_index
  by (relation "measure (\<lambda>(data, keys, sigils, pos, ix). length data - pos)")
    (auto simp: rbind_eq_Ok dest!: rd_u16_bound)

declare load_index.simps [simp del]

definition segment_load :: "rstring \<Rightarrow> u8 list \<Rightarrow> sealed_segment res" where
  "segment_load path data =
     rbind (decode data) (\<lambda>d.
     rbind (load_index data (df_keys d) (df_sigils d) (df_tail_start d) []) (\<lambda>ix.
     Ok \<lparr>sg_path = path, sg_data = data, sg_index = ix, sg_keys = df_keys d, sg_sigils = df_sigils d\<rparr>))"

definition decode_span_at :: "sealed_segment \<Rightarrow> u64 \<Rightarrow> span res" where
  "decode_span_at sg off =
     rbind (decode_record_at (sg_data sg) (unat off) (sg_keys sg) (sg_sigils sg)) (\<lambda>fs.
     ok_or (fields_to_span fs) OutOfBounds)"

section \<open>Directories\<close>

record segment_reader =
  sd_segments :: "sealed_segment list"
  sd_wal :: "(span_wal \<times> u8 list) option"

text \<open>\<open>Path::extension\<close>: what is behind the last dot, if something is before it.\<close>

definition path_extension :: "rstring \<Rightarrow> rstring option" where
  "path_extension name =
     (let after = rev (takeWhile (\<lambda>b. b \<noteq> 0x2E) (rev name)) in
      if name = [0x2E, 0x2E] \<or> length name \<le> length after + 1 then None else Some after)"

fun path_less :: "rstring \<Rightarrow> rstring \<Rightarrow> bool" where
  "path_less xs [] = False"
| "path_less [] (y # ys) = True"
| "path_less (x # xs) (y # ys) = (x < y \<or> x = y \<and> path_less xs ys)"

definition open_entry ::
  "rstring \<times> u8 list \<Rightarrow> sealed_segment list \<times> u8 list option \<Rightarrow> (sealed_segment list \<times> u8 list option) res"
where
  "open_entry e st =
     (case (e, st) of ((path, data), (segs, wal)) \<Rightarrow>
      if path_extension path = Some (bstr ''nxb'') then rbind (segment_load path data) (\<lambda>s. Ok (segs @ [s], wal))
      else if path_extension path = Some (bstr ''nxsw'') then Ok (segs, Some data)
      else Ok (segs, wal))"

definition segments_open :: "(rstring \<times> u8 list) list \<Rightarrow> segment_reader res" where
  "segments_open dir =
     rbind (rfold open_entry dir ([], None)) (\<lambda>(segs, wal).
     let segs = sort_by (\<lambda>a b. path_less (sg_path a) (sg_path b)) segs in
     case wal of
       None \<Rightarrow> Ok \<lparr>sd_segments = segs, sd_wal = None\<rparr>
     | Some data \<Rightarrow> rbind (wal_recover (wal_open (Some data))) (\<lambda>w. Ok \<lparr>sd_segments = segs, sd_wal = Some (w, wl_disk w)\<rparr>))"

section \<open>Queries\<close>

definition present :: "'a option list \<Rightarrow> 'a list" where
  "present xs = map the (filter (\<lambda>x. x \<noteq> None) xs)"

text \<open>The spans of a segment at some of its offsets; those that do not decode are left out.\<close>

definition segment_spans :: "sealed_segment \<Rightarrow> u64 list \<Rightarrow> span list res" where
  "segment_spans sg offs =
     rbind (rmap (\<lambda>off. obind (res_ok (decode_span_at sg off)) (\<lambda>s. Ok (Some s))) offs) (\<lambda>xs. Ok (present xs))"

definition wal_spans :: "u8 list \<Rightarrow> wal_entry list \<Rightarrow> span list res" where
  "wal_spans data es = rbind (rmap (\<lambda>e. decode_span_from_raw data (we_offset e)) es) (\<lambda>xs. Ok (present xs))"

definition by_start :: "span list \<Rightarrow> span list" where
  "by_start = sort_key (\<lambda>s. sint (sn_start s))"

definition find_by_trace :: "segment_reader \<Rightarrow> u128 \<Rightarrow> span list res" where
  "find_by_trace r t =
     rbind (rmap (\<lambda>sg. case map_of (sg_index sg) t of Some offs \<Rightarrow> segment_spans sg offs | None \<Rightarrow> Ok []) (sd_segments r)) (\<lambda>xss.
     rbind (case sd_wal r of
              None \<Rightarrow> Ok []
            | Some (w, data) \<Rightarrow> wal_spans data (filter (\<lambda>e. we_trace_id e = t) (wl_index w))) (\<lambda>ys.
     Ok (by_start (concat xss @ ys))))"

definition find_span :: "segment_reader \<Rightarrow> u128 \<Rightarrow> u64 \<Rightarrow> span option res" where
  "find_span r t i = rbind (find_by_trace r t) (\<lambda>spans. Ok (find (\<lambda>s. sn_span_id s = i) spans))"

text \<open>The hash map gives its entries in an order of its own, \<open>order\<close>.\<close>

definition find_by_time :: "(trace_index \<Rightarrow> trace_index) \<Rightarrow> segment_reader \<Rightarrow> i64 \<Rightarrow> i64 \<Rightarrow> span list res" where
  "find_by_time order r start_ns end_ns =
     (let within = filter (\<lambda>s. start_ns \<le>s sn_start s \<and> sn_start s \<le>s end_ns) in
      rbind (rmap (\<lambda>sg. segment_spans sg (concat (map snd (order (sg_index sg))))) (sd_segments r)) (\<lambda>xss.
      rbind (case sd_wal r of None \<Rightarrow> Ok [] | Some (w, data) \<Rightarrow> wal_spans data (wl_index w)) (\<lambda>ys.
      Ok (by_start (within (concat xss @ ys))))))"

record reader_stats =
  rs_segment_count :: usize
  rs_sealed_records :: u64
  rs_wal_records :: u64

definition segment_stats :: "segment_reader \<Rightarrow> reader_stats" where
  "segment_stats r =
     \<lparr>rs_segment_count = length (sd_segments r),
      rs_sealed_records = sum_list (map (\<lambda>s. sum_list (map (\<lambda>(_, offs). word_of_nat (length offs)) (sg_index s))) (sd_segments r)),
      rs_wal_records = (case sd_wal r of Some (w, _) \<Rightarrow> word_of_nat (wl_count w) | None \<Rightarrow> 0)\<rparr>"

end
