(* ===== verification/Span_Files.thy ===== *)
theory Span_Files
  imports Segment_Reader Wal_Seal Row_Files
begin

text \<open>
  Files of spans: what the segment reader (\<^verbatim>\<open>rust/src/segment_reader.rs\<close>) makes of a span wherever its object
  stands, and the bytes of the file that sealing a log (\<^verbatim>\<open>rust/src/wal.rs\<close>) leaves.
\<close>

section \<open>A span anywhere in a file\<close>

definition span_trace :: "span_fields \<Rightarrow> u128" where
  "span_trace sp = trace_id_of (sp_trace_hi sp) (sp_trace_lo sp)"

definition span_of :: "span_fields \<Rightarrow> span" where
  "span_of sp =
     \<lparr>sn_trace_id = span_trace sp, sn_span_id = sp_span_id sp, sn_parent = sp_parent (norm_span sp),
      sn_name = sp_name sp, sn_service = sp_service sp, sn_start = sp_start sp, sn_duration = sp_duration sp,
      sn_status = sp_status sp, sn_payload = sp_payload sp\<rparr>"

text \<open>
  The values of a span under the sigils \<open>g\<close> of a file: an absent parent is a null in a file in which no span
  has a parent, and a zero in all others.
\<close>

definition span_decoded :: "u8 list \<Rightarrow> span_fields \<Rightarrow> decoded_value list" where
  "span_decoded g sp = (map decoded (span_vals sp))[3 := if get_or_zero g 3 = SIGIL_NULL then DNull else decoded (span_vals sp ! 3)]"

definition span_sigils_ok :: "u8 list \<Rightarrow> span_fields \<Rightarrow> bool" where
  "span_sigils_ok g sp \<longleftrightarrow> (\<forall>k < length (span_slots sp). get_or_zero g (span_slots sp ! k) = value_sigil_byte (span_vals sp ! k)
     \<or> k = 3 \<and> sp_parent (norm_span sp) = None \<and> get_or_zero g 3 = SIGIL_NULL)"

lemma length_span_vals: "length (span_vals sp) = length (span_slots sp)" "9 \<le> length (span_vals sp)" "length (span_vals sp) \<le> 10"
  by (simp_all add: span_slots_def span_vals_def split: option.splits)

lemma span_slots_nth: "k < length (span_slots sp) \<Longrightarrow> span_slots sp ! k = k"
  by (auto simp: span_slots_def nth_append split: if_splits)

lemma decode_span_in:
  assumes ok: "seal_ok sp" and g: "span_sigils_ok g sp" and data: "data = pre @ span_object sp @ post" and fits: "fits data"
  shows "decode_record_at data (length pre) span_keys g = Ok (zip span_keys (span_decoded g sp))"
proof -
  let ?bufs = "map (\<lambda>f. value_bytes (snd f)) (span_values sp)"
  have sl: "sorted_wrt (<) (span_slots sp)" "\<And>i. i \<in> set (span_slots sp) \<Longrightarrow> i < 10"
    by (auto simp: span_slots_def sorted_wrt_append split: if_splits)
  have lb: "length ?bufs = length (span_slots sp)" using rmap_Ok_length[OF span_vals_bytes] length_span_vals(1) by simp
  have "decode_object data (length pre) span_keys g
      = Ok (map (\<lambda>(i, d). (key_name span_keys i, d)) (zip (span_slots sp) (span_decoded g sp)))"
  proof (rule object_decodes[OF sl(1) sl(2) _ _ lb _ _ _ _ fits])
    fix k a b assume k: "k < length (span_slots sp)" and d: "data = a @ ?bufs ! k @ b"
    have enc: "encode_value (span_vals sp ! k) = Ok (?bufs ! k)"
      using span_vals_bytes k lb length_span_vals(1) by (simp add: rmap_Ok_iff list_all2_conv_all_nth)
    have dec: "decodable (span_vals sp ! k)" using span_decodable[OF ok] k length_span_vals(1) by simp
    have free: "magic_free (?bufs ! k)" using ok k lb by (auto simp: seal_ok_def)
    show "decode_value_at data (length a) (get_or_zero g (span_slots sp ! k)) = Ok (span_decoded g sp ! k)"
    proof (cases "k = 3 \<and> get_or_zero g 3 = SIGIL_NULL")
      case False
      then have "get_or_zero g (span_slots sp ! k) = value_sigil_byte (span_vals sp ! k)"
        using g k by (auto simp: span_sigils_ok_def)
      moreover have "span_decoded g sp ! k = decoded (span_vals sp ! k)"
        using False k length_span_vals(1)[of sp] by (cases "k = 3") (simp_all add: span_decoded_def)
      ultimately show ?thesis using value_roundtrip[OF dec enc free, of a b] fits by (simp add: d)
    next
      case True
      have f: "fits (a @ ?bufs ! k @ b)" using fits by (simp add: d)
      note len = encode_value_length[OF dec enc]
      have "decode_plain (a @ ?bufs ! k @ b) (length a) SIGIL_NULL = Ok DNull"
        using decode_plain_magic_free[OF len f free] by (simp add: decode_by_sigil_def)
      moreover have "\<not> length (a @ ?bufs ! k @ b) \<le> length a" using len by auto
      moreover have "SIGIL_NULL \<noteq> SIGIL_LINK" by code_simp
      ultimately have "decode_value_at data (length a) SIGIL_NULL = Ok DNull"
        by (simp add: d decode_value_at_def decode_value_at_depth.simps)
      moreover have "span_decoded g sp ! k = DNull" using True length_span_vals(2)[of sp] by (simp add: span_decoded_def)
      ultimately show ?thesis using True k by (simp add: span_slots_nth)
    qed
  qed (use ok data length_span_vals in \<open>simp_all add: span_object_bytes seal_ok_def span_decoded_def\<close>)
  moreover have "map (\<lambda>(i, d). (key_name span_keys i, d)) (zip (span_slots sp) (span_decoded g sp)) = zip span_keys (span_decoded g sp)"
  proof -
    have kl: "length span_keys = 10" by code_simp
    have ld: "length (span_decoded g sp) = length (span_slots sp)" "length (span_slots sp) \<le> 10"
      using length_span_vals[of sp] by (simp_all add: span_decoded_def)
    show ?thesis
    proof (rule nth_equalityI)
      fix i assume "i < length (map (\<lambda>(i, d). (key_name span_keys i, d)) (zip (span_slots sp) (span_decoded g sp)))"
      then have "i < length (span_slots sp)" "i < length (span_decoded g sp)" "i < length span_keys" using ld kl by simp_all
      then show "map (\<lambda>(i, d). (key_name span_keys i, d)) (zip (span_slots sp) (span_decoded g sp)) ! i
          = zip span_keys (span_decoded g sp) ! i" by (simp add: span_slots_nth key_name_def)
    qed (use ld kl in simp)
  qed
  ultimately show ?thesis by (simp add: decode_record_at_def)
qed

text \<open>A lookup by name in such a record.\<close>

lemma span_lookup:
  assumes "i < length (span_decoded g sp)" and "span_keys ! i = bstr name"
  shows "find_map (\<lambda>(k, v). if k = bstr name then f v else None) (zip span_keys (span_decoded g sp)) = f (span_decoded g sp ! i)"
proof -
  have "distinct span_keys" "length span_keys = 10" by code_simp+
  moreover have "length (span_decoded g sp) \<le> 10" using length_span_vals by (simp add: span_decoded_def)
  ultimately show ?thesis using find_map_key[of span_keys i "span_decoded g sp" "bstr name" f] assms by simp
qed

lemma fields_to_span_ok:
  assumes g: "span_sigils_ok g sp"
  shows "extract_trace_id (zip span_keys (span_decoded g sp)) = Some (span_trace sp)"
    and "fields_to_span (zip span_keys (span_decoded g sp)) = Some (span_of sp)"
proof -
  have k: "span_keys ! 0 = bstr ''trace_id_hi''" "span_keys ! 1 = bstr ''trace_id_lo''" "span_keys ! 2 = bstr ''span_id''"
    "span_keys ! 3 = bstr ''parent_span_id''" "span_keys ! 4 = bstr ''name''" "span_keys ! 5 = bstr ''service''"
    "span_keys ! 6 = bstr ''start_time_ns''" "span_keys ! 7 = bstr ''duration_ns''" "span_keys ! 8 = bstr ''status_code''"
    "span_keys ! 9 = bstr ''payload''" "bstr ''payload'' \<notin> set (take 9 span_keys)"
    by code_simp+
  let ?ds = "span_decoded g sp" let ?fs = "zip span_keys ?ds"
  have v: "?ds ! 0 = DInt (sp_trace_hi sp)" "?ds ! 1 = DInt (sp_trace_lo sp)" "?ds ! 2 = DInt (sp_span_id sp)"
    "?ds ! 3 = (if get_or_zero g 3 = SIGIL_NULL then DNull else DInt (case sp_parent sp of Some p \<Rightarrow> p | None \<Rightarrow> 0))"
    "?ds ! 4 = DStr (sp_name sp)" "?ds ! 5 = DStr (sp_service sp)" "?ds ! 6 = DTime (sp_start sp)"
    "?ds ! 7 = DInt (sp_duration sp)" "?ds ! 8 = DInt (sp_status sp)"
    by (simp_all add: span_decoded_def span_vals_def)
  have l: "9 \<le> length ?ds" using length_span_vals by (simp add: span_decoded_def)
  note at = span_lookup[OF less_le_trans[OF _ l]]
  have ints: "field_i64 ?fs ''trace_id_hi'' = Some (sp_trace_hi sp)" "field_i64 ?fs ''trace_id_lo'' = Some (sp_trace_lo sp)"
    "field_i64 ?fs ''span_id'' = Some (sp_span_id sp)" "field_i64 ?fs ''start_time_ns'' = Some (sp_start sp)"
    "field_i64 ?fs ''duration_ns'' = Some (sp_duration sp)" "field_i64 ?fs ''status_code'' = Some (sp_status sp)"
    "field_i64 ?fs ''parent_span_id'' = (if get_or_zero g 3 = SIGIL_NULL then None
       else Some (case sp_parent sp of Some p \<Rightarrow> p | None \<Rightarrow> 0))"
    by (simp_all add: field_i64_def at[OF _ k(1)] at[OF _ k(2)] at[OF _ k(3)] at[OF _ k(4)] at[OF _ k(7)] at[OF _ k(8)]
      at[OF _ k(9)] v v(2)[simplified])
  have strs: "field_str ?fs ''name'' = sp_name sp" "field_str ?fs ''service'' = sp_service sp"
    by (simp_all add: field_str_def at[OF _ k(5)] at[OF _ k(6)] v)
  have bs: "field_bytes ?fs ''payload'' = sp_payload sp"
  proof (cases "sp_payload sp")
    case None
    then have "length ?ds = 9" by (simp add: span_decoded_def span_vals_def)
    then show ?thesis using None k(11) unfolding field_bytes_def by (subst find_map_absent) simp_all
  next
    case (Some b)
    then have "9 < length ?ds" "?ds ! 9 = DBinary b" by (simp_all add: span_decoded_def span_vals_def)
    then show ?thesis using Some unfolding field_bytes_def by (subst span_lookup[OF _ k(10)]) simp_all
  qed
  have null: "get_or_zero g 3 = SIGIL_NULL" if "field_null ?fs ''parent_span_id''"
  proof (rule ccontr)
    assume "get_or_zero g 3 \<noteq> SIGIL_NULL"
    then have "?ds = map decoded (span_vals sp)" by (simp add: span_decoded_def span_vals_def)
    then have "DNull \<notin> set ?ds" by (auto simp: span_vals_def split: option.splits)
    then show False using that by (auto simp: field_null_def list_ex_iff dest: set_zip_rightD)
  qed
  have parent: "sp_parent (norm_span sp) = None" if n: "get_or_zero g 3 = SIGIL_NULL"
  proof -
    have "3 < length (span_slots sp)" "span_vals sp ! 3 = VInt (case sp_parent sp of Some p \<Rightarrow> p | None \<Rightarrow> 0)"
      using length_span_vals by (simp_all add: span_vals_def span_slots_def)
    moreover have "SIGIL_NULL \<noteq> SIGIL_INT" by code_simp
    ultimately show ?thesis using g n by (auto simp: span_sigils_ok_def span_slots_nth value_sigil_byte_def)
  qed
  show t: "extract_trace_id ?fs = Some (span_trace sp)" by (simp add: extract_trace_id_def ints span_trace_def)
  show "fields_to_span ?fs = Some (span_of sp)"
  proof (cases "get_or_zero g 3 = SIGIL_NULL")
    case True
    then show ?thesis using parent by (simp add: fields_to_span_def t ints strs bs span_of_def)
  next
    case False
    then have "\<not> field_null ?fs ''parent_span_id''" using null by blast
    then show ?thesis using False by (simp add: fields_to_span_def t ints strs bs span_of_def norm_span_def) (cases "sp_parent sp"; simp)
  qed
qed

section \<open>The sigils that the writer notes\<close>

fun written_sigil :: "wr_value \<Rightarrow> u8" where
  "written_sigil (WInt v) = SIGIL_INT"
| "written_sigil (WFloat v) = SIGIL_FLOAT"
| "written_sigil (WBool v) = SIGIL_BOOL"
| "written_sigil (WTime v) = SIGIL_TIME"
| "written_sigil WNull = SIGIL_NULL"
| "written_sigil (WStr v) = SIGIL_STR"
| "written_sigil (WBytes v) = SIGIL_BINARY"
| "written_sigil (WInts v) = 0x4C"
| "written_sigil (WFloats v) = 0x4C"

definition note_sigil :: "u16 \<times> wr_value \<Rightarrow> u8 list \<Rightarrow> u8 list" where
  "note_sigil f s =
     (let i = unat (fst f); g = written_sigil (snd f) in
      if i < length s \<and> (s ! i = 0 \<or> s ! i = SIGIL_NULL \<and> g \<noteq> SIGIL_NULL) then s[i := g] else s)"

lemma write_plain_sigils: "write_plain slot bs w = Ok w' \<Longrightarrow> w_slot_sigils w' = w_slot_sigils w \<and> w_compact w' = w_compact w"
  by (auto simp: write_plain_def mark_slot_def res_simps Let_def split: list.splits)

lemma note_helpers:
  "w_slot_sigils (note_int slot v w) = w_slot_sigils w" "w_slot_sigils (note_str slot t w) = w_slot_sigils w"
  by (simp_all add: note_int_def note_str_def Let_def)

lemma write_value_sigils:
  assumes "write_value slot v w = Ok w'" and "w_compact w = None"
  shows "w_slot_sigils w' = note_sigil (slot, v) (w_slot_sigils w) \<and> w_compact w' = None"
  using assms
  by (cases v) (auto simp: write_i64_def write_f64_def write_bool_def write_time_def write_null_def write_str_def write_bytes_def
      write_list_i64_def write_list_f64_def write_cell_def note_sigil_def writer_mark_sigil_def note_helpers Let_def
    dest!: write_plain_sigils split: if_splits)

lemma write_values_sigils:
  "write_values fs w = Ok w' \<Longrightarrow> w_compact w = None \<Longrightarrow> w_slot_sigils w' = fold note_sigil fs (w_slot_sigils w) \<and> w_compact w' = None"
proof (induction fs arbitrary: w)
  case (Cons f fs)
  then show ?case by (cases f) (auto simp: write_values_def res_simps dest!: write_value_sigils)
qed (simp add: write_values_def)

lemma write_record_sigils:
  assumes "write_record fs w = Ok w'" and "w_compact w = None"
  shows "w_slot_sigils w' = fold note_sigil fs (w_slot_sigils w) \<and> w_compact w' = None"
proof -
  have "w_slot_sigils (begin_object w) = w_slot_sigils w" "w_compact (begin_object w) = None"
    using assms(2) by (simp_all add: begin_object_def Let_def)
  then obtain u where u: "write_values fs (begin_object w) = Ok u" "end_object u = Ok w'"
    "w_slot_sigils u = fold note_sigil fs (w_slot_sigils w)" "w_compact u = None"
    using assms(1) write_values_sigils by (auto simp: write_record_def res_simps)
  then show ?thesis by (auto simp: end_object_def res_simps Let_def split: list.splits if_splits)
qed

lemma write_records_sigils:
  "rfold write_record rs w = Ok w' \<Longrightarrow> w_compact w = None \<Longrightarrow> w_slot_sigils w' = fold (fold note_sigil) rs (w_slot_sigils w)"
proof (induction rs arbitrary: w)
  case (Cons fs rs)
  then show ?case by (auto simp: res_simps dest!: write_record_sigils)
qed simp

text \<open>The sigils of a file of spans.\<close>

definition spans_sigils :: "span_fields list \<Rightarrow> u8 list" where
  "spans_sigils sps =
     [SIGIL_INT, SIGIL_INT, SIGIL_INT, if list_all (\<lambda>sp. sp_parent (norm_span sp) = None) sps then SIGIL_NULL else SIGIL_INT,
      SIGIL_STR, SIGIL_STR, SIGIL_TIME, SIGIL_INT, SIGIL_INT, if list_all (\<lambda>sp. sp_payload sp = None) sps then 0 else SIGIL_BINARY]"

lemma sigils_differ: "SIGIL_NULL \<noteq> SIGIL_INT" "SIGIL_INT \<noteq> SIGIL_NULL" "SIGIL_STR \<noteq> SIGIL_NULL" "SIGIL_TIME \<noteq> SIGIL_NULL" "SIGIL_BINARY \<noteq> SIGIL_NULL"
  "SIGIL_INT \<noteq> 0" "SIGIL_STR \<noteq> 0" "SIGIL_TIME \<noteq> 0" "SIGIL_BINARY \<noteq> 0" "SIGIL_NULL \<noteq> 0"
  by code_simp+

lemma norm_span_fields:
  "sp_trace_hi (norm_span sp) = sp_trace_hi sp" "sp_trace_lo (norm_span sp) = sp_trace_lo sp" "sp_span_id (norm_span sp) = sp_span_id sp"
  "sp_name (norm_span sp) = sp_name sp" "sp_service (norm_span sp) = sp_service sp" "sp_start (norm_span sp) = sp_start sp"
  "sp_duration (norm_span sp) = sp_duration sp" "sp_status (norm_span sp) = sp_status sp" "sp_payload (norm_span sp) = sp_payload sp"
  by (simp_all add: norm_span_def)

text \<open>What one write makes of the sigil of its slot.\<close>

definition note_one :: "u8 \<Rightarrow> u8 \<Rightarrow> u8" where
  "note_one g s = (if s = 0 \<or> s = SIGIL_NULL \<and> g \<noteq> SIGIL_NULL then g else s)"

lemma note_one_simps:
  "note_one g 0 = g" "note_one SIGIL_INT SIGIL_INT = SIGIL_INT" "note_one SIGIL_STR SIGIL_STR = SIGIL_STR"
  "note_one SIGIL_TIME SIGIL_TIME = SIGIL_TIME" "note_one SIGIL_BINARY SIGIL_BINARY = SIGIL_BINARY"
  "note_one SIGIL_NULL SIGIL_NULL = SIGIL_NULL" "note_one SIGIL_NULL SIGIL_INT = SIGIL_INT" "note_one SIGIL_INT SIGIL_NULL = SIGIL_INT"
  by (simp_all add: note_one_def sigils_differ)

lemma note_slot:
  "note_sigil (0, v) [a, b, c, d, e, f, g, h, i, j] = [note_one (written_sigil v) a, b, c, d, e, f, g, h, i, j]"
  "note_sigil (1, v) [a, b, c, d, e, f, g, h, i, j] = [a, note_one (written_sigil v) b, c, d, e, f, g, h, i, j]"
  "note_sigil (2, v) [a, b, c, d, e, f, g, h, i, j] = [a, b, note_one (written_sigil v) c, d, e, f, g, h, i, j]"
  "note_sigil (3, v) [a, b, c, d, e, f, g, h, i, j] = [a, b, c, note_one (written_sigil v) d, e, f, g, h, i, j]"
  "note_sigil (4, v) [a, b, c, d, e, f, g, h, i, j] = [a, b, c, d, note_one (written_sigil v) e, f, g, h, i, j]"
  "note_sigil (5, v) [a, b, c, d, e, f, g, h, i, j] = [a, b, c, d, e, note_one (written_sigil v) f, g, h, i, j]"
  "note_sigil (6, v) [a, b, c, d, e, f, g, h, i, j] = [a, b, c, d, e, f, note_one (written_sigil v) g, h, i, j]"
  "note_sigil (7, v) [a, b, c, d, e, f, g, h, i, j] = [a, b, c, d, e, f, g, note_one (written_sigil v) h, i, j]"
  "note_sigil (8, v) [a, b, c, d, e, f, g, h, i, j] = [a, b, c, d, e, f, g, h, note_one (written_sigil v) i, j]"
  "note_sigil (9, v) [a, b, c, d, e, f, g, h, i, j] = [a, b, c, d, e, f, g, h, i, note_one (written_sigil v) j]"
  by (simp_all add: note_sigil_def note_one_def Let_def)

lemma note_first_span: "fold note_sigil (span_values (norm_span sp)) (replicate 10 0) = spans_sigils [sp]"
proof -
  have "replicate 10 0 = [0, 0, 0, 0, 0, 0, 0, 0, 0, 0 :: u8]" by code_simp
  then show ?thesis
    by (cases "sp_parent (norm_span sp)"; cases "sp_payload sp")
      (simp_all add: span_values_def note_slot note_one_simps spans_sigils_def norm_span_fields)
qed

lemma note_more_span: "fold note_sigil (span_values (norm_span sp)) (spans_sigils sps) = spans_sigils (sps @ [sp])"
  by (cases "sp_parent (norm_span sp)"; cases "sp_payload sp")
    (simp_all add: span_values_def note_slot note_one_simps spans_sigils_def norm_span_fields)

lemma spans_sigils_written:
  "sps \<noteq> [] \<Longrightarrow> fold (fold note_sigil) (map (\<lambda>sp. span_values (norm_span sp)) sps) (replicate 10 0) = spans_sigils sps"
proof (induction sps rule: rev_induct)
  case (snoc sp sps)
  then show ?case using note_more_span[of sp sps] note_first_span[of sp] by (cases "sps = []") simp_all
qed simp

lemma length_spans_sigils [simp]: "length (spans_sigils sps) = 10"
  by (simp add: spans_sigils_def)

text \<open>The stored sigils suit every span of the file, and those of the log every span.\<close>

lemma stored_sigils_ok:
  assumes "sp \<in> set sps"
  shows "span_sigils_ok (stored_sigils (spans_sigils sps)) sp"
proof -
  have "get_or_zero (stored_sigils (spans_sigils sps)) k = value_sigil_byte (span_vals sp ! k)
      \<or> k = 3 \<and> sp_parent (norm_span sp) = None \<and> get_or_zero (stored_sigils (spans_sigils sps)) 3 = SIGIL_NULL"
    if k: "k < length (span_slots sp)" for k
  proof -
    have pay: "9 < length (span_slots sp) \<Longrightarrow> \<exists>b. sp_payload sp = Some b"
      by (auto simp: span_slots_def split: if_splits)
    have pay': "\<not> list_all (\<lambda>sp. sp_payload sp = None) sps" if "sp_payload sp = Some b" for b
      using assms that by (auto simp: list_all_iff)
    have par: "list_all (\<lambda>sp. sp_parent (norm_span sp) = None) sps \<Longrightarrow> sp_parent (norm_span sp) = None"
      using assms by (auto simp: list_all_iff)
    have "k < 10" using k length_span_vals by (metis less_le_trans)
    then have "k = 0 \<or> k = 1 \<or> k = 2 \<or> k = 3 \<or> k = 4 \<or> k = 5 \<or> k = 6 \<or> k = 7 \<or> k = 8 \<or> k = 9" by presburger
    then show ?thesis using k pay pay' par
      by (elim disjE)
        (auto simp: span_vals_def spans_sigils_def stored_sigils_def get_or_zero_def value_sigil_byte_def sigils_differ)
  qed
  then show ?thesis by (simp add: span_sigils_ok_def span_slots_nth)
qed

lemma log_sigils_ok: "span_sigils_ok span_sigils sp"
  using span_sigil[of _ sp] by (simp add: span_sigils_ok_def)

section \<open>The sealed file\<close>

lemma replay_writes:
  assumes "\<forall>sp \<in> set sps. seal_ok sp" and "file = pre @ Wal_Recovery.objects sps @ post" and "p = length pre"
  shows "replay file (span_index p sps) w = rfold write_record (map (\<lambda>sp. span_values (norm_span sp)) sps) w"
  using assms
proof (induction sps arbitrary: pre p w)
  case (Cons sp sps)
  have sp: "seal_ok sp" using Cons.prems(1) by simp
  have r: "read_entry file p = Ok (span_object sp)"
    by (rule read_entry_at[OF seal_ok_span_ok[OF sp]]) (use Cons.prems in simp_all)
  have "replay file (span_index (p + length (span_object sp)) sps) v = rfold write_record (map (\<lambda>sp. span_values (norm_span sp)) sps) v" for v
    by (rule Cons.IH[of "pre @ span_object sp"]) (use Cons.prems in simp_all)
  then have "replay file (span_index (p + length (span_object sp)) sps) = rfold write_record (map (\<lambda>sp. span_values (norm_span sp)) sps)"
    by (rule ext)
  then show ?case by (simp add: span_entry_def r decode_span_object_ok[OF sp])
qed simp

abbreviation span_records :: "span_fields list \<Rightarrow> (u16 \<times> wr_value) list list" where
  "span_records sps \<equiv> map (\<lambda>sp. span_values (norm_span sp)) sps"

lemma span_records_objects: "Row_Files.objects 10 (span_records sps) = Wal_Recovery.objects sps"
proof -
  have "writer_object 10 (span_values (norm_span sp)) = span_object sp" for sp
    using norm_span_object[of sp] by (simp add: span_object_def)
  then show ?thesis by (simp add: comp_def)
qed

lemma span_record_ok: "seal_ok sp \<Longrightarrow> record_ok 10 (span_values (norm_span sp))"
  using span_slots_ok[of "norm_span sp"] length_span_object[of "norm_span sp"]
  by (auto simp: record_ok_def seal_ok_def norm_span_object head_len_span list_all_iff)

definition sealed_from :: "span_fields list \<Rightarrow> u8 list \<Rightarrow> bool" where
  "sealed_from sps nxb \<longleftrightarrow> (\<exists>l wl wl' n. wal_holds l wl \<and> sps = sl_durable l @ sl_buffered l \<and> (\<forall>sp \<in> set sps. seal_ok sp)
     \<and> length (wl_disk wl @ wl_buf wl) < 2 ^ 32 \<and> wal_seal wl = Ok (wl', nxb, n))"

definition span_schema_bytes :: "span_fields list \<Rightarrow> u8 list" where
  "span_schema_bytes sps = build_schema span_keys (if sps = [] then replicate 10 0 else spans_sigils sps)"

definition span_offsets :: "span_fields list \<Rightarrow> u64 list" where
  "span_offsets sps = absolute (span_schema_bytes sps) (map word_of_nat (object_starts 10 0 (span_records sps)))"

lemma length_span_schema_bytes: "length (span_schema_bytes sps) = 120"
proof -
  have "align8 (schema_len span_keys) = 120" by code_simp
  then show ?thesis by (simp add: span_schema_bytes_def length_build_schema)
qed

lemma sealed_file:
  assumes "sealed_from sps nxb"
  shows "nxb = file_preamble VERSION FLAG_SCHEMA_EMBEDDED (span_schema_bytes sps) @ span_schema_bytes sps @ Wal_Recovery.objects sps
      @ build_tail_index_records (span_offsets sps) (word_of_nat (152 + length (Wal_Recovery.objects sps)))"
    and "length (Wal_Recovery.objects sps) < 2 ^ 32 - 132" and "\<forall>sp \<in> set sps. seal_ok sp"
proof -
  obtain l wl wl' n where h: "wal_holds l wl" and sps: "sps = sl_durable l @ sl_buffered l" and ok: "\<forall>sp \<in> set sps. seal_ok sp"
    and len: "length (wl_disk wl @ wl_buf wl) < 2 ^ 32" and s: "wal_seal wl = Ok (wl', nxb, n)"
    using assms by (auto simp: sealed_from_def)
  have f: "wl_disk (wal_flush wl) = wal_header @ Wal_Recovery.objects sps @ []" "wl_disk wl @ wl_buf wl = wal_header @ Wal_Recovery.objects sps"
    "wl_index (wal_flush wl) = span_index 132 sps"
    using h by (simp_all add: wal_holds_def wal_flush_def sps)
  show lt: "length (Wal_Recovery.objects sps) < 2 ^ 32 - 132" using len unfolding f(2) by simp
  show "\<forall>sp \<in> set sps. seal_ok sp" by (rule ok)
  obtain w where w: "rfold write_record (span_records sps) (new_writer span_schema) = Ok w" "finish w = Ok nxb"
    using s replay_writes[OF ok f(1), of 132 "new_writer span_schema"] by (auto simp: wal_seal_def Let_def f(3) res_simps)
  have k: "length span_keys = 10" "span_keys \<noteq> []" by code_simp+
  have w0: "w_compact (new_writer span_schema) = None" "w_schema (new_writer span_schema) = new_schema span_keys"
    "w_frames (new_writer span_schema) = []" "w_slot_sigils (new_writer span_schema) = replicate 10 0"
    using span_writer_new by (simp_all add: span_writer_def new_writer_def writer_with_compact_def span_schema_def new_schema_def k(1) Let_def)
  have rok: "list_all (record_ok (length span_keys)) (span_records sps)" using ok span_record_ok by (auto simp: list_all_iff k(1))
  have "length (w_buf (new_writer span_schema)) + length (Row_Files.objects (length span_keys) (span_records sps)) < 2 ^ 32"
    using lt by (simp only: k(1) span_records_objects span_writer_new(2)) simp
  from write_records[OF w0(1,2) k(2) w0(3) rok this] w(1)
  have "w_buf w = Row_Files.objects 10 (span_records sps)" "w_schema w = new_schema span_keys" "w_compact w = None"
    "w_record_offsets w = map word_of_nat (object_starts 10 0 (span_records sps))"
    by (simp_all only: k(1) span_writer_new(2,3) w0(2) length_0_conv) auto
  then have "w_buf w = Wal_Recovery.objects sps" "w_schema w = new_schema span_keys" "w_compact w = None"
    "w_record_offsets w = map word_of_nat (object_starts 10 0 (span_records sps))"
    by (simp_all only: span_records_objects)
  moreover have "w_slot_sigils w = (if sps = [] then replicate 10 0 else spans_sigils sps)"
    using write_records_sigils[OF w(1) w0(1)] spans_sigils_written[of sps] by (auto simp: w0(4))
  ultimately show "nxb = file_preamble VERSION FLAG_SCHEMA_EMBEDDED (span_schema_bytes sps) @ span_schema_bytes sps @ Wal_Recovery.objects sps
      @ build_tail_index_records (span_offsets sps) (word_of_nat (152 + length (Wal_Recovery.objects sps)))"
    using finish_plain[of w span_keys] w(2) length_span_schema_bytes[of sps]
    by (simp add: Let_def span_offsets_def span_schema_bytes_def)
qed

text \<open>There are such files: a log within the limits can be sealed.\<close>

lemma seal_writes:
  assumes "wal_holds l wl" and "\<forall>sp \<in> set (sl_durable l @ sl_buffered l). seal_ok sp" and "length (wl_disk wl @ wl_buf wl) < 2 ^ 32"
  shows "\<exists>nxb. wal_seal wl = Ok (wal_flush wl, nxb, wl_count wl) \<and> sealed_from (sl_durable l @ sl_buffered l) nxb"
proof -
  define sps where "sps = sl_durable l @ sl_buffered l"
  have f: "wl_disk (wal_flush wl) = wal_header @ Wal_Recovery.objects sps @ []" "wl_disk wl @ wl_buf wl = wal_header @ Wal_Recovery.objects sps"
    "wl_index (wal_flush wl) = span_index 132 sps" "wl_count (wal_flush wl) = wl_count wl"
    using assms(1) by (simp_all add: wal_holds_def wal_flush_def sps_def)
  obtain w where "replay (wl_disk (wal_flush wl)) (span_index 132 sps) (new_writer span_schema) = Ok w" "span_writer w"
    using replay_spans[of sps _ wal_header "[]" 132 "new_writer span_schema"] assms(2,3) f(1) unfolding f(2)
    by (auto simp: sps_def[symmetric] span_writer_new)
  moreover obtain nxb where "finish w = Ok nxb"
    using finish_plain[of w span_keys] calculation(2) by (auto simp: span_writer_def)
  ultimately have "wal_seal wl = Ok (wal_flush wl, nxb, wl_count wl)"
    by (simp add: wal_seal_def Let_def f(3,4))
  then show ?thesis using assms by (auto simp: sealed_from_def)
qed

lemma span_offset:
  assumes "i < length sps" and "length (Wal_Recovery.objects sps) < 2 ^ 32 - 132"
  shows "unat (span_offsets sps ! i) = 152 + length (Wal_Recovery.objects (take i sps))"
proof -
  have "Row_Files.objects 10 (take i (span_records sps)) = Wal_Recovery.objects (take i sps)"
    using span_records_objects[of "take i sps"] by (simp only: take_map)
  then show ?thesis
    using absolute_nth[of i "span_records sps" 10 "span_schema_bytes sps"] assms length_span_schema_bytes[of sps]
      span_records_objects[of sps]
    by (simp add: span_offsets_def)
qed

end
