(* ===== verification/Segment_Files.thy ===== *)
theory Segment_Files
  imports Span_Files Wire_Order "HOL-Library.Multiset"
begin

text \<open>
  From the log to the answers of the segment reader: spans that were appended to a log are found again,
  whether the log is still live or was sealed (\<^verbatim>\<open>rust/src/wal.rs\<close> against \<^verbatim>\<open>rust/src/segment_reader.rs\<close>).
\<close>

section \<open>The index\<close>

definition index_of :: "(u128 \<times> u64) list \<Rightarrow> trace_index" where
  "index_of ps = fold (\<lambda>(t, off). index_push t off) ps []"

lemma index_of_simps: "index_of [] = []" "index_of (ps @ [(t, off)]) = index_push t off (index_of ps)"
  by (simp_all add: index_of_def)

lemma map_of_map_key: "map_of (map (\<lambda>(k, v). (k, f k v)) ix) k = map_option (f k) (map_of ix k)"
  by (induction ix) auto

lemma index_push_keys: "distinct (map fst ix) \<Longrightarrow> distinct (map fst (index_push t off ix))"
  by (simp add: index_push_def comp_def case_prod_unfold)

lemma index_push_lookup:
  "map_of (index_push t off ix) k
    = (if k = t then Some ((case map_of ix t of Some offs \<Rightarrow> offs | None \<Rightarrow> []) @ [off]) else map_of ix k)"
proof (cases "t \<in> fst ` set ix")
  case True
  then obtain offs where "map_of ix t = Some offs" by (metis not_Some_eq map_of_eq_None_iff)
  then show ?thesis using True by (auto simp: index_push_def map_of_map_key option.map_ident)
next
  case False
  then have "map_of ix t = None" by (simp add: map_of_eq_None_iff)
  then show ?thesis using False by (auto simp: index_push_def map_add_def split: option.splits)
qed

lemma index_push_offsets:
  "distinct (map fst ix) \<Longrightarrow> mset (concat (map snd (index_push t off ix))) = add_mset off (mset (concat (map snd ix)))"
proof (induction ix)
  case (Cons e ix)
  obtain k offs where e: "e = (k, offs)" by (cases e)
  show ?case
  proof (cases "k = t")
    case True
    then have "t \<notin> fst ` set ix" using Cons.prems e by auto
    then have "map (\<lambda>(k, offs). (k, if k = t then offs @ [off] else offs)) ix = ix" by (force intro: map_idI)
    then show ?thesis using True e by (simp add: index_push_def)
  next
    case False
    then have "index_push t off (e # ix) = e # index_push t off ix" using e by (auto simp: index_push_def)
    then show ?thesis using Cons by simp
  qed
qed (simp add: index_push_def)

lemma index_of_keys: "distinct (map fst (index_of ps))"
  by (induction ps rule: rev_induct) (auto simp: index_of_simps index_push_keys)

text \<open>The index answers as a scan of the records would.\<close>

lemma index_of_lookup:
  "(case map_of (index_of ps) t of Some offs \<Rightarrow> offs | None \<Rightarrow> []) = map snd (filter (\<lambda>p. fst p = t) ps)"
  by (induction ps rule: rev_induct) (auto simp: index_of_simps index_push_lookup split: option.splits)

lemma index_of_offsets: "mset (concat (map snd (index_of ps))) = mset (map snd ps)"
  by (induction ps rule: rev_induct) (auto simp: index_of_simps index_push_offsets[OF index_of_keys] simp del: mset_concat)

lemma load_index_at:
  assumes "data = pre @ concat (map tail_entry_bytes es) @ post" and "length post = 12" and "fits data"
    and "list_all2 (\<lambda>t e. unat (snd e) + 8 \<le> length data \<and>
           (\<exists>fs. decode_record_at data (unat (snd e)) keys sigils = Ok fs \<and> extract_trace_id fs = Some t)) ts es"
  shows "load_index data keys sigils (length pre) ix = Ok (fold (\<lambda>(t, off). index_push t off) (zip ts (map snd es)) ix)"
  using assms(1,4)
proof (induction es arbitrary: pre ts ix)
  case Nil
  have "wadd (length pre) 10 = length pre + 10" using assms(2,3) Nil by (simp add: wadd_def lims)
  then show ?case using Nil assms(2) by (subst load_index.simps) simp
next
  case (Cons e es)
  from Cons.prems(2) obtain t ts' fs where ts: "ts = t # ts'" and off: "unat (snd e) + 8 \<le> length data"
    and fs: "decode_record_at data (unat (snd e)) keys sigils = Ok fs" "extract_trace_id fs = Some t"
    by (auto simp: list_all2_Cons2)
  have w: "wadd (length pre) 10 = length pre + 10" "wadd (unat (snd e)) 8 = unat (snd e) + 8"
    using off assms(3) Cons.prems(1) by (simp_all add: wadd_def lims)
  have "rd_tail_entry data (length pre) = Ok e"
    using tail_entry.rd_at[of data pre e "concat (map tail_entry_bytes es) @ post" "length pre"] assms(3) Cons.prems(1) by simp
  then have r: "rd_u16 data (length pre) = Ok (fst e)" "rd_u64 data (length pre + 2) = Ok (snd e)"
    by (auto simp: rd_tail_entry_def res_simps)
  have "load_index data keys sigils (length pre + 10) (index_push t (snd e) ix)
      = Ok (fold (\<lambda>(t, off). index_push t off) (zip ts' (map snd es)) (index_push t (snd e) ix))"
    using Cons.IH[of "pre @ tail_entry_bytes e" ts' "index_push t (snd e) ix"] Cons.prems ts
    by (simp add: tail_entry.length_enc)
  moreover have "\<not> length data - 12 < length pre + 10"
    using Cons.prems(1) assms(2) by (simp add: tail_entry.length_enc)
  ultimately show ?case using w off fs r
    by (subst load_index.simps) (simp add: index_entry_def ts)
qed

section \<open>A sealed segment\<close>

definition file_sigils :: "span_fields list \<Rightarrow> u8 list" where
  "file_sigils sps = stored_sigils (if sps = [] then replicate 10 0 else spans_sigils sps)"

lemma span_schema_bytes_stored:
  "span_schema_bytes sps
    = pad8 (u16_le (word_of_nat (length span_keys)) @ file_sigils sps @ concat (map (\<lambda>k. k @ [0]) span_keys))"
proof -
  have "length span_keys = 10" by code_simp
  then have "map (\<lambda>i. let s = get_or_zero (if sps = [] then replicate 10 0 else spans_sigils sps) i in if s = 0 then SIGIL_STR else s)
      [0..<length span_keys] = file_sigils sps"
    by (intro nth_equalityI) (auto simp: get_or_zero_def Let_def stored_sigils_def file_sigils_def)
  then show ?thesis by (simp only: span_schema_bytes_def build_schema_def)
qed

lemma length_file_sigils: "length (file_sigils sps) = 10"
  by (simp add: file_sigils_def stored_sigils_def)

text \<open>The bytes of a sealed file, cut where the reader cuts them.\<close>

definition tail_entries :: "span_fields list \<Rightarrow> (u16 \<times> u64) list" where
  "tail_entries sps = zip (map word_of_nat [0..<length sps]) (span_offsets sps)"

lemma length_span_offsets: "length (span_offsets sps) = length sps"
  by (simp add: span_offsets_def absolute_def)

lemma sealed_file_parts:
  assumes "sealed_from sps nxb"
  shows "nxb = encode_preamble (murmur3_64 (span_schema_bytes sps)) FLAG_SCHEMA_EMBEDDED @ span_schema_bytes sps
      @ Wal_Recovery.objects sps @ u32_le (word_of_nat (length sps)) @ concat (map tail_entry_bytes (tail_entries sps))
      @ u64_le (word_of_nat (32 + length (span_schema_bytes sps) + length (Wal_Recovery.objects sps))) @ u32_le MAGIC_FOOTER"
    and "length nxb = 168 + length (Wal_Recovery.objects sps) + length sps * 10" and "length nxb < 2 ^ 40"
proof -
  note f = sealed_file[OF assms]
  show "nxb = encode_preamble (murmur3_64 (span_schema_bytes sps)) FLAG_SCHEMA_EMBEDDED @ span_schema_bytes sps
      @ Wal_Recovery.objects sps @ u32_le (word_of_nat (length sps)) @ concat (map tail_entry_bytes (tail_entries sps))
      @ u64_le (word_of_nat (32 + length (span_schema_bytes sps) + length (Wal_Recovery.objects sps))) @ u32_le MAGIC_FOOTER"
    unfolding f(1) tail_index_entries file_preamble_def encode_preamble_def tail_entries_def length_span_offsets
    by (simp add: length_span_schema_bytes)
  show l: "length nxb = 168 + length (Wal_Recovery.objects sps) + length sps * 10"
    unfolding f(1) by (simp add: length_tail_index length_span_schema_bytes length_span_offsets)
  have "length sps \<le> length (Wal_Recovery.objects sps)"
  proof (induction sps)
    case (Cons sp sps)
    then show ?case using length_span_object[of sp] by simp
  qed simp
  then show "length nxb < 2 ^ 40" using f(2) l by simp
qed

lemma sealed_decodes:
  assumes "sealed_from sps nxb"
  shows "\<exists>d. decode nxb = Ok d \<and> df_keys d = span_keys \<and> df_sigils d = file_sigils sps
     \<and> df_tail_start d = 156 + length (Wal_Recovery.objects sps)"
proof -
  note f = sealed_file_parts[OF assms]
  have fits: "fits nxb" using f(3) by (simp add: lims)
  have k: "length span_keys = 10" "list_all name_ok span_keys" by code_simp+
  have sch: "parse_basic_schema nxb 32 = Ok (span_keys, file_sigils sps, 32 + length (span_schema_bytes sps))"
    using basic_schema_roundtrip[OF _ _ k(2) _ span_schema_bytes_stored f(1) fits]
    by (simp add: k(1) length_file_sigils encode_preamble_def)
  have "decode_object nxb (32 + length (span_schema_bytes sps)) span_keys (file_sigils sps) \<noteq> Panic"
    using decode_object_no_panic[OF fits] by (simp add: length_span_schema_bytes lims)
  then obtain root where root: "(case decode_object nxb (32 + length (span_schema_bytes sps)) span_keys (file_sigils sps)
      of Err _ \<Rightarrow> Ok [] | r \<Rightarrow> r) = Ok root"
    by (cases "decode_object nxb (32 + length (span_schema_bytes sps)) span_keys (file_sigils sps)") auto
  show ?thesis using decode_row_data[OF f(1) refl fits sch root] by (simp add: length_span_schema_bytes)
qed

text \<open>Every offset of the tail index leads to its span.\<close>

lemma objects_nth:
  "i < length sps \<Longrightarrow> Wal_Recovery.objects sps
    = Wal_Recovery.objects (take i sps) @ span_object (sps ! i) @ Wal_Recovery.objects (drop (Suc i) sps)"
  by (subst id_take_nth_drop[of i sps]) simp_all

lemma file_sigils_ok: "sp \<in> set sps \<Longrightarrow> span_sigils_ok (file_sigils sps) sp"
  using stored_sigils_ok[of sp sps] by (auto simp: file_sigils_def)

lemma sealed_span_at:
  assumes "sealed_from sps nxb" and "i < length sps"
  shows "decode_record_at nxb (unat (span_offsets sps ! i)) span_keys (file_sigils sps)
      = Ok (zip span_keys (span_decoded (file_sigils sps) (sps ! i)))"
    and "unat (span_offsets sps ! i) + 8 \<le> length nxb"
proof -
  note f = sealed_file[OF assms(1)] and p = sealed_file_parts[OF assms(1)]
  let ?pre = "file_preamble VERSION FLAG_SCHEMA_EMBEDDED (span_schema_bytes sps) @ span_schema_bytes sps @ Wal_Recovery.objects (take i sps)"
  have off: "unat (span_offsets sps ! i) = length ?pre"
    using span_offset[OF assms(2) f(2)] by (simp add: length_span_schema_bytes)
  have d: "\<exists>post. nxb = ?pre @ span_object (sps ! i) @ post" unfolding f(1) by (subst objects_nth[OF assms(2)]) simp
  then obtain post where d: "nxb = ?pre @ span_object (sps ! i) @ post" ..
  have ok: "seal_ok (sps ! i)" using f(3) assms(2) by simp
  show "decode_record_at nxb (unat (span_offsets sps ! i)) span_keys (file_sigils sps)
      = Ok (zip span_keys (span_decoded (file_sigils sps) (sps ! i)))"
    unfolding off
    by (rule decode_span_in[OF ok file_sigils_ok d]) (use assms(2) p(3) in \<open>simp_all add: lims\<close>)
  show "unat (span_offsets sps ! i) + 8 \<le> length nxb"
    unfolding off using arg_cong[OF d, of length] length_span_object[of "sps ! i"] by simp
qed

definition segment_of :: "rstring \<Rightarrow> span_fields list \<Rightarrow> u8 list \<Rightarrow> sealed_segment" where
  "segment_of path sps nxb =
     \<lparr>sg_path = path, sg_data = nxb, sg_index = index_of (zip (map span_trace sps) (span_offsets sps)),
      sg_keys = span_keys, sg_sigils = file_sigils sps\<rparr>"

lemma segment_loads:
  assumes "sealed_from sps nxb"
  shows "segment_load path nxb = Ok (segment_of path sps nxb)"
proof -
  note p = sealed_file_parts[OF assms]
  obtain d where d: "decode nxb = Ok d" "df_keys d = span_keys" "df_sigils d = file_sigils sps"
    "df_tail_start d = 156 + length (Wal_Recovery.objects sps)" using sealed_decodes[OF assms] by blast
  let ?pre = "encode_preamble (murmur3_64 (span_schema_bytes sps)) FLAG_SCHEMA_EMBEDDED @ span_schema_bytes sps
      @ Wal_Recovery.objects sps @ u32_le (word_of_nat (length sps))"
  let ?post = "u64_le (word_of_nat (32 + length (span_schema_bytes sps) + length (Wal_Recovery.objects sps))) @ u32_le MAGIC_FOOTER"
  have "load_index nxb span_keys (file_sigils sps) (length ?pre) []
      = Ok (fold (\<lambda>(t, off). index_push t off) (zip (map span_trace sps) (map snd (tail_entries sps))) [])"
  proof (rule load_index_at)
    show "nxb = ?pre @ concat (map tail_entry_bytes (tail_entries sps)) @ ?post" by (subst p(1)) simp
    show "fits nxb" using p(3) by (simp add: lims)
    show "list_all2 (\<lambda>t e. unat (snd e) + 8 \<le> length nxb \<and> (\<exists>fs. decode_record_at nxb (unat (snd e)) span_keys (file_sigils sps) = Ok fs
        \<and> extract_trace_id fs = Some t)) (map span_trace sps) (tail_entries sps)"
      unfolding list_all2_conv_all_nth
      using sealed_span_at[OF assms] fields_to_span_ok(1)[OF file_sigils_ok[of _ sps]]
      by (auto simp: tail_entries_def length_span_offsets)
  qed simp
  moreover have "map snd (tail_entries sps) = span_offsets sps" by (simp add: tail_entries_def length_span_offsets)
  ultimately show ?thesis
    by (simp add: segment_load_def d segment_of_def index_of_def encode_preamble_def length_span_schema_bytes)
qed

lemma segment_span_at:
  assumes "sealed_from sps nxb" and "i < length sps"
  shows "decode_span_at (segment_of path sps nxb) (span_offsets sps ! i) = Ok (span_of (sps ! i))"
  using sealed_span_at(1)[OF assms] fields_to_span_ok(2)[OF file_sigils_ok[of "sps ! i" sps]] assms(2)
  by (simp add: decode_span_at_def segment_of_def)

text \<open>What a segment answers for a list of offsets.\<close>

lemma segment_spans_at:
  "list_all2 (\<lambda>s off. decode_span_at sg off = Ok s) ss offs \<Longrightarrow> segment_spans sg offs = Ok ss"
proof (induction ss offs rule: list_all2_induct)
  case (Cons s ss off offs)
  then show ?case by (auto simp: segment_spans_def present_def res_simps)
qed (simp add: segment_spans_def present_def)

lemma segment_spans_all:
  assumes "sealed_from sps nxb"
  shows "list_all2 (\<lambda>s off. decode_span_at (segment_of path sps nxb) off = Ok s) (map span_of sps) (span_offsets sps)"
  using segment_span_at[OF assms] by (simp add: list_all2_conv_all_nth length_span_offsets)

lemma filter_traces:
  "list_all2 R (map f sps) offs \<Longrightarrow>
   list_all2 R (map f (filter (\<lambda>sp. g sp = t) sps)) (map snd (filter (\<lambda>p. fst p = t) (zip (map g sps) offs)))"
  by (induction sps arbitrary: offs) (auto simp: list_all2_Cons1)

lemma segment_by_trace:
  assumes "sealed_from sps nxb"
  shows "(case map_of (sg_index (segment_of path sps nxb)) t of
            Some offs \<Rightarrow> segment_spans (segment_of path sps nxb) offs | None \<Rightarrow> Ok [])
     = Ok (map span_of (filter (\<lambda>sp. span_trace sp = t) sps))"
proof -
  let ?sg = "segment_of path sps nxb"
  have "segment_spans ?sg [] = Ok []" by (simp add: segment_spans_def present_def)
  then have "(case map_of (sg_index ?sg) t of Some offs \<Rightarrow> segment_spans ?sg offs | None \<Rightarrow> Ok [])
      = segment_spans ?sg (case map_of (sg_index ?sg) t of Some offs \<Rightarrow> offs | None \<Rightarrow> [])"
    by (simp split: option.splits)
  also have "\<dots> = segment_spans ?sg (map snd (filter (\<lambda>p. fst p = t) (zip (map span_trace sps) (span_offsets sps))))"
    using index_of_lookup[of "zip (map span_trace sps) (span_offsets sps)" t] by (simp add: segment_of_def)
  also have "\<dots> = Ok (map span_of (filter (\<lambda>sp. span_trace sp = t) sps))"
    by (rule segment_spans_at, rule filter_traces, rule segment_spans_all[OF assms])
  finally show ?thesis .
qed

lemma mset_concat_cong: "mset xss = mset yss \<Longrightarrow> mset (concat (map f xss)) = mset (concat (map f yss))"
  by (simp only: mset_concat map_map flip: sum_mset_sum_list) (simp only: mset_map)

lemma segment_by_time:
  assumes "sealed_from sps nxb" and order: "\<And>ix. mset (order ix) = mset ix"
  shows "\<exists>ss. segment_spans (segment_of path sps nxb) (concat (map snd (order (sg_index (segment_of path sps nxb))))) = Ok ss
     \<and> mset ss = mset (map span_of sps)"
proof -
  let ?ps = "zip (map span_trace sps) (span_offsets sps)"
  have "map snd ?ps = span_offsets sps" by (simp add: length_span_offsets)
  then have "mset (concat (map snd (order (index_of ?ps)))) = mset (span_offsets sps)"
    using mset_concat_cong[OF order, of snd "index_of ?ps"] index_of_offsets[of ?ps] by metis
  moreover have "list_all2 (\<lambda>off s. decode_span_at (segment_of path sps nxb) off = Ok s) (span_offsets sps) (map span_of sps)"
    using segment_spans_all[OF assms(1), of path] by (simp add: list_all2_conv_all_nth)
  ultimately obtain ss where "list_all2 (\<lambda>off s. decode_span_at (segment_of path sps nxb) off = Ok s)
      (concat (map snd (order (index_of ?ps)))) ss" "mset ss = mset (map span_of sps)"
    using list_all2_reorder_left_invariance by blast
  then show ?thesis using segment_spans_at[of "segment_of path sps nxb" ss]
    by (auto simp: segment_of_def list_all2_conv_all_nth)
qed

lemma segment_records:
  "(\<Sum>(_, offs) \<leftarrow> sg_index (segment_of path sps nxb). word_of_nat (length offs)) = (word_of_nat (length sps) :: u64)"
proof -
  let ?ps = "zip (map span_trace sps) (span_offsets sps)"
  have "(\<Sum>(_, offs) \<leftarrow> ix. word_of_nat (length offs)) = (word_of_nat (length (concat (map snd ix))) :: u64)" for ix :: trace_index
    by (induction ix) auto
  moreover have "length (concat (map snd (index_of ?ps))) = length sps"
    using arg_cong[OF index_of_offsets[of ?ps], of size] by (simp add: length_span_offsets)
  ultimately show ?thesis by (simp add: segment_of_def)
qed

end
