(* ===== verification/Segment_Answers.thy ===== *)
theory Segment_Answers
  imports Segment_Files
begin

text \<open>
  Queries over a directory of sealed segments and a live log: \<open>open\<close>, \<open>find_by_trace\<close>, \<open>find_span\<close>,
  \<open>find_by_time\<close> and \<open>stats\<close> of \<^verbatim>\<open>rust/src/segment_reader.rs\<close> against the spans that were appended.
\<close>

section \<open>The live log\<close>

text \<open>
  The file of a log, cut anywhere behind its header: \<open>sps\<close> are the spans that are whole in it.  This covers a log
  that is still written to, whose last records are in the buffer of the writer.
\<close>

definition live_from :: "span_fields list \<Rightarrow> u8 list \<Rightarrow> bool" where
  "live_from sps data \<longleftrightarrow> (\<exists>l wl rest torn. wal_holds l wl \<and> sl_durable l @ sl_buffered l = sps @ rest
     \<and> data = wal_header @ Wal_Recovery.objects sps @ torn
     \<and> (torn = [] \<or> rest \<noteq> [] \<and> (\<exists>m < length (span_object (hd rest)). torn = take m (span_object (hd rest))))
     \<and> (\<forall>sp \<in> set sps. seal_ok sp) \<and> length data < 2 ^ 32)"

lemma live_recovers:
  assumes "live_from sps data"
  shows "\<exists>w. wal_recover (wal_open (Some data)) = Ok w \<and> wl_disk w = data \<and> wl_index w = span_index 132 sps \<and> wl_count w = length sps"
proof -
  obtain l wl rest torn where h: "wal_holds l wl" "sl_durable l @ sl_buffered l = sps @ rest"
    and d: "data = wal_header @ Wal_Recovery.objects sps @ torn"
    and t: "torn = [] \<or> rest \<noteq> [] \<and> (\<exists>m < length (span_object (hd rest)). torn = take m (span_object (hd rest)))"
    using assms unfolding live_from_def by blast
  have ok: "\<forall>sp \<in> set (sps @ rest). span_ok sp" using h by (simp add: wal_holds_def)
  let ?w = "wal_open (Some data)"
  have w: "wl_disk ?w = data" by (simp add: wal_open_def Let_def)
  have e: "scan_records data (132 + length (Wal_Recovery.objects sps)) ix n = (ix, n)" for ix n
  proof (cases "torn = []")
    case True
    then show ?thesis by (intro scan_end) (simp add: d)
  next
    case False
    then obtain m where "rest \<noteq> []" "m < length (span_object (hd rest))" "torn = take m (span_object (hd rest))" using t by auto
    then show ?thesis
      using scan_torn[of "hd rest" m "132 + length (Wal_Recovery.objects sps)" "wal_header @ Wal_Recovery.objects sps"] ok
      by (simp add: d)
  qed
  have "wal_recover ?w = Ok (?w\<lparr>wl_index := span_index 132 sps, wl_count := length sps, wl_offset := length (wl_disk ?w)\<rparr>)"
    by (rule recover_scan[of _ _ torn]) (use ok e d w in simp_all)
  then show ?thesis using w by simp
qed

lemma live_spans:
  assumes "\<forall>sp \<in> set sps. seal_ok sp" and "data = pre @ Wal_Recovery.objects sps @ post" and "p = length pre" and "fits data"
  shows "list_all2 (\<lambda>sp e. we_trace_id e = span_trace sp \<and> decode_span_from_raw data (we_offset e) = Ok (Some (span_of sp)))
    sps (span_index p sps)"
  using assms
proof (induction sps arbitrary: pre p)
  case (Cons sp sps)
  have ok: "seal_ok sp" using Cons.prems(1) by simp
  obtain rest where o: "span_object sp = u32_le MAGIC_OBJ @ u32_le (word_of_nat (length (span_object sp))) @ rest"
    by (rule object_head)
  have d: "data = pre @ span_object sp @ (Wal_Recovery.objects sps @ post)" using Cons.prems(2) by simp
  have m: "rd_u32 data p = Ok MAGIC_OBJ"
    by (rule u32c.rd_at[OF Cons.prems(4), of pre _ "u32_le (word_of_nat (length (span_object sp))) @ rest @ Wal_Recovery.objects sps @ post"])
      (use d o Cons.prems(3) in simp_all)
  have l: "wadd p 4 = p + 4" "p + 4 \<le> length data"
    using Cons.prems(3,4) d length_span_object[of sp] by (simp_all add: wadd_def lims)
  have g: "span_sigils_ok span_sigils sp" by (rule log_sigils_ok)
  have "decode_span_from_raw data p = Ok (Some (span_of sp))"
    using decode_span_in[OF ok g d Cons.prems(4)] fields_to_span_ok(2)[OF g] m l Cons.prems(3)
    by (simp add: decode_span_from_raw_def)
  moreover have "list_all2 (\<lambda>sp e. we_trace_id e = span_trace sp \<and> decode_span_from_raw data (we_offset e) = Ok (Some (span_of sp)))
      sps (span_index (p + length (span_object sp)) sps)"
    by (rule Cons.IH[of "pre @ span_object sp"]) (use Cons.prems in simp_all)
  ultimately show ?case by (simp add: span_entry_def span_trace_def)
qed simp

lemma wal_spans_filtered:
  "list_all2 (\<lambda>sp e. P e = Q sp \<and> decode_span_from_raw data (we_offset e) = Ok (Some (span_of sp))) sps es \<Longrightarrow>
   wal_spans data (filter P es) = Ok (map span_of (filter Q sps))"
proof (induction sps es rule: list_all2_induct)
  case (Cons sp sps e es)
  then show ?case by (auto simp: wal_spans_def present_def res_simps)
qed (simp add: wal_spans_def present_def)

lemma live_answers:
  assumes "live_from sps data"
  shows "wal_spans data (filter (\<lambda>e. we_trace_id e = t) (span_index 132 sps)) = Ok (map span_of (filter (\<lambda>sp. span_trace sp = t) sps))"
    and "wal_spans data (span_index 132 sps) = Ok (map span_of sps)"
proof -
  obtain torn where d: "data = wal_header @ Wal_Recovery.objects sps @ torn" "\<forall>sp \<in> set sps. seal_ok sp" "length data < 2 ^ 32"
    using assms by (auto simp: live_from_def)
  have all: "list_all2 (\<lambda>sp e. we_trace_id e = span_trace sp \<and> decode_span_from_raw data (we_offset e) = Ok (Some (span_of sp)))
      sps (span_index 132 sps)"
    by (rule live_spans[OF d(2,1)]) (use d(3) in \<open>simp_all add: lims\<close>)
  show "wal_spans data (filter (\<lambda>e. we_trace_id e = t) (span_index 132 sps)) = Ok (map span_of (filter (\<lambda>sp. span_trace sp = t) sps))"
    by (rule wal_spans_filtered, rule list_all2_mono[OF all]) simp
  have "wal_spans data (filter (\<lambda>e. True) (span_index 132 sps)) = Ok (map span_of (filter (\<lambda>sp. True) sps))"
    by (rule wal_spans_filtered, rule list_all2_mono[OF all]) simp
  then show "wal_spans data (span_index 132 sps) = Ok (map span_of sps)" by simp
qed

section \<open>Directories\<close>

text \<open>
  A directory, with the spans of its sealed segments and of its live log: any other files may stand in it, and of
  several logs the last one counts.
\<close>

inductive directory :: "(rstring \<times> u8 list) list \<Rightarrow> span_fields list list \<Rightarrow> span_fields list option \<Rightarrow> bool" where
  dir_empty: "directory [] [] None"
| dir_sealed: "directory dir sealed live \<Longrightarrow> path_extension path = Some (bstr ''nxb'') \<Longrightarrow> sealed_from sps data \<Longrightarrow>
     directory (dir @ [(path, data)]) (sealed @ [sps]) live"
| dir_live: "directory dir sealed live \<Longrightarrow> path_extension path = Some (bstr ''nxsw'') \<Longrightarrow> live_from sps data \<Longrightarrow>
     directory (dir @ [(path, data)]) sealed (Some sps)"
| dir_other: "directory dir sealed live \<Longrightarrow> path_extension path \<notin> {Some (bstr ''nxb''), Some (bstr ''nxsw'')} \<Longrightarrow>
     directory (dir @ [(path, data)]) sealed live"

definition segment_from :: "span_fields list \<Rightarrow> sealed_segment \<Rightarrow> bool" where
  "segment_from sps sg \<longleftrightarrow> (\<exists>path nxb. sealed_from sps nxb \<and> sg = segment_of path sps nxb)"

lemma directory_entries:
  "directory dir sealed live \<Longrightarrow> \<exists>segs wal. rfold open_entry dir ([], None) = Ok (segs, wal) \<and> list_all2 segment_from sealed segs
     \<and> rel_option live_from live wal"
proof (induction rule: directory.induct)
  case (dir_sealed dir sealed live path sps data)
  then obtain segs wal where "rfold open_entry dir ([], None) = Ok (segs, wal)" "list_all2 segment_from sealed segs" "rel_option live_from live wal"
    by blast
  moreover have "segment_from sps (segment_of path sps data)" using dir_sealed by (auto simp: segment_from_def)
  ultimately show ?case
    using dir_sealed segment_loads[of sps data path] by (auto simp: rfold_append open_entry_def list_all2_appendI)
next
  case (dir_live dir sealed live path sps data)
  moreover have "bstr ''nxsw'' \<noteq> bstr ''nxb''" by code_simp
  ultimately show ?case by (auto simp: rfold_append open_entry_def)
qed (auto simp: rfold_append open_entry_def)

text \<open>What an open reader holds.\<close>

definition reader_holds :: "span_fields list list \<Rightarrow> span_fields list option \<Rightarrow> segment_reader \<Rightarrow> bool" where
  "reader_holds sealed live r \<longleftrightarrow> list_all2 segment_from sealed (sd_segments r)
     \<and> rel_option (\<lambda>sps (w, data). live_from sps data \<and> wl_index w = span_index 132 sps \<and> wl_count w = length sps) live (sd_wal r)"

lemma segments_open_holds:
  assumes "directory dir sealed live"
  shows "\<exists>r sealed'. segments_open dir = Ok r \<and> mset sealed' = mset sealed \<and> reader_holds sealed' live r"
proof -
  obtain segs wal where e: "rfold open_entry dir ([], None) = Ok (segs, wal)" "list_all2 segment_from sealed segs" "rel_option live_from live wal"
    using directory_entries[OF assms] by blast
  define segs' where "segs' = sort_by (\<lambda>a b. path_less (sg_path a) (sg_path b)) segs"
  have "list_all2 (\<lambda>sg sps. segment_from sps sg) segs sealed" using e(2) by (simp add: list_all2_conv_all_nth)
  moreover have "mset segs' = mset segs" by (simp add: segs'_def mset_sort_by)
  ultimately obtain sealed' where s: "list_all2 (\<lambda>sg sps. segment_from sps sg) segs' sealed'" "mset sealed' = mset sealed"
    using list_all2_reorder_left_invariance by blast
  then have s': "list_all2 segment_from sealed' segs'" by (simp add: list_all2_conv_all_nth)
  show ?thesis
  proof (cases wal)
    case None
    then show ?thesis using e s s' by (auto simp: segments_open_def reader_holds_def Let_def segs'_def[symmetric])
  next
    case (Some data)
    then obtain sps where l: "live = Some sps" "live_from sps data" using e(3) by (auto simp: option_rel_Some2)
    then show ?thesis using Some e s s' live_recovers[OF l(2)]
      by (auto simp: segments_open_def reader_holds_def Let_def segs'_def[symmetric])
  qed
qed

section \<open>Queries\<close>

definition all_spans :: "span_fields list list \<Rightarrow> span_fields list option \<Rightarrow> span_fields list" where
  "all_spans sealed live = concat sealed @ (case live of Some sps \<Rightarrow> sps | None \<Rightarrow> [])"

text \<open>An answer: the spans that meet a condition, each as often as it was appended, in the order of their start.\<close>

definition answers :: "span list \<Rightarrow> (span_fields \<Rightarrow> bool) \<Rightarrow> span_fields list \<Rightarrow> bool" where
  "answers ss P sps \<longleftrightarrow> sorted (map (\<lambda>s. sint (sn_start s)) ss) \<and> mset ss = mset (map span_of (filter P sps))"

lemma answers_by_start: "mset ss = mset (map span_of (filter P sps)) \<Longrightarrow> answers (by_start ss) P sps"
  by (simp add: answers_def by_start_def)

lemma answers_cong: "answers ss P sps \<Longrightarrow> mset sps = mset sqs \<Longrightarrow> answers ss P sqs"
  by (simp add: answers_def)

lemma all_spans_cong: "mset sealed = mset sealed' \<Longrightarrow> mset (all_spans sealed live) = mset (all_spans sealed' live)"
  using mset_concat_cong[of sealed sealed' id] by (simp add: all_spans_def)

lemma segments_by_trace:
  "list_all2 segment_from sealed segs \<Longrightarrow>
   rmap (\<lambda>sg. case map_of (sg_index sg) t of Some offs \<Rightarrow> segment_spans sg offs | None \<Rightarrow> Ok []) segs
     = Ok (map (\<lambda>sps. map span_of (filter (\<lambda>sp. span_trace sp = t) sps)) sealed)"
  unfolding rmap_Ok_iff list_all2_map2
  by (auto simp: list_all2_conv_all_nth) (metis segment_by_trace segment_from_def)

lemma find_by_trace_answers:
  assumes "reader_holds sealed live r"
  shows "\<exists>ss. find_by_trace r t = Ok ss \<and> answers ss (\<lambda>sp. span_trace sp = t) (all_spans sealed live)"
proof -
  have s: "list_all2 segment_from sealed (sd_segments r)" using assms by (simp add: reader_holds_def)
  have "(case sd_wal r of None \<Rightarrow> Ok [] | Some (w, data) \<Rightarrow> wal_spans data (filter (\<lambda>e. we_trace_id e = t) (wl_index w)))
      = Ok (map span_of (filter (\<lambda>sp. span_trace sp = t) (case live of Some sps \<Rightarrow> sps | None \<Rightarrow> [])))"
    using assms live_answers(1) by (auto simp: reader_holds_def rel_option_iff split: option.splits)
  then have "find_by_trace r t = Ok (by_start (concat (map (\<lambda>sps. map span_of (filter (\<lambda>sp. span_trace sp = t) sps)) sealed)
      @ map span_of (filter (\<lambda>sp. span_trace sp = t) (case live of Some sps \<Rightarrow> sps | None \<Rightarrow> []))))"
    by (simp only: find_by_trace_def segments_by_trace[OF s] rbind.simps)
  moreover have "concat (map (\<lambda>sps. map span_of (filter P sps)) sealed) = map span_of (filter P (concat sealed))" for P
    by (induction sealed) auto
  ultimately show ?thesis by (auto simp: all_spans_def intro!: answers_by_start)
qed

lemma find_span_answers:
  assumes "find_by_trace r t = Ok ss" and "answers ss (\<lambda>sp. span_trace sp = t) sps"
  shows "\<exists>f. find_span r t i = Ok f \<and> (case f of
      Some s \<Rightarrow> \<exists>sp \<in> set sps. span_trace sp = t \<and> sp_span_id sp = i \<and> s = span_of sp
    | None \<Rightarrow> \<forall>sp \<in> set sps. span_trace sp = t \<longrightarrow> sp_span_id sp \<noteq> i)"
proof -
  have set: "set ss = span_of ` {sp \<in> set sps. span_trace sp = t}"
    using mset_eq_setD[of ss "map span_of (filter (\<lambda>sp. span_trace sp = t) sps)"] assms(2) by (simp add: answers_def)
  have id: "sn_span_id (span_of sp) = sp_span_id sp" for sp by (simp add: span_of_def)
  have f: "find_span r t i = Ok (find (\<lambda>s. sn_span_id s = i) ss)" by (simp add: find_span_def assms(1))
  show ?thesis
  proof (cases "find (\<lambda>s. sn_span_id s = i) ss")
    case None
    then have "\<forall>s \<in> set ss. sn_span_id s \<noteq> i" by (auto simp: find_None_iff)
    then have "\<forall>sp \<in> set sps. span_trace sp = t \<longrightarrow> sp_span_id sp \<noteq> i" by (simp add: set id)
    then show ?thesis by (simp add: f None)
  next
    case (Some s)
    then have "s \<in> set ss" "sn_span_id s = i" by (auto simp: find_Some_iff)
    then obtain sp where "sp \<in> set sps" "span_trace sp = t" "s = span_of sp" "sp_span_id sp = i" by (auto simp: set id)
    then have "\<exists>sp \<in> set sps. span_trace sp = t \<and> sp_span_id sp = i \<and> s = span_of sp" by blast
    then show ?thesis by (simp add: f Some)
  qed
qed

lemma segments_by_time:
  assumes "list_all2 segment_from sealed segs" and "\<And>ix. mset (order ix) = mset ix"
  shows "\<exists>xss. rmap (\<lambda>sg. segment_spans sg (concat (map snd (order (sg_index sg))))) segs = Ok xss
     \<and> mset (concat xss) = mset (map span_of (concat sealed))"
  using assms(1)
proof (induction sealed segs rule: list_all2_induct)
  case (Cons sps sealed sg segs)
  obtain path nxb where "sealed_from sps nxb" "sg = segment_of path sps nxb" using Cons by (auto simp: segment_from_def)
  then obtain ss where "segment_spans sg (concat (map snd (order (sg_index sg)))) = Ok ss" "mset ss = mset (map span_of sps)"
    using segment_by_time[of sps nxb order path] assms(2) by blast
  then show ?case using Cons by auto
qed simp

lemma find_by_time_answers:
  assumes "reader_holds sealed live r" and "\<And>ix. mset (order ix) = mset ix"
  shows "\<exists>ss. find_by_time order r lo hi = Ok ss \<and> answers ss (\<lambda>sp. lo \<le>s sp_start sp \<and> sp_start sp \<le>s hi) (all_spans sealed live)"
proof -
  let ?in = "\<lambda>s. lo \<le>s sn_start s \<and> sn_start s \<le>s hi"
  obtain xss where x: "rmap (\<lambda>sg. segment_spans sg (concat (map snd (order (sg_index sg))))) (sd_segments r) = Ok xss"
    "mset (concat xss) = mset (map span_of (concat sealed))"
    using segments_by_time[of sealed "sd_segments r" order] assms by (auto simp: reader_holds_def)
  let ?live = "map span_of (case live of Some sps \<Rightarrow> sps | None \<Rightarrow> [])"
  have "(case sd_wal r of None \<Rightarrow> Ok [] | Some (w, data) \<Rightarrow> wal_spans data (wl_index w)) = Ok ?live"
    using assms(1) live_answers(2) by (auto simp: reader_holds_def rel_option_iff split: option.splits)
  then have "find_by_time order r lo hi = Ok (by_start (filter ?in (concat xss @ ?live)))"
    by (simp only: find_by_time_def Let_def x(1) rbind.simps)
  moreover have "mset (filter ?in (concat xss @ ?live)) = mset (filter ?in (map span_of (all_spans sealed live)))"
    using arg_cong[OF x(2), of "filter_mset ?in"] by (simp only: all_spans_def map_append filter_append mset_append mset_filter)
  moreover have "?in \<circ> span_of = (\<lambda>sp. lo \<le>s sp_start sp \<and> sp_start sp \<le>s hi)" by (rule ext) (simp add: span_of_def)
  ultimately show ?thesis by (auto simp: filter_map intro!: answers_by_start)
qed

lemma stats_count:
  assumes "reader_holds sealed live r"
  shows "segment_stats r = \<lparr>rs_segment_count = length sealed, rs_sealed_records = word_of_nat (length (concat sealed)),
     rs_wal_records = word_of_nat (length (case live of Some sps \<Rightarrow> sps | None \<Rightarrow> []))\<rparr>"
proof -
  have s: "list_all2 segment_from sealed (sd_segments r)" using assms by (simp add: reader_holds_def)
  then have "sum_list (map (\<lambda>s. \<Sum>(_, offs) \<leftarrow> sg_index s. word_of_nat (length offs)) (sd_segments r)) = (word_of_nat (length (concat sealed)) :: u64)"
  proof (induction rule: list_all2_induct)
    case (Cons sps sealed sg segs)
    then obtain path nxb where "sg = segment_of path sps nxb" by (auto simp: segment_from_def)
    then show ?case using Cons segment_records[of path sps nxb] by simp
  qed simp
  moreover have "(case sd_wal r of Some (w, _) \<Rightarrow> word_of_nat (wl_count w) | None \<Rightarrow> 0)
      = (word_of_nat (length (case live of Some sps \<Rightarrow> sps | None \<Rightarrow> [])) :: u64)"
    using assms by (auto simp: reader_holds_def rel_option_iff split: option.splits)
  ultimately show ?thesis using list_all2_lengthD[OF s] by (simp add: segment_stats_def)
qed

text \<open>
  C13: The segment reader answers from all that was logged.  For a directory of segments sealed from logs, any other
  files, and a live log cut anywhere behind its header -- every sealed span within the limits of \<open>seal_ok\<close>: an object below
  64 KiB, valid strings, and no value whose bytes begin with the magic number of an object or a list -- opening succeeds; the spans of a trace are exactly those
  appended under it, a span is found by its identifier if it is there, and the spans of a time window exactly those that start within it, whatever order the
  hash map has; both in the order of their start; and the statistics count the spans.
\<close>

theorem segments_answer_queries:
  assumes "directory dir sealed live" and "\<And>ix. mset (order ix) = mset ix"
  shows "\<exists>r. segments_open dir = Ok r
     \<and> (\<forall>t. \<exists>ss. find_by_trace r t = Ok ss \<and> answers ss (\<lambda>sp. span_trace sp = t) (all_spans sealed live))
     \<and> (\<forall>t i. \<exists>f. find_span r t i = Ok f \<and> (case f of
            Some s \<Rightarrow> \<exists>sp \<in> set (all_spans sealed live). span_trace sp = t \<and> sp_span_id sp = i \<and> s = span_of sp
          | None \<Rightarrow> \<forall>sp \<in> set (all_spans sealed live). span_trace sp = t \<longrightarrow> sp_span_id sp \<noteq> i))
     \<and> (\<forall>lo hi. \<exists>ss. find_by_time order r lo hi = Ok ss
          \<and> answers ss (\<lambda>sp. lo \<le>s sp_start sp \<and> sp_start sp \<le>s hi) (all_spans sealed live))
     \<and> segment_stats r = \<lparr>rs_segment_count = length sealed, rs_sealed_records = word_of_nat (length (concat sealed)),
         rs_wal_records = word_of_nat (length (case live of Some sps \<Rightarrow> sps | None \<Rightarrow> []))\<rparr>"
proof -
  obtain r sealed' where r: "segments_open dir = Ok r" "mset sealed' = mset sealed" "reader_holds sealed' live r"
    using segments_open_holds[OF assms(1)] by blast
  note c = all_spans_cong[OF r(2), of live]
  have "length sealed' = length sealed" "length (concat sealed') = length (concat sealed)"
    using arg_cong[OF r(2), of size] arg_cong[OF mset_concat_cong[OF r(2), of id], of size] by simp_all
  then have stats: "segment_stats r = \<lparr>rs_segment_count = length sealed, rs_sealed_records = word_of_nat (length (concat sealed)),
         rs_wal_records = word_of_nat (length (case live of Some sps \<Rightarrow> sps | None \<Rightarrow> []))\<rparr>"
    using stats_count[OF r(3)] by simp
  have trace: "\<exists>ss. find_by_trace r t = Ok ss \<and> answers ss (\<lambda>sp. span_trace sp = t) (all_spans sealed live)" for t
    using find_by_trace_answers[OF r(3)] answers_cong[OF _ c] by blast
  have time: "\<exists>ss. find_by_time order r lo hi = Ok ss
      \<and> answers ss (\<lambda>sp. lo \<le>s sp_start sp \<and> sp_start sp \<le>s hi) (all_spans sealed live)" for lo hi
    using find_by_time_answers[OF r(3) assms(2), of lo hi] answers_cong[OF _ c] by blast
  have span: "\<exists>f. find_span r t i = Ok f \<and> (case f of
            Some s \<Rightarrow> \<exists>sp \<in> set (all_spans sealed live). span_trace sp = t \<and> sp_span_id sp = i \<and> s = span_of sp
          | None \<Rightarrow> \<forall>sp \<in> set (all_spans sealed live). span_trace sp = t \<longrightarrow> sp_span_id sp \<noteq> i)" for t i
    using trace[of t] by (elim exE conjE) (rule find_span_answers)
  show ?thesis by (intro exI[of _ r] conjI allI r(1) trace stats time span)
qed

theorem segments_answer_queries_witness:
  "\<exists>dir r ss. directory dir [[sample_span]] (Some [sample_span]) \<and> segments_open dir = Ok r
     \<and> find_by_trace r (span_trace sample_span) = Ok ss \<and> length ss = 2"
proof -
  obtain wl l where l: "wal_append sample_span (wal_open None) = Ok (wl, 132)" "wal_holds l wl"
    "sl_durable l @ sl_buffered l = [sample_span]"
    by (rule one_span_log[OF seal_ok_span_ok[OF sample_seal_ok]])
  have d: "wl_disk wl @ wl_buf wl = wal_header @ Wal_Recovery.objects (sl_durable l @ sl_buffered l)" using l(2) by (simp add: wal_holds_def)
  then have len: "length (wl_disk wl @ wl_buf wl) < 2 ^ 32"
    using sample_seal_ok unfolding l(3) by (simp add: seal_ok_def)
  obtain nxb where nxb: "sealed_from [sample_span] nxb"
    using seal_writes[OF l(2) _ len] sample_seal_ok unfolding l(3) by auto
  have live: "live_from [sample_span] (wl_disk wl @ wl_buf wl)"
    unfolding live_from_def
    by (intro exI[of _ l] exI[of _ wl] exI[of _ "[]"] conjI len) (use l d sample_seal_ok in simp_all)
  have "path_extension (bstr ''a.nxb'') = Some (bstr ''nxb'')" "path_extension (bstr ''b.nxsw'') = Some (bstr ''nxsw'')" by code_simp+
  then have dir: "directory [(bstr ''a.nxb'', nxb), (bstr ''b.nxsw'', wl_disk wl @ wl_buf wl)] [[sample_span]] (Some [sample_span])"
    using dir_live[OF dir_sealed[OF dir_empty _ nxb] _ live] by simp
  from segments_answer_queries[OF dir, of rev] obtain r where
    o: "segments_open [(bstr ''a.nxb'', nxb), (bstr ''b.nxsw'', wl_disk wl @ wl_buf wl)] = Ok r"
    and t: "\<exists>ss. find_by_trace r (span_trace sample_span) = Ok ss
        \<and> answers ss (\<lambda>sp. span_trace sp = span_trace sample_span) (all_spans [[sample_span]] (Some [sample_span]))"
    using mset_rev by blast
  obtain ss where ss: "find_by_trace r (span_trace sample_span) = Ok ss"
    "mset ss = mset (map span_of (filter (\<lambda>sp. span_trace sp = span_trace sample_span) (all_spans [[sample_span]] (Some [sample_span]))))"
    using t by (auto simp: answers_def)
  have "length ss = 2" using arg_cong[OF ss(2), of size] by (simp add: all_spans_def)
  then show ?thesis using dir o ss(1) by blast
qed

end
