(* ===== verification/Column_Sums.thy ===== *)
theory Column_Sums
  imports Layout_Queries
begin

text \<open>
  Column sums on every processor.  Vector instructions add a dense column in another order, so its sum may differ
  from the one of the other paths in the last place.  Where every partial sum is representable -- the values are
  multiples of one power of two, and their magnitudes add up to less than 53 bits of it -- no addition rounds,
  and every order gives the exact sum.
\<close>

section \<open>Sums without rounding\<close>

definition f64_finite :: "f64 \<Rightarrow> bool" where
  "f64_finite a \<longleftrightarrow> f64_abs_bits a < 0x7FF * 2 ^ 52"

text \<open>The number that has a whole number of units, if there is one.\<close>

definition exact_f64 :: "int \<Rightarrow> f64" where
  "exact_f64 s = f64_make (s < 0) (float_mag 53 0x7FF (nat \<bar>s\<bar>) 1)"

definition on_grid :: "nat \<Rightarrow> int \<Rightarrow> bool" where
  "on_grid g s \<longleftrightarrow> 2 ^ g dvd s \<and> \<bar>s\<bar> < 2 ^ (53 + g)"

lemma bitlen_zero: "bitlen 0 = 0"
  by (subst bitlen.simps) simp

lemma bitlen_pos: "0 < n \<Longrightarrow> bitlen n = Suc (bitlen (n div 2))"
  by (subst bitlen.simps) simp

lemma bitlen_upper: "n < 2 ^ bitlen n"
proof (induction n rule: bitlen.induct)
  case (1 n)
  show ?case
  proof (cases "n = 0")
    case False
    then have "n div 2 < 2 ^ bitlen (n div 2)" using 1 by simp
    then show ?thesis using False by (simp add: bitlen_pos)
  qed simp
qed

lemma bitlen_lower: "0 < n \<Longrightarrow> 2 ^ (bitlen n - 1) \<le> n"
proof (induction n rule: bitlen.induct)
  case (1 n)
  show ?case
  proof (cases "n div 2 = 0")
    case True
    then show ?thesis using 1(2) by (simp add: bitlen_pos[OF 1(2)] bitlen_zero)
  next
    case False
    then have "bitlen (n div 2) = Suc (bitlen (n div 2) - 1)" using bitlen_pos[of "n div 2"] by simp
    then have "2 ^ bitlen (n div 2) = 2 * (2 :: nat) ^ (bitlen (n div 2) - 1)" by (metis power_Suc)
    moreover have "2 ^ (bitlen (n div 2) - 1) \<le> n div 2" using 1 False by simp
    ultimately show ?thesis by (simp add: bitlen_pos[OF 1(2)])
  qed
qed

lemma float_mag_exact:
  assumes "2 ^ g dvd n" and "n < 2 ^ (53 + g)" and "g \<le> 2044"
  shows "float_mag 53 0x7FF n 1 < 0x7FF * 2 ^ 52" and "mag_units 53 (float_mag 53 0x7FF n 1) = n"
proof -
  define s where "s = bitlen n - 53"
  define q where "q = n div 2 ^ s"
  have "bitlen n \<le> 53 + g" using assms(2) by (rule bitlen_less)
  then have sg: "s \<le> g" by (simp add: s_def)
  then have "(2 :: nat) ^ s dvd n" using assms(1) by (meson dvd_trans le_imp_power_dvd)
  then have n: "n = q * 2 ^ s" by (simp add: q_def)
  have "n < 2 ^ (53 + s)" by (rule less_le_trans[OF bitlen_upper]) (simp add: s_def)
  then have q53: "q < 2 ^ 53" by (simp add: n power_add)
  have big: "2 ^ 52 \<le> q" if "0 < s"
  proof -
    have "0 < n" using that by (cases "n = 0") (simp_all add: s_def bitlen_zero)
    then have "2 ^ (bitlen n - 1) \<le> n" by (rule bitlen_lower)
    moreover have "bitlen n - 1 = 52 + s" using that by (simp add: s_def)
    ultimately show ?thesis by (simp add: n power_add)
  qed
  have m: "div_round_even n (2 ^ s) = q" using div_round_even_exact[of "2 ^ s" q] by (simp add: n)
  have lim: "s * 2 ^ 52 + q < 0x7FF * 2 ^ 52" using sg assms(3) q53 by simp
  then have f: "float_mag 53 0x7FF n 1 = s * 2 ^ 52 + q"
    using m by (simp add: float_mag_def Let_def s_def[symmetric])
  then show "float_mag 53 0x7FF n 1 < 0x7FF * 2 ^ 52" using lim by simp
  show "mag_units 53 (float_mag 53 0x7FF n 1) = n"
  proof (cases "s = 0")
    case True
    then show ?thesis using q53 unfolding f
      by (cases "q < 2 ^ 52") (simp_all add: mag_units_def Let_def n div_nat_eqI le_div_geq le_mod_geq)
  next
    case False
    then have "s * 2 ^ 52 + q = Suc s * 2 ^ 52 + (q - 2 ^ 52)" "q - 2 ^ 52 < 2 ^ 52" using big q53 by simp_all
    then have "(s * 2 ^ 52 + q) div 2 ^ 52 = Suc s" "(s * 2 ^ 52 + q) mod 2 ^ 52 = q - 2 ^ 52"
      by (simp_all del: mult_Suc)
    then show ?thesis using False big unfolding f by (simp add: mag_units_def Let_def n)
  qed
qed

lemma f64_make_parts:
  assumes m: "m < 2 ^ 63"
  shows "f64_neg (f64_make b m) = b" and "f64_abs_bits (f64_make b m) = m"
proof -
  have "m + 2 ^ 63 < 2 ^ 64" using m by simp
  then have "unat (word_of_nat (m + 2 ^ 63) :: f64) = m + 2 ^ 63" "unat (word_of_nat m :: f64) = m"
    using m by (simp_all only: unat_of_nat) simp_all
  then show "f64_neg (f64_make b m) = b" "f64_abs_bits (f64_make b m) = m"
    using m by (cases b; simp only: f64_neg_def f64_abs_bits_def f64_make_def if_True if_False add_0_right; simp)+
qed

lemma exact_f64:
  assumes "on_grid g s" and "g \<le> 2044"
  shows "f64_units (exact_f64 s) = s" and "f64_finite (exact_f64 s)" and "f64_neg (exact_f64 s) \<longleftrightarrow> s < 0"
proof -
  have "\<bar>s\<bar> = int (nat \<bar>s\<bar>)" by simp
  moreover have "2 ^ g dvd \<bar>s\<bar>" "\<bar>s\<bar> < 2 ^ (53 + g)" using assms(1) by (simp_all add: on_grid_def)
  ultimately have n: "2 ^ g dvd nat \<bar>s\<bar>" "nat \<bar>s\<bar> < 2 ^ (53 + g)"
    by (metis of_nat_dvd_iff of_nat_numeral of_nat_power, metis of_nat_less_iff of_nat_numeral of_nat_power)
  note m = float_mag_exact[OF n assms(2)]
  then have l: "float_mag 53 0x7FF (nat \<bar>s\<bar>) 1 < 2 ^ 63" by simp
  show "f64_neg (exact_f64 s) \<longleftrightarrow> s < 0" by (simp only: exact_f64_def f64_make_parts[OF l])
  show "f64_finite (exact_f64 s)" unfolding f64_finite_def exact_f64_def f64_make_parts[OF l] by (rule m(1))
  show "f64_units (exact_f64 s) = s" unfolding f64_units_def exact_f64_def f64_make_parts[OF l] m(2) by simp
qed

lemma finite_not_special: "f64_finite a \<Longrightarrow> \<not> f64_is_nan a \<and> \<not> f64_is_inf a"
  by (simp add: f64_finite_def f64_is_nan_def f64_is_inf_def)

lemma exact_zero: "exact_f64 0 = 0"
  by code_simp

text \<open>One addition.  An exact sum is never the negative zero, so neither is the next one.\<close>

lemma add_exact:
  assumes "on_grid g s" and "g \<le> 2044" and "f64_finite b"
  shows "f64_add (exact_f64 s) b = exact_f64 (s + f64_units b)"
proof -
  note e = exact_f64[OF assms(1,2)]
  note plain = finite_not_special[OF e(2)] finite_not_special[OF assms(3)]
  show ?thesis
  proof (cases "s + f64_units b = 0")
    case True
    then have "\<not> (f64_neg (exact_f64 s) \<and> f64_neg b)" using e(3) by (auto simp: f64_units_def split: if_splits)
    moreover have "exact_f64 0 = f64_make False 0" by code_simp
    ultimately show ?thesis using True plain e(1)
      by (cases "f64_neg (exact_f64 s)"; cases "f64_neg b") (simp_all add: f64_add_def Let_def)
  next
    case False
    then show ?thesis using plain e(1) unfolding exact_f64_def[of "s + f64_units b"] by (simp add: f64_add_def Let_def)
  qed
qed

section \<open>Sums of parts of a column\<close>

definition summable_exactly :: "nat \<Rightarrow> (nat \<Rightarrow> f64) \<Rightarrow> nat \<Rightarrow> bool" where
  "summable_exactly g v n \<longleftrightarrow> g \<le> 2044 \<and> (\<forall>i < n. f64_finite (v i) \<and> 2 ^ g dvd f64_units (v i))
     \<and> (\<Sum>i < n. \<bar>f64_units (v i)\<bar>) < 2 ^ (53 + g)"

definition part_sum :: "(nat \<Rightarrow> f64) \<Rightarrow> nat set \<Rightarrow> f64" where
  "part_sum v A = exact_f64 (\<Sum>i \<in> A. f64_units (v i))"

lemma part_on_grid:
  assumes "summable_exactly g v n" and "A \<subseteq> {..<n}"
  shows "on_grid g (\<Sum>i \<in> A. f64_units (v i))"
proof -
  have "2 ^ g dvd (\<Sum>i \<in> A. f64_units (v i))" using assms by (intro dvd_sum) (auto simp: summable_exactly_def)
  moreover have "(\<Sum>i \<in> A. \<bar>f64_units (v i)\<bar>) \<le> (\<Sum>i < n. \<bar>f64_units (v i)\<bar>)"
    using assms(2) by (intro sum_mono2) simp_all
  then have "\<bar>\<Sum>i \<in> A. f64_units (v i)\<bar> < 2 ^ (53 + g)"
    using sum_abs[of "\<lambda>i. f64_units (v i)" A] assms(1) unfolding summable_exactly_def by linarith
  ultimately show ?thesis using assms(1) by (simp add: on_grid_def summable_exactly_def)
qed

lemma part_sum_add:
  assumes "summable_exactly g v n" and "A \<subseteq> {..<n}" and "B \<subseteq> {..<n}" and "A \<inter> B = {}"
  shows "f64_add (part_sum v A) (part_sum v B) = part_sum v (A \<union> B)"
proof -
  have g: "g \<le> 2044" using assms(1) by (simp add: summable_exactly_def)
  have "finite A" "finite B" using assms(2,3) by (meson finite_lessThan finite_subset)+
  then show ?thesis
    using add_exact[OF part_on_grid[OF assms(1,2)] g exact_f64(2)[OF part_on_grid[OF assms(1,3)] g]]
      exact_f64(1)[OF part_on_grid[OF assms(1,3)] g] assms(4)
    by (simp add: part_sum_def sum.union_disjoint)
qed

lemma part_sum_insert:
  assumes "summable_exactly g v n" and "A \<subseteq> {..<n}" and "i < n" and "i \<notin> A"
  shows "f64_add (part_sum v A) (v i) = part_sum v (insert i A)"
proof -
  have g: "g \<le> 2044" "f64_finite (v i)" using assms(1,3) by (simp_all add: summable_exactly_def)
  have "finite A" using assms(2) by (meson finite_lessThan finite_subset)
  then show ?thesis using add_exact[OF part_on_grid[OF assms(1,2)] g] assms(4) by (simp add: part_sum_def add.commute)
qed

lemma part_sum_empty: "part_sum v {} = 0"
  by (simp add: part_sum_def exact_zero)

lemma scalar_tail:
  assumes "summable_exactly g v n" and "i \<le> n"
  shows "fold (\<lambda>i tail. f64_add tail (v i)) [i..<n] (part_sum v {..<i}) = part_sum v {..<n}"
  using assms(2)
proof (induction "n - i" arbitrary: i)
  case (Suc m)
  then have "f64_add (part_sum v {..<i}) (v i) = part_sum v {..<Suc i}"
    using part_sum_insert[OF assms(1), of "{..<i}" i] by (simp add: lessThan_Suc)
  moreover have "[i..<n] = i # [Suc i..<n]" using Suc.hyps(2) by (simp add: upt_conv_Cons)
  ultimately show ?case using Suc.hyps(1)[of "Suc i"] Suc.hyps(2) by simp
qed simp

section \<open>Vectors\<close>

text \<open>The records below \<open>i\<close> that went into the lanes \<open>K\<close> of the four vectors, which have \<open>m\<close> lanes together.\<close>

definition lane_records :: "nat \<Rightarrow> nat set \<Rightarrow> nat \<Rightarrow> nat set" where
  "lane_records m K i = {r. r < i \<and> r mod m \<in> K}"

lemma lane_records_Un: "lane_records m K i \<union> lane_records m L i = lane_records m (K \<union> L) i"
  by (auto simp: lane_records_def)

lemma lane_records_all: "0 < m \<Longrightarrow> {..<m} \<subseteq> K \<Longrightarrow> lane_records m K i = {..<i}"
  by (auto simp: lane_records_def)

lemma lane_records_block:
  assumes "m dvd i" and "k < m"
  shows "lane_records m {k} (i + m) = insert (i + k) (lane_records m {k} i)"
proof -
  obtain b where i: "i = m * b" using assms(1) by (elim dvdE)
  have "r = i + k" if "r < i + m" "r mod m = k" "\<not> r < i" for r
  proof -
    have "r = i + (r - i)" "r - i < m" using that by simp_all
    then have "r mod m = r - i" by (metis i mod_less mod_mult_self4)
    then show ?thesis using that by simp
  qed
  then show ?thesis using assms(2) by (auto simp: lane_records_def i)
qed

definition vector_of :: "(nat \<Rightarrow> f64) \<Rightarrow> nat \<Rightarrow> nat \<Rightarrow> nat \<Rightarrow> f64 list" where
  "vector_of v w k i = map (\<lambda>j. part_sum v (lane_records (4 * w) {k * w + j} i)) [0..<w]"

lemma vector_step:
  assumes "summable_exactly g (load_f64 vals) n" and "4 * w dvd i" and "i + 4 * w \<le> n" and "k < 4"
  shows "add_lanes (vector_of (load_f64 vals) w k i) (load_lanes w vals (i + k * w)) = vector_of (load_f64 vals) w k (i + 4 * w)"
proof (rule nth_equalityI)
  fix j assume "j < length (add_lanes (vector_of (load_f64 vals) w k i) (load_lanes w vals (i + k * w)))"
  then have j: "j < w" by (simp add: add_lanes_def vector_of_def load_lanes_def)
  have "k * w + j < 4 * w"
  proof -
    have "k * w \<le> 3 * w" using assms(4) by (intro mult_right_mono) simp_all
    then show ?thesis using j by linarith
  qed
  note l = lane_records_block[OF assms(2) this]
  have "lane_records (4 * w) {k * w + j} i \<subseteq> {..<n}" "i + (k * w + j) \<notin> lane_records (4 * w) {k * w + j} i"
    using assms(3) by (auto simp: lane_records_def)
  moreover have "i + (k * w + j) < n" using \<open>k * w + j < 4 * w\<close> assms(3) by simp
  ultimately show "add_lanes (vector_of (load_f64 vals) w k i) (load_lanes w vals (i + k * w)) ! j = vector_of (load_f64 vals) w k (i + 4 * w) ! j"
    using j part_sum_insert[OF assms(1), of "lane_records (4 * w) {k * w + j} i" "i + (k * w + j)"]
    by (simp add: add_lanes_def vector_of_def load_lanes_def l add.assoc)
qed (simp add: add_lanes_def vector_of_def load_lanes_def)

lemma vector_loop_sums:
  assumes "summable_exactly g (load_f64 vals) n" and "0 < w" and "4 * w dvd i" and "i \<le> n"
  shows "\<exists>e \<le> n. vector_loop w vals n i (vector_of (load_f64 vals) w 0 i, vector_of (load_f64 vals) w 1 i,
        vector_of (load_f64 vals) w 2 i, vector_of (load_f64 vals) w 3 i)
    = (e, vector_of (load_f64 vals) w 0 e, vector_of (load_f64 vals) w 1 e, vector_of (load_f64 vals) w 2 e, vector_of (load_f64 vals) w 3 e)"
  using assms(3,4)
proof (induction "n - i" arbitrary: i rule: less_induct)
  case less
  show ?case
  proof (cases "i + 4 * w \<le> n")
    case True
    have "vector_loop w vals n i (vector_of (load_f64 vals) w 0 i, vector_of (load_f64 vals) w 1 i,
        vector_of (load_f64 vals) w 2 i, vector_of (load_f64 vals) w 3 i)
      = vector_loop w vals n (i + 4 * w) (vector_of (load_f64 vals) w 0 (i + 4 * w), vector_of (load_f64 vals) w 1 (i + 4 * w),
        vector_of (load_f64 vals) w 2 (i + 4 * w), vector_of (load_f64 vals) w 3 (i + 4 * w))"
      using vector_step[OF assms(1) less.prems(1) True, of 0] vector_step[OF assms(1) less.prems(1) True, of 1]
        vector_step[OF assms(1) less.prems(1) True, of 2] vector_step[OF assms(1) less.prems(1) True, of 3] True assms(2)
      by (subst vector_loop.simps) simp
    moreover have "n - (i + 4 * w) < n - i" "4 * w dvd i + 4 * w" using True assms(2) less.prems(1) by auto
    ultimately show ?thesis using less.hyps[of "i + 4 * w"] True by simp
  next
    case False
    then show ?thesis using less.prems(2) by (subst vector_loop.simps) auto
  qed
qed

lemma vector_of_zero: "vector_of v w k 0 = replicate w 0"
  by (rule nth_equalityI) (simp_all add: vector_of_def lane_records_def part_sum_empty)

lemma add_part_lanes:
  assumes "summable_exactly g v n" and "e \<le> n" and "K \<inter> L = {}"
  shows "f64_add (part_sum v (lane_records m K e)) (part_sum v (lane_records m L e)) = part_sum v (lane_records m (K \<union> L) e)"
proof -
  have "lane_records m K e \<inter> lane_records m L e = {}" using assms(3) by (auto simp: lane_records_def)
  then show ?thesis using part_sum_add[OF assms(1)] assms(2)
    by (subst lane_records_Un[symmetric]) (auto simp: lane_records_def intro!: part_sum_add[OF assms(1)])
qed

text \<open>Adding the four vectors, and then the lanes of the result, gives the sum of all records of the whole blocks.\<close>

definition lane_set :: "nat \<Rightarrow> nat \<Rightarrow> nat set" where
  "lane_set w j = {0 * w + j, 1 * w + j} \<union> {2 * w + j, 3 * w + j}"

lemma add_four_vectors:
  assumes "summable_exactly g v n" and "e \<le> n" and "0 < w"
  shows "add_lanes (add_lanes (vector_of v w 0 e) (vector_of v w 1 e)) (add_lanes (vector_of v w 2 e) (vector_of v w 3 e))
    = map (\<lambda>j. part_sum v (lane_records (4 * w) (lane_set w j) e)) [0..<w]"
proof -
  have add: "add_lanes (map (\<lambda>j. part_sum v (lane_records (4 * w) (K j) e)) [0..<w]) (map (\<lambda>j. part_sum v (lane_records (4 * w) (L j) e)) [0..<w])
      = map (\<lambda>j. part_sum v (lane_records (4 * w) (K j \<union> L j) e)) [0..<w]" if "\<And>j. K j \<inter> L j = {}" for K L
    by (rule nth_equalityI) (simp_all add: add_lanes_def add_part_lanes[OF assms(1,2) that])
  have "{k * w + j} \<inter> {l * w + j} = {}" if "k \<noteq> l" for k l j using that assms(3) by simp
  moreover have "({0 * w + j} \<union> {1 * w + j}) \<inter> ({2 * w + j} \<union> {3 * w + j}) = {}" for j using assms(3) by auto
  ultimately show ?thesis unfolding vector_of_def by (simp only: add lane_set_def Un_insert_left Un_empty_left)
qed

lemma lane_sets_disjoint:
  assumes "j < w" and "l < w" and "j \<noteq> l"
  shows "lane_set w j \<inter> lane_set w l = {}"
proof -
  have "x mod w = j" if "x \<in> lane_set w j" for x using that assms(1) by (auto simp: lane_set_def)
  moreover have "x mod w = l" if "x \<in> lane_set w l" for x using that assms(2) by (auto simp: lane_set_def)
  ultimately show ?thesis using assms(3) by blast
qed

lemma in_lane_set: "k < 4 \<Longrightarrow> k * w + j \<in> lane_set w j"
  by (auto simp: lane_set_def less_Suc_eq numeral_eq_Suc)

lemma lane_sets_cover: "0 < w \<Longrightarrow> {..<4 * w} \<subseteq> (\<Union>j < w. lane_set w j)"
proof
  fix x assume "0 < w" "x \<in> {..<4 * w}"
  then have "x div w < 4" and m: "x mod w < w" by (simp_all add: less_mult_imp_div_less)
  then have "x \<in> lane_set w (x mod w)" using in_lane_set[of "x div w" w "x mod w"] by simp
  then show "x \<in> (\<Union>j < w. lane_set w j)" using m by blast
qed

lemma fold_lanes:
  assumes "summable_exactly g v n" and "e \<le> n" and "k \<le> w"
  shows "fold (\<lambda>x acc. f64_add acc x) (map (\<lambda>j. part_sum v (lane_records m (lane_set w j) e)) [0..<k]) 0
    = part_sum v (lane_records m (\<Union>j < k. lane_set w j) e)"
  using assms(3)
proof (induction k)
  case 0
  then show ?case by (simp add: lane_records_def part_sum_empty)
next
  case (Suc k)
  have "lane_set w j \<inter> lane_set w k = {}" if "j < k" for j using lane_sets_disjoint[of j w k] that Suc.prems by simp
  then have "(\<Union>j < k. lane_set w j) \<inter> lane_set w k = {}" by blast
  then show ?case using Suc add_part_lanes[OF assms(1,2)] by (simp add: lessThan_Suc Un_commute)
qed

lemma avx2_exact:
  assumes "summable_exactly g (load_f64 vals) n"
  shows "sum_f64_avx2 vals n = part_sum (load_f64 vals) {..<n}"
proof -
  let ?v = "load_f64 vals" and ?z = "replicate 4 0"
  obtain e where e: "e \<le> n" "vector_loop 4 vals n 0 (?z, ?z, ?z, ?z) = (e, vector_of ?v 4 0 e, vector_of ?v 4 1 e, vector_of ?v 4 2 e, vector_of ?v 4 3 e)"
    using vector_loop_sums[OF assms, of 4 0] by (auto simp: vector_of_zero)
  have "hsum_pd256 (map (\<lambda>j. part_sum ?v (lane_records 16 (lane_set 4 j) e)) [0..<4]) = part_sum ?v {..<e}"
    unfolding hsum_pd256_def fold_lanes[OF assms e(1) le_refl] using lane_sets_cover[of 4] by (subst lane_records_all) simp_all
  then show ?thesis
    unfolding sum_f64_avx2_def Let_def e(2) using add_four_vectors[OF assms e(1), of 4] scalar_tail[OF assms e(1)] by simp
qed

lemma neon_exact:
  assumes "summable_exactly g (load_f64 vals) n"
  shows "sum_f64_neon vals n = part_sum (load_f64 vals) {..<n}"
proof -
  let ?v = "load_f64 vals" and ?z = "replicate 2 0"
  obtain e where e: "e \<le> n" "vector_loop 2 vals n 0 (?z, ?z, ?z, ?z) = (e, vector_of ?v 2 0 e, vector_of ?v 2 1 e, vector_of ?v 2 2 e, vector_of ?v 2 3 e)"
    using vector_loop_sums[OF assms, of 2 0] by (auto simp: vector_of_zero)
  have "lane_set 2 0 \<inter> lane_set 2 1 = {}" by (rule lane_sets_disjoint) simp_all
  moreover have "lane_set 2 0 \<union> lane_set 2 1 = (\<Union>j < 2. lane_set 2 j)" by (auto simp: less_2_cases_iff)
  ultimately have "f64_add (part_sum ?v (lane_records 8 (lane_set 2 0) e)) (part_sum ?v (lane_records 8 (lane_set 2 1) e)) = part_sum ?v {..<e}"
    using add_part_lanes[OF assms e(1), of "lane_set 2 0" "lane_set 2 1" 8] lane_sets_cover[of 2] by (simp add: lane_records_all)
  then show ?thesis
    unfolding sum_f64_neon_def Let_def e(2) using add_four_vectors[OF assms e(1), of 2] scalar_tail[OF assms e(1)] by simp
qed

section \<open>Columns\<close>

lemma load_value: "length vals < 2 ^ 63 \<Longrightarrow> (i + 1) * 8 \<le> length vals \<Longrightarrow> get_u64 vals (i * 8) = Some (load_f64 vals i)"
  by (simp add: get_u64_def load_f64_def wadd_def lims)

lemma scalar_exact:
  assumes "summable_exactly g (load_f64 vals) n" and "n * 8 \<le> length vals" and "length vals < 2 ^ 63"
  shows "sum_f64_scalar vals n = part_sum (load_f64 vals) {..<n}"
proof -
  have "fold (add_value vals) [0..<n] a = fold (\<lambda>i tail. f64_add tail (load_f64 vals i)) [0..<n] a" for a
    using assms(2,3) by (intro fold_cong) (simp_all add: add_value_def fun_eq_iff load_value)
  then show ?thesis
    using scalar_tail[OF assms(1), of 0] by (simp add: sum_f64_scalar_def part_sum_empty)
qed

lemma dense_exact:
  assumes "summable_exactly g (load_f64 vals) n" and "n * 8 \<le> length vals" and "length vals < 2 ^ 63"
  shows "sum_f64_dense_le cpu vals n = part_sum (load_f64 vals) {..<n}"
  using avx2_exact[OF assms(1)] neon_exact[OF assms(1)] scalar_exact[OF assms] by (simp add: sum_f64_dense_le_def split: target.split)

section \<open>Columns of a table\<close>

text \<open>The value of a record under a name, as a number, where it has one; and the exact sum of them all.\<close>

definition column_value :: "rstring list \<Rightarrow> cell list list \<Rightarrow> rstring \<Rightarrow> nat \<Rightarrow> f64" where
  "column_value keys rows key i = (case lookup keys rows cell_word i key of Some x \<Rightarrow> x | None \<Rightarrow> 0)"

lemma zero_units: "f64_units 0 = 0"
  by code_simp

lemma table_sum_exact:
  assumes "summable_exactly g (column_value keys rows key) (length rows)"
  shows "table_sum keys rows key = part_sum (column_value keys rows key) {..<length rows}"
proof -
  let ?v = "column_value keys rows key"
  have "fold (\<lambda>i. add_some (lookup keys rows cell_word i key)) [0..<k] 0 = part_sum ?v {..<k}" if "k \<le> length rows" for k
    using that
  proof (induction k)
    case 0
    then show ?case by (simp add: part_sum_empty)
  next
    case (Suc k)
    have add: "f64_add (part_sum ?v {..<k}) (?v k) = part_sum ?v {..<Suc k}"
      using part_sum_insert[OF assms, of "{..<k}" k] Suc.prems by (simp add: lessThan_Suc)
    have "part_sum ?v {..<Suc k} = part_sum ?v {..<k}" if "lookup keys rows cell_word k key = None"
      using that by (simp add: part_sum_def lessThan_Suc column_value_def zero_units)
    then show ?case using Suc add by (cases "lookup keys rows cell_word k key") (simp_all add: add_some_def column_value_def[of keys rows key k])
  qed
  then show ?thesis by (simp add: table_sum_def)
qed

lemma columnar_sum_exact:
  assumes "stored_columnar keys rows r" and "position key keys = Some slot" and "\<not> is_var_sigil (column_sigil rows slot)"
    and "summable_exactly g (column_value keys rows key) (length rows)"
  shows "col_sum_f64 cpu r key = Ok (Some (part_sum (column_value keys rows key) {..<length rows}))"
proof -
  let ?n = "length rows" let ?c = "column_of rows slot" let ?sig = "column_sigil rows slot" let ?bm = "bitmap_of ?c"
  let ?vals = "concat (map (cell_slot ?sig) ?c)" let ?v = "column_value keys rows key"
  have portable: "col_sum_f64 Portable r key = Ok (Some (part_sum ?v {..<?n}))"
    using columnar_sum[OF assms(1-3)] table_sum_exact[OF assms(4)] by simp
  have n: "?n < 2 ^ 59" using assms(1) by (simp add: stored_columnar_def)
  have lay: "r_layout r = Columnar" "r_record_count r = ?n"
    using stored_columnar_holds[OF assms(1)] by (auto simp: columnar_holds_def columnar_reader_def)
  have sum: "col_sum_f64 cpu r key = rbind (sum_f64_column cpu ?vals ?bm ?n) (\<lambda>s. Ok (Some s))" for cpu
    using columnar_parts(1)[OF assms(1) position_lt[OF assms(2)] assms(3)] columnar.slot_of[OF assms(1), of key] assms(2) lay
    by (simp add: col_sum_f64_def)
  show ?thesis
  proof (cases "0 < ?n \<and> null_bitmap_dense ?bm ?n")
    case True
    have len: "length ?vals = ?n * 8" by simp
    have "?v i = load_f64 ?vals i" if "i < ?n" for i
    proof -
      have "fixed_value get_u64 (Ok (?bm, ?vals)) i = Ok (lookup keys rows cell_word i key)"
        using image_values(1)[of i ?c ?sig] that n assms(2,3) by (simp add: lookup_def)
      moreover have "get_u64 ?vals (i * 8) = Some (load_f64 ?vals i)" using that n by (intro load_value) (simp_all only: len, simp_all)
      ultimately have "lookup keys rows cell_word i key = Some (load_f64 ?vals i)"
        using dense_bits[of ?bm ?n i] True that by (simp add: fixed_value_def)
      then show ?thesis by (simp add: column_value_def)
    qed
    then have v: "summable_exactly g (load_f64 ?vals) ?n" "part_sum (load_f64 ?vals) {..<?n} = part_sum ?v {..<?n}"
      using assms(4) by (simp_all add: summable_exactly_def part_sum_def)
    have "sum_f64_column cpu ?vals ?bm ?n = Ok (sum_f64_dense_le cpu ?vals ?n)"
      using True n by (simp add: sum_f64_column_def lims)
    then show ?thesis using sum[of cpu] dense_exact[OF v(1), of cpu] v(2) n by simp
  next
    case False
    then have "sum_f64_column cpu ?vals ?bm ?n = sum_f64_column Portable ?vals ?bm ?n" by (auto simp: sum_f64_column_def)
    then show ?thesis using portable sum by simp
  qed
qed

text \<open>
  C25: Where no addition rounds, every processor and both layouts give the exact sum of a column.  When the present values of
  a numeric column are finite multiples of one power of two, and their magnitudes add up to less than 53 bits of it, then
  \<open>col_sum_f64\<close> is the one number that equals their sum: in a columnar file with AVX2, with NEON or without either,
  with the short cut for columns without nulls or the test of every bit, and in a PAX file of the same table.
\<close>

theorem column_sums_exact:
  assumes "stored_columnar keys rows rc" and "stored_pax keys rows rp"
    and "position key keys = Some slot" and "\<not> is_var_sigil (column_sigil rows slot)"
    and "g \<le> 2044" and "\<forall>i < length rows. \<forall>x. lookup keys rows cell_word i key = Some x \<longrightarrow> f64_finite x \<and> 2 ^ g dvd f64_units x"
    and "(\<Sum>i < length rows. \<bar>f64_units (column_value keys rows key i)\<bar>) < 2 ^ (53 + g)"
  shows "\<exists>total. f64_finite total \<and> f64_units total = (\<Sum>i < length rows. f64_units (column_value keys rows key i))
    \<and> (\<forall>cpu. col_sum_f64 cpu rc key = Ok (Some total) \<and> col_sum_f64 cpu rp key = Ok (Some total))"
proof -
  have "f64_finite 0" by code_simp
  then have s: "summable_exactly g (column_value keys rows key) (length rows)"
    using assms(5-7) by (auto simp: summable_exactly_def column_value_def zero_units split: option.split)
  note total = exact_f64[OF part_on_grid[OF s subset_refl] assms(5)]
  have "\<forall>cpu. col_sum_f64 cpu rc key = Ok (Some (part_sum (column_value keys rows key) {..<length rows}))
      \<and> col_sum_f64 cpu rp key = Ok (Some (part_sum (column_value keys rows key) {..<length rows}))"
    using columnar_sum_exact[OF assms(1,3,4) s] pax_sum[OF assms(2,3)] table_sum_exact[OF s] by simp
  then show ?thesis using total(1,2) unfolding part_sum_def by blast
qed

theorem column_sums_exact_witness:
  "\<exists>rc rp total. f64_units total = 15
     \<and> (\<forall>cpu. col_sum_f64 cpu rc (bstr ''n'') = Ok (Some total) \<and> col_sum_f64 cpu rp (bstr ''n'') = Ok (Some total))"
proof -
  obtain rc rp where st: "stored_columnar sample_keys sample_rows rc" "stored_pax sample_keys sample_rows rp" by (rule sample_stored)
  have p: "position (bstr ''n'') sample_keys = Some 0" "\<not> is_var_sigil (column_sigil sample_rows 0)" by code_simp+
  have l: "lookup sample_keys sample_rows cell_word 0 (bstr ''n'') = Some 7" "lookup sample_keys sample_rows cell_word 1 (bstr ''n'') = Some 8"
    "lookup sample_keys sample_rows cell_word 2 (bstr ''n'') = None" by code_simp+
  have u: "f64_units 7 = 7" "f64_units 8 = 8" "f64_finite 7" "f64_finite 8" by code_simp+
  have n: "length sample_rows = 3" and up: "{..<3 :: nat} = {0, 1, 2}" by (rule sample_table) auto
  have "\<forall>i < length sample_rows. \<forall>x. lookup sample_keys sample_rows cell_word i (bstr ''n'') = Some x \<longrightarrow> f64_finite x \<and> 2 ^ 0 dvd f64_units x"
    unfolding n using l u by (auto simp: less_Suc_eq numeral_eq_Suc)
  moreover have sum: "(\<Sum>i < length sample_rows. f64_units (column_value sample_keys sample_rows (bstr ''n'') i)) = 15"
    "(\<Sum>i < length sample_rows. \<bar>f64_units (column_value sample_keys sample_rows (bstr ''n'') i)\<bar>) = 15"
    unfolding n up by (simp_all add: column_value_def l l(2)[unfolded One_nat_def] u zero_units)
  ultimately show ?thesis using column_sums_exact[OF st p, of 0] by auto
qed

end
