(* ===== verification/Prefetch.thy ===== *)
theory Prefetch
  imports Query "HOL-Library.AList"
begin

text \<open>
  Adaptive prefetching: \<^verbatim>\<open>rust/src/prefetch/mod.rs\<close>, \<^verbatim>\<open>rust/src/prefetch/pattern.rs\<close>, \<^verbatim>\<open>rust/src/column_prefetch.rs\<close> and the hooks of
  \<^verbatim>\<open>rust/src/query.rs\<close>.

  The engine is one state that its operations take and return; the thread of an eager load is the list of
  the stages it still has to run, each from one test of the cancellation to the next.  The hash map of the cache
  is an association list.  An operation of the reader is one step here: which mutexes it takes, and in what order,
  is not modelled.
\<close>

section \<open>Access patterns\<close>

definition SEQUENTIAL_THRESHOLD :: u64 where "SEQUENTIAL_THRESHOLD = 10"
definition RANDOM_THRESHOLD :: u64 where "RANDOM_THRESHOLD = 100"
definition MIN_OBSERVATIONS :: usize where "MIN_OBSERVATIONS = 8"
definition UPGRADE_SEQUENTIAL_THRESHOLD :: u32 where "UPGRADE_SEQUENTIAL_THRESHOLD = 100"

datatype access_pattern = PatUnknown | PatSequential | PatRandom | PatMixed

definition saturating_inc :: "'a::len word \<Rightarrow> 'a word" where
  "saturating_inc c = (if c = - 1 then c else c + 1)"

record detector =
  ad_sequential :: u32
  ad_jumps :: u32
  ad_last :: i64

definition new_detector :: detector where
  "new_detector = \<lparr>ad_sequential = 0, ad_jumps = 0, ad_last = - 1\<rparr>"

definition abs_diff :: "i64 \<Rightarrow> i64 \<Rightarrow> u64" where
  "abs_diff a b = word_of_int \<bar>sint a - sint b\<bar>"

definition observe :: "usize \<Rightarrow> detector \<Rightarrow> detector" where
  "observe index d =
     (let i = word_of_nat index; delta = abs_diff i (ad_last d);
          d = (if \<not> 0 \<le>s ad_last d then d
               else if delta \<le> SEQUENTIAL_THRESHOLD then d\<lparr>ad_sequential := saturating_inc (ad_sequential d)\<rparr>
               else if RANDOM_THRESHOLD < delta then d\<lparr>ad_jumps := saturating_inc (ad_jumps d)\<rparr> else d) in
      d\<lparr>ad_last := i\<rparr>)"

definition access_pattern :: "detector \<Rightarrow> access_pattern" where
  "access_pattern d =
     (if unat (ad_sequential d + ad_jumps d) < MIN_OBSERVATIONS then PatUnknown
      else if min (unat (ad_jumps d) * 3) (2 ^ 32 - 1) < unat (ad_sequential d) then PatSequential
      else if ad_sequential d < ad_jumps d then PatRandom
      else PatMixed)"

definition predict_next :: "detector \<Rightarrow> nat \<Rightarrow> nat \<Rightarrow> nat list" where
  "predict_next d depth record_count =
     (if access_pattern d \<noteq> PatSequential \<or> \<not> 0 \<le>s ad_last d then []
      else filter (\<lambda>i. i < record_count) (map (\<lambda>i. unat (ad_last d) + 1 + i) [0..<depth]))"

section \<open>Options and strategies\<close>

definition DEFAULT_PAGE_SIZE :: usize where "DEFAULT_PAGE_SIZE = 65536"
definition DEFAULT_MAX_PAGES :: usize where "DEFAULT_MAX_PAGES = 256"
definition DEFAULT_COALESCE_GAP_PAGES :: usize where "DEFAULT_COALESCE_GAP_PAGES = 1"
definition DEFAULT_PREFETCH_DEPTH :: usize where "DEFAULT_PREFETCH_DEPTH = 4"
definition EAGER_THRESHOLD_MB :: usize where "EAGER_THRESHOLD_MB = 10"
definition LAZY_THRESHOLD_MB :: usize where "LAZY_THRESHOLD_MB = 50"

datatype access_hint = HintUnknown | HintSequential | HintRandom | HintFull | HintPartial

datatype prefetch_strategy = Lazy | Adaptive | Eager

record open_options =
  oo_hint :: access_hint
  oo_max_pages :: usize
  oo_page_size :: usize
  oo_gap :: usize
  oo_depth :: usize

definition default_open_options :: open_options where
  "default_open_options =
     \<lparr>oo_hint = HintUnknown, oo_max_pages = DEFAULT_MAX_PAGES, oo_page_size = DEFAULT_PAGE_SIZE,
      oo_gap = DEFAULT_COALESCE_GAP_PAGES, oo_depth = DEFAULT_PREFETCH_DEPTH\<rparr>"

definition options_validate :: "open_options \<Rightarrow> unit res" where
  "options_validate opts =
     (if oo_page_size opts = 0 then Err (ParseError ''prefetch page_size must be greater than 0'') else Ok ())"

definition initial_strategy :: "access_hint \<Rightarrow> usize \<Rightarrow> prefetch_strategy" where
  "initial_strategy hint file_size =
     (let mb = file_size div (1024 * 1024) in
      if hint = HintFull \<and> mb \<le> EAGER_THRESHOLD_MB then Eager
      else if LAZY_THRESHOLD_MB < mb then Lazy else Adaptive)"

definition row_data_sector :: "usize \<Rightarrow> usize \<Rightarrow> usize \<times> usize" where
  "row_data_sector tail_start file_size =
     (if 32 < tail_start \<and> tail_start \<le> file_size then (32, tail_start - 32) else (32, 0))"

section \<open>Ranges of pages\<close>

record coalesced_range =
  cr_start :: u32
  cr_end :: u32
  cr_byte_start :: usize
  cr_byte_length :: usize

fun coalesce_spans :: "usize \<Rightarrow> u32 \<Rightarrow> u32 \<Rightarrow> u32 list \<Rightarrow> (u32 \<times> u32) list" where
  "coalesce_spans gap s e [] = [(s, e)]"
| "coalesce_spans gap s e (i # is) =
     (if (if i < e then 0 else i - e) \<le> word_of_nat gap then coalesce_spans gap s i is
      else (s, e) # coalesce_spans gap i i is)"

definition span_range :: "usize \<Rightarrow> u32 \<times> u32 \<Rightarrow> coalesced_range option" where
  "span_range page_size = (\<lambda>(a, b).
     if b - a = - 1 then None
     else Option.bind (checked_mul (unat a) page_size) (\<lambda>start.
          Option.bind (checked_mul (unat (b - a + 1)) page_size) (\<lambda>len.
          Some \<lparr>cr_start = a, cr_end = b, cr_byte_start = start, cr_byte_length = len\<rparr>)))"

definition coalesce_page_indices :: "u32 list \<Rightarrow> usize \<Rightarrow> usize \<Rightarrow> coalesced_range list" where
  "coalesce_page_indices indices gap page_size =
     (case remdups_adj (sort indices) of
        [] \<Rightarrow> []
      | i # is \<Rightarrow> List.map_filter (span_range page_size) (coalesce_spans gap i i is))"

definition clamp_range :: "usize \<Rightarrow> coalesced_range \<Rightarrow> coalesced_range option" where
  "clamp_range file_size r =
     (if file_size \<le> cr_byte_start r then None
      else Option.bind (checked_add (cr_byte_start r) (cr_byte_length r)) (\<lambda>e.
           let r = (if file_size < e then r\<lparr>cr_byte_length := file_size - cr_byte_start r\<rparr> else r) in
           if cr_byte_length r = 0 then None else Some r))"

definition clamp_ranges :: "coalesced_range list \<Rightarrow> usize \<Rightarrow> coalesced_range list" where
  "clamp_ranges ranges file_size = List.map_filter (clamp_range file_size) ranges"

section \<open>The page cache\<close>

record cached_page =
  pe_data :: "u8 list"
  pe_last_used :: u64
  pe_pinned :: bool

record page_cache =
  pc_max :: usize
  pc_page_size :: usize
  pc_pages :: "(u32 \<times> cached_page) list"
  pc_clock :: u64
  pc_hits :: u64
  pc_misses :: u64

definition new_cache :: "usize \<Rightarrow> usize \<Rightarrow> page_cache" where
  "new_cache max_pages page_size =
     \<lparr>pc_max = max_pages, pc_page_size = page_size, pc_pages = [], pc_clock = 0, pc_hits = 0, pc_misses = 0\<rparr>"

definition cache_has :: "page_cache \<Rightarrow> u32 \<Rightarrow> bool" where
  "cache_has c p \<longleftrightarrow> map_of (pc_pages c) p \<noteq> None"

definition cache_get :: "u32 \<Rightarrow> page_cache \<Rightarrow> page_cache \<times> u8 list option" where
  "cache_get p c =
     (case map_of (pc_pages c) p of
        None \<Rightarrow> (c, None)
      | Some e \<Rightarrow>
          let clock = saturating_inc (pc_clock c) in
          (c\<lparr>pc_clock := clock, pc_pages := AList.update p (e\<lparr>pe_last_used := clock\<rparr>) (pc_pages c),
             pc_hits := saturating_inc (pc_hits c)\<rparr>, Some (pe_data e)))"

text \<open>The page that was not used for the longest time among those that are not pinned.\<close>

fun oldest :: "(u32 \<times> cached_page) list \<Rightarrow> (u32 \<times> u64) option" where
  "oldest [] = None"
| "oldest ((p, e) # es) =
     (if pe_pinned e then oldest es
      else case oldest es of
             None \<Rightarrow> Some (p, pe_last_used e)
           | Some (q, t) \<Rightarrow> if pe_last_used e \<le> t then Some (p, pe_last_used e) else Some (q, t))"

definition evict_one :: "page_cache \<Rightarrow> page_cache option" where
  "evict_one c =
     (case oldest (pc_pages c) of
        None \<Rightarrow> None
      | Some (p, _) \<Rightarrow> Some (c\<lparr>pc_pages := AList.delete p (pc_pages c)\<rparr>))"

lemma oldest_mem: "oldest es = Some (p, t) \<Longrightarrow> p \<in> fst ` set es"
  by (induction es arbitrary: p t) (auto split: if_splits option.splits)

lemma length_delete_mem: "p \<in> fst ` set es \<Longrightarrow> length (AList.delete p es) < length es"
  by (auto simp: AList.delete_eq length_filter_less)

lemma evict_one_length: "evict_one c = Some c' \<Longrightarrow> length (pc_pages c') < length (pc_pages c)"
  by (auto simp: evict_one_def split: option.splits simp del: image_iff intro!: length_delete_mem intro: oldest_mem)

text \<open>The loop of \<open>set\<close>: the flag says whether there is room.\<close>

function make_room :: "page_cache \<Rightarrow> page_cache \<times> bool" where
  "make_room c =
     (if length (pc_pages c) < pc_max c then (c, True)
      else case evict_one c of None \<Rightarrow> (c, False) | Some c' \<Rightarrow> make_room c')"
  by pat_completeness auto

termination make_room
  by (relation "measure (\<lambda>c. length (pc_pages c))") (simp_all add: evict_one_length)

declare make_room.simps [simp del]

definition cache_set :: "u32 \<Rightarrow> u8 list \<Rightarrow> bool \<Rightarrow> page_cache \<Rightarrow> page_cache \<times> bool" where
  "cache_set p data pinned c =
     (if pc_max c = 0 then (c, False)
      else case (if cache_has c p then (c, True) else make_room c) of
             (c, False) \<Rightarrow> (c, False)
           | (c, True) \<Rightarrow>
               let clock = saturating_inc (pc_clock c) in
               (c\<lparr>pc_clock := clock,
                  pc_pages := AList.update p \<lparr>pe_data = data, pe_last_used = clock, pe_pinned = pinned\<rparr> (pc_pages c)\<rparr>, True))"

definition pin_pages :: "u32 list \<Rightarrow> page_cache \<Rightarrow> page_cache" where
  "pin_pages ps c = c\<lparr>pc_pages := map (\<lambda>(p, e). (p, if p \<in> set ps then e\<lparr>pe_pinned := True\<rparr> else e)) (pc_pages c)\<rparr>"

definition unpin_all :: "page_cache \<Rightarrow> page_cache" where
  "unpin_all c = c\<lparr>pc_pages := map (\<lambda>(p, e). (p, e\<lparr>pe_pinned := False\<rparr>)) (pc_pages c)\<rparr>"

definition pages_cached :: "page_cache \<Rightarrow> usize" where
  "pages_cached c = length (pc_pages c)"

definition memory_used_bytes :: "page_cache \<Rightarrow> usize" where
  "memory_used_bytes c = sum_list (map (\<lambda>(p, e). length (pe_data e)) (pc_pages c))"

definition note_miss :: "page_cache \<Rightarrow> page_cache" where
  "note_miss c = c\<lparr>pc_misses := saturating_inc (pc_misses c)\<rparr>"

section \<open>The engine\<close>

text \<open>What the thread of an eager load does between two locks.\<close>

datatype load_stage = LoadEnter | LoadRange coalesced_range | LoadPage u32 | LoadDone

record prefetch_engine =
  en_cache :: page_cache
  en_in_flight :: "u32 set"
  en_fetches :: u64
  en_options :: open_options
  en_strategy :: prefetch_strategy
  en_detector :: detector
  en_file_size :: usize
  en_cancelled :: bool
  en_complete :: bool
  en_started :: bool
  en_load :: "load_stage list"
  en_paused :: bool

definition new_engine :: "open_options \<Rightarrow> usize \<Rightarrow> prefetch_engine" where
  "new_engine opts file_size =
     \<lparr>en_cache = new_cache (oo_max_pages opts) (oo_page_size opts), en_in_flight = {}, en_fetches = 0, en_options = opts,
      en_strategy = initial_strategy (oo_hint opts) file_size, en_detector = new_detector, en_file_size = file_size,
      en_cancelled = False, en_complete = False, en_started = False, en_load = [], en_paused = False\<rparr>"

definition pause_prefetch :: "prefetch_engine \<Rightarrow> prefetch_engine" where
  "pause_prefetch en = en\<lparr>en_paused := True\<rparr>"

definition resume_prefetch :: "prefetch_engine \<Rightarrow> prefetch_engine" where
  "resume_prefetch en = en\<lparr>en_paused := False\<rparr>"

definition is_eager :: "prefetch_engine \<Rightarrow> bool" where
  "is_eager en \<longleftrightarrow> en_strategy en = Eager \<and> en_complete en"

text \<open>The pages of a range, and one of them copied from the file into the cache.\<close>

definition range_pages :: "coalesced_range \<Rightarrow> u32 list" where
  "range_pages r = map word_of_nat [unat (cr_start r)..<unat (cr_end r) + 1]"

definition fetch_page :: "u8 list \<Rightarrow> u32 \<Rightarrow> prefetch_engine \<Rightarrow> prefetch_engine" where
  "fetch_page data p en =
     (let ps = oo_page_size (en_options en); start = unat p * ps;
          en = (if length data \<le> start then en
                else en\<lparr>en_cache := fst (cache_set p (seg data start (min ((unat p + 1) * ps) (length data))) False (en_cache en))\<rparr>) in
      en\<lparr>en_in_flight := en_in_flight en - {p}\<rparr>)"

definition begin_range :: "coalesced_range \<Rightarrow> prefetch_engine \<Rightarrow> prefetch_engine" where
  "begin_range r en = en\<lparr>en_in_flight := en_in_flight en \<union> set (range_pages r), en_fetches := en_fetches en + 1\<rparr>"

definition fetch_range :: "u8 list \<Rightarrow> coalesced_range \<Rightarrow> prefetch_engine \<Rightarrow> prefetch_engine" where
  "fetch_range data r en = fold (fetch_page data) (range_pages r) (begin_range r en)"

text \<open>The eager load: its thread, and one step of it.\<close>

definition eager_ranges :: "u8 list \<Rightarrow> usize \<Rightarrow> open_options \<Rightarrow> coalesced_range list" where
  "eager_ranges data tail_start opts =
     (let (start, len) = row_data_sector tail_start (length data); ps = oo_page_size opts;
          fin = min (saturating_add start len) (length data);
          pages = map word_of_nat [start div ps..<(fin - 1) div ps + 1] in
      clamp_ranges (coalesce_page_indices pages (oo_gap opts) ps) (length data))"

definition eager_load :: "u8 list \<Rightarrow> usize \<Rightarrow> open_options \<Rightarrow> load_stage list" where
  "eager_load data tail_start opts =
     LoadEnter # concat (map (\<lambda>r. LoadRange r # map LoadPage (range_pages r)) (eager_ranges data tail_start opts)) @ [LoadDone]"

definition start_eager :: "u8 list \<Rightarrow> usize \<Rightarrow> prefetch_engine \<Rightarrow> prefetch_engine" where
  "start_eager data tail_start en =
     (if en_strategy en \<noteq> Eager \<or> en_paused en \<or> en_started en then en
      else
        let en = en\<lparr>en_started := True\<rparr> in
        if snd (row_data_sector tail_start (length data)) = 0 then en\<lparr>en_complete := True\<rparr>
        else en\<lparr>en_load := eager_load data tail_start (en_options en)\<rparr>)"

definition load_step :: "u8 list \<Rightarrow> prefetch_engine \<Rightarrow> prefetch_engine" where
  "load_step data en =
     (case en_load en of
        [] \<Rightarrow> en
      | LoadDone # _ \<Rightarrow> en\<lparr>en_complete := True, en_load := []\<rparr>
      | s # ss \<Rightarrow>
          if en_cancelled en then en\<lparr>en_load := []\<rparr>
          else let en = en\<lparr>en_load := ss\<rparr> in
               (case s of
                  LoadRange r \<Rightarrow> begin_range r en
                | LoadPage p \<Rightarrow> fetch_page data p en
                | _ \<Rightarrow> en))"

text \<open>Waiting: every \<open>yield_now\<close> lets the thread of the load run.  A load that is never started is waited for in vain.\<close>

partial_function (option) warmup :: "u8 list \<Rightarrow> prefetch_engine \<Rightarrow> prefetch_engine option" where
  "warmup data en = (if en_complete en \<or> en_cancelled en then Some en else warmup data (load_step data en))"

section \<open>Accesses\<close>

definition prefetch_row_offset :: "u8 list \<Rightarrow> usize \<Rightarrow> usize \<Rightarrow> usize option" where
  "prefetch_row_offset data tail_start i =
     Option.bind (checked_mul i 10) (\<lambda>k. Option.bind (checked_add tail_start k) (\<lambda>entry.
     Option.bind (checked_add entry 10) (\<lambda>_. map_option unat (get_u64 data (entry + 2)))))"

definition pages_of_records :: "u8 list \<Rightarrow> usize \<Rightarrow> usize \<Rightarrow> nat list \<Rightarrow> u32 list" where
  "pages_of_records data tail_start page_size is =
     remdups_adj (sort (List.map_filter
       (\<lambda>i. map_option (\<lambda>off. word_of_nat (off div page_size)) (prefetch_row_offset data tail_start i)) is))"

definition needed_pages :: "prefetch_engine \<Rightarrow> u32 list \<Rightarrow> u32 list" where
  "needed_pages en ps = filter (\<lambda>p. \<not> cache_has (en_cache en) p \<and> p \<notin> en_in_flight en) ps"

definition fetch_needed :: "u8 list \<Rightarrow> u32 list \<Rightarrow> prefetch_engine \<Rightarrow> prefetch_engine" where
  "fetch_needed data ps en =
     fold (fetch_range data)
       (clamp_ranges (coalesce_page_indices (needed_pages en ps) (oo_gap (en_options en)) (oo_page_size (en_options en))) (length data)) en"

definition maybe_upgrade :: "u8 list \<Rightarrow> usize \<Rightarrow> prefetch_engine \<Rightarrow> prefetch_engine" where
  "maybe_upgrade data tail_start en =
     (if en_strategy en \<noteq> Adaptive \<or> en_paused en then en
      else if access_pattern (en_detector en) \<noteq> PatSequential then en
      else if ad_sequential (en_detector en) < UPGRADE_SEQUENTIAL_THRESHOLD then en
      else if EAGER_THRESHOLD_MB < en_file_size en div (1024 * 1024) then en
      else start_eager data tail_start (en\<lparr>en_strategy := Eager\<rparr>))"

definition touch_page :: "u32 \<Rightarrow> prefetch_engine \<Rightarrow> prefetch_engine" where
  "touch_page p en =
     (if is_eager en then en
      else en\<lparr>en_cache := (case cache_get p (en_cache en) of (c, None) \<Rightarrow> note_miss c | (c, Some _) \<Rightarrow> c)\<rparr>)"

definition speculative_prefetch :: "u8 list \<Rightarrow> usize \<Rightarrow> nat \<Rightarrow> prefetch_engine \<Rightarrow> prefetch_engine" where
  "speculative_prefetch data tail_start record_count en =
     (if en_paused en \<or> en_cancelled en then en
      else fetch_needed data (pages_of_records data tail_start (oo_page_size (en_options en))
             (predict_next (en_detector en) (oo_depth (en_options en)) record_count)) en)"

definition on_access :: "u8 list \<Rightarrow> usize \<Rightarrow> nat \<Rightarrow> nat \<Rightarrow> prefetch_engine \<Rightarrow> prefetch_engine" where
  "on_access data tail_start record_count i en =
     (if record_count = 0 \<or> en_paused en then en
      else
        let en = maybe_upgrade data tail_start (en\<lparr>en_detector := observe i (en_detector en)\<rparr>) in
        if is_eager en \<or> en_strategy en = Eager then en
        else
          let en = (case prefetch_row_offset data tail_start i of
                      None \<Rightarrow> en
                    | Some off \<Rightarrow> touch_page (word_of_nat (off div oo_page_size (en_options en))) en) in
          if en_strategy en = Adaptive \<and> access_pattern (en_detector en) = PatSequential
          then speculative_prefetch data tail_start record_count en else en)"

definition prefetch_viewport :: "u8 list \<Rightarrow> usize \<Rightarrow> nat \<Rightarrow> nat \<Rightarrow> nat \<Rightarrow> prefetch_engine \<Rightarrow> prefetch_engine" where
  "prefetch_viewport data tail_start record_count start_index end_index en =
     (if record_count = 0 \<or> data = [] then en
      else
        let s = min start_index (record_count - 1); e = min end_index (record_count - 1) in
        if e < s then en
        else
          let ps = pages_of_records data tail_start (oo_page_size (en_options en)) [s..<e + 1];
              en = fetch_needed data ps en in
          en\<lparr>en_cache := unpin_all (pin_pages ps (en_cache en))\<rparr>)"

text \<open>Dropping the engine stops its thread.\<close>

definition drop_engine :: "prefetch_engine \<Rightarrow> prefetch_engine" where
  "drop_engine en = en\<lparr>en_cancelled := True\<rparr>"

record cache_stats =
  cs_pages_cached :: usize
  cs_pages_max :: usize
  cs_memory_used :: usize
  cs_hits :: u64
  cs_misses :: u64
  cs_fetches :: u64
  cs_column_fetches :: u64
  cs_strategy :: string
  cs_pattern :: string

definition strategy_str :: "prefetch_strategy \<Rightarrow> string" where
  "strategy_str s = (case s of Lazy \<Rightarrow> ''lazy'' | Adaptive \<Rightarrow> ''adaptive'' | Eager \<Rightarrow> ''eager'')"

definition pattern_str :: "access_pattern \<Rightarrow> string" where
  "pattern_str p = (case p of PatUnknown \<Rightarrow> ''unknown'' | PatSequential \<Rightarrow> ''sequential'' | PatRandom \<Rightarrow> ''random'' | PatMixed \<Rightarrow> ''mixed'')"

definition engine_stats :: "prefetch_engine \<Rightarrow> cache_stats" where
  "engine_stats en =
     \<lparr>cs_pages_cached = pages_cached (en_cache en), cs_pages_max = oo_max_pages (en_options en),
      cs_memory_used = memory_used_bytes (en_cache en), cs_hits = pc_hits (en_cache en), cs_misses = pc_misses (en_cache en),
      cs_fetches = en_fetches en, cs_column_fetches = 0, cs_strategy = strategy_str (en_strategy en),
      cs_pattern = pattern_str (access_pattern (en_detector en))\<rparr>"

section \<open>The reader with prefetching\<close>

record column_warm =
  cw_warmed :: "usize set"
  cw_fetches :: u64

definition column_prefetch :: "usize \<Rightarrow> column_warm \<Rightarrow> column_warm \<times> bool" where
  "column_prefetch slot cw =
     (if slot \<in> cw_warmed cw then (cw, False)
      else (cw\<lparr>cw_warmed := insert slot (cw_warmed cw), cw_fetches := cw_fetches cw + 1\<rparr>, True))"

record prefetch_reader =
  pr_reader :: reader
  pr_engine :: "prefetch_engine option"
  pr_column :: column_warm

definition reader_with_options :: "u8 list \<Rightarrow> open_options \<Rightarrow> prefetch_reader res" where
  "reader_with_options data opts =
     rbind (options_validate opts) (\<lambda>_.
     rbind (reader_new data) (\<lambda>r.
     let engine = new_engine opts (length data);
         engine = (if en_strategy engine = Eager then start_eager data (r_tail_start r) engine else engine) in
     Ok \<lparr>pr_reader = r, pr_engine = (if r_layout r = Row then Some engine else None),
         pr_column = \<lparr>cw_warmed = {}, cw_fetches = 0\<rparr>\<rparr>))"

definition reader_prefetch_column :: "rstring \<Rightarrow> prefetch_reader \<Rightarrow> prefetch_reader res" where
  "reader_prefetch_column key pr =
     (let r = pr_reader pr in
      if r_layout r \<noteq> Columnar then Err UnsupportedLayout
      else
        rbind (ok_or (r_key_index r key) (ParseError ''key not found: {key}'')) (\<lambda>slot.
        rbind (ok_or (get_at (r_col_buf_off r) slot) OutOfBounds) (\<lambda>off.
        rbind (ok_or (get_at (r_col_buf_len r) slot) OutOfBounds) (\<lambda>len.
        rbind (ok_or (checked_add (unat off) (unat len)) OutOfBounds) (\<lambda>fin.
        if length (r_data r) < fin then Err OutOfBounds
        else Ok (pr\<lparr>pr_column := fst (column_prefetch slot (pr_column pr))\<rparr>))))))"

definition on_engine :: "(prefetch_engine \<Rightarrow> prefetch_engine) \<Rightarrow> prefetch_reader \<Rightarrow> prefetch_reader" where
  "on_engine f pr = pr\<lparr>pr_engine := map_option f (pr_engine pr)\<rparr>"

definition reader_prefetch_viewport :: "nat \<Rightarrow> nat \<Rightarrow> prefetch_reader \<Rightarrow> prefetch_reader" where
  "reader_prefetch_viewport start_index end_index pr =
     (let r = pr_reader pr in
      if r_layout r \<noteq> Row then pr
      else on_engine (prefetch_viewport (r_data r) (r_tail_start r) (r_record_count r) start_index end_index) pr)"

definition touch_record_page :: "nat \<Rightarrow> prefetch_reader \<Rightarrow> prefetch_reader" where
  "touch_record_page i pr =
     (let r = pr_reader pr in
      if r_layout r \<noteq> Row then pr
      else on_engine (on_access (r_data r) (r_tail_start r) (r_record_count r) i) pr)"

definition prefetch_record :: "nat \<Rightarrow> prefetch_reader \<Rightarrow> prefetch_reader \<times> usize option res" where
  "prefetch_record i pr =
     (if r_record_count (pr_reader pr) \<le> i then (pr, Ok None)
      else (touch_record_page i pr, reader_record (pr_reader pr) i))"

definition reader_cache_stats :: "prefetch_reader \<Rightarrow> cache_stats" where
  "reader_cache_stats pr =
     (let stats = (case pr_engine pr of
                     Some en \<Rightarrow> engine_stats en
                   | None \<Rightarrow> \<lparr>cs_pages_cached = 0, cs_pages_max = 0, cs_memory_used = 0, cs_hits = 0, cs_misses = 0,
                              cs_fetches = 0, cs_column_fetches = 0, cs_strategy = ''disabled'', cs_pattern = ''unknown''\<rparr>) in
      if r_layout (pr_reader pr) = Columnar then stats\<lparr>cs_column_fetches := cw_fetches (pr_column pr)\<rparr> else stats)"

end
