(* ===== verification/Prefetch_Cache.thy ===== *)
theory Prefetch_Cache
  imports Prefetch
begin

text \<open>
  What the page cache of \<^verbatim>\<open>rust/src/prefetch/mod.rs\<close> holds: after any accesses, viewports and steps of the eager
  load, pages of the file and nothing else, and never more of them than allowed.
\<close>

section \<open>The cache\<close>

definition page_bytes :: "u8 list \<Rightarrow> usize \<Rightarrow> u32 \<Rightarrow> u8 list" where
  "page_bytes data ps p = seg data (unat p * ps) (min ((unat p + 1) * ps) (length data))"

text \<open>The entry of a page, as a map.\<close>

definition entry_at :: "(u32 \<times> cached_page) list \<Rightarrow> u32 \<Rightarrow> cached_page option" where
  "entry_at es p = map_of es p"

lemma entry_at_simps:
  "entry_at [] q = None"
  "entry_at (AList.update p e es) q = (if q = p then Some e else entry_at es q)"
  "entry_at (AList.delete p es) q = (if q = p then None else entry_at es q)"
  "entry_at (map (\<lambda>(p, e). (p, g p e)) es) q = map_option (g q) (entry_at es q)"
proof -
  show "entry_at (map (\<lambda>(p, e). (p, g p e)) es) q = map_option (g q) (entry_at es q)"
    by (induction es) (auto simp: entry_at_def)
qed (simp_all add: entry_at_def update_conv' delete_conv')

lemma cache_has_entry: "cache_has c p \<longleftrightarrow> entry_at (pc_pages c) p \<noteq> None"
  by (simp add: cache_has_def entry_at_def)

definition cache_holds :: "u8 list \<Rightarrow> page_cache \<Rightarrow> bool" where
  "cache_holds data c \<longleftrightarrow> distinct (map fst (pc_pages c)) \<and> length (pc_pages c) \<le> pc_max c
     \<and> (\<forall>p e. entry_at (pc_pages c) p = Some e \<longrightarrow> unat p * pc_page_size c < length data
          \<and> pe_data e = page_bytes data (pc_page_size c) p \<and> pe_last_used e \<le> pc_clock c)"

definition unpinned :: "page_cache \<Rightarrow> bool" where
  "unpinned c \<longleftrightarrow> (\<forall>p e. entry_at (pc_pages c) p = Some e \<longrightarrow> \<not> pe_pinned e)"

abbreviation same_limits :: "page_cache \<Rightarrow> page_cache \<Rightarrow> bool" where
  "same_limits c c' \<equiv> pc_max c' = pc_max c \<and> pc_page_size c' = pc_page_size c"

lemma saturating_inc_le: "c \<le> saturating_inc c" and saturating_inc_grows: "t \<le> c \<Longrightarrow> t \<le> saturating_inc c"
proof -
  show "c \<le> saturating_inc c"
  proof (cases "c = - 1")
    case False
    then have "c + 1 \<noteq> 0" by (metis add_eq_0_iff2)
    then show ?thesis by (simp add: saturating_inc_def False word_le_nat_alt unatSuc[of c] add.commute[of c])
  qed (simp add: saturating_inc_def)
  then show "t \<le> c \<Longrightarrow> t \<le> saturating_inc c" by (rule order_trans[rotated])
qed

lemma length_update: "distinct (map fst es) \<Longrightarrow> length (AList.update p e es) = (if entry_at es p = None then length es + 1 else length es)"
proof -
  have "length (AList.update p e es) = length (map fst (AList.update p e es))" by simp
  then show ?thesis unfolding update_keys by (simp add: entry_at_def map_of_eq_None_iff)
qed

lemma cache_get_holds:
  assumes "cache_holds data c" and "unpinned c"
  shows "cache_holds data (fst (cache_get p c)) \<and> unpinned (fst (cache_get p c)) \<and> same_limits c (fst (cache_get p c))"
  using assms unfolding cache_get_def entry_at_def[symmetric]
  by (auto simp: cache_holds_def unpinned_def Let_def length_update distinct_update entry_at_simps saturating_inc_grows
      split: option.splits if_splits)

lemma note_miss_holds: "cache_holds data (note_miss c) = cache_holds data c" "unpinned (note_miss c) = unpinned c"
  "same_limits c (note_miss c)"
  by (simp_all add: note_miss_def cache_holds_def unpinned_def)

lemma keys_map_entries: "map (fst \<circ> (\<lambda>(p, e). (p, g p e))) es = map fst es"
  by (induction es) auto

lemma pinning_holds:
  assumes "cache_holds data c"
  shows "cache_holds data (unpin_all (pin_pages ps c)) \<and> unpinned (unpin_all (pin_pages ps c)) \<and> same_limits c (unpin_all (pin_pages ps c))"
proof -
  have "cache_holds data (pin_pages ps c)" using assms
    by (auto simp: cache_holds_def pin_pages_def keys_map_entries entry_at_simps)
  then have "cache_holds data (unpin_all (pin_pages ps c))"
    by (auto simp: cache_holds_def unpin_all_def keys_map_entries entry_at_simps)
  moreover have "unpinned (unpin_all (pin_pages ps c))"
    by (auto simp: unpinned_def unpin_all_def entry_at_simps)
  ultimately show ?thesis by (simp add: unpin_all_def pin_pages_def)
qed

lemma evict_holds:
  assumes "cache_holds data c" and "evict_one c = Some c'"
  shows "cache_holds data c' \<and> (unpinned c \<longrightarrow> unpinned c') \<and> same_limits c c' \<and> pc_clock c' = pc_clock c"
  using assms evict_one_length[OF assms(2)]
  by (auto simp: evict_one_def cache_holds_def unpinned_def distinct_delete entry_at_simps split: option.splits if_splits)

lemma make_room_holds:
  "cache_holds data c \<Longrightarrow> make_room c = (c', b) \<Longrightarrow>
   cache_holds data c' \<and> (unpinned c \<longrightarrow> unpinned c') \<and> same_limits c c' \<and> pc_clock c' = pc_clock c \<and> (b \<longrightarrow> length (pc_pages c') < pc_max c')"
proof (induction c arbitrary: c' b rule: make_room.induct)
  case (1 c)
  show ?case
  proof (cases "length (pc_pages c) < pc_max c \<or> evict_one c = None")
    case True
    then show ?thesis using 1(2,3) by (subst (asm) make_room.simps) (auto split: if_splits)
  next
    case False
    then obtain d where "evict_one c = Some d" by auto
    then show ?thesis using 1(1)[OF _ _ _, of d c' b] 1(2,3) False evict_holds[of data c d] by (subst (asm) make_room.simps) auto
  qed
qed

lemma insert_holds:
  assumes "cache_holds data c" and "unpinned c" and "entry_at (pc_pages c) p \<noteq> None \<or> length (pc_pages c) < pc_max c"
    and "unat p * pc_page_size c < length data"
  shows "cache_holds data (c\<lparr>pc_clock := saturating_inc (pc_clock c), pc_pages := AList.update p
      \<lparr>pe_data = page_bytes data (pc_page_size c) p, pe_last_used = saturating_inc (pc_clock c), pe_pinned = False\<rparr> (pc_pages c)\<rparr>)"
    and "unpinned (c\<lparr>pc_clock := saturating_inc (pc_clock c), pc_pages := AList.update p
      \<lparr>pe_data = page_bytes data (pc_page_size c) p, pe_last_used = saturating_inc (pc_clock c), pe_pinned = False\<rparr> (pc_pages c)\<rparr>)"
  using assms unfolding cache_holds_def unpinned_def
  by (auto simp: entry_at_simps length_update distinct_update saturating_inc_grows)

text \<open>What \<open>set\<close> does when there is room.\<close>

lemma cache_set_cases:
  assumes "cache_holds data c"
  obtains (full) d where "cache_set p bs pin c = (d, False)" "d = c \<or> make_room c = (d, False)"
  | (set) d where "cache_has c p \<and> d = c \<or> make_room c = (d, True)"
      "cache_set p bs pin c = (d\<lparr>pc_clock := saturating_inc (pc_clock d), pc_pages := AList.update p
         \<lparr>pe_data = bs, pe_last_used = saturating_inc (pc_clock d), pe_pinned = pin\<rparr> (pc_pages d)\<rparr>, True)"
proof (cases "pc_max c = 0")
  case True
  then show thesis using full by (simp add: cache_set_def)
next
  case False
  obtain d b where d: "(if cache_has c p then (c, True) else make_room c) = (d, b)" by force
  then show thesis
    using False full[of d] set[of d] by (cases b) (auto simp: cache_set_def Let_def split: if_splits)
qed

lemma cache_set_holds:
  assumes h: "cache_holds data c" and u: "unpinned c" and p: "unat p * pc_page_size c < length data"
    and bs: "bs = page_bytes data (pc_page_size c) p"
  shows "cache_holds data (fst (cache_set p bs False c)) \<and> unpinned (fst (cache_set p bs False c)) \<and> same_limits c (fst (cache_set p bs False c))"
proof (cases rule: cache_set_cases[OF h, of p bs False])
  case (1 d)
  then show ?thesis using make_room_holds[OF h, of d False] h u by auto
next
  case (2 d)
  then have d: "cache_holds data d" "unpinned d" "same_limits c d" "entry_at (pc_pages d) p \<noteq> None \<or> length (pc_pages d) < pc_max d"
    using make_room_holds[OF h, of d True] h u by (auto simp: cache_has_entry)
  have "unat p * pc_page_size d < length data" "bs = page_bytes data (pc_page_size d) p" using d(3) p bs by simp_all
  then show ?thesis unfolding 2(2) using insert_holds[OF d(1,2,4)] d(3) by simp
qed

section \<open>The engine\<close>

text \<open>The pages that a load still has to fetch, and loads that announce what they fetch.\<close>

definition pending :: "load_stage list \<Rightarrow> u32 set" where
  "pending ls = {p. LoadPage p \<in> set ls}"

fun load_wf :: "load_stage list \<Rightarrow> bool" where
  "load_wf [] = True"
| "load_wf (LoadRange r # ls) = (set (range_pages r) \<subseteq> pending ls \<and> load_wf ls)"
| "load_wf (LoadDone # ls) = (ls = [])"
| "load_wf (_ # ls) = load_wf ls"

definition engine_ok :: "u8 list \<Rightarrow> prefetch_engine \<Rightarrow> bool" where
  "engine_ok data en \<longleftrightarrow> cache_holds data (en_cache en) \<and> unpinned (en_cache en)
     \<and> pc_max (en_cache en) = oo_max_pages (en_options en) \<and> pc_page_size (en_cache en) = oo_page_size (en_options en)
     \<and> load_wf (en_load en) \<and> (\<not> en_cancelled en \<longrightarrow> en_in_flight en \<subseteq> pending (en_load en))"

lemma pending_simps: "pending [] = {}" "pending (LoadPage p # ls) = insert p (pending ls)" "pending (LoadRange r # ls) = pending ls"
  "pending (LoadEnter # ls) = pending ls" "pending (LoadDone # ls) = pending ls" "pending (ls @ ms) = pending ls \<union> pending ms"
  "pending (map LoadPage ps) = set ps"
  by (auto simp: pending_def)

lemma load_wf_pages: "load_wf (map LoadPage ps @ ls) = load_wf ls"
  by (induction ps) auto

lemma eager_load_wf: "load_wf (eager_load data tail_start opts)"
proof -
  have "load_wf (concat (map (\<lambda>r. LoadRange r # map LoadPage (range_pages r)) rs) @ [LoadDone])" for rs
    by (induction rs) (auto simp: load_wf_pages pending_simps)
  then show ?thesis by (simp add: eager_load_def)
qed

lemma fetch_page_ok:
  assumes "engine_ok data en"
  shows "engine_ok data (fetch_page data p en)" and "en_load (fetch_page data p en) = en_load en"
    and "en_in_flight (fetch_page data p en) = en_in_flight en - {p}" and "en_options (fetch_page data p en) = en_options en"
    and "en_cancelled (fetch_page data p en) = en_cancelled en"
proof -
  show "en_load (fetch_page data p en) = en_load en" "en_in_flight (fetch_page data p en) = en_in_flight en - {p}"
    "en_options (fetch_page data p en) = en_options en" "en_cancelled (fetch_page data p en) = en_cancelled en"
    by (simp_all add: fetch_page_def Let_def)
  show "engine_ok data (fetch_page data p en)"
  proof (cases "length data \<le> unat p * oo_page_size (en_options en)")
    case True
    then show ?thesis using assms by (auto simp: fetch_page_def engine_ok_def Let_def)
  next
    case False
    then show ?thesis using assms cache_set_holds[of data "en_cache en" p] unfolding engine_ok_def
      by (auto simp: fetch_page_def Let_def page_bytes_def)
  qed
qed

lemma fetch_pages_ok:
  "engine_ok data en \<Longrightarrow> engine_ok data (fold (fetch_page data) ps en)
     \<and> en_load (fold (fetch_page data) ps en) = en_load en \<and> en_in_flight (fold (fetch_page data) ps en) = en_in_flight en - set ps
     \<and> en_options (fold (fetch_page data) ps en) = en_options en"
  by (induction ps arbitrary: en) (auto simp: fetch_page_ok)

text \<open>The in-flight set does not matter for anything else.\<close>

lemma engine_ok_in_flight: "engine_ok data en \<Longrightarrow> engine_ok data (en\<lparr>en_in_flight := s\<rparr>) = (\<not> en_cancelled en \<longrightarrow> s \<subseteq> pending (en_load en))"
  by (simp add: engine_ok_def)

lemma fetch_page_other:
  "fetch_page data p (en\<lparr>en_in_flight := s\<rparr>) = (fetch_page data p en)\<lparr>en_in_flight := s - {p}\<rparr>"
  "fetch_page data p (en\<lparr>en_fetches := n\<rparr>) = (fetch_page data p en)\<lparr>en_fetches := n\<rparr>"
  by (simp_all add: fetch_page_def Let_def)

lemma fetch_pages_other:
  "fold (fetch_page data) ps (en\<lparr>en_in_flight := s, en_fetches := n\<rparr>)
    = (fold (fetch_page data) ps en)\<lparr>en_in_flight := s - set ps, en_fetches := n\<rparr>"
proof (induction ps arbitrary: en s)
  case (Cons p ps)
  have "s - {p} - set ps = s - set (p # ps)" by auto
  then show ?case by (simp only: fold_Cons o_apply fetch_page_other Cons.IH)
qed simp

lemma fetch_range_ok:
  assumes "engine_ok data en"
  shows "engine_ok data (fetch_range data r en) \<and> en_load (fetch_range data r en) = en_load en
     \<and> en_in_flight (fetch_range data r en) = en_in_flight en - set (range_pages r) \<and> en_options (fetch_range data r en) = en_options en"
proof -
  have "begin_range r en = en\<lparr>en_in_flight := en_in_flight en \<union> set (range_pages r), en_fetches := en_fetches en + 1\<rparr>"
    by (simp add: begin_range_def)
  then have "fetch_range data r en = (fold (fetch_page data) (range_pages r) en)
      \<lparr>en_in_flight := en_in_flight en - set (range_pages r), en_fetches := en_fetches en + 1\<rparr>"
    by (simp only: fetch_range_def fetch_pages_other) (simp add: Un_Diff)
  moreover have "engine_ok data (en'\<lparr>en_fetches := n\<rparr>) = engine_ok data en'" for en' n by (simp add: engine_ok_def)
  ultimately show ?thesis using fetch_pages_ok[OF assms, of "range_pages r"] by (auto simp: engine_ok_def)
qed

lemma fetch_ranges_ok:
  "engine_ok data en \<Longrightarrow> engine_ok data (fold (fetch_range data) rs en) \<and> en_load (fold (fetch_range data) rs en) = en_load en
     \<and> en_options (fold (fetch_range data) rs en) = en_options en"
  by (induction rs arbitrary: en) (auto simp: fetch_range_ok)

lemma fetch_needed_ok: "engine_ok data en \<Longrightarrow> engine_ok data (fetch_needed data ps en)"
  by (simp add: fetch_needed_def fetch_ranges_ok)

lemma start_eager_ok: "engine_ok data en \<Longrightarrow> en_load en = [] \<Longrightarrow> engine_ok data (start_eager data tail_start en)"
  by (auto simp: start_eager_def engine_ok_def eager_load_wf pending_simps Let_def)

text \<open>A load is started once only, so none runs when one is started.\<close>

definition load_once :: "prefetch_engine \<Rightarrow> bool" where
  "load_once en \<longleftrightarrow> en_started en \<or> en_load en = []"

lemma start_eager_once:
  assumes "engine_ok data en" and "load_once en"
  shows "engine_ok data (start_eager data tail_start en) \<and> load_once (start_eager data tail_start en)"
proof (cases "en_started en")
  case True
  then have "start_eager data tail_start en = en" by (simp add: start_eager_def)
  then show ?thesis using assms by simp
next
  case False
  then have "en_load en = []" using assms(2) by (simp add: load_once_def)
  then show ?thesis using start_eager_ok[OF assms(1)] by (simp add: start_eager_def load_once_def Let_def)
qed

lemma load_step_ok:
  assumes "engine_ok data en" and "load_once en"
  shows "engine_ok data (load_step data en) \<and> load_once (load_step data en)"
proof (cases "en_load en")
  case Nil
  then show ?thesis using assms by (simp add: load_step_def)
next
  case (Cons s ls)
  show ?thesis
  proof (cases "en_cancelled en \<or> s = LoadDone")
    case True
    then show ?thesis using Cons assms
      by (cases s) (auto simp: load_step_def engine_ok_def load_once_def pending_simps Let_def)
  next
    case False
    let ?en = "en\<lparr>en_load := ls\<rparr>"
    have st: "load_once en'" if "en_started en' = en_started en" for en'
      using that Cons assms(2) by (simp add: load_once_def)
    show ?thesis
    proof (cases s)
      case (LoadPage p)
      have "engine_ok data (fetch_page data p en)" by (rule fetch_page_ok(1)[OF assms(1)])
      moreover have "fetch_page data p ?en = (fetch_page data p en)\<lparr>en_load := ls\<rparr>" by (simp add: fetch_page_def Let_def)
      moreover have "en_started (fetch_page data p ?en) = en_started en" by (simp add: fetch_page_def Let_def)
      ultimately show ?thesis using Cons False LoadPage fetch_page_ok[OF assms(1), of p] st[of "fetch_page data p ?en"] assms(1)
        by (auto simp: load_step_def Let_def engine_ok_def pending_simps)
    next
      case (LoadRange r)
      then show ?thesis using Cons False assms(1) st[of "begin_range r ?en"]
        by (auto simp: load_step_def Let_def engine_ok_def pending_simps begin_range_def)
    qed (use Cons False assms(1) st[of ?en] in \<open>auto simp: load_step_def Let_def engine_ok_def pending_simps\<close>)
  qed
qed

lemma touch_page_ok: "engine_ok data en \<Longrightarrow> engine_ok data (touch_page p en) \<and> en_load (touch_page p en) = en_load en \<and> en_started (touch_page p en) = en_started en"
  using cache_get_holds[of data "en_cache en" p]
  by (auto simp: touch_page_def engine_ok_def note_miss_holds split: prod.splits option.splits)

lemma engine_ok_other:
  "engine_ok data (en\<lparr>en_detector := d\<rparr>) = engine_ok data en" "engine_ok data (en\<lparr>en_strategy := s\<rparr>) = engine_ok data en"
  "engine_ok data (en\<lparr>en_paused := b\<rparr>) = engine_ok data en"
  by (simp_all add: engine_ok_def)

lemma fetch_page_started: "en_started (fetch_page data p en) = en_started en"
  by (simp add: fetch_page_def Let_def)

lemma fetch_needed_started: "en_started (fetch_needed data ps en) = en_started en"
proof -
  have pages: "en_started (fold (fetch_page data) qs e) = en_started e" for qs e
    by (induction qs arbitrary: e) (simp_all add: fetch_page_started)
  have "en_started (fold (fetch_range data) rs e) = en_started e" for rs e
    by (induction rs arbitrary: e) (simp_all add: fetch_range_def pages begin_range_def)
  then show ?thesis by (simp add: fetch_needed_def)
qed

lemma fetch_needed_load: "engine_ok data en \<Longrightarrow> en_load (fetch_needed data ps en) = en_load en \<and> en_options (fetch_needed data ps en) = en_options en"
  by (simp add: fetch_needed_def fetch_ranges_ok)

lemma fetch_needed_once: "engine_ok data en \<Longrightarrow> load_once en \<Longrightarrow> load_once (fetch_needed data ps en)"
  by (simp add: load_once_def fetch_needed_started fetch_needed_load)

lemma on_access_ok:
  assumes "engine_ok data en" and "load_once en"
  shows "engine_ok data (on_access data tail_start rc i en) \<and> load_once (on_access data tail_start rc i en)"
proof -
  let ?P = "\<lambda>en. engine_ok data en \<and> load_once en"
  have up: "?P (maybe_upgrade data tail_start e)" if "?P e" for e
    using that start_eager_once[of data "e\<lparr>en_strategy := Eager\<rparr>" tail_start]
    by (simp add: maybe_upgrade_def engine_ok_other load_once_def)
  have touch: "?P (touch_page p e)" if "?P e" for p e using that touch_page_ok[of data e p] by (simp add: load_once_def)
  have spec: "?P (speculative_prefetch data tail_start rc e)" if "?P e" for e
    using that by (simp add: speculative_prefetch_def fetch_needed_ok fetch_needed_once)
  have obs: "?P (en\<lparr>en_detector := d\<rparr>)" for d using assms by (simp add: engine_ok_other load_once_def)
  show ?thesis
    unfolding on_access_def Let_def using assms
    by (auto simp: up[OF obs] touch spec split: option.split)
qed

lemma prefetch_viewport_ok:
  assumes "engine_ok data en" and "load_once en"
  shows "engine_ok data (prefetch_viewport data tail_start rc s e en) \<and> load_once (prefetch_viewport data tail_start rc s e en)"
proof -
  have "engine_ok data (e'\<lparr>en_cache := unpin_all (pin_pages ps (en_cache e'))\<rparr>)" if "engine_ok data e'" for ps e'
    using that pinning_holds[of data "en_cache e'" ps] by (simp add: engine_ok_def)
  then show ?thesis using assms
    by (simp add: prefetch_viewport_def Let_def fetch_needed_ok) (simp add: load_once_def fetch_needed_started fetch_needed_load)
qed

section \<open>Every run\<close>

text \<open>The options never change.\<close>

lemma keep_options:
  "en_options (fetch_page data p en) = en_options en" "en_options (fetch_range data r en) = en_options en"
  "en_options (fetch_needed data ps en) = en_options en" "en_options (start_eager data ts en) = en_options en"
  "en_options (load_step data en) = en_options en" "en_options (touch_page p en) = en_options en"
  "en_options (maybe_upgrade data ts en) = en_options en" "en_options (on_access data ts rc i en) = en_options en"
  "en_options (prefetch_viewport data ts rc s e en) = en_options en"
proof -
  show page: "en_options (fetch_page data p en) = en_options en" for p en by (simp add: fetch_page_def Let_def)
  have first: "en_options (begin_range r en) = en_options en" for r en by (simp add: begin_range_def)
  have pages: "en_options (fold (fetch_page data) qs en) = en_options en" for qs en
    by (induction qs arbitrary: en) (simp_all add: page)
  show range: "en_options (fetch_range data r en) = en_options en" for r en by (simp add: fetch_range_def pages first)
  have ranges: "en_options (fold (fetch_range data) rs en) = en_options en" for rs en
    by (induction rs arbitrary: en) (simp_all add: range)
  show needed: "en_options (fetch_needed data ps en) = en_options en" for ps en by (simp add: fetch_needed_def ranges)
  show start: "en_options (start_eager data ts en) = en_options en" for en by (simp add: start_eager_def Let_def)
  show "en_options (load_step data en) = en_options en"
    by (auto simp: load_step_def Let_def page first split: list.split load_stage.split)
  show touch: "en_options (touch_page p en) = en_options en" for p en by (simp add: touch_page_def)
  show up: "en_options (maybe_upgrade data ts en) = en_options en" for en by (simp add: maybe_upgrade_def start)
  have spec: "en_options (speculative_prefetch data ts rc en) = en_options en" for en by (simp add: speculative_prefetch_def needed)
  show "en_options (on_access data ts rc i en) = en_options en"
    by (auto simp: on_access_def Let_def up touch spec split: option.split)
  show "en_options (prefetch_viewport data ts rc s e en) = en_options en"
    by (simp add: prefetch_viewport_def Let_def needed)
qed

text \<open>
  The operations on an engine over a row file, and the steps of its thread between them; a lookup of the
  statistics changes nothing.
\<close>

inductive prefetch_step :: "u8 list \<Rightarrow> usize \<Rightarrow> nat \<Rightarrow> prefetch_engine \<Rightarrow> prefetch_engine \<Rightarrow> bool" for data tail_start rc where
  pf_access: "prefetch_step data tail_start rc en (on_access data tail_start rc i en)"
| pf_viewport: "prefetch_step data tail_start rc en (prefetch_viewport data tail_start rc s e en)"
| pf_load: "prefetch_step data tail_start rc en (load_step data en)"
| pf_pause: "prefetch_step data tail_start rc en (pause_prefetch en)"
| pf_resume: "prefetch_step data tail_start rc en (resume_prefetch en)"
| pf_drop: "prefetch_step data tail_start rc en (drop_engine en)"

inductive prefetch_run :: "u8 list \<Rightarrow> usize \<Rightarrow> nat \<Rightarrow> open_options \<Rightarrow> prefetch_engine \<Rightarrow> bool" for data tail_start rc opts where
  pf_open: "prefetch_run data tail_start rc opts (start_eager data tail_start (new_engine opts (length data)))"
| pf_next: "prefetch_run data tail_start rc opts en \<Longrightarrow> prefetch_step data tail_start rc en en' \<Longrightarrow> prefetch_run data tail_start rc opts en'"

lemma new_engine_ok: "engine_ok data (new_engine opts n)" "load_once (new_engine opts n)" "en_options (new_engine opts n) = opts"
  by (simp_all add: new_engine_def engine_ok_def load_once_def new_cache_def cache_holds_def unpinned_def entry_at_simps)

lemma run_ok: "prefetch_run data tail_start rc opts en \<Longrightarrow> engine_ok data en \<and> load_once en \<and> en_options en = opts"
proof (induction rule: prefetch_run.induct)
  case pf_open
  then show ?case using start_eager_once[OF new_engine_ok(1,2)] by (simp add: keep_options new_engine_ok)
next
  case (pf_next en en')
  then have ok: "engine_ok data en" "load_once en" "en_options en = opts" by simp_all
  from pf_next(2) show ?case
  proof cases
    case pf_pause
    then show ?thesis using ok by (simp add: pause_prefetch_def engine_ok_other load_once_def)
  next
    case pf_resume
    then show ?thesis using ok by (simp add: resume_prefetch_def engine_ok_other load_once_def)
  next
    case pf_drop
    then show ?thesis using ok by (simp add: drop_engine_def engine_ok_def load_once_def)
  qed (use ok on_access_ok prefetch_viewport_ok load_step_ok in \<open>simp_all add: keep_options\<close>)
qed

text \<open>
  C34: The page cache is a part of the file.  Whatever accesses, viewports, pauses and steps of the eager load have
  happened, in any order, the cache holds at most the allowed number of pages, each with exactly the bytes
  that the file has there; and once no load runs no page is marked as being fetched.
\<close>

theorem prefetch_cache_coherent:
  assumes "options_validate opts = Ok ()" and "prefetch_run data tail_start rc opts en"
  shows "pages_cached (en_cache en) \<le> oo_max_pages opts
     \<and> (\<forall>(p, e) \<in> set (pc_pages (en_cache en)). unat p * oo_page_size opts < length data
          \<and> pe_data e = seg data (unat p * oo_page_size opts) (min ((unat p + 1) * oo_page_size opts) (length data)))
     \<and> (en_load en = [] \<and> \<not> en_cancelled en \<longrightarrow> en_in_flight en = {})"
proof -
  have ok: "engine_ok data en" "en_options en = opts" using run_ok[OF assms(2)] by simp_all
  have "entry_at (pc_pages (en_cache en)) p = Some e" if "(p, e) \<in> set (pc_pages (en_cache en))" for p e
    using that ok(1) by (simp add: engine_ok_def cache_holds_def entry_at_def)
  then show ?thesis using ok by (fastforce simp: engine_ok_def cache_holds_def page_bytes_def pages_cached_def pending_simps)
qed

definition small_pages :: open_options where
  "small_pages = default_open_options\<lparr>oo_page_size := 4, oo_max_pages := 2\<rparr>"

definition sample_tail :: "u8 list" where
  "sample_tail = [1, 2, 3, 4, 5, 6, 7, 8] @ [0, 0, 1, 0, 0, 0, 0, 0, 0, 0, 1, 0, 5, 0, 0, 0, 0, 0, 0, 0]"

theorem prefetch_cache_coherent_witness:
  "\<exists>en. prefetch_run sample_tail 8 2 small_pages en \<and> map fst (pc_pages (en_cache en)) = [0, 1] \<and> en_in_flight en = {}"
proof -
  let ?e0 = "new_engine small_pages 28"
  let ?en = "prefetch_viewport sample_tail 8 2 0 1 ?e0"
  have "start_eager sample_tail 8 (new_engine small_pages (length sample_tail)) = ?e0"
    by (simp add: start_eager_def new_engine_def initial_strategy_def small_pages_def default_open_options_def sample_tail_def)
  then have r: "prefetch_run sample_tail 8 2 small_pages ?en" using pf_next[OF pf_open pf_viewport] by metis
  have "options_validate small_pages = Ok ()" by code_simp
  note c = prefetch_cache_coherent[OF this r]
  have "map fst (pc_pages (en_cache ?en)) = [0, 1]" by code_simp
  moreover have "en_load ?en = [] \<and> \<not> en_cancelled ?en" by code_simp
  then have "en_in_flight ?en = {}" by (rule mp[OF c[THEN conjunct2, THEN conjunct2]])
  ultimately show ?thesis using r by (intro exI[of _ ?en] conjI)
qed

end
