(* ===== verification/Prefetch_Viewport.thy ===== *)
theory Prefetch_Viewport
  imports Prefetch_Cache
begin

text \<open>
  What a viewport brings into the page cache of \<^verbatim>\<open>rust/src/prefetch/mod.rs\<close>, and when a wait for the eager load
  returns.
\<close>

section \<open>Ranges cover what is asked for\<close>

lemma coalesce_spans_ends:
  "sorted (e # is) \<Longrightarrow> s \<le> e \<Longrightarrow> (a, b) \<in> set (coalesce_spans gap s e is) \<Longrightarrow> a \<le> b \<and> b \<in> set (e # is)"
proof (induction gap s e "is" rule: coalesce_spans.induct)
  case (2 gap s e i "is")
  have i: "sorted (i # is)" "s \<le> i" using 2(3,4) by auto
  show ?case
  proof (cases "(if i < e then 0 else i - e) \<le> word_of_nat gap")
    case True
    then show ?thesis using 2(1)[OF True i] 2(5) by auto
  next
    case False
    then show ?thesis using 2(2)[OF False i(1)] 2(4,5) by auto
  qed
qed auto

lemma coalesce_spans_cover:
  "sorted (e # is) \<Longrightarrow> s \<le> e \<Longrightarrow> s \<le> p \<and> p \<le> e \<or> p \<in> set is \<Longrightarrow>
   \<exists>(a, b) \<in> set (coalesce_spans gap s e is). a \<le> p \<and> p \<le> b"
proof (induction gap s e "is" rule: coalesce_spans.induct)
  case (2 gap s e i "is")
  have i: "e \<le> i" "sorted (i # is)" "s \<le> i" using 2(3,4) by auto
  show ?case
  proof (cases "(if i < e then 0 else i - e) \<le> word_of_nat gap")
    case True
    have "s \<le> p \<and> p \<le> i \<or> p \<in> set is" using 2(5) i by auto
    then show ?thesis using 2(1)[OF True i(2,3)] True by simp
  next
    case False
    have "s \<le> p \<and> p \<le> e \<or> i \<le> p \<and> p \<le> i \<or> p \<in> set is" using 2(5) i by auto
    then show ?thesis using 2(2)[OF False i(2) order.refl] False by auto
  qed
qed auto

lemma set_map_filter: "set (List.map_filter f xs) = {y. \<exists>x \<in> set xs. f x = Some y}"
  by (induction xs) (auto simp: map_filter_simps split: option.splits)

lemma clamp_range_keeps:
  "cr_byte_start r < n \<Longrightarrow> cr_byte_start r + cr_byte_length r < 2 ^ 64 \<Longrightarrow> 0 < cr_byte_length r \<Longrightarrow>
   \<exists>r'. clamp_range n r = Some r' \<and> cr_start r' = cr_start r \<and> cr_end r' = cr_end r"
  by (simp add: clamp_range_def checked_add_def lims Let_def)

text \<open>A span within the file becomes a range of exactly its pages.\<close>

lemma span_range_clamped:
  assumes "a \<le> b" and "b < - 1" and "unat b * ps < n" and "n < 2 ^ 63" and "0 < ps" and "ps < 2 ^ 64"
  shows "\<exists>r. span_range ps (a, b) = Some r \<and> (\<exists>r'. clamp_range n r = Some r' \<and> cr_start r' = a \<and> cr_end r' = b)"
proof -
  have ab: "unat a \<le> unat b" using assms(1) by (simp add: word_le_nat_alt)
  have d: "unat (b - a) = unat b - unat a" using assms(1) by (simp add: unat_sub)
  have b1: "unat b < 2 ^ 32 - 1" using assms(2) by (simp add: word_less_nat_alt unsigned_minus_1_eq_mask mask_eq_exp_minus_1)
  then have ne: "b - a \<noteq> - 1" using d by (auto simp: unsigned_minus_1_eq_mask mask_eq_exp_minus_1)
  have cnt: "unat (b - a + 1) = unat b - unat a + 1"
    using ne d by (metis Suc_eq_plus1 add.commute add_eq_0_iff2 unatSuc)
  have le: "unat a * ps \<le> unat b * ps" using ab by simp
  have fin: "(unat b + 1) * ps < 2 ^ 64"
  proof (cases "unat b = 0")
    case False
    then have "1 * ps \<le> unat b * ps" by (intro mult_le_mono1) simp
    moreover have "(unat b + 1) * ps = unat b * ps + 1 * ps" by (rule add_mult_distrib)
    moreover have "(2 :: nat) ^ 64 = 2 ^ 63 + 2 ^ 63" by simp
    ultimately show ?thesis using assms(3,4) by linarith
  qed (use assms(6) in simp)
  have sum: "unat a * ps + (unat b - unat a + 1) * ps = (unat b + 1) * ps"
    using ab by (simp flip: add_mult_distrib)
  have lens: "unat a * ps < 2 ^ 64" "(unat b - unat a + 1) * ps < 2 ^ 64" using fin sum by linarith+
  have pos: "0 < (unat b - unat a + 1) * ps" using assms(5) by simp
  have st: "\<not> n \<le> unat a * ps" using le assms(3) by linarith
  let ?r = "\<lparr>cr_start = a, cr_end = b, cr_byte_start = unat a * ps, cr_byte_length = (unat b - unat a + 1) * ps\<rparr>"
  have "span_range ps (a, b) = Some ?r"
    using ne lens by (simp add: span_range_def cnt checked_mul_def lims)
  moreover have "\<exists>r'. clamp_range n ?r = Some r' \<and> cr_start r' = a \<and> cr_end r' = b"
    using clamp_range_keeps[of ?r n] st fin pos sum by simp
  ultimately show ?thesis by blast
qed

lemma range_pages_mem: "p \<in> set (range_pages r) \<longleftrightarrow> cr_start r \<le> p \<and> p \<le> cr_end r"
proof
  assume "p \<in> set (range_pages r)"
  then obtain k where k: "unat (cr_start r) \<le> k" "k \<le> unat (cr_end r)" "p = word_of_nat k" by (auto simp: range_pages_def)
  have "k < 2 ^ 32" using k(2) unsigned_less[of "cr_end r", where 'a = nat] by simp
  then have "unat p = k" unfolding k(3) by (simp add: unat_of_nat)
  then show "cr_start r \<le> p \<and> p \<le> cr_end r" using k by (simp add: word_le_nat_alt)
next
  assume "cr_start r \<le> p \<and> p \<le> cr_end r"
  then have "unat p \<in> set [unat (cr_start r)..<unat (cr_end r) + 1]" by (auto simp: word_le_nat_alt)
  then show "p \<in> set (range_pages r)" unfolding range_pages_def set_map by (intro image_eqI[of _ _ "unat p"]) simp_all
qed

lemma ranges_cover:
  assumes ps: "\<forall>p \<in> set ps. p < - 1 \<and> unat p * sz < n" and "n < 2 ^ 63" and "0 < sz" and "sz < 2 ^ 64"
  shows "p \<in> set ps \<Longrightarrow> \<exists>r \<in> set (clamp_ranges (coalesce_page_indices ps gap sz) n). p \<in> set (range_pages r)"
    and "r \<in> set (clamp_ranges (coalesce_page_indices ps gap sz) n) \<Longrightarrow> q \<in> set (range_pages r) \<Longrightarrow> unat q * sz < n"
proof -
  obtain i "is" where i: "remdups_adj (sort ps) = i # is \<or> ps = []"
    by (metis list.exhaust remdups_adj_Nil_iff sort_key_simps(1) set_empty set_sort)
  have m: "set (remdups_adj (sort ps)) = set ps" "sorted (remdups_adj (sort ps))" by simp_all
  have spans: "\<exists>r r'. span_range sz (a, b) = Some r \<and> clamp_range n r = Some r' \<and> cr_start r' = a \<and> cr_end r' = b"
    if "remdups_adj (sort ps) = i # is" "(a, b) \<in> set (coalesce_spans gap i i is)" for a b
  proof -
    have "a \<le> b" "b \<in> set ps" using coalesce_spans_ends[of i "is" i a b gap] m that by (auto simp del: remdups_adj_set)
    then show ?thesis using span_range_clamped[of a b sz n] ps assms(2-4) by blast
  qed
  {
    assume p: "p \<in> set ps"
    then have e: "remdups_adj (sort ps) = i # is" using i by auto
    have "p = i \<or> p \<in> set is" using p m(1) unfolding e by auto
    then obtain a b where ab: "(a, b) \<in> set (coalesce_spans gap i i is)" "a \<le> p" "p \<le> b"
      using coalesce_spans_cover[of i "is" i p gap] m(2) unfolding e by auto
    obtain r r' where r: "span_range sz (a, b) = Some r" "clamp_range n r = Some r'" "cr_start r' = a" "cr_end r' = b"
      using spans[OF e ab(1)] by blast
    have "r' \<in> set (clamp_ranges (coalesce_page_indices ps gap sz) n)"
      using ab(1) r(1,2) by (force simp: clamp_ranges_def coalesce_page_indices_def e set_map_filter)
    then show "\<exists>r \<in> set (clamp_ranges (coalesce_page_indices ps gap sz) n). p \<in> set (range_pages r)"
      using ab(2,3) r(3,4) by (auto simp: range_pages_mem)
  }
  {
    assume r: "r \<in> set (clamp_ranges (coalesce_page_indices ps gap sz) n)" and q: "q \<in> set (range_pages r)"
    then have e: "remdups_adj (sort ps) = i # is" using i by (auto simp: clamp_ranges_def coalesce_page_indices_def set_map_filter)
    from r obtain a b r0 where ab: "(a, b) \<in> set (coalesce_spans gap i i is)" "span_range sz (a, b) = Some r0" "clamp_range n r0 = Some r"
      by (auto simp: clamp_ranges_def coalesce_page_indices_def e set_map_filter)
    have b: "b \<in> set ps" using coalesce_spans_ends[of i "is" i a b gap] m ab(1) unfolding e by auto
    have "cr_end r = b" using spans[OF e ab(1)] ab(2,3) by auto
    then have "unat q \<le> unat b" using q by (simp add: range_pages_mem word_le_nat_alt)
    then have "unat q * sz \<le> unat b * sz" by simp
    then show "unat q * sz < n" using ps b by (meson le_less_trans)
  }
qed

section \<open>Eviction takes the oldest page\<close>

text \<open>The pages used after time \<open>t\<close>.\<close>

definition fresh :: "u64 \<Rightarrow> page_cache \<Rightarrow> u32 set" where
  "fresh t c = {p. \<exists>e. entry_at (pc_pages c) p = Some e \<and> t < pe_last_used e}"

lemma oldest_least:
  "distinct (map fst es) \<Longrightarrow> oldest es = Some (p, u) \<Longrightarrow> \<exists>e. entry_at es p = Some e \<and> pe_last_used e = u"
  "distinct (map fst es) \<Longrightarrow> oldest es = Some (p, u) \<Longrightarrow> entry_at es q = Some e \<Longrightarrow> \<not> pe_pinned e \<Longrightarrow> u \<le> pe_last_used e"
  "oldest es = None \<Longrightarrow> entry_at es q = Some e \<Longrightarrow> pe_pinned e"
proof -
  have none: "oldest es = None \<Longrightarrow> \<forall>(q, e) \<in> set es. pe_pinned e" for es
    by (induction es) (auto split: if_splits option.splits)
  have some: "oldest es = Some (p, u) \<Longrightarrow> (\<exists>e. (p, e) \<in> set es \<and> pe_last_used e = u)
      \<and> (\<forall>(q, e) \<in> set es. \<not> pe_pinned e \<longrightarrow> u \<le> pe_last_used e)" for es p u
  proof (induction es arbitrary: p u)
    case (Cons x es)
    obtain r e where x: "x = (r, e)" by (cases x)
    show ?case
    proof (cases "pe_pinned e")
      case True
      then show ?thesis using Cons x by auto
    next
      case False
      show ?thesis
      proof (cases "oldest es")
        case None
        then show ?thesis using False Cons(2) x none[OF None] by auto
      next
        case (Some y)
        obtain q t where y: "y = (q, t)" by (cases y)
        note ih = Cons(1)[OF Some[unfolded y]]
        show ?thesis
        proof (cases "pe_last_used e \<le> t")
          case True
          then have "p = r" "u = pe_last_used e" using False Cons(2) x Some y by simp_all
          then show ?thesis using ih True x by fastforce
        next
          case le: False
          then have "p = q" "u = t" using False Cons(2) x Some y by simp_all
          then show ?thesis using ih le x by auto
        qed
      qed
    qed
  qed simp
  show "distinct (map fst es) \<Longrightarrow> oldest es = Some (p, u) \<Longrightarrow> \<exists>e. entry_at es p = Some e \<and> pe_last_used e = u"
    using some[of es p u] by (auto simp: entry_at_def)
  show "distinct (map fst es) \<Longrightarrow> oldest es = Some (p, u) \<Longrightarrow> entry_at es q = Some e \<Longrightarrow> \<not> pe_pinned e \<Longrightarrow> u \<le> pe_last_used e"
    using some[of es p u] map_of_SomeD[of es q e] unfolding entry_at_def by blast
  show "oldest es = None \<Longrightarrow> entry_at es q = Some e \<Longrightarrow> pe_pinned e"
    using none[of es] map_of_SomeD[of es q e] by (auto simp: entry_at_def)
qed

lemma card_entries: "distinct (map fst es) \<Longrightarrow> card {p. entry_at es p \<noteq> None} = length es"
proof -
  have "{p. entry_at es p \<noteq> None} = set (map fst es)" by (auto simp: entry_at_def map_of_eq_None_iff image_iff)
  moreover assume "distinct (map fst es)"
  ultimately show ?thesis using distinct_card by fastforce
qed

lemma finite_fresh: "finite (fresh t c)"
  by (rule finite_subset[OF _ finite_dom_map_of[of "pc_pages c"]]) (auto simp: fresh_def entry_at_def)

text \<open>A full cache with a page that is not fresh evicts such a page.\<close>

lemma make_room_fresh:
  assumes h: "cache_holds data c" and u: "unpinned c" and room: "card (fresh t c) < pc_max c"
  obtains d where "make_room c = (d, True)" "fresh t d = fresh t c" "cache_holds data d" "unpinned d" "same_limits c d"
    "pc_clock d = pc_clock c" "length (pc_pages d) < pc_max d"
proof (cases "length (pc_pages c) < pc_max c")
  case True
  then show thesis using that[of c] h u by (simp add: make_room.simps[of c])
next
  case False
  have dist: "distinct (map fst (pc_pages c))" and len: "length (pc_pages c) = pc_max c" using h False by (auto simp: cache_holds_def)
  have "fresh t c \<noteq> {p. entry_at (pc_pages c) p \<noteq> None}" using room card_entries[OF dist] len by auto
  then obtain q e where q: "entry_at (pc_pages c) q = Some e" "\<not> t < pe_last_used e" by (auto simp: fresh_def)
  obtain p v where p: "oldest (pc_pages c) = Some (p, v)"
  proof (cases "oldest (pc_pages c)")
    case None
    then show thesis using oldest_least(3)[OF None q(1)] u q(1) unfolding unpinned_def by blast
  qed auto
  have "v \<le> pe_last_used e" using oldest_least(2)[OF dist p q(1)] u q(1) by (auto simp: unpinned_def)
  then have "p \<notin> fresh t c" using oldest_least(1)[OF dist p] q(2) by (auto simp: fresh_def)
  define d where "d = c\<lparr>pc_pages := AList.delete p (pc_pages c)\<rparr>"
  have e: "evict_one c = Some d" by (simp add: evict_one_def p d_def)
  have lt: "length (pc_pages d) < pc_max d" using evict_one_length[OF e] len by (simp add: d_def)
  have "fresh t d = fresh t c" using \<open>p \<notin> fresh t c\<close> by (auto simp: fresh_def d_def entry_at_simps)
  moreover have "make_room c = (d, True)" using False e lt by (simp add: make_room.simps[of c] make_room.simps[of d])
  ultimately show thesis using that evict_holds[OF h e] u lt by blast
qed

lemma cache_set_fresh:
  assumes h: "cache_holds data c" and u: "unpinned c" and t: "t \<le> pc_clock c" and sat: "pc_clock c \<noteq> - 1"
    and room: "card (insert p (fresh t c)) \<le> pc_max c"
  shows "fresh t (fst (cache_set p bs False c)) = insert p (fresh t c) \<and> unat (pc_clock (fst (cache_set p bs False c))) = unat (pc_clock c) + 1"
proof -
  note fin = finite_fresh[of t c]
  have "pc_clock c + 1 \<noteq> 0" using sat by (metis add_eq_0_iff2)
  then have clock: "unat (pc_clock c + 1) = unat (pc_clock c) + 1" by (metis Suc_eq_plus1 add.commute unatSuc)
  then have later: "t < pc_clock c + 1" using t by (simp add: word_less_nat_alt word_le_nat_alt)
  obtain d where d: "cache_has c p \<and> d = c \<or> make_room c = (d, True)" "fresh t d - {p} = fresh t c - {p}" "pc_clock d = pc_clock c"
    "pc_max c \<noteq> 0" "(if cache_has c p then (c, True) else make_room c) = (d, True)"
  proof (cases "cache_has c p")
    case True
    have "card (insert p (fresh t c)) \<noteq> 0" using fin by (simp add: card_eq_0_iff)
    then have "pc_max c \<noteq> 0" using room by linarith
    then show thesis using that[of c] True by simp
  next
    case False
    then have "p \<notin> fresh t c" by (auto simp: fresh_def cache_has_entry)
    then have "card (fresh t c) < pc_max c" using room fin by simp
    moreover from make_room_fresh[OF h u this] obtain d where d: "make_room c = (d, True)" "fresh t d = fresh t c" "pc_clock d = pc_clock c" .
    ultimately show thesis using False by (intro that[of d]) simp_all
  qed
  have "fst (cache_set p bs False c) = d\<lparr>pc_clock := saturating_inc (pc_clock d), pc_pages := AList.update p
         \<lparr>pe_data = bs, pe_last_used = saturating_inc (pc_clock d), pe_pinned = False\<rparr> (pc_pages d)\<rparr>"
    using d(4,5) by (simp add: cache_set_def Let_def)
  moreover have "fresh t (d\<lparr>pc_clock := saturating_inc (pc_clock d), pc_pages := AList.update p
         \<lparr>pe_data = bs, pe_last_used = saturating_inc (pc_clock d), pe_pinned = False\<rparr> (pc_pages d)\<rparr>) = insert p (fresh t d)"
    using later sat by (auto simp: fresh_def entry_at_simps saturating_inc_def d(3))
  ultimately show ?thesis using d(2,3) sat clock by (auto simp: saturating_inc_def)
qed

lemma fetch_pages_fresh:
  assumes "engine_ok data en" and "\<forall>p \<in> set ps. unat p * oo_page_size (en_options en) < length data"
    and "t \<le> pc_clock (en_cache en)" and "unat (pc_clock (en_cache en)) + length ps < 2 ^ 64 - 1"
    and "card (fresh t (en_cache en) \<union> set ps) \<le> oo_max_pages (en_options en)"
  shows "fresh t (en_cache (fold (fetch_page data) ps en)) = fresh t (en_cache en) \<union> set ps"
  using assms
proof (induction ps arbitrary: en)
  case (Cons p ps)
  let ?c = "en_cache en" let ?f = "fetch_page data p en"
  have h: "cache_holds data ?c" "unpinned ?c" "pc_max ?c = oo_max_pages (en_options en)" "pc_page_size ?c = oo_page_size (en_options en)"
    using Cons.prems(1) by (simp_all add: engine_ok_def)
  note fin = finite_fresh[of t ?c]
  have "card (insert p (fresh t ?c)) \<le> card (fresh t ?c \<union> set (p # ps))" by (rule card_mono) (use fin in auto)
  then have room: "card (insert p (fresh t ?c)) \<le> pc_max ?c" using Cons.prems(5) h(3) by simp
  have sat: "pc_clock ?c \<noteq> - 1" using Cons.prems(4) by (auto simp: unsigned_minus_1_eq_mask mask_eq_exp_minus_1)
  have c: "en_cache ?f = fst (cache_set p (page_bytes data (oo_page_size (en_options en)) p) False ?c)"
    using Cons.prems(2) by (simp add: fetch_page_def Let_def page_bytes_def)
  note s = cache_set_fresh[OF h(1,2) Cons.prems(3) sat room, of "page_bytes data (oo_page_size (en_options en)) p", folded c]
  have "t \<le> pc_clock (en_cache ?f)" using s Cons.prems(3) by (simp add: word_le_nat_alt)
  then have "fresh t (en_cache (fold (fetch_page data) ps ?f)) = fresh t (en_cache ?f) \<union> set ps"
    using Cons.prems s fetch_page_ok[OF Cons.prems(1), of p] by (intro Cons.IH) simp_all
  then show ?case using s by auto
qed simp

text \<open>Fetching ranges is fetching their pages.\<close>

lemma fetch_ranges_cache:
  "en_cache (fold (fetch_range data) rs en) = en_cache (fold (fetch_page data) (concat (map range_pages rs)) en)"
proof -
  define g where "g ps p c = (if length data \<le> unat p * ps then c
      else fst (cache_set p (seg data (unat p * ps) (min ((unat p + 1) * ps) (length data))) False c))" for ps :: usize and p c
  have pages: "en_cache (fold (fetch_page data) ps e) = fold (g (oo_page_size (en_options e))) ps (en_cache e)" for ps e
  proof (induction ps arbitrary: e)
    case (Cons p ps)
    have "en_cache (fetch_page data p e) = g (oo_page_size (en_options e)) p (en_cache e)"
      by (simp add: fetch_page_def Let_def g_def)
    then show ?case using Cons.IH[of "fetch_page data p e"] by (simp add: keep_options)
  qed simp
  have "en_cache (fold (fetch_range data) rs e) = fold (g (oo_page_size (en_options e))) (concat (map range_pages rs)) (en_cache e)" for e
  proof (induction rs arbitrary: e)
    case (Cons r rs)
    have "en_cache (fetch_range data r e) = fold (g (oo_page_size (en_options e))) (range_pages r) (en_cache e)"
      by (simp add: fetch_range_def pages begin_range_def)
    then show ?case using Cons.IH[of "fetch_range data r e"] by (simp add: keep_options)
  qed simp
  then show ?thesis by (simp only: pages)
qed

section \<open>Viewports\<close>

lemma set_pages_of_records:
  "set (pages_of_records data ts sz is) = {word_of_nat (off div sz) | off i. i \<in> set is \<and> prefetch_row_offset data ts i = Some off}"
  by (auto simp: pages_of_records_def set_map_filter)

lemma cache_has_pinning: "cache_has (unpin_all (pin_pages ps c)) p = cache_has c p"
proof -
  have "cache_has (unpin_all d) p = cache_has d p" for d by (simp add: cache_has_entry unpin_all_def entry_at_simps)
  moreover have "cache_has (pin_pages ps c) p = cache_has c p" by (simp add: cache_has_entry pin_pages_def entry_at_simps)
  ultimately show ?thesis by simp
qed

lemma fetch_needed_caches:
  assumes ok: "engine_ok data en" and cold: "\<forall>p \<in> set ps. \<not> cache_has (en_cache en) p" "en_in_flight en = {}"
    and pages: "\<forall>p \<in> set ps. p < - 1 \<and> unat p * oo_page_size (en_options en) < length data"
    and sizes: "length data < 2 ^ 63" "0 < oo_page_size (en_options en)" "oo_page_size (en_options en) < 2 ^ 64"
    and fetched: "qs = concat (map range_pages (clamp_ranges
        (coalesce_page_indices ps (oo_gap (en_options en)) (oo_page_size (en_options en))) (length data)))"
    and room: "length qs \<le> oo_max_pages (en_options en)" "unat (pc_clock (en_cache en)) + length qs < 2 ^ 64 - 1"
  shows "\<forall>p \<in> set ps. cache_has (en_cache (fetch_needed data ps en)) p"
proof
  fix p assume p: "p \<in> set ps"
  let ?t = "pc_clock (en_cache en)"
  have needed: "needed_pages en ps = ps" using cold by (simp add: needed_pages_def filter_id_conv)
  have none: "fresh ?t (en_cache en) = {}" using ok by (fastforce simp: fresh_def engine_ok_def cache_holds_def)
  have inside: "\<forall>q \<in> set qs. unat q * oo_page_size (en_options en) < length data"
    using ranges_cover(2)[OF pages sizes(1-3)] by (auto simp: fetched)
  have "card (set qs) \<le> length qs" by (rule card_length)
  then have "fresh ?t (en_cache (fold (fetch_page data) qs en)) = fresh ?t (en_cache en) \<union> set qs"
    using ok inside room none by (intro fetch_pages_fresh) simp_all
  moreover have "p \<in> set qs" using ranges_cover(1)[OF pages sizes(1-3) p] by (auto simp: fetched)
  ultimately have "p \<in> fresh ?t (en_cache (fold (fetch_page data) qs en))" by simp
  then show "cache_has (en_cache (fetch_needed data ps en)) p"
    by (auto simp: fetch_needed_def needed fetch_ranges_cache fetched fresh_def cache_has_entry)
qed



text \<open>
  A page of the viewport that is already cached is not protected: the pages are pinned only after the others
  were fetched, and unpinned at once.  Here the second page of the last viewport evicts the first one.
\<close>

definition three_records :: "u8 list" where
  "three_records = replicate 12 0 @ concat (map (\<lambda>off. [0, 0] @ u64_le off) [9, 1, 5])"

lemma viewport_loses_page:
  "(let vp = prefetch_viewport three_records 12 3; en = vp 0 0 (vp 1 1 (new_engine small_pages 42)) in
    cache_has (en_cache en) 0 \<and> pages_of_records three_records 12 4 [1..<3] = [0, 1] \<and> \<not> cache_has (en_cache (vp 1 2 en)) 0)"
  by code_simp

section \<open>Waiting for the eager load\<close>

definition load_inv :: "prefetch_engine \<Rightarrow> bool" where
  "load_inv en \<longleftrightarrow> (\<not> en_started en \<longrightarrow> \<not> en_complete en \<and> en_load en = [])
     \<and> (en_started en \<and> \<not> en_cancelled en \<longrightarrow> en_complete en \<or> en_load en \<noteq> [] \<and> last (en_load en) = LoadDone)"

lemma start_eager_inv: "load_inv en \<Longrightarrow> load_inv (start_eager data ts en)"
  by (auto simp: start_eager_def load_inv_def eager_load_def Let_def)

lemma same_load_inv:
  "en_started en' = en_started en \<Longrightarrow> en_complete en' = en_complete en \<Longrightarrow> en_load en' = en_load en \<Longrightarrow> en_cancelled en' = en_cancelled en \<Longrightarrow>
   load_inv en' = load_inv en"
  by (simp add: load_inv_def)

lemma fetch_keeps:
  "en_complete (fetch_page data p en) = en_complete en" "en_load (fetch_page data p en) = en_load en"
  "en_cancelled (fetch_page data p en) = en_cancelled en" "en_complete (begin_range r en) = en_complete en"
  "en_load (begin_range r en) = en_load en" "en_cancelled (begin_range r en) = en_cancelled en" "en_started (begin_range r en) = en_started en"
  by (simp_all add: fetch_page_def begin_range_def Let_def)

lemma fetch_page_inv: "load_inv (fetch_page data p en) = load_inv en"
  by (rule same_load_inv) (simp_all add: fetch_keeps fetch_page_started)

lemma begin_range_inv: "load_inv (begin_range r en) = load_inv en"
  by (rule same_load_inv) (simp_all add: fetch_keeps)

lemma fetch_needed_inv: "load_inv (fetch_needed data ps en) = load_inv en"
proof -
  have "load_inv (fold (fetch_page data) qs e) = load_inv e" for qs e
    by (induction qs arbitrary: e) (simp_all add: fetch_page_inv)
  then have "load_inv (fetch_range data r e) = load_inv e" for r e
    by (simp add: fetch_range_def begin_range_inv)
  then have "load_inv (fold (fetch_range data) rs e) = load_inv e" for rs e
    by (induction rs arbitrary: e) simp_all
  then show ?thesis by (simp add: fetch_needed_def)
qed

lemma load_step_inv:
  assumes "load_inv en"
  shows "load_inv (load_step data en)"
proof (cases "en_load en")
  case Nil
  then show ?thesis using assms by (simp add: load_step_def)
next
  case (Cons s ls)
  show ?thesis
  proof (cases "s = LoadDone \<or> en_cancelled en")
    case True
    then show ?thesis using assms Cons by (cases s) (simp_all add: load_step_def load_inv_def)
  next
    case False
    have "load_inv (en\<lparr>en_load := ls\<rparr>)" using False assms Cons by (cases "ls = []") (simp_all add: load_inv_def)
    then show ?thesis using False Cons
      by (cases s) (simp_all add: load_step_def Let_def fetch_page_inv begin_range_inv)
  qed
qed

lemma on_access_inv:
  assumes "load_inv en"
  shows "load_inv (on_access data ts rc i en)"
proof -
  have up: "load_inv (maybe_upgrade data ts e)" if "load_inv e" for e
    using that start_eager_inv[of "e\<lparr>en_strategy := Eager\<rparr>" data ts] by (simp add: maybe_upgrade_def load_inv_def)
  have touch: "load_inv (touch_page p e) = load_inv e" for p e by (rule same_load_inv) (simp_all add: touch_page_def)
  have spec: "load_inv (speculative_prefetch data ts rc e) = load_inv e" for e
    by (simp add: speculative_prefetch_def fetch_needed_inv)
  have obs: "load_inv (en\<lparr>en_detector := d\<rparr>)" for d using assms by (simp add: load_inv_def)
  show ?thesis unfolding on_access_def Let_def using assms by (auto simp: up[OF obs] touch spec split: option.split)
qed

lemma run_load_inv: "prefetch_run data ts rc opts en \<Longrightarrow> load_inv en"
proof (induction rule: prefetch_run.induct)
  case pf_open
  show ?case by (rule start_eager_inv) (simp add: new_engine_def load_inv_def)
next
  case (pf_next en en')
  have vp: "load_inv (prefetch_viewport data ts rc s e en)" for s e
    using pf_next(3) by (auto simp: prefetch_viewport_def Let_def same_load_inv[of "_\<lparr>en_cache := _\<rparr>"] fetch_needed_inv)
  from pf_next(2) show ?case
    by cases (use pf_next(3) vp on_access_inv load_step_inv in
      \<open>simp_all add: load_inv_def pause_prefetch_def resume_prefetch_def drop_engine_def\<close>)
qed

lemma load_step_shorter: "en_load en \<noteq> [] \<Longrightarrow> length (en_load (load_step data en)) < length (en_load en)"
  by (cases "en_load en"; cases "hd (en_load en)") (auto simp: load_step_def Let_def fetch_keeps)

lemma load_step_flags: "en_started (load_step data en) = en_started en" "en_cancelled (load_step data en) = en_cancelled en"
  by (auto simp: load_step_def Let_def fetch_keeps fetch_page_started split: list.split load_stage.split)

lemma warmup_returns:
  "load_inv en \<Longrightarrow> en_started en \<or> en_cancelled en \<Longrightarrow> \<exists>en'. warmup data en = Some en'"
proof (induction "length (en_load en)" arbitrary: en rule: less_induct)
  case less
  show ?case
  proof (cases "en_complete en \<or> en_cancelled en")
    case True
    then show ?thesis by (subst warmup.simps) simp
  next
    case False
    then have "en_load en \<noteq> []" using less.prems by (auto simp: load_inv_def)
    then obtain en' where "warmup data (load_step data en) = Some en'"
      using less.hyps[OF load_step_shorter load_step_inv[OF less.prems(1)]] less.prems(2) by (auto simp: load_step_flags)
    then show ?thesis using False by (subst warmup.simps) simp
  qed
qed

lemma warmup_hangs:
  assumes "\<not> en_complete en" and "\<not> en_cancelled en" and "en_load en = []"
  shows "warmup data en = None"
proof -
  let ?P = "\<lambda>d e e'. en_complete e \<or> en_cancelled e \<or> en_load e \<noteq> []"
  have "?P d e e'" if w: "warmup d e = Some e'" for d e e'
  proof (rule warmup.raw_induct[where P = ?P, OF _ w])
    fix f d e e'
    assume ih: "\<And>d e e'. f d e = Some e' \<Longrightarrow> ?P d e e'"
      and step: "(if en_complete e \<or> en_cancelled e then Some e else f d (load_step d e)) = Some e'"
    show "?P d e e'"
    proof (rule ccontr)
      assume idle: "\<not> ?P d e e'"
      then have "load_step d e = e" by (simp add: load_step_def)
      then have "f d e = Some e'" using step idle by simp
      then show False using ih idle by blast
    qed
  qed
  then show ?thesis using assms by (meson not_Some_eq)
qed



end
