(* ===== verification/Spec2Isabelle.thy ===== *)
theory Spec2Isabelle
  imports Compile_Decode Writer_Compiler Wal_Seal Reader_Safety Row_Files Layout_Departures Stream_Departures
    Segment_Answers Column_Sums Prefetch_Viewport
begin

text \<open>
  The NXS data format: the Rust implementation under \<^verbatim>\<open>rust/src\<close>.

  NXS has a text form (\<^verbatim>\<open>.nxs\<close>) and a binary form (\<^verbatim>\<open>.nxb\<close>).  A source text goes through the lexer and
  the parser and is then compiled: to a row file of v1.2 objects, to a compact v1.3 row file, or to a
  columnar or PAX file.  A program may also write records without the text form, through the writer or
  through the write-ahead log.  Files are read back by the minimal decoder, which decodes the first
  record, or by the query reader, which looks single values up in every layout.  Files that are still being written
  are read by the stream readers, and directories of sealed logs by the segment reader.  The query reader may
  load pages ahead of the records it is asked for.

  \<^bold>\<open>Conventions.\<close>  A fallible function returns \<open>'a res\<close>: \<open>Ok\<close>, \<open>Err\<close> with the error of the source, or \<open>Panic\<close>
  for an index or slice out of range, an \<open>unwrap\<close> of nothing, an arithmetic \<open>expect\<close>.  A buffer is a list
  of bytes (\<open>u8 list\<close>); \<open>fits\<close> says it is shorter than \<open>2 ^ 63\<close>, which every Rust slice is.  \<open>usize\<close> is a
  natural number; an unchecked addition on a value from outside is \<open>wadd\<close>, which wraps at \<open>2 ^ 64\<close>, and a
  checked one is \<open>checked_add\<close>.  Values that the format stores are machine words.  Floats are their
  bit patterns (\<open>Rust_Float\<close> parses, compares and adds them by the IEEE rules).  The Unicode tables of the
  lexer, the vector unit of the processor and the order of a hash map are parameters.  Offsets in memory are positions in the buffer, so
  state that the source mutates in place is passed on and returned.

  \<^bold>\<open>Theories.\<close>  First the foundations:
  \<^item> \<open>Nxs_Error\<close>: \<^verbatim>\<open>error.rs\<close> and \<^verbatim>\<open>consts.rs\<close>.  \<open>Rust_Prelude\<close>, \<open>Rust_Text\<close>, \<open>Rust_Float\<close>: slices, checked and
    wrapping arithmetic, little-endian numbers, UTF-8, decimal numbers and binary64 -- what the source
    uses of the standard library -- with the rules that carry the later proofs.
  \<^item> \<open>Wire\<close>: the contracts \<open>fixed_codec\<close> (fields and arrays of fixed width) and \<open>stream_codec\<close> (fields read one
    after the other) with an interpretation for every such field of the format; the presence bitmask;
    the schema hash.

  From text to files:
  \<^item> \<open>Lexer\<close>, \<open>Parser\<close>: \<^verbatim>\<open>lexer.rs\<close>, \<^verbatim>\<open>parser.rs\<close>.  Literals are lexed to what they were written for, calendar dates
    are right; the parser accepts exactly the token sequences of an inductive grammar, with the depth limit of the source.
  \<^item> \<open>Compiler\<close>: \<^verbatim>\<open>compiler.rs\<close>, the dictionary, macros, objects, lists and the v1.2 file.  The dictionary invariant.
  \<^item> \<open>Writer\<close>: \<^verbatim>\<open>writer.rs\<close>.  \<open>Writer_Records\<close>: one written record, its back-patched table and its values.
    \<open>Writer_Compiler\<close>: writer and compiler give the same bytes for all values but nulls and empty lists.
  \<^item> \<open>Compact_Schema\<close>, \<open>Compact_Cells\<close>, \<open>Compact_Record\<close>: \<^verbatim>\<open>compact.rs\<close>, in its order: options, promotion and schema;
    delta tail, cells and pool; record frames and slot readers.  Round trips of schema, tail and cells.
  \<^item> \<open>Columns\<close>, \<open>Layouts\<close>: \<^verbatim>\<open>layout.rs\<close> and the entry points of \<^verbatim>\<open>lib.rs\<close>: cells, columns, records from fields, the
    columnar, PAX and row emitters, pragmas.
  \<^item> \<open>Wal\<close>: \<^verbatim>\<open>wal.rs\<close>.  \<open>Wal_Recovery\<close> refines the log to durable and buffered spans under appends, flushes and
    crashes; \<open>Wal_Seal\<close> follows the records into the sealed file.
  \<^item> \<open>Pax_Stream\<close>: \<^verbatim>\<open>pax_stream.rs\<close>.  \<open>Pax_Pages\<close>, \<open>Pax_Stream_Files\<close>: the stream writer gives the bytes of the emitter.

  From files to values:
  \<^item> \<open>Decoder\<close>: \<^verbatim>\<open>decoder.rs\<close>.  \<open>Compile_Decode\<close>: compiled files decode to their fields; \<open>decode\<close> never panics.
  \<^item> \<open>Record_Slots\<close>, \<open>Wire_Order\<close>, \<open>Record_Frames\<close>, \<open>Record_Roundtrip\<close>: the slot readers of \<^verbatim>\<open>compact.rs\<close> against its record
    writer, for sparse and dense frames, packed booleans and the wire order.
  \<^item> \<open>Query\<close>, \<open>Filters\<close>: \<^verbatim>\<open>query.rs\<close> and \<^verbatim>\<open>col_reduce.rs\<close>: opening a file, getters, paths, predicates, the record
    iterator, sums.  \<open>Row_Queries\<close>: its slot reader is that of the compact encoding.  \<open>Reader_Safety\<close>:
    opening never panics.  \<open>Row_Files\<close>: written records are read back from the sealed file.
  \<^item> \<open>Stream_Reader\<close>: \<^verbatim>\<open>stream_reader.rs\<close>.  \<open>Frames\<close> is the contract of a scan over length-prefixed frames, kept by row
    streams and PAX streams; \<open>Stream_Files\<close> and \<open>Pax_Stream_Reading\<close> read a stream that was cut anywhere;
    \<open>Stream_Departures\<close> holds what the streams get wrong.
  \<^item> \<open>Segment_Reader\<close>: \<^verbatim>\<open>segment_reader.rs\<close>.  \<open>Span_Files\<close>, \<open>Segment_Files\<close>, \<open>Segment_Answers\<close>: its queries answer from the spans
    that were appended to the logs.
  \<^item> \<open>Column_Tables\<close>: the contract \<open>column_source\<close> of a layout that holds a table; getters, predicates and
    queries are proved once in it.  \<open>Layout_Files\<close>, \<open>Columnar_Files\<close>, \<open>Pax_Writer\<close>, \<open>Pax_Files\<close> show that both layouts
    keep it; \<open>Layout_Queries\<close> draws the conclusions; \<open>Record_Tables\<close> follows the record blocks of a source
    file into the table; \<open>Layout_Departures\<close> holds what the layouts do not agree on.  \<open>Column_Sums\<close>: sums with and
    without vector instructions.
  \<^item> \<open>Prefetch\<close>: \<^verbatim>\<open>prefetch/mod.rs\<close>, \<^verbatim>\<open>prefetch/pattern.rs\<close>, \<^verbatim>\<open>column_prefetch.rs\<close> and the hooks of \<^verbatim>\<open>query.rs\<close>.  \<open>Prefetch_Cache\<close>: the page
    cache is a part of the file after any run.  \<open>Prefetch_Viewport\<close>: what a viewport brings into it, and when \<open>warmup\<close> returns.

  \<^bold>\<open>Loops.\<close>  Every loop of the source ends by a measure -- the bytes, tokens or records left, the range of a binary
  search, the pages of the cache, the depth limits of the parser and the decoder -- with two exceptions, each a
  \<open>partial_function\<close>.  The page loop of the PAX emitter returns below \<open>2 ^ 32\<close> records and not above; the
  wait for the eager load returns if and only if a load was started or the engine is dropped.  No fuel is used.

  \<^bold>\<open>Limits.\<close>  Round trips carry the limits that the code has without checking them: objects below 64 KiB for the 16-bit
  offsets, fewer than \<open>2 ^ 16\<close> anchors in a delta tail, no value that begins with the magic number of an object or a
  list where the minimal decoder reads it.  Each property names its own; where such a limit is crossed in silence,
  a lemma shows what happens.

  \<^bold>\<open>Not modelled.\<close>  The converters (\<^verbatim>\<open>convert\<close>) and the file size report (\<^verbatim>\<open>stats.rs\<close>) sit at the edge: the first go through
  the crates csv, serde_json and quick-xml, which are not under \<^verbatim>\<open>rust/src\<close>, the second only prints sizes.  The schema
  registry, the WebAssembly and Arrow bindings, the command line and the benchmarks are glue around such packages.
  Threads are modelled as far as their steps interleave: an operation of a reader is one step, and the order in which
  it takes its mutexes is left out.
\<close>

section \<open>From a source text to the answers of the reader\<close>

text \<open>
  C1: The whole way through the columnar and the PAX layout.  When a source text is compiled and its options
  or its pragmas ask for one of the two layouts, the file opens, has a record for every top-level block
  (at most \<open>2 ^ 30\<close>), and every lookup of a record under a name -- numeric, flag or string -- answers from
  the last value that block has under the name.  The blocks must have at least one name between them (a columnar
  file without names is written but never opens), and every name be valid UTF-8 without a zero byte.
\<close>

theorem source_to_answers:
  assumes "compile_source_with_opts u source opts = Some (Ok data)"
    and "rbind (tokenize u source) parse_file_with_pragmas = Ok (fs, file_opts)"
    and "co_layout (merge_options opts file_opts) \<noteq> LRow"
    and "records_from_fields fs = Ok (keys, rows)" and "keys_ok keys" and "keys \<noteq> []"
    and "length data < 2 ^ 63" and "length fs \<le> 2 ^ 30"
  shows "\<exists>r. reader_new data = Ok r \<and> r_record_count r = length fs
    \<and> (\<forall>i < length fs. \<forall>key.
         get_i64 r i key = Ok (field_lookup keys rows (fs ! i) cell_word key)
       \<and> get_f64 r i key = Ok (field_lookup keys rows (fs ! i) cell_word key)
       \<and> get_bool r i key = Ok (field_lookup keys rows (fs ! i) cell_flag key)
       \<and> get_str r i key = Ok (field_lookup keys rows (fs ! i) cell_text key))"
proof (rule compiled_layout_reads)
  show "compile_fields fs (merge_options opts file_opts) = Some (Ok data)"
    using assms(1,2) by (simp add: compile_source_with_opts_def)
qed (use assms in \<open>simp_all add: lims\<close>)

definition sample_source :: "uchar list" where
  "sample_source = map ch ''@layout columnar a { n: =7 s: \"a\" } b { n: =1 n: =8 } c { s: \"b\" }''"

theorem source_to_answers_witness:
  "\<forall>u. \<exists>data r. compile_source_with_opts u sample_source default_compile_options = Some (Ok data) \<and> reader_new data = Ok r
     \<and> get_i64 r 1 (bstr ''n'') = Ok (Some 8) \<and> get_str r 2 (bstr ''s'') = Ok (Some (bstr ''b''))"
proof
  fix u :: unicode
  let ?opts = "default_compile_options\<lparr>co_layout := LColumnar\<rparr>"
  have p: "rbind (tokenize u sample_source) parse_file_with_pragmas = Ok (sample_blocks, ?opts)" by code_simp
  have m: "merge_options default_compile_options ?opts = ?opts" by code_simp
  obtain data where d: "finish_columnar sample_keys sample_rows = Ok data" "fits data" by (rule sample_columnar)
  then have c: "compile_source_with_opts u sample_source default_compile_options = Some (Ok data)"
    using p m sample_blocks_table by (simp add: compile_source_with_opts_def compile_fields_def)
  have n: "length sample_blocks = 3" "length data < 2 ^ 63" using d(2) by (code_simp, simp add: lims)
  have l: "field_lookup sample_keys sample_rows (sample_blocks ! 1) cell_word (bstr ''n'') = Some 8"
    "field_lookup sample_keys sample_rows (sample_blocks ! 2) cell_text (bstr ''s'') = Some (bstr ''b'')" by code_simp+
  have "co_layout (merge_options default_compile_options ?opts) \<noteq> LRow" unfolding m by simp
  from source_to_answers[OF c p this sample_blocks_table sample_table(1,2) n(2)] n(1) obtain r where
    "reader_new data = Ok r" "\<forall>i < 3. \<forall>key. get_i64 r i key = Ok (field_lookup sample_keys sample_rows (sample_blocks ! i) cell_word key)
       \<and> get_str r i key = Ok (field_lookup sample_keys sample_rows (sample_blocks ! i) cell_text key)" by auto
  then show "\<exists>data r. compile_source_with_opts u sample_source default_compile_options = Some (Ok data) \<and> reader_new data = Ok r
     \<and> get_i64 r 1 (bstr ''n'') = Ok (Some 8) \<and> get_str r 2 (bstr ''s'') = Ok (Some (bstr ''b''))"
    using c l by auto
qed

end
